(* ===== verification/C_Prelude.thy ===== *)
theory C_Prelude
  imports Main "HOL-Library.Word" "HOL-Library.Multiset"
begin

text \<open>
  Shared vocabulary of the development: the machine integer types of the
  LP64 data model the tools are compiled for, the outcomes a C computation
  can have besides returning a value, sequencing of such computations, and
  the byte view of memory that \<^verbatim>\<open>memcmp\<close> and the hash function read.
  The collections \<open>res_simps\<close> and \<open>ok_rules\<close> carry the proofs of the
  component theories.
\<close>

unbundle bit_operations_syntax

named_theorems res_simps \<open>rewrite rules for sequencing of fallible computations\<close>
named_theorems ok_rules \<open>introduction rules for the success judgement\<close>

subsection \<open>Machine integers\<close>

type_synonym u8 = "8 word"
type_synonym u32 = "32 word"
type_synonym u64 = "64 word"
type_synonym i32 = "32 word"

text \<open>An address; the null pointer is address \<open>0\<close>.\<close>

type_synonym ptr = "64 word"

text \<open>The values a C \<^verbatim>\<open>int\<close> can hold.\<close>

definition int_range :: "int \<Rightarrow> bool" where
  "int_range z \<longleftrightarrow> - (2 ^ 31) \<le> z \<and> z < 2 ^ 31"

subsection \<open>Outcomes of a computation\<close>

text \<open>
  \<open>Exit c\<close> is a call of \<^verbatim>\<open>exit(c)\<close> or a return of \<open>c\<close> from \<^verbatim>\<open>main\<close>;
  \<open>Diverges\<close> is a loop that never leaves, \<open>Uncaught\<close> a C++ exception that nobody
  catches; the other constructors are the undefined behaviours the modelled
  code can run into.
\<close>

datatype cerr =
    NullDeref
  | OutOfBounds
  | UseAfterFree
  | Uninitialised
  | DivByZero
  | IntOverflow
  | Diverges
  | Exit int
  | Uncaught

type_synonym 'a res = "cerr + 'a"

fun bindR :: "'a res \<Rightarrow> ('a \<Rightarrow> 'b res) \<Rightarrow> 'b res" where
  "bindR (Inl e) f = Inl e"
| "bindR (Inr x) f = f x"

text \<open>\<open>guardR c e\<close> continues when \<open>c\<close> holds and fails with \<open>e\<close> otherwise.\<close>

definition guardR :: "bool \<Rightarrow> cerr \<Rightarrow> unit res" where
  "guardR c e = (if c then Inr () else Inl e)"

text \<open>A loop body run over a list of values, stopping at the first error.\<close>

fun foldR :: "('a \<Rightarrow> 's \<Rightarrow> 's res) \<Rightarrow> 'a list \<Rightarrow> 's \<Rightarrow> 's res" where
  "foldR f [] s = Inr s"
| "foldR f (x # xs) s = bindR (f x s) (foldR f xs)"

text \<open>Array accesses with their bounds check.\<close>

definition array_get :: "'a list \<Rightarrow> nat \<Rightarrow> 'a res" where
  "array_get xs i = (if i < length xs then Inr (xs ! i) else Inl OutOfBounds)"

definition array_set :: "'a list \<Rightarrow> nat \<Rightarrow> 'a \<Rightarrow> 'a list res" where
  "array_set xs i v = (if i < length xs then Inr (xs[i := v]) else Inl OutOfBounds)"

text \<open>\<open>ok r P\<close>: the computation returns, and its value satisfies \<open>P\<close>.\<close>

definition ok :: "'a res \<Rightarrow> ('a \<Rightarrow> bool) \<Rightarrow> bool" where
  "ok r P \<longleftrightarrow> (\<exists>x. r = Inr x \<and> P x)"

lemma bindR_assoc [simp]: "bindR (bindR r f) g = bindR r (\<lambda>x. bindR (f x) g)"
  by (cases r) auto

lemma bindR_Inr_right [simp]: "bindR r Inr = r"
  by (cases r) auto

lemma bindR_cong [fundef_cong]:
  "r = r' \<Longrightarrow> (\<And>x. r' = Inr x \<Longrightarrow> f x = f' x) \<Longrightarrow> bindR r f = bindR r' f'"
  by (cases r') auto

text \<open>For evaluation: leave a continuation alone until its argument is known.\<close>

lemma bindR_weak_cong: "r = r' \<Longrightarrow> bindR r f = bindR r' f"
  by simp

lemma bindR_eq_Inr: "bindR r f = Inr y \<longleftrightarrow> (\<exists>x. r = Inr x \<and> f x = Inr y)"
  by (cases r) auto

lemma guardR_True [simp, res_simps]: "c \<Longrightarrow> guardR c e = Inr ()"
  by (simp add: guardR_def)

lemma guardR_False [res_simps]: "\<not> c \<Longrightarrow> guardR c e = Inl e"
  by (simp add: guardR_def)

lemma array_get_ok [simp, res_simps]: "i < length xs \<Longrightarrow> array_get xs i = Inr (xs ! i)"
  by (simp add: array_get_def)

lemma array_get_Inr: "array_get xs i = Inr v \<longleftrightarrow> i < length xs \<and> v = xs ! i"
  by (auto simp: array_get_def)

lemma array_set_ok [simp, res_simps]: "i < length xs \<Longrightarrow> array_set xs i v = Inr (xs[i := v])"
  by (simp add: array_set_def)

lemma ok_Inr [simp, ok_rules]: "ok (Inr x) P \<longleftrightarrow> P x"
  by (simp add: ok_def)

lemma ok_Inl [simp]: "\<not> ok (Inl e) P"
  by (simp add: ok_def)

lemma ok_bindR: "ok r Q \<Longrightarrow> (\<And>x. Q x \<Longrightarrow> ok (f x) P) \<Longrightarrow> ok (bindR r f) P"
  by (cases r) auto

lemma ok_bindR_eq: "ok (bindR r f) P \<longleftrightarrow> ok r (\<lambda>x. ok (f x) P)"
  by (cases r) auto

lemma ok_mono: "ok r P \<Longrightarrow> (\<And>x. P x \<Longrightarrow> Q x) \<Longrightarrow> ok r Q"
  by (cases r) auto

lemma okE: "ok r P \<Longrightarrow> (\<And>x. r = Inr x \<Longrightarrow> P x \<Longrightarrow> thesis) \<Longrightarrow> thesis"
  by (auto simp: ok_def)

lemma ok_conj: "ok r P \<Longrightarrow> ok r Q \<Longrightarrow> ok r (\<lambda>x. P x \<and> Q x)"
  by (auto simp: ok_def)

lemma foldR_append: "foldR f (xs @ ys) s = bindR (foldR f xs s) (foldR f ys)"
  by (induction xs arbitrary: s) (simp_all cong: bindR_cong)

lemma foldR_cong: "xs = ys \<Longrightarrow> (\<And>x s. x \<in> set ys \<Longrightarrow> f x s = g x s) \<Longrightarrow> foldR f xs s = foldR g ys s"
  by (induction ys arbitrary: xs s) (auto intro!: bindR_cong)

lemma foldR_map: "foldR f (map g xs) s = foldR (\<lambda>x. f (g x)) xs s"
  by (induction xs arbitrary: s) (simp_all cong: bindR_cong)

text \<open>The invariant rule for \<open>foldR\<close>: an invariant indexed by what was processed.\<close>

lemma ok_foldR:
  assumes "I [] s"
    and "\<And>done x rest s. xs = done @ x # rest \<Longrightarrow> I done s \<Longrightarrow> ok (f x s) (I (done @ [x]))"
  shows "ok (foldR f xs s) (I xs)"
proof -
  have "xs = done @ rest \<Longrightarrow> I done s \<Longrightarrow> ok (foldR f rest s) (I xs)" for "done" rest s
  proof (induction rest arbitrary: "done" s)
    case Nil
    then show ?case by simp
  next
    case (Cons x rest)
    have "ok (f x s) (I (done @ [x]))"
      using assms(2) Cons.prems by blast
    moreover have "ok (foldR f rest s') (I xs)" if "I (done @ [x]) s'" for s'
      using Cons.IH [of "done @ [x]" s'] Cons.prems that by simp
    ultimately show ?case
      by (auto intro: ok_bindR)
  qed
  from this [of "[]" xs s] show ?thesis using assms(1) by simp
qed

text \<open>The same for a counting loop.\<close>

lemma ok_foldR_upt:
  assumes "I a s" and "a \<le> b"
    and "\<And>i s. a \<le> i \<Longrightarrow> i < b \<Longrightarrow> I i s \<Longrightarrow> ok (f i s) (I (Suc i))"
  shows "ok (foldR f [a..<b] s) (I b)"
  using assms
proof (induction "b - a" arbitrary: a s)
  case (Suc n)
  then have "[a..<b] = a # [Suc a..<b]"
    by (simp add: upt_conv_Cons)
  moreover have "ok (f a s) (I (Suc a))"
    using Suc.prems Suc.hyps(2) by simp
  moreover have "ok (foldR f [Suc a..<b] s') (I b)" if "I (Suc a) s'" for s'
    using Suc.hyps that Suc.prems by simp
  ultimately show ?case
    by (auto intro: ok_bindR)
qed simp

subsection \<open>Bytes in memory\<close>

text \<open>
  Memory that the modelled code only reads: a byte at every address.
  \<open>load_bytes mem p n\<close> is the \<open>n\<close> bytes at \<open>p\<close>.
\<close>

type_synonym memory = "ptr \<Rightarrow> u8"

definition load_bytes :: "memory \<Rightarrow> ptr \<Rightarrow> nat \<Rightarrow> u8 list" where
  "load_bytes mem p n = map (\<lambda>i. mem (p + of_nat i)) [0..<n]"

lemma length_load_bytes [simp]: "length (load_bytes mem p n) = n"
  by (simp add: load_bytes_def)

text \<open>Little-endian value of a byte string, and the bytes of a 64-bit value.\<close>

fun le_value :: "u8 list \<Rightarrow> u64" where
  "le_value [] = 0"
| "le_value (b # bs) = ucast b OR push_bit 8 (le_value bs)"

definition le_bytes64 :: "u64 \<Rightarrow> u8 list" where
  "le_bytes64 w = map (\<lambda>i. ucast (drop_bit (8 * i) w)) [0..<8]"

lemma length_le_bytes64 [simp]: "length (le_bytes64 w) = 8"
  by (simp add: le_bytes64_def)

end
