(* ===== verification/Hash_Data.thy ===== *)
theory Hash_Data
  imports C_Prelude "HOL-Library.Log_Nat"
begin

text \<open>
  Two pure ingredients of the hash map of \<^verbatim>\<open>map.c\<close>: the hash function over a
  byte string, and the test that decides when the table is grown. The test is
  written in single-precision arithmetic (\<^verbatim>\<open>0.75f * capacity\<close>), so the rounding of
  an integer to 24 significant bits is modelled exactly.
\<close>

subsection \<open>The hash function\<close>

text \<open>The eight bytes at \<^verbatim>\<open>data\<close> as the loop of \<^verbatim>\<open>hash_data\<close> assembles them.\<close>

definition hash_block :: "u8 list \<Rightarrow> u64" where
  "hash_block d =
     push_bit 0 (ucast (d ! 0)) OR push_bit 8 (ucast (d ! 1)) OR
     push_bit 16 (ucast (d ! 2)) OR push_bit 24 (ucast (d ! 3)) OR
     push_bit 32 (ucast (d ! 4)) OR push_bit 40 (ucast (d ! 5)) OR
     push_bit 48 (ucast (d ! 6)) OR push_bit 56 (ucast (d ! 7))"

fun hash_blocks :: "nat \<Rightarrow> u8 list \<Rightarrow> u64 \<Rightarrow> u64 \<times> u8 list" where
  "hash_blocks 0 d h = (h, d)"
| "hash_blocks (Suc n) d h =
     hash_blocks n (drop 8 d) ((h XOR hash_block d) * 0xbf58476d1ce4e5b9)"

text \<open>
  The \<^verbatim>\<open>switch (size % 8)\<close> with its fall-through: case \<open>r\<close> runs every statement
  for the remaining bytes \<open>r - 1, \<dots>, 0\<close>; there is no case 0.
\<close>

definition hash_tail :: "nat \<Rightarrow> u8 list \<Rightarrow> u64 \<Rightarrow> u64" where
  "hash_tail sz d h =
     (let r = sz mod 8;
          byte = (\<lambda>i. if i < r then push_bit (8 * (i + 1)) (ucast (d ! i)) else 0);
          l = (of_nat sz AND 0xff) OR byte 6 OR byte 5 OR byte 4 OR byte 3 OR byte 2 OR byte 1
              OR byte 0
      in if r = 0 then h else (h XOR l) * 0xd6e8feb86659fd93)"

definition HASHMAP_HASH_INIT :: u64 where
  "HASHMAP_HASH_INIT = 2166136261"

definition hash_data :: "u8 list \<Rightarrow> u32" where
  "hash_data data =
     (let sz = length data;
          (h, d) = hash_blocks (sz div 8) data HASHMAP_HASH_INIT;
          h' = hash_tail sz d h
      in ucast (h' XOR drop_bit 32 h'))"

subsection \<open>The load-factor test\<close>

text \<open>
  Conversion of a non-negative integer to \<^verbatim>\<open>float\<close>: round to nearest, ties to even,
  24 significant bits. \<open>floorlog 2 n\<close> is the bit length of \<open>n\<close>.
\<close>

definition f32_of_nat :: "nat \<Rightarrow> nat" where
  "f32_of_nat n =
     (if n < 2 ^ 24 then n
      else let e = floorlog 2 n - 24; q = n div 2 ^ e; r = n mod 2 ^ e
           in if 2 * r > 2 ^ e \<or> (2 * r = 2 ^ e \<and> odd q) then (q + 1) * 2 ^ e else q * 2 ^ e)"

text \<open>
  \<^verbatim>\<open>m->count + 1 > HASHMAP_MAX_LOAD * m->capacity\<close>. Both sides are scaled by 4, which
  is exact in binary floating point: \<open>0.75 * c = 3 * c / 4\<close>.
\<close>

definition needs_resize :: "nat \<Rightarrow> nat \<Rightarrow> bool" where
  "needs_resize cnt cap \<longleftrightarrow>
     4 * f32_of_nat (cnt + 1) > f32_of_nat (3 * f32_of_nat cap)"

subsection \<open>Rounding facts\<close>

lemma pow_floorlog:
  assumes "2 ^ 24 \<le> n"
  shows "24 < floorlog 2 n" and "2 ^ (floorlog 2 n - 1) \<le> n" and "n < 2 ^ floorlog 2 n"
proof -
  have "0 < n" using assms by (rule order.strict_trans2 [rotated]) simp
  then show "2 ^ (floorlog 2 n - 1) \<le> n" "n < 2 ^ floorlog 2 n"
    using floorlog_bounds [of n 2] by simp_all
  show "24 < floorlog 2 n"
  proof (rule ccontr)
    assume "\<not> ?thesis"
    then have "(2 :: nat) ^ floorlog 2 n \<le> 2 ^ 24" by (intro power_increasing) auto
    with assms \<open>n < 2 ^ floorlog 2 n\<close> show False by linarith
  qed
qed

text \<open>A number of at least \<open>2 ^ 24\<close> split at its rounding position.\<close>

lemma f32_split:
  assumes "2 ^ 24 \<le> n"
  obtains e q r where "n = q * 2 ^ e + r" and "r < 2 ^ e" and "2 ^ (e + 23) \<le> n"
    and "f32_of_nat n =
      (if 2 * r > 2 ^ e \<or> (2 * r = 2 ^ e \<and> odd q) then (q + 1) * 2 ^ e else q * 2 ^ e)"
proof -
  let ?e = "floorlog 2 n - 24"
  have "(2 :: nat) ^ (?e + 23) \<le> n"
    using pow_floorlog [OF assms] by simp
  moreover have "n = n div 2 ^ ?e * 2 ^ ?e + n mod 2 ^ ?e"
    by (rule div_mult_mod_eq [symmetric])
  moreover have "\<not> n < 2 ^ 24"
    using assms by simp
  ultimately show ?thesis
    using that [of "n div 2 ^ ?e" ?e "n mod 2 ^ ?e"] by (simp only: f32_of_nat_def Let_def if_False) simp
qed

lemma round_position:
  assumes "2 ^ (e + 23) \<le> n" and "n \<le> a * 2 ^ k" and "a < 2 ^ 24"
  obtains b :: nat where "a * 2 ^ k = b * 2 ^ e"
proof -
  have "(2 :: nat) ^ (e + 23) \<le> a * 2 ^ k"
    using assms(1,2) by (rule order_trans)
  also have "\<dots> < 2 ^ 24 * 2 ^ k"
    using assms(3) by (rule mult_strict_right_mono) simp
  finally have "(2 :: nat) ^ (e + 23) < 2 ^ (24 + k)"
    by (simp add: power_add)
  then have "e + 23 < 24 + k"
    by (rule power_less_imp_less_exp [rotated]) simp
  then have "2 ^ k = (2 :: nat) ^ (k - e) * 2 ^ e"
    by (simp flip: power_add)
  then show ?thesis
    using that [of "a * 2 ^ (k - e)"] by simp
qed

text \<open>Rounding never moves a number up past a representable bound.\<close>

lemma f32_le_representable:
  assumes "n \<le> a * 2 ^ k" and "a < 2 ^ 24"
  shows "f32_of_nat n \<le> a * 2 ^ k"
proof (cases "2 ^ 24 \<le> n")
  case False
  then show ?thesis using assms(1) by (simp add: f32_of_nat_def)
next
  case True
  obtain e q r where n: "n = q * 2 ^ e + r" and r: "r < 2 ^ e" and low: "2 ^ (e + 23) \<le> n"
    and f: "f32_of_nat n =
      (if 2 * r > 2 ^ e \<or> (2 * r = 2 ^ e \<and> odd q) then (q + 1) * 2 ^ e else q * 2 ^ e)"
    using f32_split [OF True] .
  obtain b where b: "a * 2 ^ k = b * 2 ^ e"
    using round_position [OF low assms] .
  have "q * 2 ^ e \<le> b * 2 ^ e" and "0 < r \<longrightarrow> q * 2 ^ e < b * 2 ^ e"
    using assms(1) n b by linarith+
  then have "q \<le> b" and "0 < r \<longrightarrow> q + 1 \<le> b"
    by (simp_all add: Suc_le_eq)
  then have "q * 2 ^ e \<le> b * 2 ^ e" and "0 < r \<longrightarrow> (q + 1) * 2 ^ e \<le> b * 2 ^ e"
    using mult_le_mono1 by blast+
  moreover have "0 < r" if "2 * r \<ge> 2 ^ e"
    using that by (cases r) auto
  ultimately show ?thesis
    unfolding f b by auto
qed

text \<open>The relative rounding error is at most \<open>2 ^ - 24\<close>.\<close>

lemma f32_lower: "2 ^ 24 * n \<le> 2 ^ 24 * f32_of_nat n + n"
proof (cases "2 ^ 24 \<le> n")
  case False
  then show ?thesis by (simp add: f32_of_nat_def)
next
  case True
  obtain e q r where n: "n = q * 2 ^ e + r" and r: "r < 2 ^ e" and low: "2 ^ (e + 23) \<le> n"
    and f: "f32_of_nat n =
      (if 2 * r > 2 ^ e \<or> (2 * r = 2 ^ e \<and> odd q) then (q + 1) * 2 ^ e else q * 2 ^ e)"
    using f32_split [OF True] .
  have "n \<le> f32_of_nat n \<or> n = f32_of_nat n + r \<and> 2 * r \<le> 2 ^ e"
    using f n r by (auto simp: add_mult_distrib)
  moreover have "2 ^ 24 * r \<le> n" if "2 * r \<le> 2 ^ e"
    using that low by (simp add: power_add)
  ultimately show ?thesis by auto
qed

lemma f32_exact:
  assumes "a < 2 ^ 24"
  shows "f32_of_nat (a * 2 ^ k) = a * 2 ^ k"
proof (cases "2 ^ 24 \<le> a * 2 ^ k")
  case False
  then show ?thesis by (simp add: f32_of_nat_def)
next
  case True
  obtain e q r where n: "a * 2 ^ k = q * 2 ^ e + r" and r: "r < 2 ^ e" and low: "2 ^ (e + 23) \<le> a * 2 ^ k"
    and f: "f32_of_nat (a * 2 ^ k) =
      (if 2 * r > 2 ^ e \<or> (2 * r = 2 ^ e \<and> odd q) then (q + 1) * 2 ^ e else q * 2 ^ e)"
    using f32_split [OF True] .
  obtain b where b: "a * 2 ^ k = b * 2 ^ e"
    using round_position [OF low order_refl assms] .
  have "(q * 2 ^ e + r) mod 2 ^ e = r"
    using r by simp
  then have "r = 0"
    using b unfolding n [symmetric] by simp
  then show ?thesis
    using n f by simp
qed

subsection \<open>When the table is grown\<close>

lemma resize_threshold: "f32_of_nat (3 * f32_of_nat (20 * 2 ^ k)) = 60 * 2 ^ k"
  using f32_exact [of 20 k] f32_exact [of 60 k] by simp

lemma needs_resize_imp: "needs_resize c (20 * 2 ^ k) \<Longrightarrow> 15 * 2 ^ k < c + 1"
  using f32_le_representable [of "c + 1" 15 k] unfolding needs_resize_def resize_threshold
  by (rule_tac ccontr) simp

lemma no_resize_room:
  assumes "\<not> needs_resize c (20 * 2 ^ k)"
  shows "c + 1 < 20 * 2 ^ k"
proof -
  have "f32_of_nat (c + 1) \<le> 15 * 2 ^ k"
    using assms unfolding needs_resize_def resize_threshold by simp
  moreover have "(0 :: nat) < 2 ^ k" by simp
  ultimately show ?thesis
    using f32_lower [of "c + 1"] by simp
qed

text \<open>
  Up to a capacity of \<open>2 ^ 24\<close> buckets the floating-point test is the exact
  one: the table is grown when the new entry would take it past three quarters full.
\<close>

theorem needs_resize_exact:
  assumes "c < 2 ^ 24 - 1" and "20 * 2 ^ k \<le> (2 :: nat) ^ 24"
  shows "needs_resize c (20 * 2 ^ k) \<longleftrightarrow> 4 * (c + 1) > 3 * (20 * 2 ^ k)"
  using assms unfolding needs_resize_def resize_threshold by (simp add: f32_of_nat_def)

theorem needs_resize_exact_witness:
  "needs_resize 15 (20 * 2 ^ 0) \<and> \<not> needs_resize 14 (20 * 2 ^ 0)"
  using needs_resize_exact [of 15 0] needs_resize_exact [of 14 0] by simp

end
