(* ===== verification/Hashmap.thy ===== *)
theory Hashmap
  imports Hash_Data
begin

text \<open>
  The hash map of \<^verbatim>\<open>map.c\<close> / \<^verbatim>\<open>map.h\<close> as it is compiled here (without
  \<^verbatim>\<open>__HASHMAP_REMOVABLE\<close>): open addressing with linear probing, all entries
  threaded on a linked list in insertion order. Buckets live in heap blocks
  obtained from \<^verbatim>\<open>calloc\<close>; a bucket pointer is a block number and an index, so
  that the two arrays that are alive during a resize, and pointers from one into
  the other, are distinguished. \<^verbatim>\<open>m->last\<close> is either a bucket or the cast address
  of \<^verbatim>\<open>m->first\<close>. Keys are addresses in a memory the map only reads.
\<close>

subsection \<open>Data\<close>

datatype bptr = NullB | Bkt nat nat

datatype lptr = FirstField | LastBkt nat nat

record bucket =
  bnext :: bptr
  bkey :: ptr
  bksize :: u64
  bhash :: u32
  bvalue :: u64

record hashmap =
  buckets :: nat
  capacity :: nat
  mcount :: nat
  first :: bptr
  mlast :: lptr

text \<open>The heap blocks that hold bucket arrays; \<open>fresh\<close> numbers the next one.\<close>

record bheap =
  blocks :: "nat \<Rightarrow> bucket list option"
  fresh :: nat

definition empty_heap :: bheap where
  "empty_heap = \<lparr>blocks = (\<lambda>_. None), fresh = 0\<rparr>"

definition zero_bucket :: bucket where
  "zero_bucket = \<lparr>bnext = NullB, bkey = 0, bksize = 0, bhash = 0, bvalue = 0\<rparr>"

abbreviation (input) HASHMAP_DEFAULT_CAPACITY :: nat where "HASHMAP_DEFAULT_CAPACITY \<equiv> 20"
abbreviation (input) HASHMAP_RESIZE_FACTOR :: nat where "HASHMAP_RESIZE_FACTOR \<equiv> 2"

subsection \<open>Access to buckets\<close>

definition bkt_get :: "bheap \<Rightarrow> nat \<Rightarrow> nat \<Rightarrow> bucket res" where
  "bkt_get h b i = (case blocks h b of None \<Rightarrow> Inl UseAfterFree | Some bs \<Rightarrow> array_get bs i)"

definition bkt_put :: "bheap \<Rightarrow> nat \<Rightarrow> nat \<Rightarrow> bucket \<Rightarrow> bheap res" where
  "bkt_put h b i e =
     (case blocks h b of None \<Rightarrow> Inl UseAfterFree
      | Some bs \<Rightarrow> bindR (array_set bs i e) (\<lambda>bs'. Inr (h\<lparr>blocks := (blocks h)(b \<mapsto> bs')\<rparr>)))"

definition calloc_buckets :: "bheap \<Rightarrow> nat \<Rightarrow> nat \<times> bheap" where
  "calloc_buckets h n =
     (fresh h, h\<lparr>blocks := (blocks h)(fresh h \<mapsto> replicate n zero_bucket), fresh := Suc (fresh h)\<rparr>)"

definition free_buckets :: "bheap \<Rightarrow> nat \<Rightarrow> bheap res" where
  "free_buckets h b =
     (case blocks h b of None \<Rightarrow> Inl UseAfterFree | Some _ \<Rightarrow> Inr (h\<lparr>blocks := (blocks h)(b := None)\<rparr>))"

text \<open>Reading and writing \<^verbatim>\<open>m->last->next\<close>.\<close>

definition last_next :: "bheap \<Rightarrow> hashmap \<Rightarrow> bptr res" where
  "last_next h m =
     (case mlast m of FirstField \<Rightarrow> Inr (first m)
      | LastBkt b i \<Rightarrow> bindR (bkt_get h b i) (\<lambda>e. Inr (bnext e)))"

definition set_last_next :: "bheap \<Rightarrow> hashmap \<Rightarrow> bptr \<Rightarrow> (bheap \<times> hashmap) res" where
  "set_last_next h m p =
     (case mlast m of FirstField \<Rightarrow> Inr (h, m\<lparr>first := p\<rparr>)
      | LastBkt b i \<Rightarrow>
          bindR (bkt_get h b i) (\<lambda>e.
          bindR (bkt_put h b i (e\<lparr>bnext := p\<rparr>)) (\<lambda>h'. Inr (h', m))))"

subsection \<open>Creating and freeing\<close>

definition hashmap_create :: "bheap \<Rightarrow> bheap \<times> hashmap" where
  "hashmap_create h =
     (let (b, h') = calloc_buckets h HASHMAP_DEFAULT_CAPACITY
      in (h', \<lparr>buckets = b, capacity = HASHMAP_DEFAULT_CAPACITY, mcount = 0, first = NullB,
               mlast = FirstField\<rparr>))"

definition hashmap_free :: "bheap \<Rightarrow> hashmap \<Rightarrow> bheap res" where
  "hashmap_free h m = free_buckets h (buckets m)"

subsection \<open>Probing\<close>

text \<open>
  The \<^verbatim>\<open>for (;;)\<close> loops of \<^verbatim>\<open>resize_entry\<close> and \<^verbatim>\<open>find_entry\<close>. The loop state is the
  index alone, and after \<open>capacity\<close> steps it is back at the start, so a search
  that has not stopped within \<open>capacity\<close> steps never stops: this is the fuel.
\<close>

fun probe :: "nat \<Rightarrow> (bucket \<Rightarrow> bool) \<Rightarrow> bheap \<Rightarrow> nat \<Rightarrow> nat \<Rightarrow> nat \<Rightarrow> nat res" where
  "probe 0 stop h b cap index = Inl Diverges"
| "probe (Suc fuel) stop h b cap index =
     bindR (bkt_get h b index) (\<lambda>entry.
       if stop entry then Inr index else probe fuel stop h b cap ((index + 1) mod cap))"

definition resize_entry :: "bheap \<Rightarrow> hashmap \<Rightarrow> nat \<Rightarrow> nat \<Rightarrow> (bheap \<times> bptr) res" where
  "resize_entry h m ob oi =
     bindR (bkt_get h ob oi) (\<lambda>old_entry.
     bindR (guardR (capacity m \<noteq> 0) DivByZero) (\<lambda>_.
     bindR (probe (capacity m) (\<lambda>entry. bkey entry = 0) h (buckets m) (capacity m)
              (unat (bhash old_entry) mod capacity m)) (\<lambda>i.
     bindR (bkt_put h (buckets m) i old_entry) (\<lambda>h'.
     Inr (h', Bkt (buckets m) i)))))"

text \<open>
  The \<^verbatim>\<open>do ... while\<close> loop of \<^verbatim>\<open>hashmap_resize\<close>: move the bucket that
  \<^verbatim>\<open>m->last->next\<close> points to, relink, advance. The list holds no more buckets
  than the old array, whose capacity is the fuel.
\<close>

fun resize_loop :: "nat \<Rightarrow> bheap \<Rightarrow> hashmap \<Rightarrow> (bheap \<times> hashmap) res" where
  "resize_loop 0 h m = Inl Diverges"
| "resize_loop (Suc fuel) h m =
     bindR (last_next h m) (\<lambda>p. case p of NullB \<Rightarrow> Inl NullDeref | Bkt ob oi \<Rightarrow>
     bindR (resize_entry h m ob oi) (\<lambda>(h1, e).
     bindR (set_last_next h1 m e) (\<lambda>(h2, m2).
     let m3 = m2\<lparr>mlast := (case e of NullB \<Rightarrow> FirstField | Bkt b i \<Rightarrow> LastBkt b i)\<rparr> in
     bindR (last_next h2 m3) (\<lambda>q.
     if q \<noteq> NullB then resize_loop fuel h2 m3 else Inr (h2, m3)))))"

definition hashmap_resize :: "bheap \<Rightarrow> hashmap \<Rightarrow> (bheap \<times> hashmap) res" where
  "hashmap_resize h m =
     (let old_buckets = buckets m; cap = capacity m * HASHMAP_RESIZE_FACTOR in
      bindR (guardR (cap < 2 ^ 31) IntOverflow) (\<lambda>_.
      let (b, h1) = calloc_buckets h cap;
          m1 = m\<lparr>capacity := cap, buckets := b, mlast := FirstField\<rparr> in
      bindR (resize_loop (capacity m) h1 m1) (\<lambda>(h2, m2).
      bindR (free_buckets h2 old_buckets) (\<lambda>h3.
      Inr (h3, m2)))))"

text \<open>\<^verbatim>\<open>memcmp(entry->key, key, ksize) == 0\<close> after the size and hash comparisons.\<close>

definition entry_matches :: "memory \<Rightarrow> ptr \<Rightarrow> u64 \<Rightarrow> u32 \<Rightarrow> bucket \<Rightarrow> bool" where
  "entry_matches mem key ksize hash entry \<longleftrightarrow>
     bkey entry = 0 \<or>
     (bksize entry = ksize \<and> bhash entry = hash \<and>
      load_bytes mem (bkey entry) (unat ksize) = load_bytes mem key (unat ksize))"

definition find_entry :: "memory \<Rightarrow> bheap \<Rightarrow> hashmap \<Rightarrow> ptr \<Rightarrow> u64 \<Rightarrow> u32 \<Rightarrow> nat res" where
  "find_entry mem h m key ksize hash =
     bindR (guardR (capacity m \<noteq> 0) DivByZero) (\<lambda>_.
     probe (capacity m) (entry_matches mem key ksize hash) h (buckets m) (capacity m)
       (unat hash mod capacity m))"

subsection \<open>Operations\<close>

text \<open>
  The steps every insertion takes when \<^verbatim>\<open>find_entry\<close> stopped at an empty bucket:
  append it to the list and fill it in.
\<close>

definition link_entry ::
  "bheap \<Rightarrow> hashmap \<Rightarrow> nat \<Rightarrow> ptr \<Rightarrow> u64 \<Rightarrow> u32 \<Rightarrow> u64 \<Rightarrow> (bheap \<times> hashmap) res" where
  "link_entry h m i key ksize hash val =
     bindR (set_last_next h m (Bkt (buckets m) i)) (\<lambda>(h1, m1).
     let m2 = m1\<lparr>mlast := LastBkt (buckets m) i, mcount := mcount m1 + 1\<rparr> in
     bindR (bkt_put h1 (buckets m) i
              \<lparr>bnext = NullB, bkey = key, bksize = ksize, bhash = hash, bvalue = val\<rparr>) (\<lambda>h2.
     Inr (h2, m2)))"

definition maybe_resize :: "bheap \<Rightarrow> hashmap \<Rightarrow> (bheap \<times> hashmap) res" where
  "maybe_resize h m =
     (if needs_resize (mcount m) (capacity m) then hashmap_resize h m else Inr (h, m))"

definition hashmap_set ::
  "memory \<Rightarrow> bheap \<Rightarrow> hashmap \<Rightarrow> ptr \<Rightarrow> u64 \<Rightarrow> u64 \<Rightarrow> (bheap \<times> hashmap) res" where
  "hashmap_set mem h0 m0 key ksize val =
     bindR (maybe_resize h0 m0) (\<lambda>(h, m).
     let hash = hash_data (load_bytes mem key (unat ksize)) in
     bindR (find_entry mem h m key ksize hash) (\<lambda>i.
     bindR (bkt_get h (buckets m) i) (\<lambda>entry.
     if bkey entry = 0 then link_entry h m i key ksize hash val
     else bindR (bkt_put h (buckets m) i (entry\<lparr>bvalue := val\<rparr>)) (\<lambda>h'. Inr (h', m)))))"

text \<open>Returns whether the key was present, and the final value of \<^verbatim>\<open>*out_in\<close>.\<close>

definition hashmap_get_set ::
  "memory \<Rightarrow> bheap \<Rightarrow> hashmap \<Rightarrow> ptr \<Rightarrow> u64 \<Rightarrow> u64 \<Rightarrow> (bool \<times> u64 \<times> bheap \<times> hashmap) res" where
  "hashmap_get_set mem h0 m0 key ksize out_in =
     bindR (maybe_resize h0 m0) (\<lambda>(h, m).
     let hash = hash_data (load_bytes mem key (unat ksize)) in
     bindR (find_entry mem h m key ksize hash) (\<lambda>i.
     bindR (bkt_get h (buckets m) i) (\<lambda>entry.
     if bkey entry = 0
     then bindR (link_entry h m i key ksize hash out_in) (\<lambda>(h', m'). Inr (False, out_in, h', m'))
     else Inr (True, bvalue entry, h, m))))"

text \<open>
  The callback \<^verbatim>\<open>c\<close> acts on the caller's data \<open>usr\<close>; it runs only when an entry is
  overwritten, and then sees the old key and the old value.
\<close>

definition hashmap_set_free ::
  "memory \<Rightarrow> bheap \<Rightarrow> hashmap \<Rightarrow> ptr \<Rightarrow> u64 \<Rightarrow> u64 \<Rightarrow>
   (ptr \<Rightarrow> u64 \<Rightarrow> u64 \<Rightarrow> 'u \<Rightarrow> 'u) \<Rightarrow> 'u \<Rightarrow> ('u \<times> bheap \<times> hashmap) res" where
  "hashmap_set_free mem h0 m0 key ksize val c usr =
     bindR (maybe_resize h0 m0) (\<lambda>(h, m).
     let hash = hash_data (load_bytes mem key (unat ksize)) in
     bindR (find_entry mem h m key ksize hash) (\<lambda>i.
     bindR (bkt_get h (buckets m) i) (\<lambda>entry.
     if bkey entry = 0
     then bindR (link_entry h m i key ksize hash val) (\<lambda>(h', m'). Inr (usr, h', m'))
     else
       let usr' = c (bkey entry) ksize (bvalue entry) usr in
       bindR (bkt_put h (buckets m) i (entry\<lparr>bkey := key, bvalue := val\<rparr>)) (\<lambda>h'.
       Inr (usr', h', m)))))"

definition hashmap_get ::
  "memory \<Rightarrow> bheap \<Rightarrow> hashmap \<Rightarrow> ptr \<Rightarrow> u64 \<Rightarrow> (bool \<times> u64) res" where
  "hashmap_get mem h m key ksize =
     (let hash = hash_data (load_bytes mem key (unat ksize)) in
      bindR (find_entry mem h m key ksize hash) (\<lambda>i.
      bindR (bkt_get h (buckets m) i) (\<lambda>entry.
      Inr (bkey entry \<noteq> 0, bvalue entry))))"

definition hashmap_size :: "hashmap \<Rightarrow> nat" where
  "hashmap_size m = mcount m"

text \<open>
  The walk along the list of \<^verbatim>\<open>hashmap_iterate\<close> and \<^verbatim>\<open>foreach_hashmap_bucket\<close>. A walk
  of more than \<open>capacity\<close> buckets is in a cycle.
\<close>

fun walk :: "nat \<Rightarrow> bheap \<Rightarrow> bptr \<Rightarrow> (bucket \<Rightarrow> 'u \<Rightarrow> 'u res) \<Rightarrow> 'u \<Rightarrow> 'u res" where
  "walk fuel h NullB body u = Inr u"
| "walk 0 h (Bkt b i) body u = Inl Diverges"
| "walk (Suc fuel) h (Bkt b i) body u =
     bindR (bkt_get h b i) (\<lambda>e. bindR (body e u) (walk fuel h (bnext e) body))"

definition hashmap_iterate ::
  "bheap \<Rightarrow> hashmap \<Rightarrow> (ptr \<Rightarrow> u64 \<Rightarrow> u64 \<Rightarrow> 'u \<Rightarrow> 'u) \<Rightarrow> 'u \<Rightarrow> 'u res" where
  "hashmap_iterate h m c user_ptr =
     walk (capacity m) h (first m) (\<lambda>e u. Inr (c (bkey e) (bksize e) (bvalue e) u)) user_ptr"

text \<open>\<^verbatim>\<open>check_bucket\<close>: the values it prints for the keys, and the count it prints last.\<close>

definition check_bucket :: "memory \<Rightarrow> nat \<Rightarrow> bheap \<Rightarrow> bptr \<Rightarrow> (u64 list \<times> nat) res" where
  "check_bucket mem fuel h entry =
     walk fuel h entry
       (\<lambda>e (out, n). Inr (out @ [le_value (load_bytes mem (bkey e) 8)], n + 1)) ([], 0)"

subsection \<open>Evaluation on concrete maps\<close>

text \<open>
  Rewriting with these equations and \<open>bindR_weak_cong\<close> runs the operations on concrete
  arguments.
\<close>

lemma probe_numeral:
  "probe (numeral k) stop h b cap index =
     bindR (bkt_get h b index) (\<lambda>entry.
       if stop entry then Inr index else probe (pred_numeral k) stop h b cap ((index + 1) mod cap))"
  by (simp add: numeral_eq_Suc)

lemma walk_numeral:
  "walk (numeral k) h (Bkt b i) body u =
     bindR (bkt_get h b i) (\<lambda>e. bindR (body e u) (walk (pred_numeral k) h (bnext e) body))"
  by (simp add: numeral_eq_Suc)

lemmas hashmap_eval = hashmap_set_def maybe_resize_def needs_resize_def f32_of_nat_def
  find_entry_def probe_numeral walk_numeral entry_matches_def link_entry_def set_last_next_def
  bkt_get_def bkt_put_def array_get_def array_set_def guardR_def hash_data_def hash_tail_def
  HASHMAP_HASH_INIT_def load_bytes_def hashmap_create_def calloc_buckets_def empty_heap_def
  zero_bucket_def Let_def

end
