(* ===== verification/Ordered_Map.thy ===== *)
theory Ordered_Map
  imports C_Prelude "HOL-Library.AList"
begin

text \<open>
  The contract a client of the hash map relies on: a finite map that remembers
  insertion order, accessed through key handles (addresses of keys). Lookup
  agrees with the association list of entries, storing updates it in place or
  appends, and up to \<open>limit\<close> entries storing always succeeds.
\<close>

lemma alist_update_new: "k \<notin> fst ` set al \<Longrightarrow> AList.update k v al = al @ [(k, v)]"
  by (induction al) auto

lemma alist_update_at:
  "i \<in> set js \<Longrightarrow> distinct (map f js) \<Longrightarrow>
     AList.update (f i) v (map (\<lambda>j. (f j, g j)) js) = map (\<lambda>j. (f j, if j = i then v else g j)) js"
proof (induction js)
  case (Cons j js)
  show ?case
  proof (cases "j = i")
    case True
    then have "\<forall>l\<in>set js. l \<noteq> i"
      using Cons.prems by auto
    with True show ?thesis by auto
  next
    case False
    with Cons.prems have "f j \<noteq> f i" and "i \<in> set js" by auto
    with False Cons show ?thesis by auto
  qed
qed simp

lemma alist_update_keys:
  "map fst (AList.update k v al) = (if k \<in> fst ` set al then map fst al else map fst al @ [k])"
  by (induction al) auto

lemma alist_update_length:
  "length (AList.update k v al) = (if k \<in> fst ` set al then length al else length al + 1)"
  using arg_cong [OF alist_update_keys [of k v al], of length] by (simp split: if_splits)

locale ordered_map =
  fixes inv :: "'s \<Rightarrow> bool"
    and entries :: "'s \<Rightarrow> ('k \<times> 'v) list"
    and key_of :: "'p \<Rightarrow> 'k"
    and valid :: "'p \<Rightarrow> bool"
    and limit :: nat
    and lookup :: "'s \<Rightarrow> 'p \<Rightarrow> 'v option res"
    and put :: "'s \<Rightarrow> 'p \<Rightarrow> 'v \<Rightarrow> 's res"
  assumes lookup_law: "inv s \<Longrightarrow> lookup s p = Inr (map_of (entries s) (key_of p))"
    and put_law: "inv s \<Longrightarrow> valid p \<Longrightarrow> length (entries s) < limit \<Longrightarrow>
      ok (put s p v) (\<lambda>s'. inv s' \<and> entries s' = AList.update (key_of p) v (entries s))"
    and distinct_law: "inv s \<Longrightarrow> distinct (map fst (entries s))"
begin

text \<open>Reading back: the stored key has the new value, every other key its old one.\<close>

lemma lookup_put:
  assumes "inv s" and "valid p" and "length (entries s) < limit"
  shows "ok (put s p v) (\<lambda>s'. lookup s' q =
    (if key_of q = key_of p then Inr (Some v) else lookup s q))"
proof (rule ok_mono [OF put_law [OF assms]])
  fix s' assume "inv s' \<and> entries s' = AList.update (key_of p) v (entries s)"
  then show "lookup s' q = (if key_of q = key_of p then Inr (Some v) else lookup s q)"
    using assms(1) by (simp add: lookup_law update_conv')
qed

text \<open>Storing a whole list of bindings, as long as the limit is not reached.\<close>

lemma put_many:
  assumes "inv s" and "\<forall>(p, v)\<in>set ps. valid p" and "length (entries s) + length ps \<le> limit"
  shows "ok (foldR (\<lambda>(p, v) s. put s p v) ps s)
    (\<lambda>s'. inv s' \<and> entries s' = fold (\<lambda>(p, v). AList.update (key_of p) v) ps (entries s))"
  using assms
proof (induction ps arbitrary: s)
  case (Cons pv ps)
  obtain p v where pv: "pv = (p, v)" by fastforce
  have "ok (put s p v) (\<lambda>s'. inv s' \<and> entries s' = AList.update (key_of p) v (entries s))"
    using Cons.prems pv by (intro put_law) auto
  moreover have "ok (foldR (\<lambda>(p, v) s. put s p v) ps s') (\<lambda>s''. inv s'' \<and>
      entries s'' = fold (\<lambda>(p, v). AList.update (key_of p) v) (pv # ps) (entries s))"
    if "inv s' \<and> entries s' = AList.update (key_of p) v (entries s)" for s'
    using Cons.IH [of s'] Cons.prems that pv by (simp add: alist_update_length split: if_splits)
  ultimately have "ok (bindR (put s p v) (foldR (\<lambda>(p, v) s. put s p v) ps)) (\<lambda>s''. inv s'' \<and>
      entries s'' = fold (\<lambda>(p, v). AList.update (key_of p) v) (pv # ps) (entries s))"
    by (rule ok_bindR)
  then show ?case
    using pv by simp
qed simp

text \<open>A new key goes to the end; the order of the others does not change.\<close>

lemma put_new_last:
  assumes "inv s" and "valid p" and "length (entries s) < limit" and "lookup s p = Inr None"
  shows "ok (put s p v) (\<lambda>s'. inv s' \<and> entries s' = entries s @ [(key_of p, v)])"
proof (rule ok_mono [OF put_law [OF assms(1-3)]])
  fix s' assume "inv s' \<and> entries s' = AList.update (key_of p) v (entries s)"
  moreover have "key_of p \<notin> fst ` set (entries s)"
    using assms(1,4) by (simp add: lookup_law map_of_eq_None_iff)
  ultimately show "inv s' \<and> entries s' = entries s @ [(key_of p, v)]"
    by (simp add: alist_update_new)
qed

end

end
