(* ===== verification/Hashmap_Correct.thy ===== *)
theory Hashmap_Correct
  imports Hashmap Ordered_Map
begin

text \<open>
  Correctness of the hash map operations. \<open>hm_rep mem h m bs js\<close> is the
  representation invariant: the block of \<open>m\<close> holds the buckets \<open>bs\<close>, and \<open>js\<close>
  are the occupied indices in list order. \<open>hm_abs\<close> reads off the association
  list from key bytes to values, in insertion order. Every operation returns,
  keeps the invariant and acts on the abstraction like the corresponding
  operation on association lists.
\<close>

subsection \<open>Linked lists of buckets\<close>

primrec chain :: "bucket list \<Rightarrow> nat \<Rightarrow> bptr \<Rightarrow> nat list \<Rightarrow> bptr \<Rightarrow> bool" where
  "chain bs b p [] q \<longleftrightarrow> p = q"
| "chain bs b p (i # is) q \<longleftrightarrow> p = Bkt b i \<and> i < length bs \<and> chain bs b (bnext (bs ! i)) is q"

lemma chain_append [simp]:
  "chain bs b p (is @ js) q \<longleftrightarrow> (\<exists>r. chain bs b p is r \<and> chain bs b r js q)"
  by (induction "is" arbitrary: p) auto

lemma chain_upd [simp]:
  "i \<notin> set is \<Longrightarrow> chain (bs[i := e]) b p is q \<longleftrightarrow> chain bs b p is q"
  by (induction "is" arbitrary: p) auto

lemma chain_cong:
  "(\<And>i. i \<in> set is \<Longrightarrow> bnext (bs ! i) = bnext (bs' ! i)) \<Longrightarrow> length bs = length bs' \<Longrightarrow>
     chain bs b p is q \<longleftrightarrow> chain bs' b p is q"
  by (induction "is" arbitrary: p) auto

lemma chain_bound: "chain bs b p is q \<Longrightarrow> i \<in> set is \<Longrightarrow> i < length bs"
  by (induction "is" arbitrary: p) auto

lemma chain_relink:
  assumes "chain bs b p (is @ [i]) q" and "i \<notin> set is"
  shows "chain (bs[i := e\<lparr>bnext := r\<rparr>]) b p (is @ [i]) r"
  using assms by auto

subsection \<open>The table without its links\<close>

text \<open>
  \<open>table_ok bs js\<close>: \<open>js\<close> lists the occupied indices, empty buckets are zeroed, and
  every entry can be reached from its home index over occupied buckets only.
\<close>

definition reachable_slot :: "bucket list \<Rightarrow> nat \<Rightarrow> nat \<Rightarrow> bool" where
  "reachable_slot bs start i \<longleftrightarrow>
     (\<exists>d<length bs. i = (start + d) mod length bs \<and>
        (\<forall>d'<d. bkey (bs ! ((start + d') mod length bs)) \<noteq> 0))"

definition table_ok :: "bucket list \<Rightarrow> nat list \<Rightarrow> bool" where
  "table_ok bs js \<longleftrightarrow>
     distinct js \<and> set js = {i. i < length bs \<and> bkey (bs ! i) \<noteq> 0} \<and>
     (\<forall>i<length bs. bkey (bs ! i) = 0 \<longrightarrow> bs ! i = zero_bucket) \<and>
     (\<forall>i\<in>set js. reachable_slot bs (unat (bhash (bs ! i))) i)"

lemma table_okD:
  assumes "table_ok bs js"
  shows "distinct js" and "i \<in> set js \<longleftrightarrow> i < length bs \<and> bkey (bs ! i) \<noteq> 0"
    and "i < length bs \<Longrightarrow> bkey (bs ! i) = 0 \<Longrightarrow> bs ! i = zero_bucket"
    and "i \<in> set js \<Longrightarrow> reachable_slot bs (unat (bhash (bs ! i))) i"
  using assms by (auto simp: table_ok_def)

text \<open>Changes that keep which buckets are occupied, and their hashes, keep the table.\<close>

lemma table_ok_upd:
  assumes "table_ok bs js" and "i \<in> set js" and "bkey e \<noteq> 0" and "bhash e = bhash (bs ! i)"
  shows "table_ok (bs[i := e]) js"
proof -
  have i: "i < length bs" "bkey (bs ! i) \<noteq> 0"
    using assms(1,2) by (auto simp: table_okD)
  have occ: "bkey (bs[i := e] ! j) \<noteq> 0 \<longleftrightarrow> bkey (bs ! j) \<noteq> 0" for j
    using i assms(3) by (cases "i = j") auto
  then have "reachable_slot (bs[i := e]) s j \<longleftrightarrow> reachable_slot bs s j" for s j
    by (simp add: reachable_slot_def)
  moreover have "bhash (bs[i := e] ! j) = bhash (bs ! j)" for j
    using i assms(4) by (cases "i = j") auto
  ultimately show ?thesis
    using assms(1) i occ by (auto simp: table_ok_def nth_list_update)
qed

text \<open>Filling the empty bucket that a probe from its home index finds first.\<close>

lemma table_ok_insert:
  assumes t: "table_ok bs js" and free: "i < length bs" "bkey (bs ! i) = 0"
    and e: "bkey e \<noteq> 0" and reach: "reachable_slot bs (unat (bhash e)) i"
  shows "table_ok (bs[i := e]) (js @ [i])"
proof -
  have occ: "bkey (bs ! j) \<noteq> 0 \<Longrightarrow> bkey (bs[i := e] ! j) \<noteq> 0" for j
    using free e by (cases "i = j") auto
  have keep: "reachable_slot bs s j \<Longrightarrow> reachable_slot (bs[i := e]) s j" for s j
  proof -
    assume "reachable_slot bs s j"
    then obtain d where d: "d < length bs" "j = (s + d) mod length bs"
        "\<forall>d'<d. bkey (bs ! ((s + d') mod length bs)) \<noteq> 0"
      unfolding reachable_slot_def by blast
    then have "\<forall>d'<d. bkey (bs[i := e] ! ((s + d') mod length bs)) \<noteq> 0"
      using occ by blast
    then show ?thesis
      using d unfolding reachable_slot_def length_list_update by blast
  qed
  have "i \<notin> set js"
    using t free by (auto simp: table_okD)
  then have "distinct (js @ [i])"
    and "set (js @ [i]) = {j. j < length (bs[i := e]) \<and> bkey (bs[i := e] ! j) \<noteq> 0}"
    and "\<forall>j<length (bs[i := e]). bkey (bs[i := e] ! j) = 0 \<longrightarrow> bs[i := e] ! j = zero_bucket"
    using t free e by (auto simp: table_ok_def nth_list_update)
  moreover have "reachable_slot (bs[i := e]) (unat (bhash (bs[i := e] ! j))) j" if "j \<in> set (js @ [i])" for j
  proof (cases "j = i")
    case True
    then show ?thesis using keep [OF reach] free by simp
  next
    case False
    then show ?thesis using keep table_okD(4) [OF t, of j] that by simp
  qed
  ultimately show ?thesis
    unfolding table_ok_def by blast
qed

lemma table_ok_empty: "table_ok (replicate n zero_bucket) []"
  by (auto simp: table_ok_def zero_bucket_def)

lemma table_ok_count: "table_ok bs js \<Longrightarrow> length js \<le> length bs"
proof -
  assume t: "table_ok bs js"
  have "length js = card (set js)"
    using t by (simp add: distinct_card table_okD(1))
  also have "\<dots> \<le> card {..<length bs}"
    using t by (intro card_mono) (auto simp: table_okD)
  finally show ?thesis by simp
qed

lemma table_ok_free_slot:
  assumes "table_ok bs js" and "length js < length bs"
  shows "\<exists>i<length bs. bkey (bs ! i) = 0"
proof (rule ccontr)
  assume "\<not> ?thesis"
  then have "set js = {..<length bs}"
    using assms(1) by (auto simp: table_okD)
  then have "card (set js) = length bs"
    by simp
  then show False
    using assms by (simp add: distinct_card table_okD(1))
qed

subsection \<open>Probing finds the first stop\<close>

lemma bkt_get_eq [simp]: "blocks h b = Some bs \<Longrightarrow> bkt_get h b i = array_get bs i"
  by (simp add: bkt_get_def)

lemma bkt_put_eq [simp]:
  "blocks h b = Some bs \<Longrightarrow> i < length bs \<Longrightarrow>
     bkt_put h b i e = Inr (h\<lparr>blocks := (blocks h)(b \<mapsto> bs[i := e])\<rparr>)"
  by (simp add: bkt_put_def)

lemma probe_first:
  assumes "blocks h b = Some bs" and "0 < length bs"
  shows "d < fuel \<Longrightarrow> stop (bs ! ((s + d) mod length bs)) \<Longrightarrow>
    (\<forall>d'<d. \<not> stop (bs ! ((s + d') mod length bs))) \<Longrightarrow>
    probe fuel stop h b (length bs) (s mod length bs) = Inr ((s + d) mod length bs)"
proof (induction fuel arbitrary: s d)
  case (Suc fuel)
  show ?case
  proof (cases d)
    case 0
    then show ?thesis using Suc.prems assms by simp
  next
    case (Suc d')
    have "\<not> stop (bs ! (s mod length bs))"
      using Suc.prems(3) Suc by (metis add.right_neutral zero_less_Suc)
    moreover have "\<forall>d''<d'. \<not> stop (bs ! ((s + 1 + d'') mod length bs))"
      using Suc.prems(3) Suc by (metis Suc_less_eq add.assoc plus_1_eq_Suc)
    then have "probe fuel stop h b (length bs) ((s + 1) mod length bs) = Inr ((s + 1 + d') mod length bs)"
      using Suc.IH [of d' "s + 1"] Suc.prems Suc by simp
    ultimately show ?thesis
      using assms Suc by (simp add: mod_Suc_eq)
  qed
qed simp

lemma all_slots_probed: "0 < n \<Longrightarrow> i < n \<Longrightarrow> \<exists>d<n. i = (s + d) mod (n :: nat)"
proof -
  assume n: "0 < n" "i < n"
  have "(s + (i + n - s mod n) mod n) mod n = (s mod n + (i + n - s mod n)) mod n"
    by (simp add: mod_simps)
  also have "s mod n + (i + n - s mod n) = i + n"
    using n by (simp add: less_imp_le mod_less_divisor trans_le_add2)
  finally show ?thesis
    using n by (intro exI [of _ "(i + n - s mod n) mod n"]) simp
qed

text \<open>The least distance at which a probe stops, when some bucket stops it.\<close>

lemma probe_least:
  assumes "blocks h b = Some bs" and "i < length bs" and "stop (bs ! i)"
  obtains d where "d < length bs" and "stop (bs ! ((s + d) mod length bs))"
    and "\<forall>d'<d. \<not> stop (bs ! ((s + d') mod length bs))"
    and "probe (length bs) stop h b (length bs) (s mod length bs) = Inr ((s + d) mod length bs)"
proof -
  have "0 < length bs" using assms(2) by linarith
  obtain d0 where d0: "d0 < length bs" "i = (s + d0) mod length bs"
    using all_slots_probed [OF \<open>0 < length bs\<close> assms(2)] by blast
  let ?P = "\<lambda>d. stop (bs ! ((s + d) mod length bs))"
  have "?P d0" using assms(3) d0 by simp
  then have "?P (LEAST d. ?P d)" and le: "(LEAST d. ?P d) \<le> d0"
    and "\<forall>d'<LEAST d. ?P d. \<not> ?P d'"
    by (auto intro: LeastI Least_le dest: not_less_Least)
  moreover have "(LEAST d. ?P d) < length bs"
    using le d0(1) by linarith
  ultimately show ?thesis
    using that probe_first [OF assms(1) \<open>0 < length bs\<close>] by blast
qed

text \<open>Looking for an empty bucket.\<close>

lemma probe_free:
  assumes "blocks h b = Some bs" and "table_ok bs js" and "length js < length bs"
  obtains i where "probe (length bs) (\<lambda>e. bkey e = 0) h b (length bs) (s mod length bs) = Inr i"
    and "i < length bs" and "bkey (bs ! i) = 0" and "reachable_slot bs s i"
proof -
  obtain i where i: "i < length bs" "bkey (bs ! i) = 0"
    using table_ok_free_slot [OF assms(2,3)] by blast
  obtain d where d: "d < length bs" "bkey (bs ! ((s + d) mod length bs)) = 0"
    "\<forall>d'<d. bkey (bs ! ((s + d') mod length bs)) \<noteq> 0"
    "probe (length bs) (\<lambda>e. bkey e = 0) h b (length bs) (s mod length bs) = Inr ((s + d) mod length bs)"
    using probe_least [OF assms(1) i(1), where stop = "\<lambda>e. bkey e = 0" and s = s] i(2) by blast
  have "reachable_slot bs s ((s + d) mod length bs)"
    using d(1,3) unfolding reachable_slot_def by blast
  moreover have "(s + d) mod length bs < length bs"
    using i(1) by (intro mod_less_divisor) linarith
  ultimately show ?thesis
    using that d(2,4) by blast
qed

subsection \<open>Relinking the last bucket\<close>

definition last_ptr :: "nat \<Rightarrow> nat list \<Rightarrow> lptr" where
  "last_ptr b js = (if js = [] then FirstField else LastBkt b (last js))"

lemma last_ptr_simps [simp]: "last_ptr b [] = FirstField" "last_ptr b (js @ [i]) = LastBkt b i"
  by (simp_all add: last_ptr_def)

definition relink :: "bucket list \<Rightarrow> nat list \<Rightarrow> bptr \<Rightarrow> bucket list" where
  "relink bs js p = (if js = [] then bs else bs[last js := (bs ! last js)\<lparr>bnext := p\<rparr>])"

text \<open>The buckets of a list without their links.\<close>

definition bkts :: "bucket list \<Rightarrow> nat list \<Rightarrow> bucket list" where
  "bkts bs js = map (\<lambda>i. (bs ! i)\<lparr>bnext := NullB\<rparr>) js"

lemma length_relink [simp]: "length (relink bs js p) = length bs"
  by (simp add: relink_def)

lemma length_bkts [simp]: "length (bkts bs js) = length js"
  by (simp add: bkts_def)

lemma bkts_upd [simp]: "i \<notin> set js \<Longrightarrow> bkts (bs[i := e]) js = bkts bs js"
  by (auto simp: bkts_def) (metis nth_list_update_neq)

lemma bkts_append [simp]: "bkts bs (is @ js) = bkts bs is @ bkts bs js"
  by (simp add: bkts_def)

lemma bkts_Nil [simp]: "bkts bs [] = []"
  by (simp add: bkts_def)

lemma bkts_single [simp]: "i < length bs \<Longrightarrow> bkts (bs[i := e]) [i] = [e\<lparr>bnext := NullB\<rparr>]"
  by (simp add: bkts_def)

lemma nth_relink_other: "js = [] \<or> i \<noteq> last js \<Longrightarrow> relink bs js p ! i = bs ! i"
  by (auto simp: relink_def)

lemma bkts_relink [simp]:
  "\<forall>i\<in>set js. i < length bs \<Longrightarrow> bkts (relink bs js p) ks = bkts bs ks"
  by (auto simp: bkts_def relink_def nth_list_update)

lemma table_ok_occupied: "table_ok bs js \<Longrightarrow> i \<in> set js \<Longrightarrow> i < length bs \<and> bkey (bs ! i) \<noteq> 0"
  using table_okD(2) by blast

lemma table_ok_relink:
  assumes "table_ok bs js" and "set ks \<subseteq> set js"
  shows "table_ok (relink bs ks p) js"
proof (cases "ks = []")
  case False
  then have "last ks \<in> set js"
    using assms(2) by auto
  then show ?thesis
    using assms(1) table_ok_occupied False by (auto simp: relink_def intro!: table_ok_upd)
qed (simp add: assms(1) relink_def)

lemma chain_relink_last:
  assumes "chain bs b f js q" and "distinct js"
  shows "chain (relink bs js p) b (if js = [] then p else f) js p"
proof (cases js rule: rev_cases)
  case Nil
  then show ?thesis by (simp add: relink_def)
next
  case (snoc ks i)
  then show ?thesis
    using chain_relink [where bs = bs and p = f and e = "bs ! i" and r = p] assms
    by (simp add: relink_def)
qed

lemma chain_first: "chain bs b f js q \<Longrightarrow> chain bs b f' js q' \<Longrightarrow> js \<noteq> [] \<Longrightarrow> f = f'"
  by (cases js) auto

lemma last_next_ok:
  assumes "blocks h b = Some bs" and "chain bs b (first m) js q" and "mlast m = last_ptr b js"
  shows "last_next h m = Inr q"
  using assms by (cases js rule: rev_cases) (auto simp: last_next_def)

lemma set_last_next_ok:
  assumes "blocks h b = Some bs" and "chain bs b (first m) js q" and "mlast m = last_ptr b js"
  shows "set_last_next h m p =
    Inr (h\<lparr>blocks := (blocks h)(b \<mapsto> relink bs js p)\<rparr>,
         m\<lparr>first := (if js = [] then p else first m)\<rparr>)"
proof (cases js rule: rev_cases)
  case Nil
  have "h\<lparr>blocks := (blocks h)(b \<mapsto> bs)\<rparr> = h"
    using assms(1) by (simp add: fun_upd_idem)
  then show ?thesis
    using assms Nil by (simp add: set_last_next_def relink_def)
next
  case (snoc ks i)
  then show ?thesis
    using assms by (auto simp: set_last_next_def relink_def)
qed

subsection \<open>Moving one bucket during a resize\<close>

definition head_ptr :: "nat \<Rightarrow> nat list \<Rightarrow> bptr" where
  "head_ptr b js = (case js of [] \<Rightarrow> NullB | i # _ \<Rightarrow> Bkt b i)"

lemma head_ptr_simps [simp]: "head_ptr b [] = NullB" "head_ptr b (i # js) = Bkt b i"
  by (simp_all add: head_ptr_def)

text \<open>
  The state of \<^verbatim>\<open>hashmap_resize\<close> between two moves: the list runs through the moved
  buckets \<open>ns\<close> of the new block and goes on at the old buckets \<open>rest\<close>.
\<close>

definition resizing :: "bheap \<Rightarrow> hashmap \<Rightarrow> nat \<Rightarrow> bucket list \<Rightarrow> nat list \<Rightarrow> bucket list \<Rightarrow> nat list \<Rightarrow> bool"
where
  "resizing h m ob bs rest nbs ns \<longleftrightarrow>
     ob \<noteq> buckets m \<and> blocks h ob = Some bs \<and> chain bs ob (head_ptr ob rest) rest NullB \<and>
     blocks h (buckets m) = Some nbs \<and> length nbs = capacity m \<and> table_ok nbs ns \<and>
     chain nbs (buckets m) (first m) ns (head_ptr ob rest) \<and> mlast m = last_ptr (buckets m) ns \<and>
     length ns + length rest < capacity m"

lemma chain_head: "chain bs b p js NullB \<Longrightarrow> p = head_ptr b js"
  by (cases js) auto

lemma resize_step:
  assumes "resizing h m ob bs (r # rest) nbs ns" and "bkey (bs ! r) \<noteq> 0"
  obtains i where "resize_entry h m ob r =
      Inr (h\<lparr>blocks := (blocks h)(buckets m \<mapsto> nbs[i := bs ! r])\<rparr>, Bkt (buckets m) i)"
    and "i < length nbs" and "i \<notin> set ns" and "table_ok (nbs[i := bs ! r]) (ns @ [i])"
proof -
  have old: "blocks h ob = Some bs" "r < length bs" "bkey (bs ! r) \<noteq> 0"
    and new: "blocks h (buckets m) = Some nbs" "length nbs = capacity m" "table_ok nbs ns"
    and room: "length ns < length nbs"
    using assms by (auto simp: resizing_def)
  obtain i where i: "probe (length nbs) (\<lambda>e. bkey e = 0) h (buckets m) (length nbs)
        (unat (bhash (bs ! r)) mod length nbs) = Inr i"
      "i < length nbs" "bkey (nbs ! i) = 0" "reachable_slot nbs (unat (bhash (bs ! r))) i"
    using probe_free [OF new(1,3) room] .
  have "i \<notin> set ns"
    using i(3) new(3) by (simp add: table_okD)
  moreover have "table_ok (nbs[i := bs ! r]) (ns @ [i])"
    using table_ok_insert [OF new(3) i(2,3) old(3) i(4)] .
  moreover have "resize_entry h m ob r =
      Inr (h\<lparr>blocks := (blocks h)(buckets m \<mapsto> nbs[i := bs ! r])\<rparr>, Bkt (buckets m) i)"
    using i old new room by (simp add: resize_entry_def)
  ultimately show ?thesis
    using that i(2) by blast
qed

text \<open>What is left to reason about after one move.\<close>

lemma resizing_step:
  assumes r: "resizing h m ob bs (r # rest) nbs ns" and i: "i < length nbs" "i \<notin> set ns"
    and t: "table_ok (nbs[i := bs ! r]) (ns @ [i])"
  defines "nbs' \<equiv> relink (nbs[i := bs ! r]) ns (Bkt (buckets m) i)"
  shows "resizing (h\<lparr>blocks := (blocks h)(buckets m \<mapsto> nbs')\<rparr>)
      (m\<lparr>first := (if ns = [] then Bkt (buckets m) i else first m), mlast := LastBkt (buckets m) i\<rparr>)
      ob bs rest nbs' (ns @ [i])"
    and "bkts nbs' (ns @ [i]) = bkts nbs ns @ bkts bs [r]"
proof -
  have bound: "\<forall>j\<in>set ns. j < length nbs" and d: "distinct ns"
    using r by (auto simp: resizing_def table_okD)
  then have last: "ns \<noteq> [] \<Longrightarrow> last ns \<noteq> i \<and> last ns < length nbs"
    using i by auto
  have c: "chain nbs (buckets m) (first m) ns (Bkt ob r)"
    using r by (simp add: resizing_def)
  then have "chain (nbs[i := bs ! r]) (buckets m) (first m) ns (Bkt ob r)"
    using i by simp
  then have "chain nbs' (buckets m) (if ns = [] then Bkt (buckets m) i else first m) ns (Bkt (buckets m) i)"
    unfolding nbs'_def using d by (rule chain_relink_last)
  moreover have nth_i: "nbs' ! i = bs ! r"
    unfolding nbs'_def using last i by (subst nth_relink_other) auto
  moreover have "bnext (bs ! r) = head_ptr ob rest"
    using r by (auto simp: resizing_def intro: chain_head)
  moreover have "table_ok nbs' (ns @ [i])"
    unfolding nbs'_def using t by (rule table_ok_relink) auto
  ultimately show "resizing (h\<lparr>blocks := (blocks h)(buckets m \<mapsto> nbs')\<rparr>)
      (m\<lparr>first := (if ns = [] then Bkt (buckets m) i else first m), mlast := LastBkt (buckets m) i\<rparr>)
      ob bs rest nbs' (ns @ [i])"
    using r i by (auto simp: resizing_def nbs'_def intro: chain_head)
  show "bkts nbs' (ns @ [i]) = bkts nbs ns @ bkts bs [r]"
    unfolding nbs'_def using bound i by (simp add: bkts_def [of bs])
qed

text \<open>The parts of map and heap that moving buckets leaves alone.\<close>

definition same_frame :: "bheap \<Rightarrow> hashmap \<Rightarrow> bheap \<Rightarrow> hashmap \<Rightarrow> bool" where
  "same_frame h m h' m' \<longleftrightarrow>
     buckets m' = buckets m \<and> capacity m' = capacity m \<and> mcount m' = mcount m \<and>
     fresh h' = fresh h \<and> (\<forall>b. b \<noteq> buckets m \<longrightarrow> blocks h' b = blocks h b)"

lemma same_frame_trans: "same_frame h m h' m' \<Longrightarrow> same_frame h' m' h'' m'' \<Longrightarrow> same_frame h m h'' m''"
  by (simp add: same_frame_def)

lemma resize_loop_ok:
  assumes "resizing h m ob bs rest nbs ns" and "rest \<noteq> []" and "length rest \<le> fuel"
    and "\<forall>i\<in>set rest. bkey (bs ! i) \<noteq> 0"
  shows "\<exists>h' m' nbs' ns'. resize_loop fuel h m = Inr (h', m') \<and> resizing h' m' ob bs [] nbs' ns' \<and>
    bkts nbs' ns' = bkts nbs ns @ bkts bs rest \<and> same_frame h m h' m'"
  using assms
proof (induction fuel arbitrary: h m rest nbs ns)
  case (Suc fuel)
  from Suc.prems(2) obtain r rest' where rest: "rest = r # rest'"
    by (cases rest) auto
  note R = Suc.prems(1) [unfolded rest]
  obtain i where i: "resize_entry h m ob r =
      Inr (h\<lparr>blocks := (blocks h)(buckets m \<mapsto> nbs[i := bs ! r])\<rparr>, Bkt (buckets m) i)"
      "i < length nbs" "i \<notin> set ns" "table_ok (nbs[i := bs ! r]) (ns @ [i])"
    using resize_step [OF R] Suc.prems(4) rest by auto
  let ?nbs = "relink (nbs[i := bs ! r]) ns (Bkt (buckets m) i)"
  let ?h = "h\<lparr>blocks := (blocks h)(buckets m \<mapsto> ?nbs)\<rparr>"
  let ?m = "m\<lparr>first := (if ns = [] then Bkt (buckets m) i else first m), mlast := LastBkt (buckets m) i\<rparr>"
  have R': "resizing ?h ?m ob bs rest' ?nbs (ns @ [i])"
    and B: "bkts ?nbs (ns @ [i]) = bkts nbs ns @ bkts bs [r]"
    using resizing_step [OF R i(2-4)] by blast+
  have frame: "same_frame h m ?h ?m"
    by (simp add: same_frame_def)
  have start: "last_next h m = Inr (Bkt ob r)"
    using R last_next_ok [of h "buckets m" nbs m ns "Bkt ob r"] by (simp add: resizing_def)
  have link: "set_last_next (h\<lparr>blocks := (blocks h)(buckets m \<mapsto> nbs[i := bs ! r])\<rparr>) m
      (Bkt (buckets m) i) = Inr (?h, ?m\<lparr>mlast := mlast m\<rparr>)"
    using R i(2,3) set_last_next_ok [of "h\<lparr>blocks := (blocks h)(buckets m \<mapsto> nbs[i := bs ! r])\<rparr>"
        "buckets m" "nbs[i := bs ! r]" m ns "Bkt ob r"]
    by (simp add: resizing_def)
  have "last_next ?h ?m = Inr (head_ptr ob rest')"
    using R' last_next_ok [of ?h "buckets m" ?nbs ?m "ns @ [i]" "head_ptr ob rest'"]
    by (simp add: resizing_def)
  then have loop: "resize_loop (Suc fuel) h m =
      (if head_ptr ob rest' \<noteq> NullB then resize_loop fuel ?h ?m else Inr (?h, ?m))"
    using start link i(1) by simp
  show ?case
  proof (cases "rest' = []")
    case True
    then have "resize_loop (Suc fuel) h m = Inr (?h, ?m)"
      and "resizing ?h ?m ob bs [] ?nbs (ns @ [i])"
      and "bkts ?nbs (ns @ [i]) = bkts nbs ns @ bkts bs rest"
      using loop R' B rest by simp_all
    then show ?thesis
      using frame by blast
  next
    case False
    then have "head_ptr ob rest' \<noteq> NullB"
      by (cases rest') auto
    moreover obtain h' m' nbs' ns' where "resize_loop fuel ?h ?m = Inr (h', m')"
        "resizing h' m' ob bs [] nbs' ns'" "bkts nbs' ns' = bkts ?nbs (ns @ [i]) @ bkts bs rest'"
        "same_frame ?h ?m h' m'"
      using Suc.IH [OF R' False] Suc.prems(3,4) rest by auto
    moreover have "bkts bs rest = bkts bs [r] @ bkts bs rest'"
      by (simp add: rest flip: bkts_append)
    ultimately show ?thesis
      using loop B same_frame_trans [OF frame] by (metis append_assoc)
  qed
qed simp

subsection \<open>The representation invariant\<close>

definition bkt_bytes :: "memory \<Rightarrow> bucket \<Rightarrow> u8 list" where
  "bkt_bytes mem e = load_bytes mem (bkey e) (unat (bksize e))"

definition entries_ok :: "memory \<Rightarrow> bucket list \<Rightarrow> bool" where
  "entries_ok mem es \<longleftrightarrow>
     distinct (map (bkt_bytes mem) es) \<and> (\<forall>e\<in>set es. bhash e = hash_data (bkt_bytes mem e))"

definition entries_abs :: "memory \<Rightarrow> bucket list \<Rightarrow> (u8 list \<times> u64) list" where
  "entries_abs mem es = map (\<lambda>e. (bkt_bytes mem e, bvalue e)) es"

text \<open>Capacities are \<open>20 * 2 ^ k\<close>; growth is paid for by entries, so capacities stay bounded.\<close>

definition cap_ok :: "nat \<Rightarrow> nat \<Rightarrow> bool" where
  "cap_ok cap n \<longleftrightarrow>
     (\<exists>k. cap = 20 * 2 ^ k \<and> (k = 0 \<or> 15 * 2 ^ k \<le> 2 * n)) \<and> cap < 2 ^ 31 \<and> n < cap"

definition hm_rep :: "memory \<Rightarrow> bheap \<Rightarrow> hashmap \<Rightarrow> bucket list \<Rightarrow> nat list \<Rightarrow> bool" where
  "hm_rep mem h m bs js \<longleftrightarrow>
     blocks h (buckets m) = Some bs \<and> (\<forall>b\<ge>fresh h. blocks h b = None) \<and>
     length bs = capacity m \<and> table_ok bs js \<and> entries_ok mem (bkts bs js) \<and>
     chain bs (buckets m) (first m) js NullB \<and> mlast m = last_ptr (buckets m) js \<and>
     mcount m = length js \<and> cap_ok (capacity m) (mcount m)"

lemma hm_repD:
  assumes "hm_rep mem h m bs js"
  shows "blocks h (buckets m) = Some bs" and "length bs = capacity m" and "table_ok bs js"
    and "entries_ok mem (bkts bs js)" and "chain bs (buckets m) (first m) js NullB"
    and "mlast m = last_ptr (buckets m) js" and "mcount m = length js"
    and "cap_ok (capacity m) (mcount m)"
  using assms unfolding hm_rep_def by blast+

lemma cap_ok_grow:
  assumes "cap_ok cap n" and "needs_resize n cap" and "cap * 2 < 2 ^ 31"
  shows "cap_ok (cap * 2) n"
proof -
  obtain k where k: "cap = 20 * 2 ^ k"
    using assms(1) by (auto simp: cap_ok_def)
  then have "15 * 2 ^ k < n + 1"
    using needs_resize_imp assms(2) by simp
  then have "\<exists>k. cap * 2 = 20 * 2 ^ k \<and> (k = 0 \<or> 15 * 2 ^ k \<le> 2 * n)"
    using k by (intro exI [of _ "Suc k"]) simp
  then show ?thesis
    using assms(1,3) by (simp add: cap_ok_def)
qed

lemma cap_ok_insert: "cap_ok cap n \<Longrightarrow> \<not> needs_resize n cap \<Longrightarrow> cap_ok cap (n + 1)"
  unfolding cap_ok_def using no_resize_room by fastforce

text \<open>Fewer than \<open>15 * 2 ^ 25\<close> entries never need a capacity beyond the range of \<^verbatim>\<open>int\<close>.\<close>

lemma cap_ok_no_overflow:
  assumes "cap_ok cap n" and "n < 15 * 2 ^ 25"
  shows "cap * 2 < 2 ^ 31"
proof -
  obtain k where k: "cap = 20 * 2 ^ k" "k = 0 \<or> 15 * 2 ^ k \<le> 2 * n"
    using assms(1) by (auto simp: cap_ok_def)
  have "k \<le> 25"
  proof (rule ccontr)
    assume "\<not> k \<le> 25"
    then have "(2 :: nat) ^ 26 \<le> 2 ^ k" by (intro power_increasing) auto
    then show False using k(2) assms(2) \<open>\<not> k \<le> 25\<close> by simp
  qed
  then have "(2 :: nat) ^ k \<le> 2 ^ 25" by (intro power_increasing) auto
  then show ?thesis using k(1) by simp
qed

lemma hashmap_create_rep:
  assumes "\<forall>b\<ge>fresh h. blocks h b = None" and "hashmap_create h = (h', m)"
  shows "hm_rep mem h' m (replicate 20 zero_bucket) []"
proof -
  have "cap_ok 20 0"
    unfolding cap_ok_def by (auto intro: exI [of _ 0])
  then show ?thesis
    using assms by (auto simp: hashmap_create_def calloc_buckets_def hm_rep_def entries_ok_def
        table_ok_empty)
qed

lemma hashmap_resize_rep:
  assumes rep: "hm_rep mem h m bs js" and grow: "needs_resize (mcount m) (capacity m)"
    and small: "capacity m * 2 < 2 ^ 31"
  shows "\<exists>h' m' nbs ns. hashmap_resize h m = Inr (h', m') \<and> hm_rep mem h' m' nbs ns \<and>
    bkts nbs ns = bkts bs js \<and> capacity m' = capacity m * 2"
proof -
  let ?cap = "capacity m * 2"
  let ?h = "h\<lparr>blocks := (blocks h)(fresh h \<mapsto> replicate ?cap zero_bucket), fresh := Suc (fresh h)\<rparr>"
  let ?m = "m\<lparr>capacity := ?cap, buckets := fresh h, mlast := FirstField\<rparr>"
  have old: "buckets m < fresh h"
    using rep by (auto simp: hm_rep_def not_le intro: ccontr)
  have "js \<noteq> []"
  proof
    assume "js = []"
    then have "needs_resize 0 (capacity m)" and "\<exists>k. capacity m = 20 * 2 ^ k"
      using rep grow by (auto simp: hm_rep_def cap_ok_def)
    then obtain k where "needs_resize 0 (20 * 2 ^ k)"
      by auto
    then show False
      using needs_resize_imp [of 0 k] by simp
  qed
  have occ: "\<forall>i\<in>set js. bkey (bs ! i) \<noteq> 0"
    using rep table_ok_occupied by (auto simp: hm_rep_def)
  have "length js < ?cap" and "length js \<le> capacity m"
    using rep by (auto simp: hm_rep_def cap_ok_def)
  moreover have "first m = head_ptr (buckets m) js"
    using rep chain_head by (auto simp: hm_rep_def)
  ultimately have start: "resizing ?h ?m (buckets m) bs js (replicate ?cap zero_bucket) []"
    using rep old by (auto simp: resizing_def hm_rep_def table_ok_empty)
  obtain h' m' nbs ns where loop: "resize_loop (capacity m) ?h ?m = Inr (h', m')"
      and fin: "resizing h' m' (buckets m) bs [] nbs ns" and bk: "bkts nbs ns = bkts bs js"
      and frame: "same_frame ?h ?m h' m'"
    using resize_loop_ok [OF start \<open>js \<noteq> []\<close> \<open>length js \<le> capacity m\<close> occ] by auto
  let ?h' = "h'\<lparr>blocks := (blocks h')(buckets m := None)\<rparr>"
  have len: "length ns = length js"
    using arg_cong [OF bk, of length] by simp
  have "hashmap_resize h m = Inr (?h', m')"
    using loop small fin
    by (simp add: hashmap_resize_def calloc_buckets_def free_buckets_def resizing_def)
  moreover have "hm_rep mem ?h' m' nbs ns"
    using rep fin frame bk len cap_ok_grow [OF _ grow small]
    by (auto simp: hm_rep_def resizing_def same_frame_def)
  moreover have "capacity m' = ?cap"
    using frame by (simp add: same_frame_def)
  ultimately show ?thesis using bk by blast
qed

subsection \<open>Searching\<close>

lemma bkt_bytes_bnext [simp]: "bkt_bytes mem (e\<lparr>bnext := p\<rparr>) = bkt_bytes mem e"
  by (simp add: bkt_bytes_def)

lemma entries_ok_bkts:
  assumes "entries_ok mem (bkts bs js)"
  shows "distinct (map (\<lambda>i. bkt_bytes mem (bs ! i)) js)"
    and "i \<in> set js \<Longrightarrow> bhash (bs ! i) = hash_data (bkt_bytes mem (bs ! i))"
  using assms by (auto simp: entries_ok_def bkts_def comp_def)

lemma matches_iff:
  assumes "bkey e \<noteq> 0" and "bhash e = hash_data (bkt_bytes mem e)"
  shows "entry_matches mem key ksize (hash_data (load_bytes mem key (unat ksize))) e \<longleftrightarrow>
    bkt_bytes mem e = load_bytes mem key (unat ksize)"
proof
  assume "bkt_bytes mem e = load_bytes mem key (unat ksize)"
  moreover from arg_cong [OF this, of length] have "bksize e = ksize"
    by (simp add: bkt_bytes_def word_unat_eq_iff)
  ultimately show "entry_matches mem key ksize (hash_data (load_bytes mem key (unat ksize))) e"
    using assms(2) by (simp add: entry_matches_def bkt_bytes_def)
qed (use assms(1) in \<open>auto simp: entry_matches_def bkt_bytes_def\<close>)

lemma mod_distance_inj:
  assumes "d' < d" and "d < (n :: nat)"
  shows "(s + d') mod n \<noteq> (s + d) mod n"
proof
  assume "(s + d') mod n = (s + d) mod n"
  then have "n dvd (s + d) - (s + d')"
    using assms(1) by (metis add_le_mono1 add.commute less_imp_le mod_eq_dvd_iff_nat)
  then have "n \<le> d - d'"
    using assms(1) by (intro dvd_imp_le) auto
  then show False using assms by linarith
qed

lemma find_entry_present:
  assumes rep: "hm_rep mem h m bs js" and i: "i \<in> set js"
    and bytes: "bkt_bytes mem (bs ! i) = load_bytes mem key (unat ksize)"
  shows "find_entry mem h m key ksize (hash_data (load_bytes mem key (unat ksize))) = Inr i"
proof -
  let ?hash = "hash_data (load_bytes mem key (unat ksize))"
  let ?stop = "entry_matches mem key ksize ?hash"
  have blk: "blocks h (buckets m) = Some bs" "length bs = capacity m" and t: "table_ok bs js"
    and eo: "entries_ok mem (bkts bs js)"
    using rep by (auto simp: hm_rep_def)
  have h: "bhash (bs ! i) = ?hash"
    using entries_ok_bkts(2) [OF eo i] bytes by simp
  obtain d where d: "d < length bs" "i = (unat ?hash + d) mod length bs"
      "\<forall>d'<d. bkey (bs ! ((unat ?hash + d') mod length bs)) \<noteq> 0"
    using table_okD(4) [OF t i] h by (auto simp: reachable_slot_def)
  have "\<not> ?stop (bs ! ((unat ?hash + d') mod length bs))" if "d' < d" for d'
  proof -
    let ?j = "(unat ?hash + d') mod length bs"
    have "?j < length bs" using d(1) by (intro mod_less_divisor) linarith
    then have j: "?j \<in> set js" using d(3) that table_okD(2) [OF t] by blast
    have "?j \<noteq> i" using mod_distance_inj [OF that d(1)] d(2) by simp
    then have "bkt_bytes mem (bs ! ?j) \<noteq> bkt_bytes mem (bs ! i)"
      using entries_ok_bkts(1) [OF eo] i j by (auto simp: distinct_map dest: inj_onD)
    then show ?thesis
      using matches_iff entries_ok_bkts(2) [OF eo j] d(3) that bytes by metis
  qed
  moreover have "?stop (bs ! ((unat ?hash + d) mod length bs))"
    using matches_iff entries_ok_bkts(2) [OF eo i] table_ok_occupied [OF t i] bytes d(2) by metis
  moreover have "0 < length bs" using d(1) by linarith
  ultimately have "probe (length bs) ?stop h (buckets m) (length bs) (unat ?hash mod length bs) = Inr i"
    using probe_first [OF blk(1) _ d(1)] d(2) by blast
  then show ?thesis
    using blk \<open>0 < length bs\<close> by (simp add: find_entry_def)
qed

lemma find_entry_absent:
  assumes rep: "hm_rep mem h m bs js"
    and absent: "\<forall>i\<in>set js. bkt_bytes mem (bs ! i) \<noteq> load_bytes mem key (unat ksize)"
  obtains i where
    "find_entry mem h m key ksize (hash_data (load_bytes mem key (unat ksize))) = Inr i"
    and "i < length bs" and "bkey (bs ! i) = 0"
    and "reachable_slot bs (unat (hash_data (load_bytes mem key (unat ksize)))) i"
proof -
  let ?hash = "hash_data (load_bytes mem key (unat ksize))"
  let ?stop = "entry_matches mem key ksize ?hash"
  have blk: "blocks h (buckets m) = Some bs" "length bs = capacity m" and t: "table_ok bs js"
    and eo: "entries_ok mem (bkts bs js)" and room: "length js < length bs"
    using rep by (auto simp: hm_rep_def cap_ok_def)
  have stop: "?stop (bs ! j) \<longleftrightarrow> bkey (bs ! j) = 0" if "j < length bs" for j
  proof (cases "bkey (bs ! j) = 0")
    case False
    then have "j \<in> set js" using that table_okD(2) [OF t] by blast
    then show ?thesis
      using False absent entries_ok_bkts(2) [OF eo] matches_iff by metis
  qed (simp add: entry_matches_def)
  obtain i0 where i0: "i0 < length bs" "bkey (bs ! i0) = 0"
    using table_ok_free_slot [OF t room] by blast
  have range: "(unat ?hash + d) mod length bs < length bs" for d
    using i0(1) by (intro mod_less_divisor) linarith
  obtain d where "d < length bs" "?stop (bs ! ((unat ?hash + d) mod length bs))"
      "\<forall>d'<d. \<not> ?stop (bs ! ((unat ?hash + d') mod length bs))" and
      p: "probe (length bs) ?stop h (buckets m) (length bs) (unat ?hash mod length bs) =
         Inr ((unat ?hash + d) mod length bs)"
    using probe_least [OF blk(1) i0(1), where stop = ?stop and s = "unat ?hash"] stop [OF i0(1)] i0(2)
    by blast
  then have "bkey (bs ! ((unat ?hash + d) mod length bs)) = 0"
    and "reachable_slot bs (unat ?hash) ((unat ?hash + d) mod length bs)"
    using stop [OF range] unfolding reachable_slot_def by blast+
  moreover have "find_entry mem h m key ksize ?hash = Inr ((unat ?hash + d) mod length bs)"
    using p blk i0(1) by (auto simp: find_entry_def)
  ultimately show ?thesis
    using that range by blast
qed

subsection \<open>Abstraction\<close>

text \<open>The buckets along the list, and the association list of key bytes and values.\<close>

definition hm_buckets :: "bheap \<Rightarrow> hashmap \<Rightarrow> bucket list res" where
  "hm_buckets h m = walk (capacity m) h (first m) (\<lambda>e es. Inr (es @ [e])) []"

definition hm_entries :: "memory \<Rightarrow> bheap \<Rightarrow> hashmap \<Rightarrow> (u8 list \<times> u64) list" where
  "hm_entries mem h m = (case hm_buckets h m of Inl _ \<Rightarrow> [] | Inr es \<Rightarrow> entries_abs mem es)"

definition hm_inv :: "memory \<Rightarrow> bheap \<Rightarrow> hashmap \<Rightarrow> bool" where
  "hm_inv mem h m \<longleftrightarrow> (\<exists>bs js. hm_rep mem h m bs js)"

lemma walk_chain:
  assumes "blocks h b = Some bs"
  shows "chain bs b p js NullB \<Longrightarrow> length js \<le> fuel \<Longrightarrow>
    walk fuel h p body u = foldR body (map ((!) bs) js) u"
proof (induction js arbitrary: fuel p u)
  case (Cons i js)
  from Cons.prems obtain f where fuel: "fuel = Suc f"
    by (cases fuel) auto
  have "walk f h (bnext (bs ! i)) body = foldR body (map ((!) bs) js)"
    using Cons fuel by (intro ext) simp
  then show ?case
    using Cons.prems fuel assms by simp
qed simp

lemma foldR_collect: "foldR (\<lambda>x acc. Inr (acc @ [f x])) xs acc = Inr (acc @ map f xs)"
  by (induction xs arbitrary: acc) auto

lemma foldR_pure: "foldR (\<lambda>x s. Inr (f x s)) xs s = Inr (fold f xs s)"
  by (induction xs arbitrary: s) auto

lemma hm_rep_walk:
  assumes "hm_rep mem h m bs js"
  shows "walk (capacity m) h (first m) body u = foldR body (map ((!) bs) js) u"
  using assms by (intro walk_chain) (auto simp: hm_rep_def cap_ok_def)

lemma hm_rep_buckets: "hm_rep mem h m bs js \<Longrightarrow> hm_buckets h m = Inr (map ((!) bs) js)"
  by (simp add: hm_buckets_def hm_rep_walk foldR_collect [of "\<lambda>e. e", simplified])

lemma hm_rep_entries:
  "hm_rep mem h m bs js \<Longrightarrow>
     hm_entries mem h m = map (\<lambda>i. (bkt_bytes mem (bs ! i), bvalue (bs ! i))) js"
  by (simp add: hm_entries_def hm_rep_buckets entries_abs_def)

lemma hm_rep_length: "hm_rep mem h m bs js \<Longrightarrow> length (hm_entries mem h m) = mcount m"
  using hm_rep_entries hm_repD(7) by fastforce

text \<open>The entries depend on the buckets without their links only.\<close>

lemma hm_entries_bkts:
  assumes "hm_rep mem h m bs js"
  shows "hm_entries mem h m = entries_abs mem (bkts bs js)"
  by (simp add: hm_rep_entries [OF assms] entries_abs_def bkts_def)

lemma entries_absent:
  assumes "hm_rep mem h m bs js"
  shows "k \<notin> fst ` set (hm_entries mem h m) \<longleftrightarrow> (\<forall>i\<in>set js. bkt_bytes mem (bs ! i) \<noteq> k)"
  by (auto simp: hm_rep_entries [OF assms] image_iff)

subsection \<open>Insertion and overwriting\<close>

lemma maybe_resize_rep:
  assumes rep: "hm_rep mem h m bs js" and small: "mcount m < 15 * 2 ^ 25"
  shows "\<exists>h' m' bs' js'. maybe_resize h m = Inr (h', m') \<and> hm_rep mem h' m' bs' js' \<and>
    hm_entries mem h' m' = hm_entries mem h m \<and> cap_ok (capacity m') (mcount m' + 1)"
proof (cases "needs_resize (mcount m) (capacity m)")
  case True
  have cap: "cap_ok (capacity m) (mcount m)"
    using rep by (rule hm_repD)
  obtain h' m' bs' js' where r: "hashmap_resize h m = Inr (h', m')" "hm_rep mem h' m' bs' js'"
      "bkts bs' js' = bkts bs js" "capacity m' = capacity m * 2"
    using hashmap_resize_rep [OF rep True cap_ok_no_overflow [OF cap small]] by blast
  have "mcount m' = mcount m"
    using hm_rep_length [OF r(2)] hm_rep_length [OF rep] hm_entries_bkts [OF rep] hm_entries_bkts [OF r(2)] r(3)
    by simp
  then have "cap_ok (capacity m') (mcount m' + 1)"
    using r(2,4) cap unfolding hm_rep_def cap_ok_def by auto
  then show ?thesis
    using True r hm_entries_bkts [OF rep] hm_entries_bkts [OF r(2)]
    by (auto simp: maybe_resize_def)
next
  case False
  moreover have "cap_ok (capacity m) (mcount m)"
    using rep unfolding hm_rep_def by blast
  ultimately have "maybe_resize h m = Inr (h, m)" and "cap_ok (capacity m) (mcount m + 1)"
    using cap_ok_insert by (auto simp: maybe_resize_def)
  then show ?thesis
    using rep by blast
qed

lemma link_entry_rep:
  assumes rep: "hm_rep mem h m bs js" and cap: "cap_ok (capacity m) (mcount m + 1)"
    and key: "key \<noteq> 0" and i: "i < length bs" "bkey (bs ! i) = 0"
    and hash: "hash = hash_data (load_bytes mem key (unat ksize))"
    and reach: "reachable_slot bs (unat hash) i"
    and absent: "\<forall>j\<in>set js. bkt_bytes mem (bs ! j) \<noteq> load_bytes mem key (unat ksize)"
  shows "ok (link_entry h m i key ksize hash val) (\<lambda>(h', m'). hm_inv mem h' m' \<and>
    hm_entries mem h' m' = hm_entries mem h m @ [(load_bytes mem key (unat ksize), val)])"
proof -
  let ?e = "\<lparr>bnext = NullB, bkey = key, bksize = ksize, bhash = hash, bvalue = val\<rparr>"
  let ?bs = "(relink bs js (Bkt (buckets m) i))[i := ?e]"
  let ?h = "h\<lparr>blocks := (blocks h)(buckets m \<mapsto> ?bs)\<rparr>"
  let ?m = "m\<lparr>first := (if js = [] then Bkt (buckets m) i else first m),
      mlast := LastBkt (buckets m) i, mcount := mcount m + 1\<rparr>"
  have blk: "blocks h (buckets m) = Some bs" and t: "table_ok bs js"
    and c: "chain bs (buckets m) (first m) js NullB" and l: "mlast m = last_ptr (buckets m) js"
    using rep by (auto simp: hm_rep_def)
  have notin: "i \<notin> set js" and bound: "\<forall>j\<in>set js. j < length bs"
    using t i by (auto simp: table_okD)
  have "link_entry h m i key ksize hash val = Inr (?h, ?m)"
    using set_last_next_ok [OF blk c l, of "Bkt (buckets m) i"] i(1) by (simp add: link_entry_def)
  moreover have swap: "?bs = relink (bs[i := ?e]) js (Bkt (buckets m) i)"
    using notin last_in_set [of js] by (cases "last js = i") (auto simp: relink_def list_update_swap)
  have tab: "table_ok ?bs (js @ [i])"
    unfolding swap using table_ok_insert [OF t i, of ?e] key reach
    by (intro table_ok_relink) auto
  have bk: "bkts ?bs (js @ [i]) = bkts bs js @ [?e]"
    unfolding bkts_append using notin bound i(1) by simp
  have ch: "chain ?bs (buckets m) (first ?m) (js @ [i]) NullB"
    using chain_relink_last [OF c table_okD(1) [OF t], of "Bkt (buckets m) i"] notin i(1) by simp
  have eo: "entries_ok mem (bkts bs js @ [?e])"
    using rep absent hash
    by (auto simp: hm_rep_def entries_ok_def bkts_def bkt_bytes_def)
  have rep': "hm_rep mem ?h ?m ?bs (js @ [i])"
    using rep tab ch eo bk cap by (auto simp: hm_rep_def)
  moreover have "hm_entries mem ?h ?m = hm_entries mem h m @ [(load_bytes mem key (unat ksize), val)]"
    unfolding hm_entries_bkts [OF rep'] hm_entries_bkts [OF rep] bk
    by (simp add: entries_abs_def bkt_bytes_def)
  moreover from rep' have "hm_inv mem ?h ?m"
    unfolding hm_inv_def by blast
  ultimately show ?thesis
    by simp
qed

text \<open>Writing a bucket that keeps its place, its key bytes and its link.\<close>

lemma overwrite_rep:
  assumes rep: "hm_rep mem h m bs js" and i: "i \<in> set js"
    and e: "bkey e \<noteq> 0" "bhash e = bhash (bs ! i)" "bnext e = bnext (bs ! i)"
      "bkt_bytes mem e = bkt_bytes mem (bs ! i)"
  shows "ok (bkt_put h (buckets m) i e) (\<lambda>h'. hm_inv mem h' m \<and>
    hm_entries mem h' m = AList.update (bkt_bytes mem (bs ! i)) (bvalue e) (hm_entries mem h m))"
proof -
  let ?bs = "bs[i := e]"
  let ?h = "h\<lparr>blocks := (blocks h)(buckets m \<mapsto> ?bs)\<rparr>"
  have blk: "blocks h (buckets m) = Some bs" and t: "table_ok bs js"
    and c: "chain bs (buckets m) (first m) js NullB" and eo: "entries_ok mem (bkts bs js)"
    using rep by (auto simp: hm_rep_def)
  have bound: "i < length bs"
    using t i by (simp add: table_okD)
  have nth: "bnext (?bs ! j) = bnext (bs ! j)" "bkt_bytes mem (?bs ! j) = bkt_bytes mem (bs ! j)"
      "bhash (?bs ! j) = bhash (bs ! j)" for j
    using e bound by (cases "j = i"; simp)+
  have "chain ?bs (buckets m) (first m) js NullB"
    using c nth(1) chain_cong [of js ?bs bs] by simp
  moreover have "entries_ok mem (bkts ?bs js)"
    using eo nth by (simp add: entries_ok_def bkts_def comp_def)
  ultimately have rep': "hm_rep mem ?h m ?bs js"
    using rep table_ok_upd [OF t i e(1,2)] by (auto simp: hm_rep_def)
  have "hm_entries mem ?h m =
      map (\<lambda>j. (bkt_bytes mem (bs ! j), if j = i then bvalue e else bvalue (bs ! j))) js"
    unfolding hm_rep_entries [OF rep'] nth(2) using bound by (auto simp: nth_list_update)
  also have "\<dots> = AList.update (bkt_bytes mem (bs ! i)) (bvalue e) (hm_entries mem h m)"
    unfolding hm_rep_entries [OF rep]
    by (rule alist_update_at [OF i entries_ok_bkts(1) [OF eo], symmetric])
  finally have "hm_entries mem ?h m =
      AList.update (bkt_bytes mem (bs ! i)) (bvalue e) (hm_entries mem h m)" .
  moreover from rep' have "hm_inv mem ?h m"
    unfolding hm_inv_def by blast
  ultimately show ?thesis
    using blk bound by simp
qed

subsection \<open>The operations\<close>

abbreviation (input) key_bytes :: "memory \<Rightarrow> ptr \<Rightarrow> u64 \<Rightarrow> u8 list" where
  "key_bytes mem key ksize \<equiv> load_bytes mem key (unat ksize)"

text \<open>How a search ends, with what it says about the entries.\<close>

lemma search_cases [consumes 1, case_names absent present]:
  assumes rep: "hm_rep mem h m bs js"
  obtains (absent) i where
      "find_entry mem h m key ksize (hash_data (key_bytes mem key ksize)) = Inr i"
      "i < length bs" "bkey (bs ! i) = 0" "bs ! i = zero_bucket"
      "reachable_slot bs (unat (hash_data (key_bytes mem key ksize))) i"
      "\<forall>j\<in>set js. bkt_bytes mem (bs ! j) \<noteq> key_bytes mem key ksize"
      "map_of (hm_entries mem h m) (key_bytes mem key ksize) = None"
      "key_bytes mem key ksize \<notin> fst ` set (hm_entries mem h m)"
  | (present) i where
      "find_entry mem h m key ksize (hash_data (key_bytes mem key ksize)) = Inr i"
      "i \<in> set js" "i < length bs" "bkey (bs ! i) \<noteq> 0"
      "bkt_bytes mem (bs ! i) = key_bytes mem key ksize"
      "map_of (hm_entries mem h m) (key_bytes mem key ksize) = Some (bvalue (bs ! i))"
proof (cases "\<forall>j\<in>set js. bkt_bytes mem (bs ! j) \<noteq> key_bytes mem key ksize")
  case True
  then show ?thesis
    using find_entry_absent [OF rep True] absent entries_absent [OF rep] map_of_eq_None_iff
      table_okD(3) [OF hm_repD(3) [OF rep]] by metis
next
  case False
  then obtain i where i: "i \<in> set js" "bkt_bytes mem (bs ! i) = key_bytes mem key ksize"
    by blast
  have "distinct (map fst (hm_entries mem h m))"
    using entries_ok_bkts(1) [OF hm_repD(4) [OF rep]] by (simp add: hm_rep_entries [OF rep] comp_def)
  moreover have "(key_bytes mem key ksize, bvalue (bs ! i)) \<in> set (hm_entries mem h m)"
    using i by (force simp: hm_rep_entries [OF rep])
  ultimately have "map_of (hm_entries mem h m) (key_bytes mem key ksize) = Some (bvalue (bs ! i))"
    by simp
  then show ?thesis
    using present i find_entry_present [OF rep i] table_ok_occupied [OF hm_repD(3) [OF rep] i(1)]
    by blast
qed

text \<open>
  What an inserting operation meets after the possible resize: the searched bucket
  \<open>e\<close> at index \<open>i\<close>, and what its two continuations do to the entries.
\<close>

definition stores :: "memory \<Rightarrow> bheap \<Rightarrow> hashmap \<Rightarrow> ptr \<Rightarrow> u64 \<Rightarrow> u64 \<Rightarrow> bheap \<Rightarrow> hashmap \<Rightarrow> bool" where
  "stores mem h m key ksize val h' m' \<longleftrightarrow> hm_inv mem h' m' \<and>
     hm_entries mem h' m' = AList.update (key_bytes mem key ksize) val (hm_entries mem h m)"

definition insert_view ::
  "memory \<Rightarrow> bheap \<Rightarrow> hashmap \<Rightarrow> ptr \<Rightarrow> u64 \<Rightarrow> u64 \<Rightarrow> bheap \<Rightarrow> hashmap \<Rightarrow> nat \<Rightarrow> bucket \<Rightarrow> bool" where
  "insert_view mem h m key ksize val h1 m1 i e \<longleftrightarrow>
     maybe_resize h m = Inr (h1, m1) \<and> hm_inv mem h1 m1 \<and>
     hm_entries mem h1 m1 = hm_entries mem h m \<and>
     find_entry mem h1 m1 key ksize (hash_data (key_bytes mem key ksize)) = Inr i \<and>
     bkt_get h1 (buckets m1) i = Inr e \<and>
     (if bkey e = 0
      then map_of (hm_entries mem h m) (key_bytes mem key ksize) = None \<and>
        ok (link_entry h1 m1 i key ksize (hash_data (key_bytes mem key ksize)) val)
          (\<lambda>(h', m'). stores mem h m key ksize val h' m')
      else map_of (hm_entries mem h m) (key_bytes mem key ksize) = Some (bvalue e) \<and>
        key_bytes mem (bkey e) ksize = key_bytes mem key ksize \<and>
        (\<forall>k\<in>{key, bkey e}. ok (bkt_put h1 (buckets m1) i (e\<lparr>bkey := k, bvalue := val\<rparr>))
          (\<lambda>h'. stores mem h m key ksize val h' m1)))"

lemma insert_view_exists:
  assumes inv: "hm_inv mem h m" and key: "key \<noteq> 0" and small: "mcount m < 15 * 2 ^ 25"
  shows "\<exists>h1 m1 i e. insert_view mem h m key ksize val h1 m1 i e"
proof -
  obtain bs0 js0 where rep0: "hm_rep mem h m bs0 js0"
    using inv unfolding hm_inv_def by blast
  obtain h1 m1 bs js where r: "maybe_resize h m = Inr (h1, m1)" and rep: "hm_rep mem h1 m1 bs js"
      and same: "hm_entries mem h1 m1 = hm_entries mem h m" and cap: "cap_ok (capacity m1) (mcount m1 + 1)"
    using maybe_resize_rep [OF rep0 small] by blast
  have inv1: "hm_inv mem h1 m1"
    using rep unfolding hm_inv_def by blast
  note blk = hm_repD(1) [OF rep]
  from rep show ?thesis
  proof (cases rule: search_cases [where key = key and ksize = ksize])
    case (absent i)
    have "ok (link_entry h1 m1 i key ksize (hash_data (key_bytes mem key ksize)) val)
        (\<lambda>(h', m'). stores mem h m key ksize val h' m')"
      using link_entry_rep [OF rep cap key absent(2,3) refl absent(5,6), of val]
        alist_update_new [OF absent(8), of val] same by (simp add: stores_def)
    then have "insert_view mem h m key ksize val h1 m1 i (bs ! i)"
      using r same inv1 blk absent(1-3,7) by (simp add: insert_view_def)
    then show ?thesis by blast
  next
    case (present i)
    have ks: "bksize (bs ! i) = ksize"
      using arg_cong [OF present(5), of length] by (simp add: bkt_bytes_def word_unat_eq_iff)
    have "ok (bkt_put h1 (buckets m1) i ((bs ! i)\<lparr>bkey := k, bvalue := val\<rparr>))
        (\<lambda>h'. stores mem h m key ksize val h' m1)" if "k \<in> {key, bkey (bs ! i)}" for k
    proof -
      have "bkt_bytes mem ((bs ! i)\<lparr>bkey := k, bvalue := val\<rparr>) = bkt_bytes mem (bs ! i)"
        using that ks present(5) by (auto simp: bkt_bytes_def)
      then show ?thesis
        using overwrite_rep [OF rep present(2), of "(bs ! i)\<lparr>bkey := k, bvalue := val\<rparr>"] that
          present(4,5) key same by (auto simp: stores_def)
    qed
    then have "insert_view mem h m key ksize val h1 m1 i (bs ! i)"
      using r same inv1 blk present(1,3-6) ks by (simp add: insert_view_def bkt_bytes_def)
    then show ?thesis by blast
  qed
qed

lemma hashmap_set_ok:
  assumes "hm_inv mem h m" and "key \<noteq> 0" and "mcount m < 15 * 2 ^ 25"
  shows "ok (hashmap_set mem h m key ksize val) (\<lambda>(h', m'). stores mem h m key ksize val h' m')"
proof -
  obtain h1 m1 i e where v: "insert_view mem h m key ksize val h1 m1 i e"
    using insert_view_exists [OF assms] by blast
  have "e\<lparr>bkey := bkey e, bvalue := val\<rparr> = e\<lparr>bvalue := val\<rparr>"
    by simp
  then show ?thesis
    using v by (simp add: hashmap_set_def insert_view_def ok_bindR_eq split: if_splits)
qed

lemma hashmap_get_ok:
  assumes "hm_inv mem h m"
  shows "hashmap_get mem h m key ksize =
    Inr (case map_of (hm_entries mem h m) (key_bytes mem key ksize) of
           None \<Rightarrow> (False, 0) | Some v \<Rightarrow> (True, v))"
proof -
  obtain bs js where rep: "hm_rep mem h m bs js"
    using assms unfolding hm_inv_def by blast
  note blk = hm_repD(1) [OF rep]
  from rep show ?thesis
    by (cases rule: search_cases [where key = key and ksize = ksize])
      (simp_all add: hashmap_get_def blk zero_bucket_def)
qed

lemma hm_inv_distinct: "hm_inv mem h m \<Longrightarrow> distinct (map fst (hm_entries mem h m))"
  using entries_ok_bkts(1) [OF hm_repD(4)]
  by (fastforce simp: hm_inv_def hm_rep_entries comp_def)

lemma hm_inv_size: "hm_inv mem h m \<Longrightarrow> mcount m = length (hm_entries mem h m)"
  using hm_rep_length by (fastforce simp: hm_inv_def)

text \<open>The map as a provider of the ordered-map contract, for any memory content.\<close>

definition hm_lookup :: "memory \<Rightarrow> bheap \<times> hashmap \<Rightarrow> ptr \<times> u64 \<Rightarrow> u64 option res" where
  "hm_lookup mem = (\<lambda>(h, m) (key, ksize). bindR (hashmap_get mem h m key ksize) (\<lambda>(found, v).
     Inr (if found then Some v else None)))"

definition hm_put :: "memory \<Rightarrow> bheap \<times> hashmap \<Rightarrow> ptr \<times> u64 \<Rightarrow> u64 \<Rightarrow> (bheap \<times> hashmap) res" where
  "hm_put mem = (\<lambda>(h, m) (key, ksize) val. hashmap_set mem h m key ksize val)"

interpretation hm: ordered_map
  "\<lambda>(h, m). hm_inv mem h m" "\<lambda>(h, m). hm_entries mem h m"
  "\<lambda>(key, ksize). load_bytes mem key (unat ksize)" "\<lambda>(key, ksize). key \<noteq> 0"
  "15 * 2 ^ 25" "hm_lookup mem" "hm_put mem" for mem
proof
  fix s :: "bheap \<times> hashmap" and p :: "ptr \<times> u64" and v :: u64
  obtain h m key ksize where sp: "s = (h, m)" "p = (key, ksize)"
    by fastforce
  assume inv: "case s of (h, m) \<Rightarrow> hm_inv mem h m"
  then have i: "hm_inv mem h m"
    by (simp add: sp)
  show "hm_lookup mem s p = Inr (map_of (case s of (h, m) \<Rightarrow> hm_entries mem h m)
      (case p of (key, ksize) \<Rightarrow> load_bytes mem key (unat ksize)))"
    using hashmap_get_ok [OF i] by (simp add: sp hm_lookup_def split: option.splits)
  show "distinct (map fst (case s of (h, m) \<Rightarrow> hm_entries mem h m))"
    using hm_inv_distinct [OF i] by (simp add: sp)
  assume "case p of (key, ksize) \<Rightarrow> key \<noteq> 0"
    and "length (case s of (h, m) \<Rightarrow> hm_entries mem h m) < 15 * 2 ^ 25"
  then show "ok (hm_put mem s p v) (\<lambda>s'. (case s' of (h, m) \<Rightarrow> hm_inv mem h m) \<and>
      (case s' of (h, m) \<Rightarrow> hm_entries mem h m) =
        AList.update (case p of (key, ksize) \<Rightarrow> load_bytes mem key (unat ksize)) v
          (case s of (h, m) \<Rightarrow> hm_entries mem h m))"
    using hashmap_set_ok [OF i, of key ksize v] hm_inv_size [OF i]
    by (auto simp: sp hm_put_def stores_def elim!: ok_mono)
qed

subsection \<open>Properties\<close>

lemma create_inv:
  "hm_inv mem (fst (hashmap_create empty_heap)) (snd (hashmap_create empty_heap))"
  "hm_entries mem (fst (hashmap_create empty_heap)) (snd (hashmap_create empty_heap)) = []"
  "mcount (snd (hashmap_create empty_heap)) = 0"
proof -
  have rep: "hm_rep mem (fst (hashmap_create empty_heap)) (snd (hashmap_create empty_heap))
      (replicate 20 zero_bucket) []"
    by (rule hashmap_create_rep [of empty_heap]) (simp_all add: empty_heap_def)
  then show "hm_inv mem (fst (hashmap_create empty_heap)) (snd (hashmap_create empty_heap))"
    unfolding hm_inv_def by blast
  from rep show "hm_entries mem (fst (hashmap_create empty_heap)) (snd (hashmap_create empty_heap)) = []"
    by (simp add: hm_rep_entries)
  from rep show "mcount (snd (hashmap_create empty_heap)) = 0"
    using hm_repD(7) by fastforce
qed

lemma fill_ok:
  assumes "\<forall>((key, ksize), v)\<in>set ps. key \<noteq> 0" and "length ps \<le> 15 * 2 ^ 25"
  shows "ok (foldR (\<lambda>((key, ksize), v) (h, m). hashmap_set mem h m key ksize v) ps
       (hashmap_create empty_heap))
     (\<lambda>(h, m). hm_inv mem h m \<and> hm_entries mem h m =
        fold (\<lambda>((key, ksize), v). AList.update (load_bytes mem key (unat ksize)) v) ps [])"
proof -
  have step: "(\<lambda>((key, ksize), v) (h, m). hashmap_set mem h m key ksize v) = (\<lambda>(p, v) s. hm_put mem s p v)"
    by (intro ext) (simp add: hm_put_def split: prod.splits)
  have upd: "(\<lambda>((key, ksize), v). AList.update (load_bytes mem key (unat ksize)) v) =
      (\<lambda>(p, v). AList.update (case p of (key, ksize) \<Rightarrow> load_bytes mem key (unat ksize)) v)"
    by (intro ext) (simp split: prod.splits)
  show ?thesis
    using hm.put_many [of mem "hashmap_create empty_heap" ps] assms create_inv(1,2) [of mem]
    unfolding step upd by (auto simp: split_beta elim!: ok_mono)
qed

definition sample_bindings :: "((ptr \<times> u64) \<times> u64) list" where
  "sample_bindings =
     [((1, 1), 1), ((2, 1), 2), ((3, 1), 3), ((4, 1), 4), ((5, 1), 5),
      ((6, 1), 6), ((7, 1), 7), ((8, 1), 8), ((9, 1), 9), ((10, 1), 10),
      ((11, 1), 11), ((12, 1), 12), ((13, 1), 13), ((14, 1), 14), ((15, 1), 15)]"

text \<open>Bytes of a small memory used to instantiate the properties below.\<close>

lemma sample_bytes:
  "load_bytes (\<lambda>a. ucast a) 4096 (unat (2 :: u64)) = [0, 1]"
  "load_bytes (\<lambda>a. ucast a) 8192 (unat (2 :: u64)) = [0, 1]"
  by code_simp+

text \<open>
  C4: \<open>hashmap_set\<close> refines the update of an association list. On a well-formed map of
  fewer than \<open>15 * 2 ^ 25\<close> entries and for a non-null key it returns (every probe ends, no
  access is out of bounds), keeps the invariant, and the entries in list order are those
  of \<open>AList.update\<close>: overwritten in place when the key bytes are present, appended otherwise.
\<close>

theorem hashmap_set_refines:
  assumes "hm_inv mem h m" and "key \<noteq> 0" and "mcount m < 15 * 2 ^ 25"
  shows "ok (hashmap_set mem h m key ksize val) (\<lambda>(h', m'). hm_inv mem h' m' \<and>
    hm_entries mem h' m' =
      AList.update (load_bytes mem key (unat ksize)) val (hm_entries mem h m))"
  using hashmap_set_ok [OF assms] by (simp add: stores_def)

theorem hashmap_set_refines_witness:
  "case hashmap_create empty_heap of (h, m) \<Rightarrow>
     ok (hashmap_set (\<lambda>a. ucast a) h m 4096 2 77)
       (\<lambda>(h', m'). hm_entries (\<lambda>a. ucast a) h' m' = [([0, 1], 77)])"
proof -
  have "ok (hashmap_set (\<lambda>a. ucast a) (fst (hashmap_create empty_heap))
      (snd (hashmap_create empty_heap)) 4096 2 77)
     (\<lambda>(h', m'). hm_entries (\<lambda>a. ucast a) h' m' =
        AList.update (load_bytes (\<lambda>a. ucast a) 4096 (unat (2 :: u64))) 77 [])"
    using hashmap_set_refines [OF create_inv(1), of 4096 "\<lambda>a. ucast a" 2 77] create_inv(2,3)
    by (auto elim!: ok_mono)
  then show ?thesis
    unfolding sample_bytes by (simp add: split_beta)
qed

text \<open>
  C28: Reading back. After a successful \<open>hashmap_set\<close>, \<open>hashmap_get\<close> of a key with the same bytes
  (at whatever address) finds the new value, and of any other key gives what it gave before.
\<close>

theorem hashmap_get_after_set:
  assumes "hm_inv mem h m" and "key \<noteq> 0" and "mcount m < 15 * 2 ^ 25"
  shows "ok (hashmap_set mem h m key ksize val) (\<lambda>(h', m').
    hashmap_get mem h' m' key' ksize' =
      (if load_bytes mem key' (unat ksize') = load_bytes mem key (unat ksize)
       then Inr (True, val) else hashmap_get mem h m key' ksize'))"
proof (rule ok_mono [OF hashmap_set_ok [OF assms, of ksize val]])
  fix hm' assume "case hm' of (h', m') \<Rightarrow> stores mem h m key ksize val h' m'"
  then show "case hm' of (h', m') \<Rightarrow> hashmap_get mem h' m' key' ksize' =
      (if load_bytes mem key' (unat ksize') = load_bytes mem key (unat ksize)
       then Inr (True, val) else hashmap_get mem h m key' ksize')"
    using hashmap_get_ok assms(1) by (auto simp: stores_def update_conv')
qed

theorem hashmap_get_after_set_witness:
  "case hashmap_create empty_heap of (h, m) \<Rightarrow>
     ok (hashmap_set (\<lambda>a. ucast a) h m 4096 2 77)
       (\<lambda>(h', m'). hashmap_get (\<lambda>a. ucast a) h' m' 8192 2 = Inr (True, 77))"
  using hashmap_get_after_set [OF create_inv(1), of 4096 "\<lambda>a. ucast a" 2 77 8192 2] create_inv(3)
  unfolding sample_bytes by (simp add: split_beta)

text \<open>
  C27: Filling a map. Starting from \<open>hashmap_create\<close>, any sequence of up to \<open>15 * 2 ^ 25\<close> calls
  of \<open>hashmap_set\<close> with non-null keys succeeds, through all the resizes it causes, and leaves
  the association list obtained by the same sequence of updates.
\<close>

theorem hashmap_fill:
  assumes "\<forall>((key, ksize), v)\<in>set ps. key \<noteq> 0" and "length ps \<le> 15 * 2 ^ 25"
  shows "ok (foldR (\<lambda>((key, ksize), v) (h, m). hashmap_set mem h m key ksize v) ps
       (hashmap_create empty_heap))
     (\<lambda>(h, m). hm_inv mem h m \<and> hm_entries mem h m =
        fold (\<lambda>((key, ksize), v). AList.update (load_bytes mem key (unat ksize)) v) ps [])"
  using assms by (rule fill_ok)

theorem hashmap_fill_witness:
  "ok (foldR (\<lambda>((key, ksize), v) (h, m). hashmap_set (\<lambda>a. ucast a) h m key ksize v)
        [((1, 1), 10), ((2, 1), 20), ((257, 1), 30)] (hashmap_create empty_heap))
     (\<lambda>(h, m). hm_entries (\<lambda>a. ucast a) h m = [([1], 30), ([2], 20)])"
  using hashmap_fill [of "[((1, 1), 10), ((2, 1), 20), ((257, 1), 30)]" "\<lambda>a. ucast a"]
  by (simp add: load_bytes_def split_beta) (auto elim!: ok_mono)

text \<open>
  \<open>hashmap_resize\<close> doubles the capacity and keeps the invariant, the entries and their
  order: each bucket is moved to a free slot of the new array that its probe sequence
  reaches, and the relinked list visits the moved buckets in the old order.
\<close>

theorem hashmap_resize_preserves:
  assumes "hm_inv mem h m" and "needs_resize (mcount m) (capacity m)" and "capacity m * 2 < 2 ^ 31"
  shows "ok (hashmap_resize h m) (\<lambda>(h', m'). hm_inv mem h' m' \<and> capacity m' = 2 * capacity m \<and>
    hm_entries mem h' m' = hm_entries mem h m)"
proof -
  obtain bs js where rep: "hm_rep mem h m bs js"
    using assms(1) unfolding hm_inv_def by blast
  obtain h' m' nbs ns where r: "hashmap_resize h m = Inr (h', m')" "hm_rep mem h' m' nbs ns"
      "bkts nbs ns = bkts bs js" "capacity m' = capacity m * 2"
    using hashmap_resize_rep [OF rep assms(2,3)] by blast
  then have "hm_inv mem h' m'" and "hm_entries mem h' m' = hm_entries mem h m"
    unfolding hm_inv_def using hm_entries_bkts [OF rep] hm_entries_bkts [OF r(2)] by auto
  then show ?thesis
    using r by simp
qed

theorem hashmap_resize_preserves_witness:
  "case foldR (\<lambda>((key, ksize), v) (h, m). hashmap_set (\<lambda>a. ucast a) h m key ksize v)
      sample_bindings (hashmap_create empty_heap) of
     Inl _ \<Rightarrow> False
   | Inr (h, m) \<Rightarrow> mcount m = 15 \<and> ok (hashmap_resize h m) (\<lambda>(h', m'). capacity m' = 40)"
proof -
  let ?r = "foldR (\<lambda>((key, ksize), v) (h, m). hashmap_set (\<lambda>a. ucast a) h m key ksize v)
      sample_bindings (hashmap_create empty_heap)"
  have size: "case ?r of Inl _ \<Rightarrow> False | Inr (h, m) \<Rightarrow> mcount m = 15 \<and> capacity m = 20 \<and> needs_resize 15 20"
    by (simp add: sample_bindings_def hashmap_eval cong: bindR_weak_cong)
  then obtain h m where r: "?r = Inr (h, m)" "mcount m = 15" "capacity m = 20" "needs_resize 15 20"
    by (auto split: sum.splits)
  moreover have "hm_inv (\<lambda>a. ucast a) h m"
    using fill_ok [of sample_bindings "\<lambda>a. ucast a"] r(1)
    by (simp add: sample_bindings_def)
  ultimately show ?thesis
    using hashmap_resize_preserves [of "\<lambda>a. ucast a" h m] by (auto elim!: ok_mono)
qed

text \<open>
  \<open>hashmap_get_set\<close> returns whether the key was present; the value handed back is the stored
  one if it was, and otherwise the given value, which is then stored.
\<close>

theorem hashmap_get_set_correct:
  assumes "hm_inv mem h m" and "key \<noteq> 0" and "mcount m < 15 * 2 ^ 25"
  shows "ok (hashmap_get_set mem h m key ksize v) (\<lambda>(found, out, h', m'). hm_inv mem h' m' \<and>
    (case map_of (hm_entries mem h m) (load_bytes mem key (unat ksize)) of
       Some w \<Rightarrow> found \<and> out = w \<and> hm_entries mem h' m' = hm_entries mem h m
     | None \<Rightarrow> \<not> found \<and> out = v \<and>
         hm_entries mem h' m' = hm_entries mem h m @ [(load_bytes mem key (unat ksize), v)]))"
proof -
  obtain h1 m1 i e where view: "insert_view mem h m key ksize v h1 m1 i e"
    using insert_view_exists [OF assms] by blast
  have "map_of (hm_entries mem h m) k = None \<Longrightarrow>
      AList.update k v (hm_entries mem h m) = hm_entries mem h m @ [(k, v)]" for k
    by (simp add: map_of_eq_None_iff alist_update_new)
  then show ?thesis
    using view
    by (auto simp: hashmap_get_set_def insert_view_def stores_def ok_bindR_eq elim!: ok_mono
        split: if_splits)
qed

theorem hashmap_get_set_correct_witness:
  "case hashmap_create empty_heap of (h, m) \<Rightarrow>
     ok (hashmap_get_set (\<lambda>a. ucast a) h m 4096 2 77) (\<lambda>(found, out, h', m'). \<not> found \<and> out = 77)"
  using hashmap_get_set_correct [OF create_inv(1), of 4096 "\<lambda>a. ucast a" 2 77] create_inv(2,3)
  by (auto simp: split_beta elim!: ok_mono)

text \<open>
  \<open>hashmap_set_free\<close> stores like \<open>hashmap_set\<close>; the callback runs exactly when an entry is
  overwritten, once, with the old value and a key pointer whose bytes equal the new key's.
\<close>

theorem hashmap_set_free_correct:
  assumes "hm_inv mem h m" and "key \<noteq> 0" and "mcount m < 15 * 2 ^ 25"
  shows "ok (hashmap_set_free mem h m key ksize val c usr) (\<lambda>(usr', h', m'). hm_inv mem h' m' \<and>
    hm_entries mem h' m' = AList.update (load_bytes mem key (unat ksize)) val (hm_entries mem h m) \<and>
    (case map_of (hm_entries mem h m) (load_bytes mem key (unat ksize)) of
       None \<Rightarrow> usr' = usr
     | Some w \<Rightarrow> (\<exists>old. load_bytes mem old (unat ksize) = load_bytes mem key (unat ksize) \<and>
                   usr' = c old ksize w usr)))"
proof -
  obtain h1 m1 i e where view: "insert_view mem h m key ksize val h1 m1 i e"
    using insert_view_exists [OF assms] by blast
  then show ?thesis
    by (auto simp: hashmap_set_free_def insert_view_def stores_def ok_bindR_eq elim!: ok_mono
        split: if_splits)
qed

theorem hashmap_set_free_correct_witness:
  "case hashmap_create empty_heap of (h, m) \<Rightarrow>
     ok (hashmap_set_free (\<lambda>a. ucast a) h m 4096 2 77 (\<lambda>k ks v n. n + 1) (0 :: nat))
       (\<lambda>(n, h', m'). n = 0 \<and> hm_entries (\<lambda>a. ucast a) h' m' = [([0, 1], 77)])"
  using hashmap_set_free_correct [OF create_inv(1), of 4096 "\<lambda>a. ucast a" 2 77
      "\<lambda>k ks v n. n + 1" "0 :: nat"] create_inv(2,3)
  unfolding sample_bytes by (auto simp: split_beta elim!: ok_mono)

text \<open>
  \<open>hashmap_iterate\<close> ends and calls the callback exactly once per entry, in insertion order;
  \<open>hashmap_size\<close> is the number of entries, and no two entries have the same key bytes.
\<close>

theorem hashmap_iterate_order:
  assumes "hm_inv mem h m"
  shows "\<exists>es. hm_entries mem h m = map (\<lambda>e. (bkt_bytes mem e, bvalue e)) es \<and>
    hashmap_iterate h m c u = Inr (fold (\<lambda>e. c (bkey e) (bksize e) (bvalue e)) es u) \<and>
    hashmap_size m = length es \<and> distinct (map fst (hm_entries mem h m))"
proof -
  obtain bs js where rep: "hm_rep mem h m bs js"
    using assms unfolding hm_inv_def by blast
  show ?thesis
    using hm_inv_distinct [OF assms] hm_repD(7) [OF rep]
    by (intro exI [of _ "map ((!) bs) js"])
      (simp add: hm_rep_entries [OF rep] hashmap_iterate_def hm_rep_walk [OF rep] foldR_pure
        hashmap_size_def)
qed

theorem hashmap_iterate_order_witness:
  "case hashmap_create empty_heap of (h, m) \<Rightarrow>
     hashmap_iterate h m (\<lambda>k ks v n. n + v) 5 = Inr 5"
proof -
  obtain es where "[] = map (\<lambda>e. (bkt_bytes (\<lambda>a. 0) e, bvalue e)) es"
    "hashmap_iterate (fst (hashmap_create empty_heap)) (snd (hashmap_create empty_heap))
       (\<lambda>k ks v n. n + v) 5 = Inr (fold (\<lambda>e n. n + bvalue e) es 5)"
    using hashmap_iterate_order [OF create_inv(1) [of "\<lambda>a. 0"], of "\<lambda>k ks v n. n + v" 5] create_inv(2)
    by auto
  then show ?thesis
    by (simp add: split_beta)
qed

end
