(* ===== verification/Hashmap_Sort.thy ===== *)
theory Hashmap_Sort
  imports Hashmap_Correct
begin

text \<open>
  \<^verbatim>\<open>hashmap_sort\<close> of \<^verbatim>\<open>map.c\<close>: a bottom-up merge sort of the entry list, written
  with pointers into the bucket array. The comparison function is a parameter.
  The results: the sort always returns and permutes the entries, whatever the
  comparison does; but it does not sort, and it leaves the table unusable for
  look-ups, because the merge exchanges bucket contents where it should exchange
  pointers.
\<close>

subsection \<open>Pointer operations\<close>

definition deref :: "bheap \<Rightarrow> bptr \<Rightarrow> bucket res" where
  "deref h p = (case p of NullB \<Rightarrow> Inl NullDeref | Bkt b i \<Rightarrow> bkt_get h b i)"

definition store_bkt :: "bheap \<Rightarrow> bptr \<Rightarrow> bucket \<Rightarrow> bheap res" where
  "store_bkt h p e = (case p of NullB \<Rightarrow> Inl NullDeref | Bkt b i \<Rightarrow> bkt_put h b i e)"

definition set_next :: "bheap \<Rightarrow> bptr \<Rightarrow> bptr \<Rightarrow> bheap res" where
  "set_next h p q = bindR (deref h p) (\<lambda>e. store_bkt h p (e\<lparr>bnext := q\<rparr>))"

text \<open>\<^verbatim>\<open>_hashmap_swap_bucket\<close>: everything but the links is exchanged.\<close>

definition hashmap_swap_bucket :: "bheap \<Rightarrow> bptr \<Rightarrow> bptr \<Rightarrow> bheap res" where
  "hashmap_swap_bucket h a b =
     bindR (deref h a) (\<lambda>tmp.
     bindR (deref h b) (\<lambda>eb.
     bindR (store_bkt h a (eb\<lparr>bnext := bnext tmp\<rparr>)) (\<lambda>h1.
     bindR (deref h1 b) (\<lambda>eb1.
     store_bkt h1 b (tmp\<lparr>bnext := bnext eb1\<rparr>)))))"

subsection \<open>Merging\<close>

text \<open>
  The loop of \<^verbatim>\<open>_hashmap_merge\<close>; every step takes a bucket off one of the two lists, so
  the number of buckets bounds the steps.
\<close>

fun merge_loop :: "nat \<Rightarrow> (ptr \<Rightarrow> ptr \<Rightarrow> int) \<Rightarrow> bheap \<Rightarrow> bptr \<Rightarrow> bptr \<Rightarrow> bptr \<Rightarrow> bptr \<Rightarrow>
    (bheap \<times> bptr \<times> bptr) res" where
  "merge_loop 0 cmp h astart aend bstart bendnext = Inl Diverges"
| "merge_loop (Suc fuel) cmp h astart aend bstart bendnext =
     (if astart \<noteq> aend \<and> bstart \<noteq> bendnext then
        bindR (deref h astart) (\<lambda>ea.
        bindR (deref h (bnext ea)) (\<lambda>en.
        bindR (deref h bstart) (\<lambda>eb.
        if cmp (bkey en) (bkey eb) > 0 then
          bindR (set_next h bstart (bnext ea)) (\<lambda>h1.
          bindR (set_next h1 astart bstart) (\<lambda>h2.
          bindR (deref h2 astart) (\<lambda>ea2.
          merge_loop fuel cmp h2 (bnext ea2) aend (bnext eb) bendnext)))
        else merge_loop fuel cmp h (bnext ea) aend bstart bendnext)))
      else Inr (h, astart, bstart))"

text \<open>\<^verbatim>\<open>_hashmap_merge\<close> returns the heap and the new \<^verbatim>\<open>*end2\<close>, the only pointer it changes.\<close>

definition hashmap_merge :: "nat \<Rightarrow> (ptr \<Rightarrow> ptr \<Rightarrow> int) \<Rightarrow> bheap \<Rightarrow> bptr \<Rightarrow> bptr \<Rightarrow> bptr \<Rightarrow> bptr \<Rightarrow>
    (bheap \<times> bptr) res" where
  "hashmap_merge fuel cmp h0 start1 end1 start2 end2 =
     bindR (deref h0 start1) (\<lambda>e1.
     bindR (deref h0 start2) (\<lambda>e2.
     bindR (if cmp (bkey e1) (bkey e2) > 0
            then bindR (hashmap_swap_bucket h0 start1 start2) (\<lambda>h1. hashmap_swap_bucket h1 end1 end2)
            else Inr h0) (\<lambda>h.
     bindR (deref h end2) (\<lambda>ee.
     bindR (merge_loop fuel cmp h start1 end1 start2 (bnext ee)) (\<lambda>(h', astart, bstart).
     if astart = end1 then bindR (set_next h' astart bstart) (\<lambda>h''. Inr (h'', end2))
     else Inr (h', end1))))))"

subsection \<open>The passes\<close>

text \<open>
  \<^verbatim>\<open>while (--counter && end->next) end = end->next\<close>; the counter starts at the gap,
  which is at least 1.
\<close>

fun advance :: "nat \<Rightarrow> bheap \<Rightarrow> bptr \<Rightarrow> bptr res" where
  "advance 0 h e = Inr e"
| "advance (Suc 0) h e = Inr e"
| "advance (Suc (Suc c)) h e =
     bindR (deref h e) (\<lambda>x. if bnext x \<noteq> NullB then advance (Suc c) h (bnext x) else Inr e)"

text \<open>
  The \<^verbatim>\<open>while (start1)\<close> loop of \<^verbatim>\<open>_hashmap_msort\<close> for one gap. Returns the heap, \<^verbatim>\<open>*head\<close>,
  \<^verbatim>\<open>prevend\<close> and \<^verbatim>\<open>start1\<close> as they are when the loop is left.
\<close>

fun pass_loop :: "nat \<Rightarrow> nat \<Rightarrow> (ptr \<Rightarrow> ptr \<Rightarrow> int) \<Rightarrow> nat \<Rightarrow> bheap \<Rightarrow> bptr \<Rightarrow> bptr \<Rightarrow> bptr \<Rightarrow>
    (bheap \<times> bptr \<times> bptr \<times> bptr) res" where
  "pass_loop 0 mfuel cmp gap h head prevend start1 =
     (if start1 = NullB then Inr (h, head, prevend, start1) else Inl Diverges)"
| "pass_loop (Suc fuel) mfuel cmp gap h head prevend start1 =
     (if start1 = NullB then Inr (h, head, prevend, start1)
      else
        bindR (advance gap h start1) (\<lambda>end1.
        bindR (deref h end1) (\<lambda>e1.
        if bnext e1 = NullB then Inr (h, head, prevend, start1)
        else
          bindR (advance gap h (bnext e1)) (\<lambda>end2.
          bindR (deref h end2) (\<lambda>e2.
          bindR (hashmap_merge mfuel cmp h start1 end1 (bnext e1) end2) (\<lambda>(h1, end2').
          bindR (if start1 = head then Inr h1 else set_next h1 prevend start1) (\<lambda>h2.
          pass_loop fuel mfuel cmp gap h2 (if start1 = head then start1 else head) end2'
            (bnext e2))))))))"

text \<open>The \<^verbatim>\<open>for\<close> loop over the gaps; \<^verbatim>\<open>prevend\<close> lives outside it.\<close>

function gap_loop :: "nat \<Rightarrow> (ptr \<Rightarrow> ptr \<Rightarrow> int) \<Rightarrow> nat \<Rightarrow> nat \<Rightarrow> bheap \<Rightarrow> bptr \<Rightarrow> bptr \<Rightarrow>
    (bheap \<times> bptr) res" where
  "gap_loop fuel cmp len gap h head prevend =
     (if gap < len then
        if gap = 0 then Inl Diverges
        else
          bindR (pass_loop fuel fuel cmp gap h head prevend head) (\<lambda>(h1, head1, prevend1, start1).
          bindR (set_next h1 prevend1 start1) (\<lambda>h2.
          bindR (guardR (gap * 2 < 2 ^ 31) IntOverflow) (\<lambda>_.
          gap_loop fuel cmp len (gap * 2) h2 head1 prevend1)))
      else Inr (h, head))"
  by pat_completeness auto
termination by (relation "measure (\<lambda>(fuel, cmp, len, gap, _). len - gap)") auto

definition hashmap_msort :: "nat \<Rightarrow> bheap \<Rightarrow> bptr \<Rightarrow> nat \<Rightarrow> (ptr \<Rightarrow> ptr \<Rightarrow> int) \<Rightarrow> (bheap \<times> bptr) res" where
  "hashmap_msort fuel h head len cmp =
     (if head = NullB then Inr (h, head) else gap_loop fuel cmp len 1 h head NullB)"

text \<open>
  \<^verbatim>\<open>hashmap_sort\<close> sorts from \<^verbatim>\<open>m->first\<close>; it does not touch \<^verbatim>\<open>m->last\<close>. No list of the map
  has more buckets than the array, whose capacity serves as fuel.
\<close>

definition hashmap_sort :: "bheap \<Rightarrow> hashmap \<Rightarrow> (ptr \<Rightarrow> ptr \<Rightarrow> int) \<Rightarrow> (bheap \<times> hashmap) res" where
  "hashmap_sort h m cmp_func =
     bindR (hashmap_msort (capacity m) h (first m) (mcount m) cmp_func) (\<lambda>(h', head).
     Inr (h', m\<lparr>first := head\<rparr>))"

declare gap_loop.simps [simp del]

subsection \<open>Operations on one block\<close>

definition hput :: "bheap \<Rightarrow> nat \<Rightarrow> bucket list \<Rightarrow> bheap" where
  "hput h b bs = h\<lparr>blocks := (blocks h)(b \<mapsto> bs)\<rparr>"

lemma blocks_hput [simp]: "blocks (hput h b bs) b = Some bs"
  by (simp add: hput_def)

lemma hput_hput [simp]: "hput (hput h b bs) b bs' = hput h b bs'"
  by (simp add: hput_def)

lemma hput_same: "blocks h b = Some bs \<Longrightarrow> hput h b bs = h"
  by (simp add: hput_def fun_upd_idem)

lemma deref_hput [simp]: "i < length bs \<Longrightarrow> deref (hput h b bs) (Bkt b i) = Inr (bs ! i)"
  by (simp add: deref_def)

lemma store_hput [simp]:
  "i < length bs \<Longrightarrow> store_bkt (hput h b bs) (Bkt b i) e = Inr (hput h b (bs[i := e]))"
  by (simp add: store_bkt_def hput_def)

definition link :: "bucket list \<Rightarrow> nat \<Rightarrow> bptr \<Rightarrow> bucket list" where
  "link bs i q = bs[i := (bs ! i)\<lparr>bnext := q\<rparr>]"

lemma length_link [simp]: "length (link bs i q) = length bs"
  by (simp add: link_def)

lemma set_next_hput [simp]:
  "i < length bs \<Longrightarrow> set_next (hput h b bs) (Bkt b i) q = Inr (hput h b (link bs i q))"
  by (simp add: set_next_def link_def)

lemma link_next [simp]: "i < length bs \<Longrightarrow> bnext (link bs i q ! i) = q"
  by (simp add: link_def)

lemma link_other [simp]: "i \<noteq> j \<Longrightarrow> link bs i q ! j = bs ! j"
  by (simp add: link_def)

lemma chain_link [simp]: "i \<notin> set js \<Longrightarrow> chain (link bs i q) b p js r = chain bs b p js r"
  by (simp add: link_def)

text \<open>\<open>links_only S bs bs'\<close>: only link fields of buckets in \<open>S\<close> differ.\<close>

definition links_only :: "nat set \<Rightarrow> bucket list \<Rightarrow> bucket list \<Rightarrow> bool" where
  "links_only S bs bs' \<longleftrightarrow> length bs' = length bs \<and> (\<forall>i. i \<notin> S \<longrightarrow> bs' ! i = bs ! i) \<and>
     (\<forall>i. (bs' ! i)\<lparr>bnext := NullB\<rparr> = (bs ! i)\<lparr>bnext := NullB\<rparr>)"

lemma links_only_refl [simp]: "links_only S bs bs"
  by (simp add: links_only_def)

lemma links_only_trans: "links_only S bs bs' \<Longrightarrow> links_only T bs' bs'' \<Longrightarrow> S \<union> T \<subseteq> U \<Longrightarrow> links_only U bs bs''"
  by (auto simp: links_only_def) (metis UnI1 UnI2 subset_iff)

lemma links_only_mono: "links_only S bs bs' \<Longrightarrow> S \<subseteq> T \<Longrightarrow> links_only T bs bs'"
  by (auto simp: links_only_def)

lemma links_only_link: "i \<in> S \<Longrightarrow> links_only S bs (link bs i q)"
proof -
  have "(link bs i q ! j)\<lparr>bnext := NullB\<rparr> = (bs ! j)\<lparr>bnext := NullB\<rparr>" for j
    by (cases "i < length bs"; cases "i = j") (simp_all add: link_def list_update_beyond)
  then show "i \<in> S \<Longrightarrow> links_only S bs (link bs i q)"
    unfolding links_only_def by (metis length_link link_other)
qed

lemma bkts_links_only: "links_only S bs bs' \<Longrightarrow> bkts bs' js = bkts bs js"
  by (simp add: bkts_def links_only_def)

lemma chain_links_only: "links_only S bs bs' \<Longrightarrow> set js \<inter> S = {} \<Longrightarrow> chain bs' b p js q = chain bs b p js q"
  by (rule chain_cong) (auto simp: links_only_def)


lemma links_onlyD: "links_only S bs bs' \<Longrightarrow> length bs' = length bs"
  "links_only S bs bs' \<Longrightarrow> i \<notin> S \<Longrightarrow> bs' ! i = bs ! i"
  by (auto simp: links_only_def)

subsection \<open>The merge loop\<close>

text \<open>
  The first list is \<open>L\<close> (up to and including \<^verbatim>\<open>aend\<close>), the second \<open>B\<close>, followed by \<open>q\<close>.
\<close>

definition merging :: "bucket list \<Rightarrow> nat \<Rightarrow> nat list \<Rightarrow> bptr \<Rightarrow> nat list \<Rightarrow> bptr \<Rightarrow> bool" where
  "merging bs b L bstart B q \<longleftrightarrow>
     L \<noteq> [] \<and> chain bs b (Bkt b (hd L)) (butlast L) (Bkt b (last L)) \<and> last L < length bs \<and>
     chain bs b bstart B q \<and> distinct (L @ B) \<and> q \<notin> Bkt b ` set B \<and> (B = [] \<longrightarrow> 2 \<le> length L)"

text \<open>
  What the loop leaves: \<open>Q\<close> was passed over, \<open>L'\<close> and \<open>B'\<close> are the remainders, one of which is
  exhausted.
\<close>

definition merged :: "bucket list \<Rightarrow> nat \<Rightarrow> nat list \<Rightarrow> nat list \<Rightarrow> bptr \<Rightarrow>
    bucket list \<Rightarrow> nat list \<Rightarrow> nat list \<Rightarrow> bptr \<Rightarrow> nat list \<Rightarrow> bool" where
  "merged bs b L B q bs' Q L' bstart' B' \<longleftrightarrow>
     merging bs' b L' bstart' B' q \<and> links_only (set (L @ B)) bs bs' \<and>
     chain bs' b (Bkt b (hd L)) Q (Bkt b (hd L')) \<and> mset (Q @ L' @ B') = mset (L @ B) \<and>
     hd (Q @ L') = hd L \<and> last L' = last L \<and> (B' \<noteq> [] \<longrightarrow> B \<noteq> [] \<and> last B' = last B) \<and>
     (B' = [] \<or> length L' = 1)"

lemma merging_pass: "merging bs b (a # c # L) bstart B q \<Longrightarrow> merging bs b (c # L) bstart B q \<or> B = []"
  by (auto simp: merging_def)

lemma merging_take:
  assumes "merging bs b (a # c # L) bstart (x # B) q"
  shows "merging (link (link bs x (Bkt b c)) a (Bkt b x)) b (x # c # L) (bnext (bs ! x)) B q"
proof -
  have d: "a \<noteq> x" "a \<notin> set (c # L)" "a \<notin> set B" "x \<notin> set (c # L)" "x \<notin> set B" "x < length bs"
    and cb: "chain bs b (bnext (bs ! x)) B q"
    using assms by (auto simp: merging_def)
  have "set (butlast (c # L)) \<subseteq> set (c # L)"
    by (auto dest: in_set_butlastD)
  then have cl: "chain (link (link bs x (Bkt b c)) a (Bkt b x)) b (Bkt b c) (butlast (c # L)) (Bkt b (last (c # L)))"
    using assms d by (subst chain_link, blast, subst chain_link, blast)
      (auto simp: merging_def split: if_splits)
  show ?thesis
    using assms d cl cb unfolding merging_def by auto
qed


lemma merging_next: "merging bs b (a # c # L) bstart B q \<Longrightarrow>
    a < length bs \<and> bnext (bs ! a) = Bkt b c \<and> c < length bs \<and> a \<notin> set (c # L) \<and> a \<noteq> last (c # L)"
  by (cases L) (auto simp: merging_def)

lemma merged_refl: "merging bs b L bstart B q \<Longrightarrow> B = [] \<or> length L = 1 \<Longrightarrow> merged bs b L B q bs [] L bstart B"
  by (simp add: merged_def)

lemma merged_pass:
  assumes "merged bs b (c # L) B q bs' Q L' bstart' B'" and "merging bs b (a # c # L) bstart B q"
  shows "merged bs b (a # c # L) B q bs' (a # Q) L' bstart' B'"
proof -
  have "a \<notin> set (c # L @ B)" "bnext (bs ! a) = Bkt b c" "a < length bs"
    using merging_next [OF assms(2)] assms(2) by (auto simp: merging_def)
  moreover from this have "bs' ! a = bs ! a" "length bs' = length bs"
    using assms(1) by (auto simp: merged_def links_only_def)
  ultimately show ?thesis
    using assms(1) by (auto simp: merged_def intro: links_only_mono)
qed

lemma merged_take:
  assumes "merged (link (link bs x (Bkt b c)) a (Bkt b x)) b (x # c # L) B q bs' Q L' bstart' B'"
    and "merging bs b (a # c # L) bstart (x # B) q"
  shows "merged bs b (a # c # L) (x # B) q bs' (a # Q) L' bstart' B'"
proof -
  let ?bs = "link (link bs x (Bkt b c)) a (Bkt b x)"
  have a: "a \<notin> set (x # c # L @ B)" "a < length bs"
    using merging_next [OF assms(2)] assms(2) by (auto simp: merging_def)
  then have "bs' ! a = ?bs ! a" "length bs' = length bs"
    using assms(1) by (auto simp: merged_def links_only_def)
  then have next_a: "bnext (bs' ! a) = Bkt b x"
    using a(2) by simp
  have "links_only {x, a} bs ?bs"
    by (rule links_only_trans [OF links_only_link links_only_link]) auto
  then have "links_only (set (a # c # L @ x # B)) bs bs'"
    using assms(1) by (auto simp: merged_def intro: links_only_trans)
  then show ?thesis
    using assms(1) a next_a \<open>length bs' = length bs\<close> by (auto simp: merged_def)
qed

lemma merge_loop_ok:
  assumes "merging bs b L bstart B q" and "length L + length B \<le> fuel"
  shows "\<exists>bs' Q L' bstart' B'. merged bs b L B q bs' Q L' bstart' B' \<and>
    merge_loop fuel cmp (hput h b bs) (Bkt b (hd L)) (Bkt b (last L)) bstart q =
      Inr (hput h b bs', Bkt b (hd L'), bstart')"
  using assms
proof (induction fuel arbitrary: bs L bstart B)
  case 0
  then show ?case by (simp add: merging_def)
next
  case (Suc fuel)
  show ?case
  proof (cases "B = [] \<or> length L = 1")
    case True
    then have "Bkt b (hd L) = Bkt b (last L) \<or> bstart = q"
      using Suc.prems(1) by (auto simp: merging_def length_Suc_conv)
    then show ?thesis
      using merged_refl [OF Suc.prems(1) True] by fastforce
  next
    case False
    then obtain x B2 a c L2 where eqs: "B = x # B2" "L = a # c # L2"
      using Suc.prems(1) by (cases B; cases L; cases "tl L") (auto simp: merging_def)
    have m: "merging bs b (a # c # L2) bstart (x # B2) q"
      using Suc.prems(1) eqs by simp
    have x: "bstart = Bkt b x" "x < length bs" "bstart \<noteq> q" "a \<noteq> x"
      using m by (auto simp: merging_def)
    note a = merging_next [OF m]
    let ?bs2 = "link (link bs x (Bkt b c)) a (Bkt b x)"
    show ?thesis
    proof (cases "cmp (bkey (bs ! c)) (bkey (bs ! x)) > 0")
      case True
      have m2: "merging ?bs2 b (x # c # L2) (bnext (bs ! x)) B2 q"
        by (rule merging_take [OF m])
      obtain bs' Q L' bstart' B' where r: "merged ?bs2 b (x # c # L2) B2 q bs' Q L' bstart' B'"
        "merge_loop fuel cmp (hput h b ?bs2) (Bkt b x) (Bkt b (last (c # L2))) (bnext (bs ! x)) q =
           Inr (hput h b bs', Bkt b (hd L'), bstart')"
        using Suc.IH [OF m2] Suc.prems(2) eqs by auto
      have "merge_loop (Suc fuel) cmp (hput h b bs) (Bkt b (hd L)) (Bkt b (last L)) bstart q =
          merge_loop fuel cmp (hput h b ?bs2) (Bkt b x) (Bkt b (last (c # L2))) (bnext (bs ! x)) q"
        using a x True eqs by simp
      then show ?thesis
        using merged_take [OF r(1) m] r(2) eqs by metis
    next
      case False
      have m2: "merging bs b (c # L2) bstart (x # B2) q"
        using merging_pass [OF m] by simp
      obtain bs' Q L' bstart' B' where r: "merged bs b (c # L2) (x # B2) q bs' Q L' bstart' B'"
        "merge_loop fuel cmp (hput h b bs) (Bkt b c) (Bkt b (last (c # L2))) bstart q =
           Inr (hput h b bs', Bkt b (hd L'), bstart')"
        using Suc.IH [OF m2] Suc.prems(2) eqs by auto
      have "merge_loop (Suc fuel) cmp (hput h b bs) (Bkt b (hd L)) (Bkt b (last L)) bstart q =
          merge_loop fuel cmp (hput h b bs) (Bkt b c) (Bkt b (last (c # L2))) bstart q"
        using a x False eqs by simp
      then show ?thesis
        using merged_pass [OF r(1) m] r(2) eqs by metis
    qed
  qed
qed


subsection \<open>Permutations of the entries\<close>

text \<open>
  \<open>permuted V bs W bs'\<close>: the list \<open>V\<close> of indices became \<open>W\<close>, and the entries along it were
  permuted; nothing changed outside.
\<close>

definition permuted :: "nat list \<Rightarrow> bucket list \<Rightarrow> nat list \<Rightarrow> bucket list \<Rightarrow> bool" where
  "permuted V bs W bs' \<longleftrightarrow> length bs' = length bs \<and> mset W = mset V \<and>
     (\<forall>i. i \<notin> set V \<longrightarrow> bs' ! i = bs ! i) \<and> mset (bkts bs' W) = mset (bkts bs V)"

lemma mset_bkts: "mset V = mset W \<Longrightarrow> mset (bkts bs V) = mset (bkts bs W)"
  by (simp add: bkts_def)

lemma permuted_refl: "mset W = mset V \<Longrightarrow> permuted V bs W bs"
  by (simp add: permuted_def mset_bkts [of W V])

lemma permuted_trans: "permuted U bs V bs1 \<Longrightarrow> permuted V bs1 W bs2 \<Longrightarrow> permuted U bs W bs2"
  by (auto simp: permuted_def dest: mset_eq_setD)

lemma permuted_links: "links_only (set V) bs bs' \<Longrightarrow> mset W = mset V \<Longrightarrow> permuted V bs W bs'"
  unfolding permuted_def using links_onlyD bkts_links_only mset_bkts by metis

lemma bkts_cong: "(\<And>i. i \<in> set V \<Longrightarrow> bs' ! i = bs ! i) \<Longrightarrow> bkts bs' V = bkts bs V"
  by (simp add: bkts_def)

lemma permuted_frame:
  assumes "permuted V bs W bs'" and "distinct (P @ V @ S)"
  shows "permuted (P @ V @ S) bs (P @ W @ S) bs'"
proof -
  have "bkts bs' P = bkts bs P" "bkts bs' S = bkts bs S"
    using assms by (auto simp: permuted_def intro!: bkts_cong)
  then show ?thesis
    using assms(1) by (simp add: permuted_def)
qed

lemma permuted_set: "permuted V bs W bs' \<Longrightarrow> set W = set V \<and> length W = length V \<and> (distinct W \<longleftrightarrow> distinct V)"
  by (metis permuted_def mset_eq_setD mset_eq_length mset_eq_imp_distinct_iff)

lemma chain_permuted:
  "permuted V bs W bs' \<Longrightarrow> set js \<inter> set V = {} \<Longrightarrow> chain bs' b p js q = chain bs b p js q"
  by (rule chain_cong) (auto simp: permuted_def)

text \<open>The exchange of two bucket contents.\<close>

definition swapc :: "bucket list \<Rightarrow> nat \<Rightarrow> nat \<Rightarrow> bucket list" where
  "swapc bs i j = (if i = j then bs
     else bs[i := (bs ! j)\<lparr>bnext := bnext (bs ! i)\<rparr>, j := (bs ! i)\<lparr>bnext := bnext (bs ! j)\<rparr>])"

lemma swap_hput:
  assumes "i < length bs" and "j < length bs"
  shows "hashmap_swap_bucket (hput h b bs) (Bkt b i) (Bkt b j) = Inr (hput h b (swapc bs i j))"
proof (cases "i = j")
  case True
  have "(e\<lparr>bnext := bnext e\<rparr>) = e" for e :: bucket
    by simp
  then show ?thesis
    using assms True by (simp add: hashmap_swap_bucket_def swapc_def)
next
  case False
  then show ?thesis
    using assms by (simp add: hashmap_swap_bucket_def swapc_def)
qed

lemma length_swapc [simp]: "length (swapc bs i j) = length bs"
  by (simp add: swapc_def)

lemma swapc_other: "k \<noteq> i \<Longrightarrow> k \<noteq> j \<Longrightarrow> swapc bs i j ! k = bs ! k"
  by (simp add: swapc_def)

lemma swapc_next: "i < length bs \<Longrightarrow> j < length bs \<Longrightarrow> bnext (swapc bs i j ! k) = bnext (bs ! k)"
  by (auto simp: swapc_def nth_list_update)

lemma chain_swapc: "i < length bs \<Longrightarrow> j < length bs \<Longrightarrow> chain (swapc bs i j) b p js q = chain bs b p js q"
  by (rule chain_cong) (auto simp: swapc_next)

lemma permuted_swapc:
  assumes "distinct V" and "i \<in> set V" and "j \<in> set V" and "\<forall>k\<in>set V. k < length bs"
  shows "permuted V bs V (swapc bs i j)"
proof -
  let ?t = "\<lambda>k. if k = i then j else if k = j then i else k"
  have "inj_on ?t (set V)"
    by (auto simp: inj_on_def split: if_splits)
  moreover have "?t ` set V = set V"
    using assms(2,3) by (auto simp: image_iff)
  ultimately have "mset (map ?t V) = mset V"
    using assms(1) by (subst set_eq_iff_mset_eq_distinct [symmetric]) (auto simp: distinct_map)
  then have "mset (bkts bs (map ?t V)) = mset (bkts bs V)"
    by (rule mset_bkts)
  moreover have "bkts (swapc bs i j) V = bkts bs (map ?t V)"
    using assms by (auto simp: bkts_def swapc_def nth_list_update)
  ultimately show ?thesis
    using assms(2,3) unfolding permuted_def by (metis length_swapc swapc_other)
qed


subsection \<open>Merging two runs\<close>

text \<open>The optional exchange of the contents of the first and of the last buckets.\<close>

lemma merge_swap_ok:
  assumes "distinct (A @ B)" and "\<forall>k\<in>set (A @ B). k < length bs" and "A \<noteq> []" and "B \<noteq> []"
  shows "\<exists>bs1. (if c then bindR (hashmap_swap_bucket (hput h b bs) (Bkt b (hd A)) (Bkt b (hd B)))
        (\<lambda>h1. hashmap_swap_bucket h1 (Bkt b (last A)) (Bkt b (last B)))
      else Inr (hput h b bs)) = Inr (hput h b bs1) \<and>
    permuted (A @ B) bs (A @ B) bs1 \<and> (\<forall>p js q. chain bs1 b p js q = chain bs b p js q)"
proof -
  let ?bs1 = "swapc bs (hd A) (hd B)" and ?bs2 = "swapc (swapc bs (hd A) (hd B)) (last A) (last B)"
  have bound: "hd A < length bs" "hd B < length bs" "last A < length bs" "last B < length bs"
    using assms by auto
  have "permuted (A @ B) bs (A @ B) ?bs1" and "permuted (A @ B) ?bs1 (A @ B) ?bs2"
    using assms by (auto intro!: permuted_swapc simp del: distinct_append)
  then have "permuted (A @ B) bs (A @ B) ?bs2"
    by (rule permuted_trans)
  moreover have "chain ?bs2 b p js q = chain bs b p js q" for p js q
    using bound by (simp add: chain_swapc)
  moreover have "bindR (hashmap_swap_bucket (hput h b bs) (Bkt b (hd A)) (Bkt b (hd B)))
      (\<lambda>h1. hashmap_swap_bucket h1 (Bkt b (last A)) (Bkt b (last B))) = Inr (hput h b ?bs2)"
    using bound by (simp add: swap_hput)
  ultimately show ?thesis
    using permuted_refl [of "A @ B"] by (cases c) auto
qed

lemma chain_butlast: "chain bs b p js q \<Longrightarrow> js \<noteq> [] \<Longrightarrow>
    p = Bkt b (hd js) \<and> chain bs b p (butlast js) (Bkt b (last js)) \<and> bnext (bs ! last js) = q"
  by (induction js arbitrary: p) (auto split: if_splits)

lemma chain_snoc_iff: "js \<noteq> [] \<Longrightarrow> chain bs b p js q \<longleftrightarrow>
    chain bs b p (butlast js) (Bkt b (last js)) \<and> last js < length bs \<and> bnext (bs ! last js) = q"
  by (induction js arbitrary: p) (auto split: if_splits)

text \<open>The list the merge leaves; its last link is still to be set by the caller.\<close>

lemma merged_result:
  assumes m: "merged bs b A B q bs' Q L' bstart' B'" and d: "distinct (A @ B)" and A: "A \<noteq> []"
  defines "R \<equiv> Q @ L' @ B'"
    and "bs'' \<equiv> (if Bkt b (hd L') = Bkt b (last A) then link bs' (last A) bstart' else bs')"
  shows "permuted (A @ B) bs R bs''" and "R \<noteq> []" and "hd R = hd A"
    and "chain bs'' b (Bkt b (hd R)) (butlast R) (Bkt b (last R))" and "last R < length bs''"
    and "last R = (if Bkt b (hd L') = Bkt b (last A) then last B else last A)"
proof -
  have mg: "merging bs' b L' bstart' B' q" and ms: "mset R = mset (A @ B)"
    and lo: "links_only (set (A @ B)) bs bs'" and Q: "chain bs' b (Bkt b (hd A)) Q (Bkt b (hd L'))"
    and hdQ: "hd (Q @ L') = hd A" and lastL: "last L' = last A"
    and lastB: "B' \<noteq> [] \<longrightarrow> last B' = last B" and ex: "B' = [] \<or> length L' = 1"
    using m unfolding merged_def R_def by auto
  have dR: "distinct R"
    using ms d mset_eq_imp_distinct_iff by blast
  have L': "L' \<noteq> []" "last L' < length bs'"
    using mg by (auto simp: merging_def)
  have "links_only (set (A @ B)) bs bs''"
    unfolding bs''_def using lo A by (auto intro!: links_only_trans [OF lo links_only_link])
  then show "permuted (A @ B) bs R bs''"
    using ms by (rule permuted_links)
  show "R \<noteq> []" and hdR: "hd R = hd A"
    using L'(1) hdQ unfolding R_def by (auto simp: hd_append)
  have "chain bs'' b (Bkt b (hd R)) (butlast R) (Bkt b (last R)) \<and> last R < length bs'' \<and>
    last R = (if Bkt b (hd L') = Bkt b (last A) then last B else last A)"
  proof (cases "length L' = 1")
    case True
    then have L1: "L' = [last A]"
      using lastL by (auto simp: length_Suc_conv)
    then have B': "B' \<noteq> []" and fresh: "last A \<notin> set Q" "last A \<notin> set B'"
      using mg dR by (auto simp: merging_def R_def)
    have "chain bs' b bstart' B' q"
      using mg by (simp add: merging_def)
    then have "chain bs'' b (Bkt b (hd R)) R q"
      using Q L1 fresh L'(2) hdR by (auto simp: R_def bs''_def)
    moreover have "last R = last B"
      using B' lastB by (simp add: R_def)
    ultimately show ?thesis
      using \<open>R \<noteq> []\<close> L1 by (simp add: chain_snoc_iff)
  next
    case False
    then have "B' = []" and "hd L' \<noteq> last L'"
      using ex mg by (cases L'; auto simp: merging_def)+
    then show ?thesis
      using Q L' lastL hdR mg by (auto simp: R_def bs''_def merging_def butlast_append)
  qed
  then show "chain bs'' b (Bkt b (hd R)) (butlast R) (Bkt b (last R))" and "last R < length bs''"
    and "last R = (if Bkt b (hd L') = Bkt b (last A) then last B else last A)"
    by blast+
qed

lemma hashmap_merge_ok:
  assumes c: "chain bs b p (A @ B) q" and ne: "A \<noteq> []" "B \<noteq> []" and d: "distinct (A @ B)"
    and q: "q \<notin> Bkt b ` set B" and fuel: "length A + length B \<le> fuel"
  shows "\<exists>bs' R. hashmap_merge fuel cmp (hput h b bs) (Bkt b (hd A)) (Bkt b (last A)) (Bkt b (hd B))
        (Bkt b (last B)) = Inr (hput h b bs', Bkt b (last R)) \<and>
    permuted (A @ B) bs R bs' \<and> R \<noteq> [] \<and> hd R = hd A \<and>
    chain bs' b (Bkt b (hd R)) (butlast R) (Bkt b (last R)) \<and> last R < length bs'"
proof -
  let ?c = "cmp (bkey (bs ! hd A)) (bkey (bs ! hd B)) > 0"
  have bound: "\<forall>k\<in>set (A @ B). k < length bs"
    using chain_bound [OF c] by blast
  obtain bs1 where bs1: "(if ?c then bindR (hashmap_swap_bucket (hput h b bs) (Bkt b (hd A)) (Bkt b (hd B)))
        (\<lambda>h1. hashmap_swap_bucket h1 (Bkt b (last A)) (Bkt b (last B)))
      else Inr (hput h b bs)) = Inr (hput h b bs1)"
    and perm1: "permuted (A @ B) bs (A @ B) bs1"
    and chains: "\<And>p js q. chain bs1 b p js q = chain bs b p js q"
    using merge_swap_ok [OF d bound ne, of ?c h b] by blast
  obtain r where r: "chain bs1 b p A r" "chain bs1 b r B q"
    using c chains by auto
  note ab = chain_butlast [OF r(1) ne(1)] chain_butlast [OF r(2) ne(2)]
  have len: "length bs1 = length bs"
    using perm1 by (simp add: permuted_def)
  have "merging bs1 b A (Bkt b (hd B)) B q"
    using ab r ne d q chain_bound [OF r(1)] by (auto simp: merging_def)
  from merge_loop_ok [OF this fuel]
  obtain bs2 Q L' bstart' B' where loop: "merged bs1 b A B q bs2 Q L' bstart' B'"
    "merge_loop fuel cmp (hput h b bs1) (Bkt b (hd A)) (Bkt b (last A)) (Bkt b (hd B)) q =
      Inr (hput h b bs2, Bkt b (hd L'), bstart')"
    by blast
  note res = merged_result [OF loop(1) d ne(1)]
  have lastA: "last A < length bs2"
    using loop(1) by (auto simp: merged_def merging_def)
  have "hashmap_merge fuel cmp (hput h b bs) (Bkt b (hd A)) (Bkt b (last A)) (Bkt b (hd B)) (Bkt b (last B)) =
    Inr (hput h b (if Bkt b (hd L') = Bkt b (last A) then link bs2 (last A) bstart' else bs2),
         Bkt b (last (Q @ L' @ B')))"
    unfolding hashmap_merge_def res(6) using bs1 loop(2) bound ne ab len lastA by simp
  then show ?thesis
    using permuted_trans [OF perm1 res(1)] res(2-5) by blast
qed


subsection \<open>One pass and the whole sort\<close>

lemma advance_ok:
  "chain bs b p S NullB \<Longrightarrow> S \<noteq> [] \<Longrightarrow> 0 < gap \<Longrightarrow>
     advance gap (hput h b bs) p = Inr (Bkt b (last (take gap S)))"
proof (induction gap "hput h b bs" p arbitrary: S rule: advance.induct)
  case (2 e)
  then show ?case by (cases S) auto
next
  case (3 c e)
  then obtain i S' where S: "S = i # S'" "e = Bkt b i" "i < length bs" "chain bs b (bnext (bs ! i)) S' NullB"
    by (cases S) auto
  show ?case
  proof (cases S')
    case Nil
    then show ?thesis using S by simp
  next
    case (Cons j S'')
    then show ?thesis
      using 3(1) [of "bs ! i" S'] S by simp
  qed
qed simp

text \<open>
  Between two merges: \<open>P\<close> is merged and its last link is open, \<open>S\<close> is still to do.
\<close>

definition passing :: "bucket list \<Rightarrow> nat \<Rightarrow> bptr \<Rightarrow> bptr \<Rightarrow> bptr \<Rightarrow> nat list \<Rightarrow> nat list \<Rightarrow> bool" where
  "passing bs b head prevend start1 P S \<longleftrightarrow>
     distinct (P @ S) \<and> chain bs b start1 S NullB \<and>
     (if P = [] then head = start1
      else head = Bkt b (hd P) \<and> prevend = Bkt b (last P) \<and> last P < length bs \<and>
           chain bs b head (butlast P) prevend)"

lemma distinct_last: "distinct (P @ S) \<Longrightarrow> P \<noteq> [] \<Longrightarrow> last P \<notin> set (butlast P) \<and> last P \<notin> set S"
  by (cases P rule: rev_cases) auto

lemma passing_done:
  assumes "passing bs b head prevend start1 P S" and "P \<noteq> []"
  shows "set_next (hput h b bs) prevend start1 = Inr (hput h b (link bs (last P) start1))"
    and "chain (link bs (last P) start1) b head (P @ S) NullB"
proof -
  have p: "prevend = Bkt b (last P)" "last P < length bs" "last P \<notin> set S" "last P \<notin> set (butlast P)"
      "chain bs b head (butlast P) (Bkt b (last P))" "chain bs b start1 S NullB"
    using assms distinct_last [of P S] unfolding passing_def by (auto simp del: distinct_append)
  then show "set_next (hput h b bs) prevend start1 = Inr (hput h b (link bs (last P) start1))"
    by simp
  show "chain (link bs (last P) start1) b head (P @ S) NullB"
    using p assms(2) by (auto simp: chain_snoc_iff)
qed


text \<open>The merged run \<open>R\<close> is hooked to \<open>P\<close>.\<close>

lemma passing_extend:
  assumes p: "passing bs b head prevend start1 P (A @ B @ S)" and A: "A \<noteq> []"
    and perm: "permuted (A @ B) bs R bs1" and R: "R \<noteq> []" "hd R = hd A" "last R < length bs1"
    and c: "chain bs1 b (Bkt b (hd R)) (butlast R) (Bkt b (last R))"
  defines "bs2 \<equiv> (if P = [] then bs1 else link bs1 (last P) start1)"
  shows "permuted (P @ A @ B @ S) bs (P @ R @ S) bs2"
    and "passing bs2 b head (Bkt b (last R)) (head_ptr b S) (P @ R) S"
proof -
  have d: "distinct (P @ A @ B @ S)" and s1: "start1 = Bkt b (hd A)"
    and r: "\<exists>r. chain bs b r S NullB"
    using p A by (auto simp: passing_def dest: chain_butlast)
  have cS: "chain bs b (head_ptr b S) S NullB"
    using r chain_head by blast
  have perm1: "permuted (P @ A @ B @ S) bs (P @ R @ S) bs1"
    using permuted_frame [OF perm, of P S] d by simp
  have d2: "distinct (P @ R @ S)"
    using permuted_set [OF perm1] d by simp
  have "links_only (set (P @ R @ S)) bs1 bs2"
    by (auto simp: bs2_def intro: links_only_link)
  then show "permuted (P @ A @ B @ S) bs (P @ R @ S) bs2"
    using permuted_trans [OF perm1 permuted_links] by blast
  have cS1: "chain bs1 b (head_ptr b S) S NullB"
    using cS d by (subst chain_permuted [OF perm]) auto
  show "passing bs2 b head (Bkt b (last R)) (head_ptr b S) (P @ R) S"
  proof (cases "P = []")
    case True
    then show ?thesis
      using p d2 cS1 c R s1 by (simp add: passing_def bs2_def)
  next
    case False
    have l: "last P \<notin> set (butlast P)" "last P \<notin> set S" "last P \<notin> set (butlast R)"
      using distinct_last [OF d2 False] by (auto dest: in_set_butlastD)
    have disj: "set (butlast P) \<inter> set (A @ B) = {}"
      using d by (auto dest: in_set_butlastD)
    have cP: "chain bs1 b head (butlast P) (Bkt b (last P))" "last P < length bs1" "head = Bkt b (hd P)"
      using p False chain_permuted [OF perm disj] perm
      by (auto simp: passing_def permuted_def)
    then have "chain bs2 b head P (Bkt b (hd R))"
      using False l s1 R(2) by (simp add: bs2_def chain_snoc_iff)
    then show ?thesis
      using False d2 cS1 c R l cP by (auto simp: passing_def bs2_def butlast_append)
  qed
qed


text \<open>One merge of \<open>gap\<close> buckets with the next \<open>gap\<close>.\<close>

lemma split_runs:
  assumes "0 < gap" and "gap < length S"
  shows "S = take gap S @ take gap (drop gap S) @ drop gap (drop gap S)"
    and "take gap S \<noteq> []" and "take gap (drop gap S) \<noteq> []"
  using assms by (simp_all only: append_take_drop_id) auto

lemma pass_step:
  assumes p: "passing bs b head prevend start1 P S" and gap: "0 < gap" "gap < length S"
    and fuel: "length S \<le> mfuel"
  defines "S' \<equiv> drop gap (drop gap S)"
  shows "\<exists>bs' P'. pass_loop (Suc fuel) mfuel cmp gap (hput h b bs) head prevend start1 =
      pass_loop fuel mfuel cmp gap (hput h b bs') head (Bkt b (last P')) (head_ptr b S') \<and>
    passing bs' b head (Bkt b (last P')) (head_ptr b S') P' S' \<and> P' \<noteq> [] \<and>
    permuted (P @ S) bs (P' @ S') bs'"
proof -
  define A B where "A = take gap S" and "B = take gap (drop gap S)"
  have S: "S = A @ B @ S'" "A \<noteq> []" "B \<noteq> []"
    using split_runs [OF gap] unfolding A_def B_def S'_def by blast+
  have c: "chain bs b start1 S NullB" and d: "distinct (P @ A @ B @ S')"
    using p S(1) unfolding passing_def by metis+
  obtain r q where r: "chain bs b start1 A r" "chain bs b r B q" "chain bs b q S' NullB"
    using c S(1) by (metis chain_append)
  note ab = chain_butlast [OF r(1) S(2)] chain_butlast [OF r(2) S(3)]
  have bound: "last A < length bs" "last B < length bs"
    using chain_bound r S(2,3) by auto
  have adv: "advance gap (hput h b bs) start1 = Inr (Bkt b (last A))"
    unfolding A_def by (rule advance_ok [OF c _ gap(1)]) (use gap in auto)
  have "chain bs b r (B @ S') NullB"
    using r(2,3) by auto
  then have adv2: "advance gap (hput h b bs) r = Inr (Bkt b (last B))"
    using advance_ok [OF _ _ gap(1), of bs b r "B @ S'" h] S(3) by (simp add: B_def S'_def del: drop_drop)
  have q: "q = head_ptr b S'"
    using chain_head [OF r(3)] .
  have "chain bs b start1 (A @ B) q" and "distinct (A @ B)" and "length A + length B \<le> mfuel"
    using r(1,2) d fuel by (auto simp: A_def B_def)
  moreover have "q \<notin> Bkt b ` set B"
    using d q by (cases S') auto
  ultimately obtain bs1 R where mg: "hashmap_merge mfuel cmp (hput h b bs) (Bkt b (hd A)) (Bkt b (last A))
       (Bkt b (hd B)) (Bkt b (last B)) = Inr (hput h b bs1, Bkt b (last R))"
      "permuted (A @ B) bs R bs1" "R \<noteq> []" "hd R = hd A"
      "chain bs1 b (Bkt b (hd R)) (butlast R) (Bkt b (last R))" "last R < length bs1"
    using hashmap_merge_ok [of bs b start1 A B q mfuel cmp h] S(2,3) by blast
  let ?bs2 = "if P = [] then bs1 else link bs1 (last P) start1"
  note ext = passing_extend [OF p [unfolded S(1)] S(2) mg(2-4,6,5)]
  have head: "start1 = head \<longleftrightarrow> P = []"
    using p ab(1) d S(2) by (cases P; cases A) (auto simp: passing_def)
  have prev: "P \<noteq> [] \<Longrightarrow> prevend = Bkt b (last P) \<and> last P < length bs1"
    using p mg(2) by (auto simp: passing_def permuted_def)
  have "pass_loop (Suc fuel) mfuel cmp gap (hput h b bs) head prevend start1 =
      pass_loop fuel mfuel cmp gap (hput h b ?bs2) head (Bkt b (last R)) (head_ptr b S')"
    using adv adv2 ab bound mg(1) head prev q by auto
  then show ?thesis
    using ext mg(3) S(1) by (intro exI [of _ ?bs2] exI [of _ "P @ R"]) simp
qed


lemma pass_loop_ok:
  assumes "passing bs b head prevend start1 P S" and "0 < gap" and "length S \<le> fuel"
    and "length S \<le> mfuel" and "P = [] \<Longrightarrow> gap < length S"
  shows "\<exists>bs' prevend' start1' P' S'.
    pass_loop fuel mfuel cmp gap (hput h b bs) head prevend start1 =
      Inr (hput h b bs', head, prevend', start1') \<and>
    passing bs' b head prevend' start1' P' S' \<and> P' \<noteq> [] \<and> permuted (P @ S) bs (P' @ S') bs'"
  using assms
proof (induction fuel arbitrary: bs prevend start1 P S)
  case 0
  then have "start1 = NullB" and "P \<noteq> []"
    by (auto simp: passing_def)
  then show ?case
    using 0(1) permuted_refl [of "P @ S" "P @ S" bs]
    by (intro exI [of _ bs] exI [of _ prevend] exI [of _ start1] exI [of _ P] exI [of _ S]) simp
next
  case (Suc fuel)
  have c: "chain bs b start1 S NullB"
    using Suc.prems(1) by (simp add: passing_def)
  show ?case
  proof (cases "gap < length S")
    case True
    obtain bs1 P1 where step: "pass_loop (Suc fuel) mfuel cmp gap (hput h b bs) head prevend start1 =
        pass_loop fuel mfuel cmp gap (hput h b bs1) head (Bkt b (last P1)) (head_ptr b (drop gap (drop gap S)))"
      "passing bs1 b head (Bkt b (last P1)) (head_ptr b (drop gap (drop gap S))) P1 (drop gap (drop gap S))"
      "P1 \<noteq> []" "permuted (P @ S) bs (P1 @ drop gap (drop gap S)) bs1"
      using pass_step [OF Suc.prems(1,2) True Suc.prems(4)] by blast
    have "length (drop gap (drop gap S)) \<le> fuel" "length (drop gap (drop gap S)) \<le> mfuel"
      using Suc.prems(2-4) by auto
    then show ?thesis
      using Suc.IH [OF step(2) Suc.prems(2) _ _ ] step(1,3,4) permuted_trans [OF step(4)] by metis
  next
    case False
    have "pass_loop (Suc fuel) mfuel cmp gap (hput h b bs) head prevend start1 =
        Inr (hput h b bs, head, prevend, start1)"
    proof (cases "S = []")
      case True
      then show ?thesis using c by simp
    next
      case ne: False
      then have "advance gap (hput h b bs) start1 = Inr (Bkt b (last S))"
        using advance_ok [OF c ne Suc.prems(2)] False by simp
      then show ?thesis
        using chain_butlast [OF c ne] chain_bound [OF c] ne by simp
    qed
    then show ?thesis
      using False Suc.prems(1,5) permuted_refl [of "P @ S"] by blast
  qed
qed

lemma gap_loop_ok:
  assumes "chain bs b head V NullB" and "distinct V" and "0 < gap" and "length V \<le> fuel"
    and "length V \<le> 2 ^ 30"
  shows "\<exists>bs' V'. gap_loop fuel cmp (length V) gap (hput h b bs) head prevend = Inr (hput h b bs', head) \<and>
    chain bs' b head V' NullB \<and> permuted V bs V' bs'"
  using assms
proof (induction "length V - gap" arbitrary: bs V gap prevend rule: less_induct)
  case less
  show ?case
  proof (cases "gap < length V")
    case True
    have "passing bs b head prevend head [] V"
      using less.prems by (simp add: passing_def)
    then obtain bs1 prevend1 start1 P S where pass:
        "pass_loop fuel fuel cmp gap (hput h b bs) head prevend head = Inr (hput h b bs1, head, prevend1, start1)"
        "passing bs1 b head prevend1 start1 P S" "P \<noteq> []" "permuted V bs (P @ S) bs1"
      using pass_loop_ok [of bs b head prevend head "[]" V gap fuel fuel cmp h] less.prems(3,4) True by auto
    note fin = passing_done [OF pass(2,3)]
    let ?bs2 = "link bs1 (last P) start1"
    have "permuted (P @ S) bs1 (P @ S) ?bs2"
      using pass(3) by (intro permuted_links links_only_link) auto
    then have perm: "permuted V bs (P @ S) ?bs2"
      using pass(4) permuted_trans by blast
    have len: "length (P @ S) = length V" "distinct (P @ S)"
      using permuted_set [OF perm] less.prems(2) by auto
    have dec: "length (P @ S) - gap * 2 < length V - gap"
      using len(1) True less.prems(3) by linarith
    obtain bs' V' where rec: "gap_loop fuel cmp (length V) (gap * 2) (hput h b ?bs2) head prevend1 =
        Inr (hput h b bs', head)" "chain bs' b head V' NullB" "permuted (P @ S) ?bs2 V' bs'"
      using less.hyps [OF dec fin(2) len(2), of prevend1] less.prems(3-5) unfolding len(1) by auto
    have "gap_loop fuel cmp (length V) gap (hput h b bs) head prevend = Inr (hput h b bs', head)"
      using rec(1) pass(1) fin(1) True less.prems(3,5) by (subst gap_loop.simps) simp
    then show ?thesis
      using rec(2) permuted_trans [OF perm rec(3)] by blast
  next
    case False
    then show ?thesis
      using less.prems(1) permuted_refl [of V V bs] by (subst gap_loop.simps) auto
  qed
qed


subsection \<open>Properties\<close>

lemma hashmap_sort_rep:
  assumes rep: "hm_rep mem h m bs js" and "mcount m \<le> 2 ^ 30"
  shows "\<exists>bs' js'. hashmap_sort h m cmp = Inr (hput h (buckets m) bs', m) \<and>
    chain bs' (buckets m) (first m) js' NullB \<and> permuted js bs js' bs'"
proof (cases "js = []")
  case True
  then have "first m = NullB"
    using hm_repD(5) [OF rep] by simp
  then have "hashmap_sort h m cmp = Inr (hput h (buckets m) bs, m)"
    using hm_repD(1) [OF rep] by (simp add: hashmap_sort_def hashmap_msort_def hput_same)
  then show ?thesis
    using hm_repD(5) [OF rep] permuted_refl [of js js bs] by blast
next
  case False
  have len: "length js \<le> capacity m"
    using table_ok_count [OF hm_repD(3) [OF rep]] hm_repD(2) [OF rep] by simp
  obtain bs' js' where r: "gap_loop (capacity m) cmp (length js) 1 (hput h (buckets m) bs) (first m) NullB =
      Inr (hput h (buckets m) bs', first m)" "chain bs' (buckets m) (first m) js' NullB" "permuted js bs js' bs'"
    using gap_loop_ok [OF hm_repD(5) [OF rep] table_okD(1) [OF hm_repD(3) [OF rep]] _ len, of 1 cmp h NullB]
      assms(2) hm_repD(7) [OF rep] by auto
  have "first m \<noteq> NullB"
    using hm_repD(5) [OF rep] False by (cases js) auto
  then have "hashmap_sort h m cmp = Inr (hput h (buckets m) bs', m)"
    using r(1) hm_repD(1,7) [OF rep] by (simp add: hashmap_sort_def hashmap_msort_def hput_same)
  then show ?thesis
    using r(2,3) by blast
qed

lemma entries_abs_nth: "entries_abs mem (map ((!) bs) js) = entries_abs mem (bkts bs js)"
  by (simp add: entries_abs_def bkts_def)

lemma hm_buckets_chain:
  assumes "blocks h (buckets m) = Some bs" and "chain bs (buckets m) (first m) js NullB"
    and "length js \<le> capacity m"
  shows "hm_buckets h m = Inr (map ((!) bs) js)" and "hm_entries mem h m = entries_abs mem (bkts bs js)"
proof -
  show "hm_buckets h m = Inr (map ((!) bs) js)"
    by (simp add: hm_buckets_def walk_chain [OF assms] foldR_collect [of "\<lambda>e. e", simplified])
  then show "hm_entries mem h m = entries_abs mem (bkts bs js)"
    by (simp add: hm_entries_def entries_abs_def bkts_def)
qed

lemma sort_permutes_ok:
  assumes "hm_inv mem h m" and "mcount m \<le> 2 ^ 30"
  shows "ok (hashmap_sort h m cmp) (\<lambda>(h', m'). m' = m \<and>
    ok (hm_buckets h' m') (\<lambda>es. mset (entries_abs mem es) = mset (hm_entries mem h m)))"
proof -
  obtain bs js where rep: "hm_rep mem h m bs js"
    using assms(1) unfolding hm_inv_def by blast
  obtain bs' js' where r: "hashmap_sort h m cmp = Inr (hput h (buckets m) bs', m)"
      "chain bs' (buckets m) (first m) js' NullB" "permuted js bs js' bs'"
    using hashmap_sort_rep [OF rep assms(2)] by blast
  have len: "length js' \<le> capacity m"
    using permuted_set [OF r(3)] table_ok_count [OF hm_repD(3) [OF rep]] hm_repD(2) [OF rep] by simp
  have "mset (entries_abs mem (bkts bs' js')) = mset (entries_abs mem (bkts bs js))"
    using r(3) by (simp add: permuted_def entries_abs_def)
  then show ?thesis
    using r(1) hm_buckets_chain(1) [OF _ r(2) len, of "hput h (buckets m) bs'"] hm_entries_bkts [OF rep]
    by (simp add: entries_abs_nth)
qed


text \<open>
  C34: \<open>hashmap_sort\<close> returns for every comparison function, and a walk over the list
  afterwards meets each entry exactly once: the entries are permuted, none is lost or
  duplicated. The map structure itself is unchanged.
\<close>

theorem hashmap_sort_permutes:
  assumes "hm_inv mem h m" and "mcount m \<le> 2 ^ 30"
  shows "ok (hashmap_sort h m cmp) (\<lambda>(h', m'). m' = m \<and>
    ok (hm_buckets h' m') (\<lambda>es. mset (entries_abs mem es) = mset (hm_entries mem h m)))"
  using assms by (rule sort_permutes_ok)

theorem hashmap_sort_permutes_witness:
  "ok (bindR (foldR (\<lambda>((key, ksize), v) (h, m). hashmap_set (\<lambda>a. ucast a) h m key ksize v)
          sample_bindings (hashmap_create empty_heap))
        (\<lambda>(h, m). bindR (hashmap_sort h m (\<lambda>a b. uint b - uint a)) (\<lambda>(h', m'). hm_buckets h' m')))
     (\<lambda>es. mset (entries_abs (\<lambda>a. ucast a) es) =
        mset (fold (\<lambda>((key, ksize), v). AList.update (load_bytes (\<lambda>a. ucast a) key (unat ksize)) v)
          sample_bindings []))"
proof -
  have "\<forall>((key, ksize), v)\<in>set sample_bindings. key \<noteq> 0" and "length sample_bindings \<le> 15"
    by (simp_all add: sample_bindings_def)
  then obtain h m where r: "foldR (\<lambda>((key, ksize), v) (h, m). hashmap_set (\<lambda>a. ucast a) h m key ksize v)
      sample_bindings (hashmap_create empty_heap) = Inr (h, m)" "hm_inv (\<lambda>a. ucast a) h m"
      "hm_entries (\<lambda>a. ucast a) h m =
        fold (\<lambda>((key, ksize), v). AList.update (load_bytes (\<lambda>a. ucast a) key (unat ksize)) v) sample_bindings []"
    using fill_ok [of sample_bindings "\<lambda>a. ucast a"] by (auto elim!: okE)
  have "mcount m \<le> 2 ^ 30"
    using hm_inv_size [OF r(2)] r(3) by (simp add: sample_bindings_def load_bytes_def)
  from hashmap_sort_permutes [OF r(2) this, of "\<lambda>a b. uint b - uint a"] r(1,3) show ?thesis
    by (auto simp: ok_bindR_eq elim!: ok_mono)
qed

text \<open>The runs of the first pass have length 1, where the two exchanges cancel.\<close>

lemma swapc_twice: "i < length bs \<Longrightarrow> j < length bs \<Longrightarrow> swapc (swapc bs i j) i j = bs"
  by (auto simp: swapc_def list_eq_iff_nth_eq nth_list_update)

lemma link_same: "i < length bs \<Longrightarrow> bnext (bs ! i) = q \<Longrightarrow> link bs i q = bs"
  by (auto simp: link_def list_eq_iff_nth_eq nth_list_update)

lemma hashmap_merge_single:
  assumes "i < length bs" and "j < length bs" and "bnext (bs ! i) = Bkt b j"
  shows "hashmap_merge (Suc fuel) cmp (hput h b bs) (Bkt b i) (Bkt b i) (Bkt b j) (Bkt b j) =
    Inr (hput h b bs, Bkt b j)"
  using assms by (simp add: hashmap_merge_def swap_hput swapc_twice link_same)

text \<open>
  \<open>hashmap_sort\<close> does not sort: on a map of two entries it changes nothing, whatever the
  comparison function says about them.
\<close>

theorem hashmap_sort_two_entries:
  assumes "hm_inv mem h m" and "mcount m = 2"
  shows "hashmap_sort h m cmp = Inr (h, m)"
proof -
  obtain bs js where rep: "hm_rep mem h m bs js"
    using assms(1) unfolding hm_inv_def by blast
  note r = hm_repD [OF rep]
  obtain i j where js: "js = [i, j]"
    using r(7) assms(2) by (cases js; cases "tl js") auto
  have ij: "first m = Bkt (buckets m) i" "i < length bs" "bnext (bs ! i) = Bkt (buckets m) j"
      "j < length bs" "bnext (bs ! j) = NullB"
    using r(5) js by auto
  have "2 < capacity m"
    using r(8) assms(2) by (simp add: cap_ok_def)
  then obtain cap where cap: "capacity m = Suc (Suc cap)"
    using that [of "capacity m - 2"] by simp
  have h: "h = hput h (buckets m) bs"
    using r(1) by (simp add: hput_same)
  have "hashmap_sort (hput h (buckets m) bs) m cmp = Inr (hput h (buckets m) bs, m)"
    using ij assms(2) cap hashmap_merge_single [OF ij(2,4,3), of "Suc cap" cmp h]
    by (simp add: hashmap_sort_def hashmap_msort_def gap_loop.simps [where gap = "Suc 0"]
        gap_loop.simps [where gap = 2] gap_loop.simps [where gap = "Suc (Suc 0)"] link_same)
  then show ?thesis
    using h by simp
qed


theorem hashmap_sort_two_entries_witness:
  "ok (foldR (\<lambda>((key, ksize), v) (h, m). hashmap_set (\<lambda>a. ucast a) h m key ksize v)
        [((2, 1), 20), ((1, 1), 10)] (hashmap_create empty_heap))
     (\<lambda>(h, m). hm_entries (\<lambda>a. ucast a) h m = [([2], 20), ([1], 10)] \<and>
        hashmap_sort h m (\<lambda>a b. uint a - uint b) = Inr (h, m))"
proof (rule ok_mono [OF fill_ok])
  fix s :: "bheap \<times> hashmap"
  obtain h m where s: "s = (h, m)"
    by fastforce
  assume "case s of (h, m) \<Rightarrow> hm_inv (\<lambda>a. ucast a) h m \<and> hm_entries (\<lambda>a. ucast a) h m =
    fold (\<lambda>((key, ksize), v). AList.update (load_bytes (\<lambda>a. ucast a) key (unat ksize)) v)
      [((2, 1), 20), ((1, 1), 10)] []"
  then have "hm_inv (\<lambda>a. ucast a) h m" and e: "hm_entries (\<lambda>a. ucast a) h m = [([2], 20), ([1], 10)]"
    by (simp_all add: s load_bytes_def)
  moreover from this have "mcount m = 2"
    by (simp add: hm_inv_size)
  ultimately show "case s of (h, m) \<Rightarrow> hm_entries (\<lambda>a. ucast a) h m = [([2], 20), ([1], 10)] \<and>
      hashmap_sort h m (\<lambda>a b. uint a - uint b) = Inr (h, m)"
    using hashmap_sort_two_entries [of "\<lambda>a. ucast a" h m "\<lambda>a b. uint a - uint b"] s by simp
qed simp_all

subsection \<open>What the sort breaks\<close>

text \<open>Three little-endian keys 3, 2 and 1 at the addresses 8, 16 and 24, inserted in this order.\<close>

definition three_keys :: memory where
  "three_keys a = (if a = 8 then 3 else if a = 16 then 2 else if a = 24 then 1 else 0)"

definition three_cmp :: "ptr \<Rightarrow> ptr \<Rightarrow> int" where
  "three_cmp a b = uint (three_keys a) - uint (three_keys b)"

definition three_map :: "(bheap \<times> hashmap) res" where
  "three_map = foldR (\<lambda>(key, v) (h, m). hashmap_set three_keys h m key 8 v)
     [(8, 100), (16, 200), (24, 300)] (hashmap_create empty_heap)"

lemmas sort_numeral =
  merge_loop.simps(2) [of "pred_numeral k" for k, folded numeral_eq_Suc]
  pass_loop.simps(2) [of "pred_numeral k" for k, folded numeral_eq_Suc]
  advance.simps(3) [of 0, folded numeral_2_eq_2]

lemmas sort_eval = hashmap_sort_def hashmap_msort_def gap_loop.simps hashmap_merge_def
  hashmap_swap_bucket_def deref_def store_bkt_def set_next_def sort_numeral hashmap_get_def


text \<open>
  \<open>hashmap_sort\<close> does not update \<^verbatim>\<open>m->last\<close>: a later \<open>hashmap_set\<close> of a new key hooks it behind
  the bucket that used to be the last, and cuts off what follows there. Of four entries
  stored, a walk meets three.
\<close>

theorem hashmap_sort_stale_last:
  "\<exists>h m h' m'. three_map = Inr (h, m) \<and>
     bindR (hashmap_sort h m three_cmp) (\<lambda>(h1, m1). hashmap_set three_keys h1 m1 32 8 400) = Inr (h', m') \<and>
     mcount m' = 4 \<and> walk 20 h' (first m') (\<lambda>e u. Inr (u @ [bvalue e])) [] = Inr [300, 200, 400]"
  by (simp add: three_map_def hashmap_eval sort_eval three_keys_def three_cmp_def
       numeral_eq_Suc [of "num.One"] hash_block_def cong: bindR_weak_cong)

end
