(* ===== verification/Hashmap_Qsort.thy ===== *)
theory Hashmap_Qsort
  imports Hashmap_Sort
begin

text \<open>
  \<^verbatim>\<open>_hashmap_qsort\<close> of \<^verbatim>\<open>map.c\<close>: a quicksort of the entry list that leaves the links as they are and
  exchanges the contents of the buckets. No program calls it; unlike the merge sort in its place
  it does sort.
\<close>

subsection \<open>The program\<close>

text \<open>The \<^verbatim>\<open>while\<close> loop that collects the entries below the one at \<^verbatim>\<open>head\<close>; it walks the list once.\<close>

fun qsort_partition :: "nat \<Rightarrow> (ptr \<Rightarrow> ptr \<Rightarrow> int) \<Rightarrow> bheap \<Rightarrow> bptr \<Rightarrow> bptr \<Rightarrow> bptr \<Rightarrow> bptr \<Rightarrow> (bheap \<times> bptr) res" where
  "qsort_partition 0 cmp h head fin small p = (if p = fin then Inr (h, small) else Inl Diverges)"
| "qsort_partition (Suc fuel) cmp h head fin small p =
     (if p = fin then Inr (h, small)
      else
        bindR (deref h p) (\<lambda>ep.
        bindR (deref h head) (\<lambda>eh.
        if cmp (bkey ep) (bkey eh) < 0 then
          bindR (deref h small) (\<lambda>es.
          bindR (hashmap_swap_bucket h (bnext es) p) (\<lambda>h1.
          bindR (deref h1 p) (\<lambda>ep1.
          qsort_partition fuel cmp h1 head fin (bnext es) (bnext ep1))))
        else qsort_partition fuel cmp h head fin small (bnext ep))))"

text \<open>Both recursive calls sort a shorter list, so the length bounds the depth.\<close>

fun hashmap_qsort :: "nat \<Rightarrow> (ptr \<Rightarrow> ptr \<Rightarrow> int) \<Rightarrow> bheap \<Rightarrow> bptr \<Rightarrow> bptr \<Rightarrow> bheap res" where
  "hashmap_qsort 0 cmp h head fin = (if head = NullB \<or> head = fin then Inr h else Inl Diverges)"
| "hashmap_qsort (Suc fuel) cmp h head fin =
     (if head = NullB \<or> head = fin then Inr h
      else
        bindR (deref h head) (\<lambda>eh.
        bindR (qsort_partition fuel cmp h head fin head (bnext eh)) (\<lambda>(h1, small).
        bindR (hashmap_swap_bucket h1 head small) (\<lambda>h2.
        bindR (hashmap_qsort fuel cmp h2 head small) (\<lambda>h3.
        bindR (deref h3 small) (\<lambda>es.
        hashmap_qsort fuel cmp h3 (bnext es) fin))))))"

subsection \<open>Contents exchanged along a list\<close>

definition shuffled :: "nat list \<Rightarrow> bucket list \<Rightarrow> bucket list \<Rightarrow> bool" where
  "shuffled V bs bs' \<longleftrightarrow> permuted V bs V bs' \<and> (\<forall>i. bnext (bs' ! i) = bnext (bs ! i))"

lemma shuffled_refl [simp]: "shuffled V bs bs"
  by (simp add: shuffled_def permuted_refl)

lemma shuffled_trans: "shuffled V bs bs1 \<Longrightarrow> shuffled V bs1 bs2 \<Longrightarrow> shuffled V bs bs2"
  using permuted_trans [of V bs V bs1 V bs2] by (simp add: shuffled_def)

lemma shuffled_swapc:
  assumes "distinct V" and "i \<in> set V" and "j \<in> set V" and "\<forall>k\<in>set V. k < length bs"
  shows "shuffled V bs (swapc bs i j)"
  using permuted_swapc [OF assms] assms by (simp add: shuffled_def swapc_next)

lemma shuffled_frame:
  assumes "shuffled V bs bs'" and "distinct (P @ V @ S)"
  shows "shuffled (P @ V @ S) bs bs'"
  using permuted_frame [of V bs V bs' P S] assms by (simp add: shuffled_def)

lemma shuffled_length: "shuffled V bs bs' \<Longrightarrow> length bs' = length bs"
  by (simp add: shuffled_def permuted_def)

lemma shuffled_chain: "shuffled V bs bs' \<Longrightarrow> chain bs' b p js q = chain bs b p js q"
  by (rule chain_cong) (auto simp: shuffled_def permuted_def)

lemma shuffled_other: "shuffled V bs bs' \<Longrightarrow> i \<notin> set V \<Longrightarrow> bs' ! i = bs ! i"
  by (simp add: shuffled_def permuted_def)

text \<open>What holds of all keys along a list holds after an exchange.\<close>

lemma shuffled_keys:
  assumes "shuffled V bs bs'"
  shows "(\<lambda>j. bkey (bs' ! j)) ` set V = (\<lambda>j. bkey (bs ! j)) ` set V"
proof -
  have "mset (bkts bs' V) = mset (bkts bs V)"
    using assms by (simp add: shuffled_def permuted_def)
  then have "bkey ` set (bkts bs' V) = bkey ` set (bkts bs V)"
    by (metis set_mset_mset)
  then show ?thesis
    by (simp add: bkts_def image_image)
qed

lemma swapc_keys:
  assumes "i < length bs" and "j < length bs"
  shows "bkey (swapc bs i j ! i) = bkey (bs ! j)" "bkey (swapc bs i j ! j) = bkey (bs ! i)"
  using assms by (simp_all add: swapc_def nth_list_update)

subsection \<open>The loop\<close>

definition head_of :: "nat \<Rightarrow> nat list \<Rightarrow> bptr \<Rightarrow> bptr" where
  "head_of b js q = (case js of [] \<Rightarrow> q | j # _ \<Rightarrow> Bkt b j)"

lemma head_of_simps [simp]: "head_of b [] q = q" "head_of b (j # js) q = Bkt b j"
  by (simp_all add: head_of_def)

lemma chain_head_of: "chain bs b p js q \<Longrightarrow> p = head_of b js q"
  by (cases js) auto

lemma chain_next:
  assumes "chain bs b p (js @ i # ks) q"
  shows "i < length bs" "bnext (bs ! i) = head_of b ks q"
  using assms by (auto dest: chain_head_of)

text \<open>
  \<open>L\<close> are the entries below the one at \<open>a\<close>, \<open>G\<close> the others, \<open>R\<close> those to come.
\<close>

definition parted :: "(ptr \<Rightarrow> ptr \<Rightarrow> int) \<Rightarrow> bucket list \<Rightarrow> nat \<Rightarrow> nat list \<Rightarrow> nat list \<Rightarrow> bool" where
  "parted cmp bs a L G \<longleftrightarrow> (\<forall>j\<in>set L. cmp (bkey (bs ! j)) (bkey (bs ! a)) < 0) \<and> (\<forall>j\<in>set G. \<not> cmp (bkey (bs ! j)) (bkey (bs ! a)) < 0)"

lemma bucket_partition_ok:
  assumes "chain bs b p (a # L @ G @ R) q" and "distinct (a # L @ G @ R)" and "q \<notin> Bkt b ` set (a # L @ G @ R)"
    and "parted cmp bs a L G" and "length R \<le> fuel"
  shows "\<exists>bs' L' G'. qsort_partition fuel cmp (hput h b bs) (Bkt b a) q (Bkt b (last (a # L))) (head_of b R q) =
      Inr (hput h b bs', Bkt b (last (a # L'))) \<and> L' @ G' = L @ G @ R \<and> shuffled (L @ G @ R) bs bs' \<and> parted cmp bs' a L' G'"
  using assms
proof (induction fuel arbitrary: bs L G R)
  case 0
  then show ?case
    by (intro exI [of _ bs] exI [of _ L] exI [of _ G]) simp
next
  case (Suc fuel)
  show ?case
  proof (cases R)
    case Nil
    then show ?thesis
      using Suc.prems by (intro exI [of _ bs] exI [of _ L] exI [of _ G]) simp
  next
    case (Cons r R')
    have "chain bs b p ((a # L @ G) @ r # R') q"
      using Suc.prems(1) by (simp only: Cons append_Cons append_assoc)
    note r = chain_next [OF this]
    have a: "a < length bs"
      using Suc.prems(1) by simp
    have rq: "Bkt b r \<noteq> q"
      using Suc.prems(3) by (auto simp: Cons)
    show ?thesis
    proof (cases "cmp (bkey (bs ! r)) (bkey (bs ! a)) < 0")
      case False
      have parted: "parted cmp bs a L (G @ [r])"
        using Suc.prems(4) False by (simp add: parted_def)
      have "\<exists>bs' L' G'. qsort_partition fuel cmp (hput h b bs) (Bkt b a) q (Bkt b (last (a # L))) (head_of b R' q) =
          Inr (hput h b bs', Bkt b (last (a # L'))) \<and> L' @ G' = L @ (G @ [r]) @ R' \<and>
          shuffled (L @ (G @ [r]) @ R') bs bs' \<and> parted cmp bs' a L' G'"
        by (rule Suc.IH) (use Suc.prems parted in \<open>simp_all add: Cons\<close>)
      then show ?thesis
        using a r rq False by (simp add: Cons)
    next
      case True
      define g where "g = hd (G @ [r])"
      have small: "last (a # L) < length bs" "bnext (bs ! last (a # L)) = Bkt b g"
      proof -
        have "a # L @ G @ R = butlast (a # L) @ last (a # L) # (G @ R)"
          by (metis append_Cons append_butlast_last_id append_assoc append_Nil list.distinct(1))
        then have "chain bs b p (butlast (a # L) @ last (a # L) # (G @ R)) q"
          using Suc.prems(1) by (simp only:)
        from chain_next [OF this] show "last (a # L) < length bs" "bnext (bs ! last (a # L)) = Bkt b g"
          by (cases G; simp add: Cons g_def)+
      qed
      have g: "g \<in> set (G @ [r])" "g < length bs"
        using chain_bound [OF Suc.prems(1)] by (cases G; simp add: g_def Cons)+
      let ?bs = "swapc bs g r" and ?L = "L @ [g]" and ?G = "tl (G @ [r])"
      have eq: "?L @ ?G @ R' = L @ G @ R"
        by (cases G) (simp_all add: g_def Cons)
      have d: "a \<notin> set (L @ G @ R)" "distinct (L @ G @ R)"
        using Suc.prems(2) by auto
      have sh: "shuffled (L @ G @ R) bs ?bs"
        using d(2) g(1) chain_bound [OF Suc.prems(1)] by (intro shuffled_swapc) (auto simp: Cons)
      have other: "?bs ! j = bs ! j" if "j \<noteq> g" "j \<noteq> r" for j
        using that by (rule swapc_other)
      have ag: "a \<noteq> g" "a \<noteq> r"
        using d(1) g(1) by (auto simp: Cons)
      have parted: "parted cmp ?bs a ?L ?G"
        unfolding parted_def other [OF ag]
      proof (intro conjI ballI)
        fix j assume "j \<in> set ?L"
        then show "cmp (bkey (?bs ! j)) (bkey (bs ! a)) < 0"
        proof (cases "j = g")
          case False
          then have "j \<in> set L" "j \<noteq> r"
            using \<open>j \<in> set ?L\<close> d(2) by (auto simp: Cons)
          then show ?thesis
            using other [OF False] Suc.prems(4) by (simp add: parted_def)
        qed (use True swapc_keys(1) [OF g(2) r(1)] in simp)
      next
        fix j assume j: "j \<in> set ?G"
        then obtain G' where G: "G = g # G'"
          by (cases G) (simp_all add: g_def)
        show "\<not> cmp (bkey (?bs ! j)) (bkey (bs ! a)) < 0"
        proof (cases "j = r")
          case True
          then show ?thesis
            using swapc_keys(2) [OF g(2) r(1)] Suc.prems(4) G by (simp add: parted_def)
        next
          case False
          then have "j \<in> set G'"
            using j G by simp
          moreover from this have "j \<noteq> g"
            using d(2) G by auto
          ultimately show ?thesis
            using other [of j] False Suc.prems(4) G by (simp add: parted_def)
        qed
      qed
      have "\<exists>bs' L' G'. qsort_partition fuel cmp (hput h b ?bs) (Bkt b a) q (Bkt b (last (a # ?L))) (head_of b R' q) =
          Inr (hput h b bs', Bkt b (last (a # L'))) \<and> L' @ G' = ?L @ ?G @ R' \<and> shuffled (?L @ ?G @ R') ?bs bs' \<and> parted cmp bs' a L' G'"
        by (rule Suc.IH) (use Suc.prems parted in \<open>simp_all only: eq shuffled_chain [OF sh], simp_all add: Cons\<close>)
      then obtain bs' L' G' where IH: "qsort_partition fuel cmp (hput h b ?bs) (Bkt b a) q (Bkt b g) (head_of b R' q) =
          Inr (hput h b bs', Bkt b (last (a # L')))" "L' @ G' = L @ G @ R" "shuffled (L @ G @ R) ?bs bs'" "parted cmp bs' a L' G'"
        unfolding eq last.simps(1) by auto
      have "bnext (?bs ! r) = head_of b R' q"
        using r g(2) by (simp add: swapc_next)
      then have "qsort_partition (Suc fuel) cmp (hput h b bs) (Bkt b a) q (Bkt b (last (a # L))) (head_of b R q) =
          qsort_partition fuel cmp (hput h b ?bs) (Bkt b a) q (Bkt b g) (head_of b R' q)"
        using a r(1) rq g(2) True small by (simp add: Cons swap_hput del: last.simps)
      then show ?thesis
        unfolding IH(1) using IH(2,4) shuffled_trans [OF sh IH(3)] by blast
    qed
  qed
qed

subsection \<open>The entry at the head goes to its place\<close>

lemma pivot_ok:
  assumes "chain bs b p (a # xs) q" and "distinct (a # xs)" and "q \<notin> Bkt b ` set (a # xs)" and "length xs \<le> fuel"
  obtains bs1 bs2 A s G where "a # xs = A @ s # G" "s < length bs" "length bs1 = length bs"
    "qsort_partition fuel cmp (hput h b bs) (Bkt b a) q (Bkt b a) (head_of b xs q) = Inr (hput h b bs1, Bkt b s)"
    "hashmap_swap_bucket (hput h b bs1) (Bkt b a) (Bkt b s) = Inr (hput h b bs2)" "shuffled (a # xs) bs bs2" "parted cmp bs2 s A G"
proof -
  have "chain bs b p (a # [] @ [] @ xs) q" "distinct (a # [] @ [] @ xs)" "q \<notin> Bkt b ` set (a # [] @ [] @ xs)" "parted cmp bs a [] []"
    using assms by (simp_all add: parted_def)
  from bucket_partition_ok [OF this assms(4), of h] obtain bs1 L G where
    run: "qsort_partition fuel cmp (hput h b bs) (Bkt b a) q (Bkt b a) (head_of b xs q) = Inr (hput h b bs1, Bkt b (last (a # L)))"
    and xs: "L @ G = xs" and sh: "shuffled xs bs bs1" and parted: "parted cmp bs1 a L G"
    by auto
  define s A where "s = last (a # L)" and "A = butlast (a # L)"
  have split: "a # xs = A @ s # G"
    unfolding s_def A_def by (metis append_Cons append_butlast_last_id append_assoc append_Nil list.distinct(1) xs)
  have bound: "\<And>k. k \<in> set (a # xs) \<Longrightarrow> k < length bs"
    using chain_bound [OF assms(1)] by blast
  have len: "length bs1 = length bs"
    by (rule shuffled_length [OF sh])
  have s: "s \<in> set (a # xs)"
    by (simp add: split)
  let ?bs2 = "swapc bs1 a s"
  have "shuffled (a # xs) bs bs1"
    using shuffled_frame [OF sh, of "[a]" "[]"] assms(2) by simp
  moreover have "shuffled (a # xs) bs1 ?bs2"
    using s assms(2) bound len by (intro shuffled_swapc) auto
  ultimately have sh2: "shuffled (a # xs) bs ?bs2"
    by (rule shuffled_trans)
  have keys: "bkey (?bs2 ! a) = bkey (bs1 ! s)" "bkey (?bs2 ! s) = bkey (bs1 ! a)"
    using swapc_keys [of a bs1 s] bound s len by simp_all
  have other: "?bs2 ! j = bs1 ! j" if "j \<noteq> a" "j \<noteq> s" for j
    using that by (rule swapc_other)
  have d: "distinct (A @ s # G)"
    using assms(2) by (simp only: split)
  have "parted cmp ?bs2 s A G"
    unfolding parted_def keys(2)
  proof (intro conjI ballI)
    fix j assume j: "j \<in> set A"
    then have L: "L \<noteq> []" and js: "j \<noteq> s"
      using d by (auto simp: A_def)
    then have "s \<in> set L" "j = a \<or> j \<in> set L"
      using j by (auto simp: s_def A_def dest: in_set_butlastD split: if_splits)
    then show "cmp (bkey (?bs2 ! j)) (bkey (bs1 ! a)) < 0"
      using parted keys(1) other [of j] js by (cases "j = a") (auto simp: parted_def)
  next
    fix j assume j: "j \<in> set G"
    then have "j \<noteq> s" "j \<noteq> a"
      using d assms(2) xs by auto
    then show "\<not> cmp (bkey (?bs2 ! j)) (bkey (bs1 ! a)) < 0"
      using parted other [of j] j by (simp add: parted_def)
  qed
  moreover have "hashmap_swap_bucket (hput h b bs1) (Bkt b a) (Bkt b s) = Inr (hput h b ?bs2)"
    using bound s len by (intro swap_hput) simp_all
  ultimately show thesis
    using that [OF split bound [OF s] len run [folded s_def] _ sh2] by blast
qed

subsection \<open>Sorting\<close>

definition keys_sorted :: "(ptr \<Rightarrow> ptr \<Rightarrow> int) \<Rightarrow> (ptr \<Rightarrow> 'a :: linorder) \<Rightarrow> bucket list \<Rightarrow> nat list \<Rightarrow> bool" where
  "keys_sorted cmp f bs js \<longleftrightarrow> ((\<forall>x y. cmp x y < 0 \<longleftrightarrow> f x < f y) \<longrightarrow> sorted (map (\<lambda>j. f (bkey (bs ! j))) js))"

lemma keys_sorted_join:
  assumes parted: "parted cmp bs2 s A G" and "distinct (A @ s # G)"
    and 3: "shuffled A bs2 bs3" "keys_sorted cmp f bs3 A" and 4: "shuffled G bs3 bs4" "keys_sorted cmp f bs4 G"
  shows "keys_sorted cmp f bs4 (A @ s # G)"
  unfolding keys_sorted_def
proof
  assume f: "\<forall>x y. cmp x y < 0 \<longleftrightarrow> f x < f y"
  let ?k = "\<lambda>bs j. f (bkey (bs ! j))"
  have s: "bs4 ! s = bs2 ! s"
    using shuffled_other [OF 3(1), of s] shuffled_other [OF 4(1), of s] assms(2) by simp
  have A: "bs4 ! j = bs3 ! j" if "j \<in> set A" for j
    using shuffled_other [OF 4(1), of j] assms(2) that by auto
  have G: "bs3 ! j = bs2 ! j" if "j \<in> set G" for j
    using shuffled_other [OF 3(1), of j] assms(2) that by auto
  have keysA: "(\<lambda>j. bkey (bs4 ! j)) ` set A = (\<lambda>j. bkey (bs2 ! j)) ` set A"
    using shuffled_keys [OF 3(1)] A by simp
  have keysG: "(\<lambda>j. bkey (bs4 ! j)) ` set G = (\<lambda>j. bkey (bs2 ! j)) ` set G"
    using shuffled_keys [OF 4(1)] G by simp
  have below: "?k bs4 j < ?k bs2 s" if "j \<in> set A" for j
  proof -
    have "bkey (bs4 ! j) \<in> (\<lambda>j. bkey (bs2 ! j)) ` set A"
      unfolding keysA [symmetric] using that by (rule imageI)
    then obtain i where "i \<in> set A" "bkey (bs4 ! j) = bkey (bs2 ! i)"
      by (rule imageE) blast
    then show ?thesis
      using parted f by (simp add: parted_def)
  qed
  have above: "?k bs2 s \<le> ?k bs4 j" if "j \<in> set G" for j
  proof -
    have "bkey (bs4 ! j) \<in> (\<lambda>j. bkey (bs2 ! j)) ` set G"
      unfolding keysG [symmetric] using that by (rule imageI)
    then obtain i where "i \<in> set G" "bkey (bs4 ! j) = bkey (bs2 ! i)"
      by (rule imageE) blast
    then show ?thesis
      using parted f by (simp add: parted_def not_less)
  qed
  have "sorted (map (?k bs4) A)"
    using 3(2) f A by (simp add: keys_sorted_def cong: map_cong)
  moreover have "sorted (map (?k bs4) G)"
    using 4(2) f by (simp add: keys_sorted_def)
  moreover have "?k bs4 i \<le> ?k bs4 j" if "i \<in> set A" "j \<in> set G" for i j
    using below [OF that(1)] above [OF that(2)] by simp
  ultimately show "sorted (map (?k bs4) (A @ s # G))"
    using below above by (auto simp: sorted_append s less_imp_le)
qed

lemma bucket_qsort_ok:
  assumes "chain bs b p js q" and "distinct js" and "q \<notin> Bkt b ` set js" and "length js \<le> fuel"
  shows "\<exists>bs'. hashmap_qsort fuel cmp (hput h b bs) p q = Inr (hput h b bs') \<and> shuffled js bs bs' \<and> keys_sorted cmp f bs' js"
  using assms
proof (induction fuel arbitrary: bs p js q)
  case 0
  then show ?case
    by (auto simp: keys_sorted_def)
next
  case (Suc fuel)
  show ?case
  proof (cases js)
    case Nil
    then show ?thesis
      using Suc.prems by (auto simp: keys_sorted_def)
  next
    case (Cons a xs)
    have c: "chain bs b p (a # xs) q" "distinct (a # xs)" "q \<notin> Bkt b ` set (a # xs)" "length xs \<le> fuel"
      using Suc.prems Cons by simp_all
    obtain bs1 bs2 A s G where split: "a # xs = A @ s # G" and s: "s < length bs" and len: "length bs1 = length bs"
      and part: "qsort_partition fuel cmp (hput h b bs) (Bkt b a) q (Bkt b a) (head_of b xs q) = Inr (hput h b bs1, Bkt b s)"
      and swap: "hashmap_swap_bucket (hput h b bs1) (Bkt b a) (Bkt b s) = Inr (hput h b bs2)"
      and sh2: "shuffled (a # xs) bs bs2" and parted: "parted cmp bs2 s A G"
      by (rule pivot_ok [OF c])
    have d: "distinct (A @ s # G)"
      using c(2) unfolding split .
    have fin: "q \<notin> Bkt b ` set (A @ s # G)"
      using c(3) unfolding split .
    have n: "length (A @ s # G) = Suc (length xs)"
      unfolding split [symmetric] by simp
    have p: "p = Bkt b a" "a < length bs" "Bkt b a \<noteq> q" "bnext (bs ! a) = head_of b xs q"
      using c(1,3) chain_head_of by auto
    have ch2: "chain bs2 b p (A @ s # G) q"
      using c(1) unfolding shuffled_chain [OF sh2] split .
    then have chA: "chain bs2 b p A (Bkt b s)"
      by auto
    obtain bs3 where 3: "hashmap_qsort fuel cmp (hput h b bs2) p (Bkt b s) = Inr (hput h b bs3)" "shuffled A bs2 bs3" "keys_sorted cmp f bs3 A"
      using Suc.IH [OF chA] d n c(4) by auto
    have ch3: "chain bs3 b p (A @ s # G) q"
      using ch2 unfolding shuffled_chain [OF 3(2)] .
    note s3 = chain_next [OF ch3]
    have chG: "chain bs3 b (head_of b G q) G q"
      using ch3 s3 by auto
    obtain bs4 where 4: "hashmap_qsort fuel cmp (hput h b bs3) (head_of b G q) q = Inr (hput h b bs4)" "shuffled G bs3 bs4" "keys_sorted cmp f bs4 G"
      using Suc.IH [OF chG] d n c(4) fin by auto
    have run: "hashmap_qsort (Suc fuel) cmp (hput h b bs) p q = Inr (hput h b bs4)"
      using p part swap 3(1) 4(1) s3 by simp
    have "shuffled (A @ s # G) bs2 bs3" "shuffled (A @ s # G) bs3 bs4"
      using shuffled_frame [OF 3(2), of "[]" "s # G"] shuffled_frame [OF 4(2), of "A @ [s]" "[]"] d by simp_all
    then have "shuffled js bs bs4"
      using shuffled_trans sh2 unfolding Cons split by blast
    then show ?thesis
      using run keys_sorted_join [OF parted d 3(2,3) 4(2,3)] unfolding Cons split by blast
  qed
qed

text \<open>
  C24: \<^verbatim>\<open>_hashmap_qsort\<close> on the entries of a map returns for every comparison function, and a walk
  over the list afterwards meets each entry exactly once. When the comparison is one by a key
  into a linear order, the entries come out sorted, which those of \<^verbatim>\<open>hashmap_sort\<close> do not.
\<close>

theorem hashmap_qsort_sorts:
  fixes f :: "ptr \<Rightarrow> 'a :: linorder"
  assumes "hm_inv mem h m"
  shows "ok (bindR (hashmap_qsort (capacity m) cmp h (first m) NullB) (\<lambda>h'. hm_buckets h' m))
    (\<lambda>es. mset (entries_abs mem es) = mset (hm_entries mem h m) \<and>
      ((\<forall>x y. cmp x y < 0 \<longleftrightarrow> f x < f y) \<longrightarrow> sorted (map (\<lambda>e. f (bkey e)) es)))"
proof -
  obtain bs js where rep: "hm_rep mem h m bs js"
    using assms unfolding hm_inv_def by blast
  have len: "length js \<le> capacity m"
    using table_ok_count [OF hm_repD(3) [OF rep]] hm_repD(2) [OF rep] by simp
  obtain bs' where r: "hashmap_qsort (capacity m) cmp (hput h (buckets m) bs) (first m) NullB = Inr (hput h (buckets m) bs')"
      "shuffled js bs bs'" "keys_sorted cmp f bs' js"
    using bucket_qsort_ok [OF hm_repD(5) [OF rep] table_okD(1) [OF hm_repD(3) [OF rep]] _ len, of cmp h f] by auto
  have "hm_buckets (hput h (buckets m) bs') m = Inr (map ((!) bs') js)"
    using hm_buckets_chain(1) [OF _ _ len, of "hput h (buckets m) bs'" bs'] hm_repD(5) [OF rep] shuffled_chain [OF r(2)] by simp
  moreover have "mset (entries_abs mem (bkts bs' js)) = mset (entries_abs mem (bkts bs js))"
    using r(2) by (simp add: shuffled_def permuted_def entries_abs_def)
  ultimately show ?thesis
    using r(1,3) hm_entries_bkts [OF rep] hm_repD(1) [OF rep]
    by (simp add: hput_same entries_abs_nth keys_sorted_def comp_def)
qed

theorem hashmap_qsort_sorts_witness:
  "ok (bindR (foldR (\<lambda>((key, ksize), v) (h, m). hashmap_set (\<lambda>a. ucast a) h m key ksize v)
          sample_bindings (hashmap_create empty_heap))
        (\<lambda>(h, m). bindR (hashmap_qsort (capacity m) (\<lambda>a b. uint b - uint a) h (first m) NullB) (\<lambda>h'. hm_buckets h' m)))
     (\<lambda>es. sorted (map (\<lambda>e. - uint (bkey e)) es))"
proof -
  have "\<forall>((key, ksize), v)\<in>set sample_bindings. key \<noteq> 0" and "length sample_bindings \<le> 15"
    by (simp_all add: sample_bindings_def)
  then obtain h m where r: "foldR (\<lambda>((key, ksize), v) (h, m). hashmap_set (\<lambda>a. ucast a) h m key ksize v)
      sample_bindings (hashmap_create empty_heap) = Inr (h, m)" "hm_inv (\<lambda>a. ucast a) h m"
    using fill_ok [of sample_bindings "\<lambda>a. ucast a"] by (auto elim!: okE)
  from hashmap_qsort_sorts [OF r(2), of "\<lambda>a b. uint b - uint a" "\<lambda>x. - uint x"] r(1) show ?thesis
    by (auto elim!: ok_mono)
qed

end
