(* ===== verification/Hashmap_Removable.thy ===== *)
theory Hashmap_Removable
  imports Hashmap_Correct
begin

text \<open>
  The hash map of \<^verbatim>\<open>map.c\<close> with \<^verbatim>\<open>__HASHMAP_REMOVABLE\<close> defined: entries can be removed. The bucket
  of a removed entry keeps its place in the table and in the list, as a tombstone with the key
  \<open>NULL\<close> and a value other than 0, until the map is resized. What does not depend on the
  macro is used from the theory of the map without it.
\<close>

subsection \<open>The program\<close>

record rhashmap =
  rbase :: hashmap
  tombstone_count :: nat

definition r_create :: "bheap \<Rightarrow> bheap \<times> rhashmap" where
  "r_create h = (case hashmap_create h of (h', m) \<Rightarrow> (h', \<lparr>rbase = m, tombstone_count = 0\<rparr>))"

fun r_resize_loop :: "nat \<Rightarrow> bheap \<Rightarrow> hashmap \<Rightarrow> (bheap \<times> hashmap) res" where
  "r_resize_loop 0 h m = Inl Diverges"
| "r_resize_loop (Suc fuel) h m =
     bindR (last_next h m) (\<lambda>p. case p of NullB \<Rightarrow> Inl NullDeref | Bkt ob oi \<Rightarrow>
     bindR (bkt_get h ob oi) (\<lambda>current.
     bindR (if bkey current = 0 then set_last_next h m (bnext current)
            else
              bindR (resize_entry h m ob oi) (\<lambda>(h1, e).
              bindR (set_last_next h1 m e) (\<lambda>(h2, m2).
              Inr (h2, m2\<lparr>mlast := (case e of NullB \<Rightarrow> FirstField | Bkt b i \<Rightarrow> LastBkt b i)\<rparr>)))) (\<lambda>(h2, m2).
     bindR (last_next h2 m2) (\<lambda>q.
     if q \<noteq> NullB then r_resize_loop fuel h2 m2 else Inr (h2, m2)))))"

definition r_resize :: "bheap \<Rightarrow> rhashmap \<Rightarrow> (bheap \<times> rhashmap) res" where
  "r_resize h r =
     (let m = rbase r; old_buckets = buckets m; cap = capacity m * HASHMAP_RESIZE_FACTOR in
      bindR (guardR (cap < 2 ^ 31) IntOverflow) (\<lambda>_.
      let (b, h1) = calloc_buckets h cap;
          m1 = m\<lparr>capacity := cap, buckets := b, mlast := FirstField, mcount := mcount m - tombstone_count r\<rparr> in
      bindR (r_resize_loop (capacity m) h1 m1) (\<lambda>(h2, m2).
      bindR (free_buckets h2 old_buckets) (\<lambda>h3.
      Inr (h3, \<lparr>rbase = m2, tombstone_count = 0\<rparr>)))))"

definition r_matches :: "memory \<Rightarrow> ptr \<Rightarrow> u64 \<Rightarrow> u32 \<Rightarrow> bucket \<Rightarrow> bool" where
  "r_matches mem key ksize hash entry \<longleftrightarrow>
     (let null_key = (bkey entry = 0); null_value = (bvalue entry = 0) in
      (null_key \<and> null_value) \<or>
      (\<not> null_key \<and> bksize entry = ksize \<and> bhash entry = hash \<and>
       load_bytes mem (bkey entry) (unat ksize) = load_bytes mem key (unat ksize)))"

definition r_find_entry :: "memory \<Rightarrow> bheap \<Rightarrow> rhashmap \<Rightarrow> ptr \<Rightarrow> u64 \<Rightarrow> u32 \<Rightarrow> nat res" where
  "r_find_entry mem h r key ksize hash =
     (let m = rbase r in
      bindR (guardR (capacity m \<noteq> 0) DivByZero) (\<lambda>_.
      probe (capacity m) (r_matches mem key ksize hash) h (buckets m) (capacity m) (unat hash mod capacity m)))"

definition r_maybe_resize :: "bheap \<Rightarrow> rhashmap \<Rightarrow> (bheap \<times> rhashmap) res" where
  "r_maybe_resize h r = (if needs_resize (mcount (rbase r)) (capacity (rbase r)) then r_resize h r else Inr (h, r))"

definition r_link_entry :: "bheap \<Rightarrow> rhashmap \<Rightarrow> nat \<Rightarrow> ptr \<Rightarrow> u64 \<Rightarrow> u32 \<Rightarrow> u64 \<Rightarrow> (bheap \<times> rhashmap) res" where
  "r_link_entry h r i key ksize hash val =
     bindR (link_entry h (rbase r) i key ksize hash val) (\<lambda>(h', m'). Inr (h', r\<lparr>rbase := m'\<rparr>))"

definition r_set :: "memory \<Rightarrow> bheap \<Rightarrow> rhashmap \<Rightarrow> ptr \<Rightarrow> u64 \<Rightarrow> u64 \<Rightarrow> (bheap \<times> rhashmap) res" where
  "r_set mem h0 r0 key ksize val =
     bindR (r_maybe_resize h0 r0) (\<lambda>(h, r).
     let hash = hash_data (load_bytes mem key (unat ksize)) in
     bindR (r_find_entry mem h r key ksize hash) (\<lambda>i.
     bindR (bkt_get h (buckets (rbase r)) i) (\<lambda>entry.
     if bkey entry = 0 then r_link_entry h r i key ksize hash val
     else bindR (bkt_put h (buckets (rbase r)) i (entry\<lparr>bvalue := val\<rparr>)) (\<lambda>h'. Inr (h', r)))))"

text \<open>As in the map without removal, \<^verbatim>\<open>hashmap_get_set\<close> returns whether the key was present and the value.\<close>

definition r_get_set :: "memory \<Rightarrow> bheap \<Rightarrow> rhashmap \<Rightarrow> ptr \<Rightarrow> u64 \<Rightarrow> u64 \<Rightarrow> (bool \<times> u64 \<times> bheap \<times> rhashmap) res" where
  "r_get_set mem h0 r0 key ksize out_in =
     bindR (r_maybe_resize h0 r0) (\<lambda>(h, r).
     let hash = hash_data (load_bytes mem key (unat ksize)) in
     bindR (r_find_entry mem h r key ksize hash) (\<lambda>i.
     bindR (bkt_get h (buckets (rbase r)) i) (\<lambda>entry.
     if bkey entry = 0
     then bindR (r_link_entry h r i key ksize hash out_in) (\<lambda>(h', r'). Inr (False, out_in, h', r'))
     else Inr (True, bvalue entry, h, r))))"

definition r_set_free ::
  "memory \<Rightarrow> bheap \<Rightarrow> rhashmap \<Rightarrow> ptr \<Rightarrow> u64 \<Rightarrow> u64 \<Rightarrow> (ptr \<Rightarrow> u64 \<Rightarrow> u64 \<Rightarrow> 'u \<Rightarrow> 'u) \<Rightarrow> 'u \<Rightarrow> ('u \<times> bheap \<times> rhashmap) res" where
  "r_set_free mem h0 r0 key ksize val c usr =
     bindR (r_maybe_resize h0 r0) (\<lambda>(h, r).
     let hash = hash_data (load_bytes mem key (unat ksize)) in
     bindR (r_find_entry mem h r key ksize hash) (\<lambda>i.
     bindR (bkt_get h (buckets (rbase r)) i) (\<lambda>entry.
     if bkey entry = 0
     then bindR (r_link_entry h r i key ksize hash val) (\<lambda>(h', r'). Inr (usr, h', r'))
     else
       let usr' = c (bkey entry) ksize (bvalue entry) usr in
       bindR (bkt_put h (buckets (rbase r)) i (entry\<lparr>bkey := key, bvalue := val\<rparr>)) (\<lambda>h'.
       Inr (usr', h', r)))))"

definition r_get :: "memory \<Rightarrow> bheap \<Rightarrow> rhashmap \<Rightarrow> ptr \<Rightarrow> u64 \<Rightarrow> (bool \<times> u64) res" where
  "r_get mem h r key ksize =
     (let hash = hash_data (load_bytes mem key (unat ksize)) in
      bindR (r_find_entry mem h r key ksize hash) (\<lambda>i.
      bindR (bkt_get h (buckets (rbase r)) i) (\<lambda>entry.
      Inr (bkey entry \<noteq> 0, bvalue entry))))"

definition r_remove :: "memory \<Rightarrow> bheap \<Rightarrow> rhashmap \<Rightarrow> ptr \<Rightarrow> u64 \<Rightarrow> (bheap \<times> rhashmap) res" where
  "r_remove mem h r key ksize =
     (let hash = hash_data (load_bytes mem key (unat ksize)) in
      bindR (r_find_entry mem h r key ksize hash) (\<lambda>i.
      bindR (bkt_get h (buckets (rbase r)) i) (\<lambda>entry.
      if bkey entry \<noteq> 0 then
        bindR (bkt_put h (buckets (rbase r)) i (entry\<lparr>bkey := 0, bvalue := 0xDEAD\<rparr>)) (\<lambda>h'.
        Inr (h', r\<lparr>tombstone_count := tombstone_count r + 1\<rparr>))
      else Inr (h, r))))"

text \<open>The callback sees the entry before it is removed.\<close>

definition r_remove_free ::
  "memory \<Rightarrow> bheap \<Rightarrow> rhashmap \<Rightarrow> ptr \<Rightarrow> u64 \<Rightarrow> (ptr \<Rightarrow> u64 \<Rightarrow> u64 \<Rightarrow> 'u \<Rightarrow> 'u) \<Rightarrow> 'u \<Rightarrow> ('u \<times> bheap \<times> rhashmap) res" where
  "r_remove_free mem h r key ksize c usr =
     (let hash = hash_data (load_bytes mem key (unat ksize)) in
      bindR (r_find_entry mem h r key ksize hash) (\<lambda>i.
      bindR (bkt_get h (buckets (rbase r)) i) (\<lambda>entry.
      if bkey entry \<noteq> 0 then
        bindR (bkt_put h (buckets (rbase r)) i (entry\<lparr>bkey := 0, bvalue := 0xDEAD\<rparr>)) (\<lambda>h'.
        Inr (c (bkey entry) (bksize entry) (bvalue entry) usr, h', r\<lparr>tombstone_count := tombstone_count r + 1\<rparr>))
      else Inr (usr, h, r))))"

definition r_size :: "rhashmap \<Rightarrow> nat" where
  "r_size r = mcount (rbase r) - tombstone_count r"

definition r_iterate :: "bheap \<Rightarrow> rhashmap \<Rightarrow> (ptr \<Rightarrow> u64 \<Rightarrow> u64 \<Rightarrow> 'u \<Rightarrow> 'u) \<Rightarrow> 'u \<Rightarrow> 'u res" where
  "r_iterate h r c user_ptr =
     walk (capacity (rbase r)) h (first (rbase r))
       (\<lambda>e u. Inr (if bkey e \<noteq> 0 then c (bkey e) (bksize e) (bvalue e) u else u)) user_ptr"

subsection \<open>Tombstones as occupied buckets\<close>

definition tomb :: "bucket \<Rightarrow> bool" where
  "tomb e \<longleftrightarrow> bkey e = 0 \<and> bvalue e \<noteq> 0"

text \<open>With any other key in its tombstones the table is one of the map without removal.\<close>

definition veil :: "bucket \<Rightarrow> bucket" where
  "veil e = (if tomb e then e\<lparr>bkey := 1\<rparr> else e)"

lemma veil_fields [simp]: "bnext (veil e) = bnext e" "bhash (veil e) = bhash e"
  by (simp_all add: veil_def)

lemma veil_key: "bkey (veil e) = 0 \<longleftrightarrow> bkey e = 0 \<and> bvalue e = 0"
  by (auto simp: veil_def tomb_def)

lemma veil_live [simp]: "bkey e \<noteq> 0 \<Longrightarrow> veil e = e"
  by (simp add: veil_def tomb_def)

definition lives :: "bucket list \<Rightarrow> nat list \<Rightarrow> nat list" where
  "lives bs js = filter (\<lambda>j. bkey (bs ! j) \<noteq> 0) js"

lemma lives_append [simp]: "lives bs (is @ js) = lives bs is @ lives bs js"
  by (simp add: lives_def)

definition r_cap_ok :: "nat \<Rightarrow> nat \<Rightarrow> nat \<Rightarrow> bool" where
  "r_cap_ok N cap n \<longleftrightarrow> (\<exists>k. cap = 20 * 2 ^ k \<and> (k = 0 \<or> 15 * 2 ^ k \<le> 2 * N)) \<and> cap < 2 ^ 31 \<and> n < cap \<and> n \<le> N"

text \<open>\<open>N\<close> bounds the number of insertions so far.\<close>

definition r_rep :: "nat \<Rightarrow> memory \<Rightarrow> bheap \<Rightarrow> rhashmap \<Rightarrow> bucket list \<Rightarrow> nat list \<Rightarrow> bool" where
  "r_rep N mem h r bs js \<longleftrightarrow> (let m = rbase r in
     blocks h (buckets m) = Some bs \<and> (\<forall>b\<ge>fresh h. blocks h b = None) \<and>
     length bs = capacity m \<and> table_ok (map veil bs) js \<and> entries_ok mem (bkts bs (lives bs js)) \<and>
     chain bs (buckets m) (first m) js NullB \<and> mlast m = last_ptr (buckets m) js \<and>
     mcount m = length js \<and> r_cap_ok N (capacity m) (mcount m) \<and>
     length (lives bs js) + tombstone_count r = length js)"

lemma r_repD:
  assumes "r_rep N mem h r bs js"
  shows "blocks h (buckets (rbase r)) = Some bs" "\<forall>b\<ge>fresh h. blocks h b = None" "length bs = capacity (rbase r)" "table_ok (map veil bs) js"
    "entries_ok mem (bkts bs (lives bs js))" "chain bs (buckets (rbase r)) (first (rbase r)) js NullB"
    "mlast (rbase r) = last_ptr (buckets (rbase r)) js" "mcount (rbase r) = length js"
    "r_cap_ok N (capacity (rbase r)) (mcount (rbase r))" "length (lives bs js) + tombstone_count r = length js"
  using assms unfolding r_rep_def Let_def by blast+

lemma r_block_old:
  assumes "r_rep N mem h r bs js"
  shows "buckets (rbase r) < fresh h"
proof (rule ccontr)
  assume "\<not> buckets (rbase r) < fresh h"
  then have "fresh h \<le> buckets (rbase r)"
    by simp
  then have "blocks h (buckets (rbase r)) = None"
    using r_repD(2) [OF assms] by blast
  then show False
    using r_repD(1) [OF assms] by simp
qed

lemma r_table:
  assumes "r_rep N mem h r bs js"
  shows "distinct js" "i \<in> set js \<longleftrightarrow> i < length bs \<and> (bkey (bs ! i) \<noteq> 0 \<or> bvalue (bs ! i) \<noteq> 0)"
    "i < length bs \<Longrightarrow> bkey (bs ! i) = 0 \<Longrightarrow> bvalue (bs ! i) = 0 \<Longrightarrow> bs ! i = zero_bucket"
    "i \<in> set (lives bs js) \<longleftrightarrow> i < length bs \<and> bkey (bs ! i) \<noteq> 0"
proof -
  note t = r_repD(4) [OF assms]
  show "distinct js"
    by (rule table_okD(1) [OF t])
  show js: "i \<in> set js \<longleftrightarrow> i < length bs \<and> (bkey (bs ! i) \<noteq> 0 \<or> bvalue (bs ! i) \<noteq> 0)" for i
    using table_okD(2) [OF t, of i] by (auto simp: veil_key)
  show "i < length bs \<Longrightarrow> bkey (bs ! i) = 0 \<Longrightarrow> bvalue (bs ! i) = 0 \<Longrightarrow> bs ! i = zero_bucket"
    using table_okD(3) [OF t, of i] by (simp add: veil_key) (simp add: veil_def tomb_def)
  show "i \<in> set (lives bs js) \<longleftrightarrow> i < length bs \<and> bkey (bs ! i) \<noteq> 0"
    using js by (auto simp: lives_def)
qed

definition r_entries :: "memory \<Rightarrow> bheap \<Rightarrow> rhashmap \<Rightarrow> (u8 list \<times> u64) list" where
  "r_entries mem h r = (case r_iterate h r (\<lambda>key ksize val es. es @ [(load_bytes mem key (unat ksize), val)]) [] of
     Inl _ \<Rightarrow> [] | Inr es \<Rightarrow> es)"

lemma r_entries_rep:
  assumes "r_rep N mem h r bs js"
  shows "r_entries mem h r = entries_abs mem (bkts bs (lives bs js))"
proof -
  have len: "length js \<le> capacity (rbase r)"
    using r_repD(8,9) [OF assms] by (simp add: r_cap_ok_def)
  have "foldR (\<lambda>e u. Inr (if bkey e \<noteq> 0 then u @ [(load_bytes mem (bkey e) (unat (bksize e)), bvalue e)] else u)) (map ((!) bs) js) acc =
      Inr (acc @ entries_abs mem (bkts bs (lives bs js)))" for acc
    by (induction js arbitrary: acc) (simp_all add: lives_def entries_abs_def bkts_def bkt_bytes_def)
  then show ?thesis
    unfolding r_entries_def r_iterate_def walk_chain [OF r_repD(1) [OF assms] r_repD(6) [OF assms] len] by simp
qed

subsection \<open>Searching\<close>

lemma r_matches_iff:
  assumes "bkey e \<noteq> 0" and "bhash e = hash_data (bkt_bytes mem e)"
  shows "r_matches mem key ksize (hash_data (load_bytes mem key (unat ksize))) e \<longleftrightarrow> bkt_bytes mem e = load_bytes mem key (unat ksize)"
  using matches_iff [OF assms, of key ksize] assms(1) by (simp add: r_matches_def entry_matches_def)

lemma r_matches_null: "bkey e = 0 \<Longrightarrow> r_matches mem key ksize hash e \<longleftrightarrow> bvalue e = 0"
  by (simp add: r_matches_def)

lemma r_find_present:
  assumes rep: "r_rep N mem h r bs js" and i: "i \<in> set (lives bs js)"
    and bytes: "bkt_bytes mem (bs ! i) = key_bytes mem key ksize"
  shows "r_find_entry mem h r key ksize (hash_data (key_bytes mem key ksize)) = Inr i"
proof -
  let ?hash = "hash_data (key_bytes mem key ksize)"
  let ?stop = "r_matches mem key ksize ?hash"
  note blk = r_repD(1,3) [OF rep] and t = r_repD(4) [OF rep] and eo = r_repD(5) [OF rep]
  have live: "i < length bs" "bkey (bs ! i) \<noteq> 0" "i \<in> set js"
    using r_table(2,4) [OF rep, of i] i by auto
  have h: "bhash (bs ! i) = ?hash"
    using entries_ok_bkts(2) [OF eo i] bytes by simp
  have hash: "bhash (map veil bs ! i) = ?hash"
    using live h by simp
  obtain d where d: "d < length bs" "i = (unat ?hash + d) mod length bs"
      "\<forall>d'<d. bkey (map veil bs ! ((unat ?hash + d') mod length bs)) \<noteq> 0"
    using table_okD(4) [OF t live(3)] unfolding hash reachable_slot_def by auto
  have pos: "0 < length bs"
    using live(1) by linarith
  have "\<not> ?stop (bs ! ((unat ?hash + d') mod length bs))" if "d' < d" for d'
  proof -
    let ?j = "(unat ?hash + d') mod length bs"
    have j: "?j < length bs"
      using pos by simp
    have used: "bkey (bs ! ?j) \<noteq> 0 \<or> bvalue (bs ! ?j) \<noteq> 0"
      using d(3) that j by (auto simp: veil_key)
    have "?j \<noteq> i" using mod_distance_inj [OF that d(1)] d(2) by simp
    show ?thesis
    proof (cases "bkey (bs ! ?j) = 0")
      case True
      then show ?thesis
        using used by (simp add: r_matches_null)
    next
      case False
      then have jl: "?j \<in> set (lives bs js)"
        using r_table(4) [OF rep] j by blast
      then have "bkt_bytes mem (bs ! ?j) \<noteq> bkt_bytes mem (bs ! i)"
        using entries_ok_bkts(1) [OF eo] i \<open>?j \<noteq> i\<close> by (auto simp: distinct_map dest: inj_onD)
      then show ?thesis
        using r_matches_iff [OF False entries_ok_bkts(2) [OF eo jl]] bytes by metis
    qed
  qed
  moreover have "?stop (bs ! ((unat ?hash + d) mod length bs))"
    using r_matches_iff [OF live(2) entries_ok_bkts(2) [OF eo i]] bytes d(2) by metis
  ultimately have "probe (length bs) ?stop h (buckets (rbase r)) (length bs) (unat ?hash mod length bs) = Inr i"
    using probe_first [OF blk(1) pos d(1)] d(2) by blast
  then show ?thesis
    using blk pos by (simp add: r_find_entry_def Let_def)
qed

lemma r_find_absent:
  assumes rep: "r_rep N mem h r bs js"
    and absent: "\<forall>i\<in>set (lives bs js). bkt_bytes mem (bs ! i) \<noteq> key_bytes mem key ksize"
  obtains i where "r_find_entry mem h r key ksize (hash_data (key_bytes mem key ksize)) = Inr i"
    and "i < length bs" and "bs ! i = zero_bucket"
    and "reachable_slot (map veil bs) (unat (hash_data (key_bytes mem key ksize))) i"
proof -
  let ?hash = "hash_data (key_bytes mem key ksize)"
  let ?stop = "r_matches mem key ksize ?hash"
  note blk = r_repD(1,3) [OF rep] and t = r_repD(4) [OF rep] and eo = r_repD(5) [OF rep]
  have stop: "?stop (bs ! j) \<longleftrightarrow> bkey (map veil bs ! j) = 0" if "j < length bs" for j
  proof (cases "bkey (bs ! j) = 0")
    case True
    then show ?thesis
      using that by (simp add: r_matches_null veil_key)
  next
    case False
    then have "j \<in> set (lives bs js)" using that r_table(4) [OF rep] by blast
    then show ?thesis
      using False absent entries_ok_bkts(2) [OF eo] r_matches_iff that by (metis veil_live nth_map)
  qed
  have "length js < length (map veil bs)"
    using r_repD(3,8,9) [OF rep] by (simp add: r_cap_ok_def)
  then obtain i0 where i0: "i0 < length bs" "bkey (map veil bs ! i0) = 0"
    using table_ok_free_slot [OF t] by auto
  have range: "(unat ?hash + d) mod length bs < length bs" for d
    using i0(1) by (intro mod_less_divisor) linarith
  have s0: "?stop (bs ! i0)"
    using stop [OF i0(1)] i0(2) by blast
  obtain d where d: "d < length bs" "?stop (bs ! ((unat ?hash + d) mod length bs))"
      "\<forall>d'<d. \<not> ?stop (bs ! ((unat ?hash + d') mod length bs))" and
      p: "probe (length bs) ?stop h (buckets (rbase r)) (length bs) (unat ?hash mod length bs) =
         Inr ((unat ?hash + d) mod length bs)"
    using probe_least [where stop = ?stop and s = "unat ?hash", OF blk(1) i0(1) s0] by blast
  let ?i = "(unat ?hash + d) mod length bs"
  have null: "bkey (bs ! ?i) = 0" "bvalue (bs ! ?i) = 0"
    using d(2) stop [OF range] range by (auto simp: veil_key)
  have "reachable_slot (map veil bs) (unat ?hash) ?i"
    using d(1,3) stop [OF range] unfolding reachable_slot_def by auto
  moreover have "r_find_entry mem h r key ksize ?hash = Inr ?i"
    using p blk i0(1) by (auto simp: r_find_entry_def Let_def)
  ultimately show ?thesis
    using that range r_table(3) [OF rep range null] by blast
qed

text \<open>How a search ends.\<close>

definition r_inv :: "nat \<Rightarrow> memory \<Rightarrow> bheap \<Rightarrow> rhashmap \<Rightarrow> bool" where
  "r_inv N mem h r \<longleftrightarrow> (\<exists>bs js. r_rep N mem h r bs js)"

lemma r_entries_map:
  assumes "r_rep N mem h r bs js"
  shows "r_entries mem h r = map (\<lambda>i. (bkt_bytes mem (bs ! i), bvalue (bs ! i))) (lives bs js)"
  by (simp add: r_entries_rep [OF assms] entries_abs_def bkts_def)

lemma r_search_cases [consumes 1, case_names absent present]:
  assumes rep: "r_rep N mem h r bs js"
  obtains (absent) i where
      "r_find_entry mem h r key ksize (hash_data (key_bytes mem key ksize)) = Inr i" "i < length bs" "bs ! i = zero_bucket"
      "reachable_slot (map veil bs) (unat (hash_data (key_bytes mem key ksize))) i"
      "\<forall>j\<in>set (lives bs js). bkt_bytes mem (bs ! j) \<noteq> key_bytes mem key ksize"
      "key_bytes mem key ksize \<notin> fst ` set (r_entries mem h r)"
  | (present) i where
      "r_find_entry mem h r key ksize (hash_data (key_bytes mem key ksize)) = Inr i" "i \<in> set (lives bs js)"
      "i < length bs" "bkey (bs ! i) \<noteq> 0" "bkt_bytes mem (bs ! i) = key_bytes mem key ksize"
      "map_of (r_entries mem h r) (key_bytes mem key ksize) = Some (bvalue (bs ! i))"
proof (cases "\<forall>j\<in>set (lives bs js). bkt_bytes mem (bs ! j) \<noteq> key_bytes mem key ksize")
  case True
  then have "key_bytes mem key ksize \<notin> fst ` set (r_entries mem h r)"
    by (auto simp: r_entries_map [OF rep])
  then show ?thesis
    using r_find_absent [OF rep True] absent True by metis
next
  case False
  then obtain i where i: "i \<in> set (lives bs js)" "bkt_bytes mem (bs ! i) = key_bytes mem key ksize"
    by blast
  have "distinct (map fst (r_entries mem h r))"
    using entries_ok_bkts(1) [OF r_repD(5) [OF rep]] by (simp add: r_entries_map [OF rep] comp_def)
  moreover have "(key_bytes mem key ksize, bvalue (bs ! i)) \<in> set (r_entries mem h r)"
    using i by (force simp: r_entries_map [OF rep])
  ultimately have "map_of (r_entries mem h r) (key_bytes mem key ksize) = Some (bvalue (bs ! i))"
    by simp
  then show ?thesis
    using present i r_find_present [OF rep i] r_table(4) [OF rep] by blast
qed

lemma r_get_ok:
  assumes "r_inv N mem h r"
  shows "r_get mem h r key ksize =
    Inr (case map_of (r_entries mem h r) (key_bytes mem key ksize) of None \<Rightarrow> (False, 0) | Some v \<Rightarrow> (True, v))"
proof -
  obtain bs js where rep: "r_rep N mem h r bs js"
    using assms unfolding r_inv_def by blast
  note blk = r_repD(1) [OF rep]
  from rep show ?thesis
  proof (cases rule: r_search_cases [where key = key and ksize = ksize])
    case (absent i)
    then have "map_of (r_entries mem h r) (key_bytes mem key ksize) = None"
      by (simp add: map_of_eq_None_iff)
    then show ?thesis
      using absent(1-3) by (simp add: r_get_def blk zero_bucket_def)
  qed (simp add: r_get_def blk)
qed

lemma r_size_ok:
  assumes "r_inv N mem h r"
  shows "r_size r = length (r_entries mem h r)"
proof -
  obtain bs js where rep: "r_rep N mem h r bs js"
    using assms unfolding r_inv_def by blast
  show ?thesis
    using r_repD(8,10) [OF rep] by (simp add: r_size_def r_entries_map [OF rep])
qed

subsection \<open>Removing\<close>

lemma filter_distinct_remove1: "distinct xs \<Longrightarrow> i \<in> set xs \<Longrightarrow> Suc (length (filter (\<lambda>j. j \<noteq> i) xs)) = length xs"
proof (induction xs)
  case (Cons x xs)
  then show ?case
  proof (cases "x = i")
    case True
    then have "filter (\<lambda>j. j \<noteq> i) xs = xs"
      using Cons.prems(1) by (intro filter_True) auto
    then show ?thesis
      using True by simp
  qed auto
qed simp

lemma bury_rep:
  assumes rep: "r_rep N mem h r bs js" and i: "i \<in> set (lives bs js)"
  defines "h' \<equiv> h\<lparr>blocks := (blocks h)(buckets (rbase r) \<mapsto> bs[i := (bs ! i)\<lparr>bkey := 0, bvalue := 0xDEAD\<rparr>])\<rparr>"
    and "r' \<equiv> r\<lparr>tombstone_count := tombstone_count r + 1\<rparr>"
  shows "r_inv N mem h' r'" and "r_entries mem h' r' = AList.delete (bkt_bytes mem (bs ! i)) (r_entries mem h r)"
proof -
  let ?e = "(bs ! i)\<lparr>bkey := 0, bvalue := 0xDEAD\<rparr>"
  let ?bs = "bs[i := ?e]"
  have live: "i < length bs" "bkey (bs ! i) \<noteq> 0" "i \<in> set js"
    using r_table(2,4) [OF rep, of i] i by auto
  have nth: "bnext (?bs ! j) = bnext (bs ! j)" for j
    using live by (cases "j = i") simp_all
  have veil: "map veil ?bs = (map veil bs)[i := veil ?e]"
    by (simp add: map_update)
  have t: "table_ok (map veil ?bs) js"
    unfolding veil by (rule table_ok_upd [OF r_repD(4) [OF rep] live(3)]) (use live in \<open>simp_all add: veil_key\<close>)
  have lives: "lives ?bs js = filter (\<lambda>j. j \<noteq> i) (lives bs js)"
  proof -
    have "bkey (?bs ! j) \<noteq> 0 \<longleftrightarrow> bkey (bs ! j) \<noteq> 0 \<and> j \<noteq> i" for j
      using live by (cases "j = i") simp_all
    then show ?thesis
      by (simp add: lives_def conj_commute)
  qed
  have bkts: "bkts ?bs (lives ?bs js) = bkts bs (filter (\<lambda>j. j \<noteq> i) (lives bs js))"
    unfolding lives by (simp add: bkts_def)
  have d: "distinct (lives bs js)"
    using r_table(1) [OF rep] by (simp add: lives_def)
  note eo = r_repD(5) [OF rep]
  have eo': "entries_ok mem (bkts ?bs (lives ?bs js))"
    using eo unfolding bkts by (auto simp: entries_ok_def bkts_def comp_def distinct_map_filter)
  have "chain ?bs (buckets (rbase r)) (first (rbase r)) js NullB"
    using r_repD(6) [OF rep] nth chain_cong [of js ?bs bs] by simp
  then have rep': "r_rep N mem h' r' ?bs js"
    using rep t eo' filter_distinct_remove1 [OF d i] by (auto simp: r_rep_def h'_def r'_def Let_def lives)
  then show "r_inv N mem h' r'"
    unfolding r_inv_def by blast
  have iff: "bkt_bytes mem (bs ! i) \<noteq> bkt_bytes mem (bs ! j) \<longleftrightarrow> j \<noteq> i" if "j \<in> set (lives bs js)" for j
    using entries_ok_bkts(1) [OF eo] i that by (auto simp: distinct_map dest: inj_onD)
  have "AList.delete (bkt_bytes mem (bs ! i)) (r_entries mem h r) =
      map (\<lambda>j. (bkt_bytes mem (bs ! j), bvalue (bs ! j))) (filter (\<lambda>j. bkt_bytes mem (bs ! i) \<noteq> bkt_bytes mem (bs ! j)) (lives bs js))"
    by (simp add: r_entries_map [OF rep] AList.delete_eq filter_map comp_def split_beta)
  also have "filter (\<lambda>j. bkt_bytes mem (bs ! i) \<noteq> bkt_bytes mem (bs ! j)) (lives bs js) = filter (\<lambda>j. j \<noteq> i) (lives bs js)"
    by (rule filter_cong [OF refl iff])
  finally show "r_entries mem h' r' = AList.delete (bkt_bytes mem (bs ! i)) (r_entries mem h r)"
    unfolding r_entries_rep [OF rep'] bkts by (simp add: entries_abs_def bkts_def)
qed

lemma r_remove_ok:
  assumes "r_inv N mem h r"
  shows "ok (r_remove mem h r key ksize) (\<lambda>(h', r'). r_inv N mem h' r' \<and>
    r_entries mem h' r' = AList.delete (key_bytes mem key ksize) (r_entries mem h r))"
proof -
  obtain bs js where rep: "r_rep N mem h r bs js"
    using assms unfolding r_inv_def by blast
  note blk = r_repD(1) [OF rep]
  from rep show ?thesis
  proof (cases rule: r_search_cases [where key = key and ksize = ksize])
    case (absent i)
    then have "AList.delete (key_bytes mem key ksize) (r_entries mem h r) = r_entries mem h r"
      by (simp add: AList.delete_idem)
    then show ?thesis
      using absent(1-3) assms by (simp add: r_remove_def blk zero_bucket_def)
  next
    case (present i)
    then show ?thesis
      using bury_rep [OF rep present(2)] by (simp add: r_remove_def blk)
  qed
qed

text \<open>With the callback the map changes in the same way, and the callback sees the entry that goes.\<close>

lemma r_remove_free_ok:
  assumes "r_inv N mem h r"
  shows "ok (r_remove_free mem h r key ksize c usr) (\<lambda>(usr', h', r'). r_inv N mem h' r' \<and>
    r_entries mem h' r' = AList.delete (key_bytes mem key ksize) (r_entries mem h r) \<and>
    (case map_of (r_entries mem h r) (key_bytes mem key ksize) of None \<Rightarrow> usr' = usr
     | Some v \<Rightarrow> \<exists>k. load_bytes mem k (unat ksize) = key_bytes mem key ksize \<and> usr' = c k ksize v usr))"
proof -
  obtain bs js where rep: "r_rep N mem h r bs js"
    using assms unfolding r_inv_def by blast
  note blk = r_repD(1) [OF rep]
  from rep show ?thesis
  proof (cases rule: r_search_cases [where key = key and ksize = ksize])
    case (absent i)
    then have "AList.delete (key_bytes mem key ksize) (r_entries mem h r) = r_entries mem h r"
        "map_of (r_entries mem h r) (key_bytes mem key ksize) = None"
      by (simp_all add: AList.delete_idem map_of_eq_None_iff)
    then show ?thesis
      using absent(1-3) assms by (simp add: r_remove_free_def blk zero_bucket_def)
  next
    case (present i)
    have ks: "bksize (bs ! i) = ksize"
      using arg_cong [OF present(5), of length] by (simp add: bkt_bytes_def word_unat_eq_iff)
    then have "load_bytes mem (bkey (bs ! i)) (unat ksize) = key_bytes mem key ksize"
      using present(5) by (simp add: bkt_bytes_def)
    then show ?thesis
      using bury_rep [OF rep present(2)] present ks by (auto simp: r_remove_free_def blk)
  qed
qed

subsection \<open>Resizing\<close>

lemma clean_table:
  assumes "table_ok nbs ns"
  shows "map veil nbs = nbs" "lives nbs ns = ns"
proof -
  have zero: "veil zero_bucket = zero_bucket"
    by (simp add: veil_def tomb_def zero_bucket_def)
  have "veil e = e" if e: "e \<in> set nbs" for e
  proof (cases "bkey e = 0")
    case True
    then have "e = zero_bucket"
      using e table_okD(3) [OF assms] by (metis in_set_conv_nth)
    then show ?thesis
      using zero by simp
  qed simp
  then show "map veil nbs = nbs"
    by (simp add: map_idI)
  show "lives nbs ns = ns"
    unfolding lives_def using table_ok_occupied [OF assms] by (simp add: filter_id_conv)
qed

text \<open>A tombstone is taken off the list.\<close>

lemma resizing_skip:
  assumes r: "resizing h m ob bs (r # rest) nbs ns"
  defines "h' \<equiv> h\<lparr>blocks := (blocks h)(buckets m \<mapsto> relink nbs ns (head_ptr ob rest))\<rparr>"
    and "m' \<equiv> m\<lparr>first := (if ns = [] then head_ptr ob rest else first m)\<rparr>"
  shows "set_last_next h m (bnext (bs ! r)) = Inr (h', m')"
    and "resizing h' m' ob bs rest (relink nbs ns (head_ptr ob rest)) ns"
    and "bkts (relink nbs ns (head_ptr ob rest)) ns = bkts nbs ns"
proof -
  have c: "chain nbs (buckets m) (first m) ns (Bkt ob r)" and t: "table_ok nbs ns"
    and blk: "blocks h (buckets m) = Some nbs" and l: "mlast m = last_ptr (buckets m) ns"
    using r by (simp_all add: resizing_def)
  have bound: "\<forall>j\<in>set ns. j < length nbs"
    using t by (auto simp: table_okD)
  have rest: "chain bs ob (bnext (bs ! r)) rest NullB"
    using r by (simp add: resizing_def)
  then have nxt: "bnext (bs ! r) = head_ptr ob rest"
    by (rule chain_head)
  show "set_last_next h m (bnext (bs ! r)) = Inr (h', m')"
    using set_last_next_ok [OF blk c l] by (simp add: nxt h'_def m'_def)
  have "chain (relink nbs ns (head_ptr ob rest)) (buckets m) (first m') ns (head_ptr ob rest)"
    using chain_relink_last [OF c table_okD(1) [OF t]] by (simp add: m'_def)
  then show "resizing h' m' ob bs rest (relink nbs ns (head_ptr ob rest)) ns"
    using r rest table_ok_relink [OF t order_refl] by (auto simp: resizing_def h'_def m'_def nxt)
  show "bkts (relink nbs ns (head_ptr ob rest)) ns = bkts nbs ns"
    using bound by simp
qed

text \<open>One round of the loop, for a tombstone and for an entry.\<close>

lemma r_resize_round:
  assumes R: "resizing h m ob bs (r # rest) nbs ns"
  obtains h1 m1 nbs1 ns1 where "r_resize_loop (Suc fuel) h m =
      (if head_ptr ob rest \<noteq> NullB then r_resize_loop fuel h1 m1 else Inr (h1, m1))"
    "resizing h1 m1 ob bs rest nbs1 ns1" "bkts nbs1 ns1 = bkts nbs ns @ bkts bs (lives bs [r])" "same_frame h m h1 m1"
proof -
  have old: "blocks h ob = Some bs" "r < length bs"
    using R by (auto simp: resizing_def)
  have start: "last_next h m = Inr (Bkt ob r)"
    using R last_next_ok [of h "buckets m" nbs m ns "Bkt ob r"] by (simp add: resizing_def)
  have next1: "last_next h1 m1 = Inr (head_ptr ob rest)" if "resizing h1 m1 ob bs rest nbs1 ns1" for h1 m1 nbs1 ns1
    using that last_next_ok [of h1 "buckets m1" nbs1 m1 ns1 "head_ptr ob rest"] by (simp add: resizing_def)
  show thesis
  proof (cases "bkey (bs ! r) = 0")
    case True
    note skip = resizing_skip [OF R]
    show thesis
      by (rule that [OF _ skip(2)]) (use start old True skip(1,3) next1 [OF skip(2)] in \<open>simp_all add: lives_def same_frame_def\<close>)
  next
    case False
    obtain i where i: "resize_entry h m ob r =
        Inr (h\<lparr>blocks := (blocks h)(buckets m \<mapsto> nbs[i := bs ! r])\<rparr>, Bkt (buckets m) i)"
        "i < length nbs" "i \<notin> set ns" "table_ok (nbs[i := bs ! r]) (ns @ [i])"
      using resize_step [OF R False] .
    let ?nbs = "relink (nbs[i := bs ! r]) ns (Bkt (buckets m) i)"
    let ?h = "h\<lparr>blocks := (blocks h)(buckets m \<mapsto> ?nbs)\<rparr>"
    let ?m = "m\<lparr>first := (if ns = [] then Bkt (buckets m) i else first m), mlast := LastBkt (buckets m) i\<rparr>"
    note step = resizing_step [OF R i(2-4)]
    have link: "set_last_next (h\<lparr>blocks := (blocks h)(buckets m \<mapsto> nbs[i := bs ! r])\<rparr>) m
        (Bkt (buckets m) i) = Inr (?h, ?m\<lparr>mlast := mlast m\<rparr>)"
      using R i(2,3) set_last_next_ok [of "h\<lparr>blocks := (blocks h)(buckets m \<mapsto> nbs[i := bs ! r])\<rparr>"
          "buckets m" "nbs[i := bs ! r]" m ns "Bkt ob r"]
      by (simp add: resizing_def)
    show thesis
      by (rule that [OF _ step(1)]) (use start old False link i(1) next1 [OF step(1)] step(2) in \<open>simp_all add: lives_def same_frame_def\<close>)
  qed
qed

lemma r_resize_loop_ok:
  assumes "resizing h m ob bs rest nbs ns" and "rest \<noteq> []" and "length rest \<le> fuel"
  shows "\<exists>h' m' nbs' ns'. r_resize_loop fuel h m = Inr (h', m') \<and> resizing h' m' ob bs [] nbs' ns' \<and>
    bkts nbs' ns' = bkts nbs ns @ bkts bs (lives bs rest) \<and> same_frame h m h' m'"
  using assms
proof (induction fuel arbitrary: h m rest nbs ns)
  case (Suc fuel)
  from Suc.prems(2) obtain r rest' where rest: "rest = r # rest'"
    by (cases rest) auto
  obtain h1 m1 nbs1 ns1 where 1: "r_resize_loop (Suc fuel) h m =
      (if head_ptr ob rest' \<noteq> NullB then r_resize_loop fuel h1 m1 else Inr (h1, m1))"
    "resizing h1 m1 ob bs rest' nbs1 ns1" "bkts nbs1 ns1 = bkts nbs ns @ bkts bs (lives bs [r])" "same_frame h m h1 m1"
    by (rule r_resize_round [OF Suc.prems(1) [unfolded rest]])
  have lives: "lives bs rest = lives bs [r] @ lives bs rest'"
    by (simp add: rest lives_def)
  show ?case
  proof (cases "rest' = []")
    case True
    then have "lives bs rest = lives bs [r]"
      using lives by (simp add: lives_def [of bs "[]"])
    then have "r_resize_loop (Suc fuel) h m = Inr (h1, m1)" "resizing h1 m1 ob bs [] nbs1 ns1"
        "bkts nbs1 ns1 = bkts nbs ns @ bkts bs (lives bs rest)"
      using 1(1-3) True by (simp_all del: r_resize_loop.simps)
    then show ?thesis
      using 1(4) by blast
  next
    case False
    then have "head_ptr ob rest' \<noteq> NullB"
      by (cases rest') auto
    moreover obtain h' m' nbs' ns' where "r_resize_loop fuel h1 m1 = Inr (h', m')" "resizing h' m' ob bs [] nbs' ns'"
        "bkts nbs' ns' = bkts nbs1 ns1 @ bkts bs (lives bs rest')" "same_frame h1 m1 h' m'"
      using Suc.IH [OF 1(2) False] Suc.prems(3) rest by auto
    moreover have "bkts nbs' ns' = bkts nbs ns @ bkts bs (lives bs rest)"
      using calculation(4) 1(3) by (simp add: lives)
    ultimately show ?thesis
      using 1(1) same_frame_trans [OF 1(4)] by metis
  qed
qed simp

lemma r_cap_ok_grow:
  assumes "r_cap_ok N cap n" and "needs_resize n cap" and "cap * 2 < 2 ^ 31" and "l \<le> n"
  shows "r_cap_ok N (cap * 2) l"
proof -
  obtain k where k: "cap = 20 * 2 ^ k"
    using assms(1) by (auto simp: r_cap_ok_def)
  then have "15 * 2 ^ k < n + 1"
    using needs_resize_imp assms(2) by simp
  then have "\<exists>k. cap * 2 = 20 * 2 ^ k \<and> (k = 0 \<or> 15 * 2 ^ k \<le> 2 * N)"
    using k assms(1) by (intro exI [of _ "Suc k"]) (simp add: r_cap_ok_def)
  then show ?thesis
    using assms by (simp add: r_cap_ok_def)
qed

lemma r_cap_no_overflow:
  assumes "r_cap_ok N cap n" and "N < 15 * 2 ^ 25"
  shows "cap * 2 < 2 ^ 31"
proof -
  have "cap_ok cap N \<or> N \<ge> cap"
    using assms(1) by (auto simp: r_cap_ok_def cap_ok_def)
  obtain k where k: "cap = 20 * 2 ^ k" "k = 0 \<or> 15 * 2 ^ k \<le> 2 * N"
    using assms(1) by (auto simp: r_cap_ok_def)
  have "k \<le> 25"
  proof (rule ccontr)
    assume "\<not> k \<le> 25"
    then have "(2 :: nat) ^ 26 \<le> 2 ^ k" by (intro power_increasing) auto
    then show False using k(2) assms(2) \<open>\<not> k \<le> 25\<close> by simp
  qed
  then have "(2 :: nat) ^ k \<le> 2 ^ 25" by (intro power_increasing) auto
  then show ?thesis using k(1) by simp
qed

lemma r_resize_rep:
  assumes rep: "r_rep N mem h r bs js" and grow: "needs_resize (mcount (rbase r)) (capacity (rbase r))"
    and small: "capacity (rbase r) * 2 < 2 ^ 31"
  shows "\<exists>h' r' nbs ns. r_resize h r = Inr (h', r') \<and> r_rep N mem h' r' nbs ns \<and>
    bkts nbs (lives nbs ns) = bkts bs (lives bs js) \<and> length ns \<le> length js \<and> capacity (rbase r') = capacity (rbase r) * 2"
proof -
  let ?base = "rbase r"
  let ?cap = "capacity ?base * 2"
  let ?h = "h\<lparr>blocks := (blocks h)(fresh h \<mapsto> replicate ?cap zero_bucket), fresh := Suc (fresh h)\<rparr>"
  let ?m = "?base\<lparr>capacity := ?cap, buckets := fresh h, mlast := FirstField, mcount := mcount ?base - tombstone_count r\<rparr>"
  note R = r_repD [OF rep]
  have old: "buckets ?base < fresh h"
    by (rule r_block_old [OF rep])
  have "js \<noteq> []"
  proof
    assume "js = []"
    then have "needs_resize 0 (capacity ?base)" and "\<exists>k. capacity ?base = 20 * 2 ^ k"
      using R(8,9) grow by (auto simp: r_cap_ok_def)
    then obtain k where "needs_resize 0 (20 * 2 ^ k)"
      by auto
    then show False
      using needs_resize_imp [of 0 k] by simp
  qed
  have len: "length js < ?cap" "length js \<le> capacity ?base"
    using R(8,9) by (auto simp: r_cap_ok_def)
  have "first ?base = head_ptr (buckets ?base) js"
    using R(6) chain_head by blast
  then have start: "resizing ?h ?m (buckets ?base) bs js (replicate ?cap zero_bucket) []"
    using R(1,6) len(1) old by (auto simp: resizing_def table_ok_empty)
  obtain h' m' nbs ns where loop: "r_resize_loop (capacity ?base) ?h ?m = Inr (h', m')"
      and fin: "resizing h' m' (buckets ?base) bs [] nbs ns" and bk: "bkts nbs ns = bkts bs (lives bs js)"
      and frame: "same_frame ?h ?m h' m'"
    using r_resize_loop_ok [OF start \<open>js \<noteq> []\<close> len(2)] by auto
  let ?h' = "h'\<lparr>blocks := (blocks h')(buckets ?base := None)\<rparr>" and ?r' = "\<lparr>rbase = m', tombstone_count = 0\<rparr>"
  have lens: "length ns = length (lives bs js)" "length (lives bs js) \<le> length js"
    using arg_cong [OF bk, of length] by (simp_all add: lives_def)
  have t: "table_ok nbs ns"
    using fin by (simp add: resizing_def)
  have "r_resize h r = Inr (?h', ?r')"
    using loop small fin by (simp add: r_resize_def Let_def calloc_buckets_def free_buckets_def resizing_def)
  moreover have count: "mcount ?base - tombstone_count r = length ns"
    using R(8,10) lens(1) by simp
  have "r_rep N mem ?h' ?r' nbs ns"
    using R(2,5) fin frame bk count clean_table [OF t] t r_cap_ok_grow [OF R(9) grow small, of "length ns"] lens R(8)
    by (auto simp: r_rep_def Let_def resizing_def same_frame_def)
  moreover have "capacity m' = ?cap"
    using frame by (simp add: same_frame_def)
  ultimately show ?thesis
    using bk lens clean_table(2) [OF t] by (metis rhashmap.select_convs(1))
qed

subsection \<open>Insertion\<close>

lemma r_maybe_resize_rep:
  assumes rep: "r_rep N mem h r bs js" and small: "N < 15 * 2 ^ 25"
  shows "\<exists>h' r' bs' js'. r_maybe_resize h r = Inr (h', r') \<and> r_rep N mem h' r' bs' js' \<and>
    r_entries mem h' r' = r_entries mem h r \<and> r_cap_ok (Suc N) (capacity (rbase r')) (Suc (length js'))"
proof (cases "needs_resize (mcount (rbase r)) (capacity (rbase r))")
  case True
  note R = r_repD [OF rep]
  obtain h' r' bs' js' where r': "r_resize h r = Inr (h', r')" "r_rep N mem h' r' bs' js'"
      "bkts bs' (lives bs' js') = bkts bs (lives bs js)" "length js' \<le> length js" "capacity (rbase r') = capacity (rbase r) * 2"
    using r_resize_rep [OF rep True r_cap_no_overflow [OF R(9) small]] by blast
  have "r_cap_ok (Suc N) (capacity (rbase r')) (Suc (length js'))"
    using r_repD(8,9) [OF r'(2)] r'(4,5) R(8,9) unfolding r_cap_ok_def by fastforce
  then show ?thesis
    using True r' r_entries_rep [OF rep] r_entries_rep [OF r'(2)] by (auto simp: r_maybe_resize_def)
next
  case False
  have "r_cap_ok N (capacity (rbase r)) (length js)"
    using r_repD(8,9) [OF rep] by simp
  moreover from this obtain k where "capacity (rbase r) = 20 * 2 ^ k"
    unfolding r_cap_ok_def by blast
  then have "Suc (length js) < capacity (rbase r)"
    using False no_resize_room [of "length js" k] r_repD(8) [OF rep] by simp
  ultimately have "r_cap_ok (Suc N) (capacity (rbase r)) (Suc (length js))"
    unfolding r_cap_ok_def by auto
  then show ?thesis
    using False rep by (auto simp: r_maybe_resize_def)
qed

lemma veil_relink: "\<forall>i\<in>set js. i < length bs \<Longrightarrow> map veil (relink bs js p) = relink (map veil bs) js p"
proof -
  have "veil (e\<lparr>bnext := p\<rparr>) = (veil e)\<lparr>bnext := p\<rparr>" for e
    by (cases e) (simp add: veil_def tomb_def)
  then show "\<forall>i\<in>set js. i < length bs \<Longrightarrow> map veil (relink bs js p) = relink (map veil bs) js p"
    by (simp add: relink_def map_update)
qed

lemma r_link_rep:
  assumes rep: "r_rep N mem h r bs js" and cap: "r_cap_ok (Suc N) (capacity (rbase r)) (Suc (length js))"
    and key: "key \<noteq> 0" and i: "i < length bs" "bs ! i = zero_bucket"
    and hash: "hash = hash_data (key_bytes mem key ksize)"
    and reach: "reachable_slot (map veil bs) (unat hash) i"
    and absent: "\<forall>j\<in>set (lives bs js). bkt_bytes mem (bs ! j) \<noteq> key_bytes mem key ksize"
  shows "ok (r_link_entry h r i key ksize hash val) (\<lambda>(h', r'). r_inv (Suc N) mem h' r' \<and>
    r_entries mem h' r' = r_entries mem h r @ [(key_bytes mem key ksize, val)])"
proof -
  let ?b = "buckets (rbase r)"
  let ?e = "\<lparr>bnext = NullB, bkey = key, bksize = ksize, bhash = hash, bvalue = val\<rparr>"
  let ?bs = "(relink bs js (Bkt ?b i))[i := ?e]"
  let ?h = "h\<lparr>blocks := (blocks h)(?b \<mapsto> ?bs)\<rparr>"
  let ?m = "(rbase r)\<lparr>first := (if js = [] then Bkt ?b i else first (rbase r)), mlast := LastBkt ?b i, mcount := mcount (rbase r) + 1\<rparr>"
  note R = r_repD [OF rep]
  have bound: "\<forall>j\<in>set js. j < length bs" and notin: "i \<notin> set js"
    using r_table(2) [OF rep] i by (auto simp: zero_bucket_def)
  have free: "i < length (map veil bs)" "bkey (map veil bs ! i) = 0"
    using i by (simp_all add: veil_key zero_bucket_def)
  have run: "r_link_entry h r i key ksize hash val = Inr (?h, r\<lparr>rbase := ?m\<rparr>)"
    using set_last_next_ok [OF R(1,6,7), of "Bkt ?b i"] i(1) by (simp add: r_link_entry_def link_entry_def)
  have swap: "?bs = relink (bs[i := ?e]) js (Bkt ?b i)"
    using notin last_in_set [of js] by (cases "last js = i") (auto simp: relink_def list_update_swap)
  have "veil ?e = ?e"
    using key by simp
  then have veil: "map veil ?bs = relink ((map veil bs)[i := ?e]) js (Bkt ?b i)"
    unfolding swap using veil_relink [of js "bs[i := ?e]"] bound by (simp add: map_update)
  have tab: "table_ok (map veil ?bs) (js @ [i])"
    unfolding veil using table_ok_insert [OF R(4) free, of ?e] key reach by (intro table_ok_relink) auto
  have key_same: "bkey (?bs ! j) = bkey (bs ! j)" if "j \<in> set js" for j
  proof -
    have "j \<noteq> i"
      using that notin by blast
    then show ?thesis
      using that bound by (auto simp: relink_def nth_list_update)
  qed
  have lives: "lives ?bs (js @ [i]) = lives bs js @ [i]"
    using key key_same i(1) by (simp add: lives_def cong: filter_cong)
  have bk: "bkts ?bs (lives ?bs (js @ [i])) = bkts bs (lives bs js) @ [?e]"
    unfolding lives bkts_append using notin bound i(1) by (simp add: lives_def)
  have ch: "chain ?bs ?b (first ?m) (js @ [i]) NullB"
    using chain_relink_last [OF R(6) r_table(1) [OF rep], of "Bkt ?b i"] notin i(1) by simp
  have eo: "entries_ok mem (bkts bs (lives bs js) @ [?e])"
    using R(5) absent hash by (auto simp: entries_ok_def bkts_def bkt_bytes_def)
  have eo': "entries_ok mem (bkts ?bs (lives ?bs (js @ [i])))"
    unfolding bk by (rule eo)
  have "length (lives ?bs (js @ [i])) = length (lives bs js) + 1" "length ?bs = length bs"
    unfolding lives by simp_all
  then have rep': "r_rep (Suc N) mem ?h (r\<lparr>rbase := ?m\<rparr>) ?bs (js @ [i])"
    using R tab ch eo' cap r_block_old [OF rep] unfolding r_rep_def Let_def by (simp del: lives_append chain_append)
  then have "r_inv (Suc N) mem ?h (r\<lparr>rbase := ?m\<rparr>)"
    unfolding r_inv_def by blast
  moreover have "r_entries mem ?h (r\<lparr>rbase := ?m\<rparr>) = r_entries mem h r @ [(key_bytes mem key ksize, val)]"
    unfolding r_entries_rep [OF rep'] r_entries_rep [OF rep] bk by (simp add: entries_abs_def bkt_bytes_def)
  ultimately show ?thesis
    using run by simp
qed

lemma r_overwrite_rep:
  assumes rep: "r_rep N mem h r bs js" and i: "i \<in> set (lives bs js)"
    and e: "bkey e \<noteq> 0" "bhash e = bhash (bs ! i)" "bnext e = bnext (bs ! i)" "bkt_bytes mem e = bkt_bytes mem (bs ! i)"
  defines "h' \<equiv> h\<lparr>blocks := (blocks h)(buckets (rbase r) \<mapsto> bs[i := e])\<rparr>"
  shows "r_inv N mem h' r" and "r_entries mem h' r = AList.update (bkt_bytes mem (bs ! i)) (bvalue e) (r_entries mem h r)"
proof -
  let ?bs = "bs[i := e]"
  have live: "i < length bs" "bkey (bs ! i) \<noteq> 0" "i \<in> set js"
    using r_table(2,4) [OF rep, of i] i by auto
  have nth: "bnext (?bs ! j) = bnext (bs ! j)" "bkey (?bs ! j) \<noteq> 0 \<longleftrightarrow> bkey (bs ! j) \<noteq> 0" "bhash (?bs ! j) = bhash (bs ! j)"
      "bkt_bytes mem (?bs ! j) = bkt_bytes mem (bs ! j)" for j
    using live e by (cases "j = i"; simp)+
  have "veil e = e"
    using e(1) by simp
  then have "table_ok (map veil ?bs) js"
    unfolding map_update using table_ok_upd [OF r_repD(4) [OF rep] live(3), of e] live e by simp
  moreover have lives: "lives ?bs js = lives bs js"
    by (simp add: lives_def nth(2))
  moreover have "entries_ok mem (bkts ?bs (lives bs js))"
    using r_repD(5) [OF rep] nth by (simp add: entries_ok_def bkts_def comp_def)
  moreover have "chain ?bs (buckets (rbase r)) (first (rbase r)) js NullB"
    using r_repD(6) [OF rep] nth(1) chain_cong [of js ?bs bs] by simp
  ultimately have rep': "r_rep N mem h' r ?bs js"
    using r_repD [OF rep] r_block_old [OF rep] by (simp add: r_rep_def h'_def Let_def)
  then show "r_inv N mem h' r"
    unfolding r_inv_def by blast
  have "r_entries mem h' r = map (\<lambda>j. (bkt_bytes mem (bs ! j), if j = i then bvalue e else bvalue (bs ! j))) (lives bs js)"
    unfolding r_entries_map [OF rep'] lives nth(4) using live(1) by (auto simp: nth_list_update)
  also have "\<dots> = AList.update (bkt_bytes mem (bs ! i)) (bvalue e) (r_entries mem h r)"
    unfolding r_entries_map [OF rep]
    by (rule alist_update_at [OF i entries_ok_bkts(1) [OF r_repD(5) [OF rep]], symmetric])
  finally show "r_entries mem h' r = AList.update (bkt_bytes mem (bs ! i)) (bvalue e) (r_entries mem h r)" .
qed

lemma r_inv_mono: "r_inv N mem h r \<Longrightarrow> N \<le> N' \<Longrightarrow> r_inv N' mem h r"
  unfolding r_inv_def r_rep_def r_cap_ok_def Let_def by fastforce

text \<open>What an inserting operation meets, and what its two continuations do.\<close>

lemma r_insert_cases [consumes 3, case_names absent present]:
  assumes "r_inv N mem h r" and key: "key \<noteq> 0" and small: "N < 15 * 2 ^ 25"
  obtains (absent) h1 r1 i where "r_maybe_resize h r = Inr (h1, r1)"
      "r_find_entry mem h1 r1 key ksize (hash_data (key_bytes mem key ksize)) = Inr i" "bkt_get h1 (buckets (rbase r1)) i = Inr zero_bucket"
      "map_of (r_entries mem h r) (key_bytes mem key ksize) = None"
      "\<And>val. ok (r_link_entry h1 r1 i key ksize (hash_data (key_bytes mem key ksize)) val) (\<lambda>(h', r'). r_inv (Suc N) mem h' r' \<and>
        r_entries mem h' r' = AList.update (key_bytes mem key ksize) val (r_entries mem h r))"
  | (present) h1 r1 i e where "r_maybe_resize h r = Inr (h1, r1)"
      "r_find_entry mem h1 r1 key ksize (hash_data (key_bytes mem key ksize)) = Inr i" "bkt_get h1 (buckets (rbase r1)) i = Inr e"
      "bkey e \<noteq> 0" "load_bytes mem (bkey e) (unat ksize) = key_bytes mem key ksize"
      "map_of (r_entries mem h r) (key_bytes mem key ksize) = Some (bvalue e)"
      "r_inv (Suc N) mem h1 r1" "r_entries mem h1 r1 = r_entries mem h r"
      "\<And>k val. k \<in> {key, bkey e} \<Longrightarrow> ok (bkt_put h1 (buckets (rbase r1)) i (e\<lparr>bkey := k, bvalue := val\<rparr>)) (\<lambda>h'. r_inv (Suc N) mem h' r1 \<and>
        r_entries mem h' r1 = AList.update (key_bytes mem key ksize) val (r_entries mem h r))"
proof -
  obtain bs0 js0 where rep0: "r_rep N mem h r bs0 js0"
    using assms(1) unfolding r_inv_def by blast
  obtain h1 r1 bs js where r: "r_maybe_resize h r = Inr (h1, r1)" and rep: "r_rep N mem h1 r1 bs js"
      and same: "r_entries mem h1 r1 = r_entries mem h r" and cap: "r_cap_ok (Suc N) (capacity (rbase r1)) (Suc (length js))"
    using r_maybe_resize_rep [OF rep0 small] by blast
  note blk = r_repD(1) [OF rep]
  have inv1: "r_inv (Suc N) mem h1 r1"
    by (rule r_inv_mono [of N]) (use rep in \<open>auto simp: r_inv_def\<close>)
  from rep show thesis
  proof (cases rule: r_search_cases [where key = key and ksize = ksize])
    case (absent i)
    show thesis
    proof (rule that(1) [OF r absent(1)])
      show "bkt_get h1 (buckets (rbase r1)) i = Inr zero_bucket"
        using absent(2,3) by (simp add: blk)
      show "map_of (r_entries mem h r) (key_bytes mem key ksize) = None"
        using absent(6) same by (simp add: map_of_eq_None_iff)
      show "ok (r_link_entry h1 r1 i key ksize (hash_data (key_bytes mem key ksize)) val) (\<lambda>(h', r'). r_inv (Suc N) mem h' r' \<and>
          r_entries mem h' r' = AList.update (key_bytes mem key ksize) val (r_entries mem h r))" for val
        using r_link_rep [OF rep cap key absent(2,3) refl absent(4,5), of val] alist_update_new [OF absent(6), of val] same by simp
    qed
  next
    case (present i)
    have ks: "bksize (bs ! i) = ksize"
      using arg_cong [OF present(5), of length] by (simp add: bkt_bytes_def word_unat_eq_iff)
    show thesis
    proof (rule that(2) [OF r present(1) _ present(4) _ _ inv1 same])
      show "bkt_get h1 (buckets (rbase r1)) i = Inr (bs ! i)"
        using present(3) by (simp add: blk)
      show "load_bytes mem (bkey (bs ! i)) (unat ksize) = key_bytes mem key ksize"
        using present(5) ks by (simp add: bkt_bytes_def)
      show "map_of (r_entries mem h r) (key_bytes mem key ksize) = Some (bvalue (bs ! i))"
        using present(6) same by simp
      fix k val assume k: "k \<in> {key, bkey (bs ! i)}"
      let ?e = "(bs ! i)\<lparr>bkey := k, bvalue := val\<rparr>"
      have "bkt_bytes mem ?e = bkt_bytes mem (bs ! i)"
        using k ks present(5) by (auto simp: bkt_bytes_def)
      then have "r_inv N mem (h1\<lparr>blocks := (blocks h1)(buckets (rbase r1) \<mapsto> bs[i := ?e])\<rparr>) r1 \<and>
          r_entries mem (h1\<lparr>blocks := (blocks h1)(buckets (rbase r1) \<mapsto> bs[i := ?e])\<rparr>) r1 =
            AList.update (key_bytes mem key ksize) val (r_entries mem h r)"
        using r_overwrite_rep [OF rep present(2), of ?e] k key present(4,5) same by auto
      then show "ok (bkt_put h1 (buckets (rbase r1)) i ?e) (\<lambda>h'. r_inv (Suc N) mem h' r1 \<and>
          r_entries mem h' r1 = AList.update (key_bytes mem key ksize) val (r_entries mem h r))"
        using blk present(3) r_inv_mono [of N mem _ r1 "Suc N"] by simp
    qed
  qed
qed

lemma r_set_ok:
  assumes "r_inv N mem h r" and "key \<noteq> 0" and "N < 15 * 2 ^ 25"
  shows "ok (r_set mem h r key ksize val) (\<lambda>(h', r'). r_inv (Suc N) mem h' r' \<and>
    r_entries mem h' r' = AList.update (key_bytes mem key ksize) val (r_entries mem h r))"
  using assms
proof (cases rule: r_insert_cases [where ksize = ksize])
  case (absent h1 r1 i)
  then show ?thesis
    by (simp add: r_set_def zero_bucket_def)
next
  case (present h1 r1 i e)
  then show ?thesis
    using present(9) [of "bkey e" val] by (simp add: r_set_def ok_bindR_eq)
qed

lemma r_get_set_ok:
  assumes "r_inv N mem h r" and "key \<noteq> 0" and "N < 15 * 2 ^ 25"
  shows "ok (r_get_set mem h r key ksize out_in) (\<lambda>(found, v, h', r'). r_inv (Suc N) mem h' r' \<and>
    (case map_of (r_entries mem h r) (key_bytes mem key ksize) of
       None \<Rightarrow> \<not> found \<and> v = out_in \<and> r_entries mem h' r' = AList.update (key_bytes mem key ksize) out_in (r_entries mem h r)
     | Some v0 \<Rightarrow> found \<and> v = v0 \<and> r_entries mem h' r' = r_entries mem h r))"
  using assms
proof (cases rule: r_insert_cases [where ksize = ksize])
  case (absent h1 r1 i)
  then show ?thesis
    using absent(5) [of out_in] by (auto simp: r_get_set_def zero_bucket_def ok_bindR_eq elim!: ok_mono)
next
  case (present h1 r1 i e)
  then show ?thesis
    by (simp add: r_get_set_def)
qed

lemma r_set_free_ok:
  assumes "r_inv N mem h r" and "key \<noteq> 0" and "N < 15 * 2 ^ 25"
  shows "ok (r_set_free mem h r key ksize val c usr) (\<lambda>(usr', h', r'). r_inv (Suc N) mem h' r' \<and>
    r_entries mem h' r' = AList.update (key_bytes mem key ksize) val (r_entries mem h r) \<and>
    (case map_of (r_entries mem h r) (key_bytes mem key ksize) of None \<Rightarrow> usr' = usr
     | Some v \<Rightarrow> \<exists>k. load_bytes mem k (unat ksize) = key_bytes mem key ksize \<and> usr' = c k ksize v usr))"
  using assms
proof (cases rule: r_insert_cases [where ksize = ksize])
  case (absent h1 r1 i)
  then show ?thesis
    using absent(5) [of val] by (auto simp: r_set_free_def zero_bucket_def ok_bindR_eq elim!: ok_mono)
next
  case (present h1 r1 i e)
  have "\<exists>k. load_bytes mem k (unat ksize) = key_bytes mem key ksize \<and> c (bkey e) ksize (bvalue e) usr = c k ksize (bvalue e) usr"
    using present(5) by blast
  then show ?thesis
    using present(1-6) present(9) [of key val] by (simp add: r_set_free_def ok_bindR_eq)
qed

subsection \<open>Sequences of insertions and removals\<close>

datatype map_op = Put ptr u64 u64 | Remove ptr u64

fun r_apply :: "memory \<Rightarrow> map_op \<Rightarrow> bheap \<times> rhashmap \<Rightarrow> (bheap \<times> rhashmap) res" where
  "r_apply mem (Put key ksize v) (h, r) = r_set mem h r key ksize v"
| "r_apply mem (Remove key ksize) (h, r) = r_remove mem h r key ksize"

fun al_apply :: "memory \<Rightarrow> map_op \<Rightarrow> (u8 list \<times> u64) list \<Rightarrow> (u8 list \<times> u64) list" where
  "al_apply mem (Put key ksize v) = AList.update (load_bytes mem key (unat ksize)) v"
| "al_apply mem (Remove key ksize) = AList.delete (load_bytes mem key (unat ksize))"

fun put_key_ok :: "map_op \<Rightarrow> bool" where
  "put_key_ok (Put key ksize v) \<longleftrightarrow> key \<noteq> 0"
| "put_key_ok (Remove key ksize) \<longleftrightarrow> True"

lemma r_create_inv:
  "r_inv 0 mem (fst (r_create empty_heap)) (snd (r_create empty_heap))"
  "r_entries mem (fst (r_create empty_heap)) (snd (r_create empty_heap)) = []"
proof -
  let ?bs = "replicate 20 zero_bucket"
  have "hm_rep mem (fst (hashmap_create empty_heap)) (snd (hashmap_create empty_heap)) ?bs []"
    by (rule hashmap_create_rep [of empty_heap]) (simp_all add: empty_heap_def)
  note R = hm_repD(1-7) [OF this]
  have fresh: "\<forall>b\<ge>fresh (fst (hashmap_create empty_heap)). blocks (fst (hashmap_create empty_heap)) b = None"
    by (simp add: hashmap_create_def calloc_buckets_def empty_heap_def)
  have "capacity (snd (hashmap_create empty_heap)) = 20"
    by (simp add: hashmap_create_def calloc_buckets_def)
  moreover have "r_cap_ok 0 20 0"
    unfolding r_cap_ok_def by (auto intro: exI [of _ 0])
  ultimately have rep: "r_rep 0 mem (fst (r_create empty_heap)) (snd (r_create empty_heap)) ?bs []"
    using R fresh clean_table(1) [OF R(3)] by (simp add: r_rep_def r_create_def Let_def lives_def split_beta)
  then show "r_inv 0 mem (fst (r_create empty_heap)) (snd (r_create empty_heap))"
    unfolding r_inv_def by blast
  show "r_entries mem (fst (r_create empty_heap)) (snd (r_create empty_heap)) = []"
    by (simp add: r_entries_map [OF rep] lives_def)
qed

lemma r_apply_ok:
  assumes "r_inv N mem h r" and "put_key_ok op" and "N < 15 * 2 ^ 25"
  shows "ok (r_apply mem op (h, r)) (\<lambda>(h', r'). r_inv (Suc N) mem h' r' \<and> r_entries mem h' r' = al_apply mem op (r_entries mem h r))"
proof (cases op)
  case (Put key ksize v)
  then show ?thesis
    using r_set_ok [OF assms(1) _ assms(3), of key ksize v] assms(2) by simp
next
  case (Remove key ksize)
  then show ?thesis
    using r_remove_ok [OF assms(1), of key ksize] by (auto elim!: ok_mono intro: r_inv_mono)
qed

lemma r_run_ok:
  assumes "\<forall>op\<in>set ops. put_key_ok op" and "N + length ops \<le> 15 * 2 ^ 25" and "r_inv N mem h r"
  shows "ok (foldR (r_apply mem) ops (h, r)) (\<lambda>(h', r'). r_inv (N + length ops) mem h' r' \<and>
    r_entries mem h' r' = fold (al_apply mem) ops (r_entries mem h r))"
  using assms
proof (induction ops arbitrary: N h r)
  case (Cons op ops)
  obtain h1 r1 where 1: "r_apply mem op (h, r) = Inr (h1, r1)" "r_inv (Suc N) mem h1 r1" "r_entries mem h1 r1 = al_apply mem op (r_entries mem h r)"
    using r_apply_ok [OF Cons.prems(3), of op] Cons.prems(1,2) by (auto elim!: okE)
  show ?case
    using Cons.IH [OF _ _ 1(2)] Cons.prems(1,2) 1(1,3) by simp
qed simp

text \<open>
  C11: The hash map with removal behaves like an association list. Any sequence of insertions and
  removals from an empty map succeeds, through all resizes and all reuses of the
  table; afterwards a walk meets exactly the entries that are left, in the order in which they
  were inserted, \<^verbatim>\<open>hashmap_size\<close> counts them, and \<^verbatim>\<open>hashmap_get\<close> finds them and no others.
\<close>

theorem removable_map_refines:
  assumes "\<forall>op\<in>set ops. put_key_ok op" and "length ops \<le> 15 * 2 ^ 25"
  shows "ok (foldR (r_apply mem) ops (r_create empty_heap)) (\<lambda>(h, r).
    r_entries mem h r = fold (al_apply mem) ops [] \<and> r_size r = length (fold (al_apply mem) ops []) \<and>
    r_get mem h r key ksize = Inr (case map_of (fold (al_apply mem) ops []) (load_bytes mem key (unat ksize)) of
      None \<Rightarrow> (False, 0) | Some v \<Rightarrow> (True, v)))"
proof -
  obtain h r where hr: "r_create empty_heap = (h, r)"
    by fastforce
  have "r_inv 0 mem h r" "r_entries mem h r = []"
    using r_create_inv [of mem] by (simp_all add: hr)
  then obtain h' r' where "foldR (r_apply mem) ops (h, r) = Inr (h', r')" "r_inv (length ops) mem h' r'"
      "r_entries mem h' r' = fold (al_apply mem) ops []"
    using r_run_ok [OF assms(1), of 0 mem h r] assms(2) by (auto elim!: okE)
  then show ?thesis
    using r_size_ok [of "length ops" mem h' r'] r_get_ok [of "length ops" mem h' r' key ksize] by (simp add: hr)
qed

theorem removable_map_refines_witness:
  "ok (foldR (r_apply (\<lambda>a. ucast a)) [Put 1 2 7, Put 5 2 8, Remove 1 2, Put 9 2 3] (r_create empty_heap)) (\<lambda>(h, r).
    r_size r = 2 \<and> r_get (\<lambda>a. ucast a) h r 1 2 = Inr (False, 0) \<and> r_entries (\<lambda>a. ucast a) h r = [([5, 6], 8), ([9, 10], 3)])"
proof -
  let ?ops = "[Put 1 2 7, Put 5 2 8, Remove 1 2, Put 9 2 3]" and ?mem = "\<lambda>a. ucast a :: u8"
  have "load_bytes ?mem 1 2 = [1, 2]" "load_bytes ?mem 5 2 = [5, 6]" "load_bytes ?mem 9 2 = [9, 10]"
    by code_simp+
  then have al: "fold (al_apply ?mem) ?ops [] = [([5, 6], 8), ([9, 10], 3)]"
    by simp
  have key: "load_bytes ?mem 1 (unat (2 :: u64)) = [1, 2]"
    by code_simp
  have none: "map_of [([5, 6 :: u8], 8 :: u64), ([9, 10], 3)] [1, 2] = None"
    by simp
  have "\<forall>op\<in>set ?ops. put_key_ok op" "length ?ops \<le> 15 * 2 ^ 25"
    by simp_all
  from removable_map_refines [OF this, of ?mem 1 2, unfolded al key none option.case] show ?thesis
    by (rule ok_mono) auto
qed

end
