(* ===== verification/Trace_Container.thy ===== *)
theory Trace_Container
  imports C_Prelude
begin

text \<open>
  Trace records and the containers that collect pointers to them
  (\<^verbatim>\<open>replay.c\<close>, \<^verbatim>\<open>struct trace_info\<close> to \<^verbatim>\<open>trace_container_print_info\<close>). A pointer to a
  record is the index of the record in the array that \<^verbatim>\<open>parse_trace_info\<close> fills;
  a cell of \<^verbatim>\<open>infos_map\<close> that was never written is \<open>None\<close>. Allocation is assumed to
  succeed. The results: adding appends, through all reallocations; the merge sort
  is the stable sort by timestamp, except on an empty container, where it reads
  uninitialised memory; the quicksort kept beside it sorts too.
\<close>

subsection \<open>Data\<close>

text \<open>The union of \<^verbatim>\<open>pid\<close> and \<^verbatim>\<open>fid\<close> is one field.\<close>

record trace_info =
  ts :: u64
  pid :: u64
  lba :: u64
  ofs :: u64
  blks :: u64
  rw :: char
  major :: int
  minor :: int
  md5 :: string

record trace_container =
  infos_map :: "nat option list"
  meta :: ptr
  tsize :: nat
  tcapacity :: nat

abbreviation (input) DEFAULT_COLLECTIONS_CAPACITY :: nat where
  "DEFAULT_COLLECTIONS_CAPACITY \<equiv> 64"

subsection \<open>Creating and adding\<close>

definition trace_container_create :: "nat \<Rightarrow> ptr \<Rightarrow> trace_container" where
  "trace_container_create cap m =
     \<lparr>infos_map = replicate cap None, meta = m, tsize = 0, tcapacity = cap\<rparr>"

text \<open>The containers alive: \<open>None\<close> marks one that was freed.\<close>

type_synonym tc_heap = "trace_container option list"

definition tc_get :: "tc_heap \<Rightarrow> nat \<Rightarrow> trace_container res" where
  "tc_get tcs p = bindR (array_get tcs p) (\<lambda>c.
     case c of None \<Rightarrow> Inl UseAfterFree | Some tc \<Rightarrow> Inr tc)"

definition trace_container_destroy :: "tc_heap \<Rightarrow> nat option \<Rightarrow> tc_heap res" where
  "trace_container_destroy tcs p =
     (case p of None \<Rightarrow> Inr tcs
      | Some p \<Rightarrow> bindR (tc_get tcs p) (\<lambda>_. Inr (tcs[p := None])))"

definition trace_container_add :: "trace_container \<Rightarrow> nat option \<Rightarrow> trace_container res" where
  "trace_container_add tc info =
     bindR (if tsize tc = tcapacity tc
            then bindR (guardR (tcapacity tc * 2 < 2 ^ 31) IntOverflow) (\<lambda>_.
                 Inr (tc\<lparr>tcapacity := tcapacity tc * 2,
                         infos_map := infos_map tc @ replicate (tcapacity tc) None\<rparr>))
            else Inr tc) (\<lambda>tc1.
     bindR (array_set (infos_map tc1) (tsize tc1) info) (\<lambda>im.
     Inr (tc1\<lparr>infos_map := im, tsize := tsize tc1 + 1\<rparr>)))"

definition trace_container_add_collection ::
  "trace_container \<Rightarrow> trace_container \<Rightarrow> trace_container res" where
  "trace_container_add_collection tc tc2 =
     foldR (\<lambda>i tc. bindR (array_get (infos_map tc2) i) (\<lambda>info. trace_container_add tc info))
       [0..<tsize tc2] tc"

subsection \<open>Sorting\<close>

text \<open>\<^verbatim>\<open>infos_map[i]->ts\<close>.\<close>

definition ts_at :: "trace_info list \<Rightarrow> nat option list \<Rightarrow> nat \<Rightarrow> u64 res" where
  "ts_at infos im i = bindR (array_get im i) (\<lambda>c.
     case c of None \<Rightarrow> Inl Uninitialised
     | Some p \<Rightarrow> bindR (array_get infos p) (\<lambda>info. Inr (ts info)))"

text \<open>
  \<^verbatim>\<open>_partition_by_ts\<close>: the loop over \<open>i\<close>, then the pivot goes to its place.
\<close>

fun partition_loop :: "trace_info list \<Rightarrow> u64 \<Rightarrow> nat list \<Rightarrow> nat option list \<times> nat \<Rightarrow>
    (nat option list \<times> nat) res" where
  "partition_loop infos pivot_ts [] s = Inr s"
| "partition_loop infos pivot_ts (i # is) (im, low_index) =
     bindR (ts_at infos im i) (\<lambda>t.
     if t < pivot_ts then
       let low_index' = low_index + 1 in
       if i \<noteq> low_index' then
         bindR (array_get im i) (\<lambda>tmp.
         bindR (array_get im low_index') (\<lambda>x.
         bindR (array_set im i x) (\<lambda>im1.
         bindR (array_set im1 low_index' tmp) (\<lambda>im2.
         partition_loop infos pivot_ts is (im2, low_index')))))
       else partition_loop infos pivot_ts is (im, low_index')
     else partition_loop infos pivot_ts is (im, low_index))"

definition partition_by_ts ::
  "trace_info list \<Rightarrow> nat option list \<Rightarrow> nat \<Rightarrow> nat \<Rightarrow> (nat option list \<times> nat) res" where
  "partition_by_ts infos im low high =
     bindR (array_get im low) (\<lambda>pivot.
     bindR (ts_at infos im low) (\<lambda>pivot_ts.
     bindR (partition_loop infos pivot_ts [low + 1..<high + 1] (im, low)) (\<lambda>(im1, low_index).
     bindR (array_get im1 low_index) (\<lambda>x.
     bindR (array_set im1 low x) (\<lambda>im2.
     bindR (array_set im2 low_index pivot) (\<lambda>im3.
     Inr (im3, low_index)))))))"

text \<open>
  \<^verbatim>\<open>_trace_infomap_qsort_by_ts\<close>; every call is on a shorter range, \<open>fuel\<close> bounds its length.
\<close>

fun trace_infomap_qsort_by_ts ::
  "nat \<Rightarrow> trace_info list \<Rightarrow> nat option list \<Rightarrow> nat \<Rightarrow> nat \<Rightarrow> nat option list res" where
  "trace_infomap_qsort_by_ts 0 infos im low high = (if low < high then Inl Diverges else Inr im)"
| "trace_infomap_qsort_by_ts (Suc fuel) infos im low high =
     (if low < high then
        bindR (partition_by_ts infos im low high) (\<lambda>(im1, pivot).
        bindR (if pivot > 0 then trace_infomap_qsort_by_ts fuel infos im1 low (pivot - 1)
               else Inr im1) (\<lambda>im2.
        trace_infomap_qsort_by_ts fuel infos im2 (pivot + 1) high))
      else Inr im)"

text \<open>
  \<^verbatim>\<open>_merge_array_by_ts\<close>. Of \<^verbatim>\<open>temp\<close> only the first \<open>k\<close> cells, written by this call, are read:
  they are the list \<open>temp\<close>, and \<open>tlen\<close> is the length that was allocated.
\<close>

definition push_temp :: "nat \<Rightarrow> nat option list \<Rightarrow> nat option \<Rightarrow> nat option list res" where
  "push_temp tlen temp c = (if length temp < tlen then Inr (temp @ [c]) else Inl OutOfBounds)"

function merge_ts_loop :: "trace_info list \<Rightarrow> nat option list \<Rightarrow> nat \<Rightarrow> nat \<Rightarrow> nat \<Rightarrow> nat \<Rightarrow> nat \<Rightarrow>
    nat option list \<Rightarrow> (nat \<times> nat \<times> nat option list) res" where
  "merge_ts_loop infos im tlen i j m n temp =
     (if i \<le> j \<and> m \<le> n then
        bindR (ts_at infos im i) (\<lambda>a.
        bindR (ts_at infos im m) (\<lambda>b.
        if a \<le> b then
          bindR (array_get im i) (\<lambda>c. bindR (push_temp tlen temp c) (\<lambda>temp'.
          merge_ts_loop infos im tlen (i + 1) j m n temp'))
        else
          bindR (array_get im m) (\<lambda>c. bindR (push_temp tlen temp c) (\<lambda>temp'.
          merge_ts_loop infos im tlen i j (m + 1) n temp'))))
      else Inr (i, m, temp))"
  by pat_completeness auto
termination
  by (relation "measure (\<lambda>(infos, im, tlen, i, j, m, n, temp). (Suc j - i) + (Suc n - m))") auto

text \<open>The two loops that copy what is left of a run.\<close>

definition copy_rest :: "nat option list \<Rightarrow> nat \<Rightarrow> nat \<Rightarrow> nat \<Rightarrow> nat option list \<Rightarrow> nat option list res" where
  "copy_rest im tlen i j temp =
     foldR (\<lambda>x temp. bindR (array_get im x) (\<lambda>c. push_temp tlen temp c)) [i..<j + 1] temp"

definition merge_array_by_ts :: "trace_info list \<Rightarrow> nat option list \<Rightarrow> nat \<Rightarrow> nat \<Rightarrow> nat \<Rightarrow> nat \<Rightarrow>
    nat option list res" where
  "merge_array_by_ts infos im begin mid end' tlen =
     bindR (merge_ts_loop infos im tlen begin mid (mid + 1) end' []) (\<lambda>(i, m, temp1).
     bindR (copy_rest im tlen i mid temp1) (\<lambda>temp2.
     bindR (copy_rest im tlen m end' temp2) (\<lambda>temp.
     foldR (\<lambda>i im. array_set im (begin + i) (temp ! i)) [0..<length temp] im)))"

text \<open>
  \<^verbatim>\<open>_trace_infomap_msort_by_ts\<close>. The sum of two indices of an array of pointers does not
  wrap around in 64 bits; a wrap would be reported.
\<close>

function trace_infomap_msort_by_ts ::
  "trace_info list \<Rightarrow> nat option list \<Rightarrow> nat \<Rightarrow> nat \<Rightarrow> nat \<Rightarrow> nat option list res" where
  "trace_infomap_msort_by_ts infos im begin end' tlen =
     (if begin < end' then
        bindR (guardR (begin + end' < 2 ^ 64) IntOverflow) (\<lambda>_.
        let mid = (begin + end') div 2 in
        bindR (trace_infomap_msort_by_ts infos im begin mid tlen) (\<lambda>im1.
        bindR (trace_infomap_msort_by_ts infos im1 (mid + 1) end' tlen) (\<lambda>im2.
        merge_array_by_ts infos im2 begin mid end' tlen)))
      else Inr im)"
  by pat_completeness auto
termination
  by (relation "measure (\<lambda>(infos, im, begin, end', tlen). end' - begin)") auto

text \<open>
  \<^verbatim>\<open>trace_container_sort_infomap_by_ts\<close>: \<^verbatim>\<open>tc->size - 1\<close> is an \<^verbatim>\<open>int\<close> that is converted to
  \<^verbatim>\<open>unsigned long\<close>.
\<close>

definition trace_container_sort_infomap_by_ts ::
  "trace_info list \<Rightarrow> trace_container \<Rightarrow> trace_container res" where
  "trace_container_sort_infomap_by_ts infos tc =
     bindR (trace_infomap_msort_by_ts infos (infos_map tc) 0 (nat ((int (tsize tc) - 1) mod 2 ^ 64))
       (tsize tc)) (\<lambda>im.
     Inr (tc\<lparr>infos_map := im\<rparr>))"

text \<open>\<^verbatim>\<open>trace_container_print_info\<close>: the rows that are printed below the heading.\<close>

definition trace_container_print_info ::
  "trace_info list \<Rightarrow> trace_container \<Rightarrow> (u64 \<times> u64 \<times> u64 \<times> u64 \<times> u64 \<times> char) list res" where
  "trace_container_print_info infos tc =
     foldR (\<lambda>i out. bindR (array_get (infos_map tc) i) (\<lambda>c.
       case c of None \<Rightarrow> Inl Uninitialised
       | Some p \<Rightarrow> bindR (array_get infos p) (\<lambda>info.
           Inr (out @ [(ts info, pid info, lba info, ofs info, blks info, rw info)]))))
       [0..<tsize tc] []"

declare merge_ts_loop.simps [simp del] trace_infomap_msort_by_ts.simps [simp del]



subsection \<open>Merging lists\<close>

fun merge_by :: "('a \<Rightarrow> 'k::linorder) \<Rightarrow> 'a list \<Rightarrow> 'a list \<Rightarrow> 'a list" where
  "merge_by f [] ys = ys"
| "merge_by f (x # xs) [] = x # xs"
| "merge_by f (x # xs) (y # ys) =
     (if f x \<le> f y then x # merge_by f xs (y # ys) else y # merge_by f (x # xs) ys)"

lemma mset_merge_by [simp]: "mset (merge_by f xs ys) = mset xs + mset ys"
  by (induction f xs ys rule: merge_by.induct) auto

lemma set_merge_by [simp]: "set (merge_by f xs ys) = set xs \<union> set ys"
  by (induction f xs ys rule: merge_by.induct) auto

lemma length_merge_by [simp]: "length (merge_by f xs ys) = length xs + length ys"
  by (induction f xs ys rule: merge_by.induct) auto

lemma sorted_merge_by: "sorted (map f xs) \<Longrightarrow> sorted (map f ys) \<Longrightarrow> sorted (map f (merge_by f xs ys))"
  by (induction f xs ys rule: merge_by.induct) (auto intro: order.trans less_imp_le)

text \<open>Merging is stable: elements with equal keys keep their order, first run first.\<close>

lemma filter_merge_by:
  "sorted (map f xs) \<Longrightarrow> filter (\<lambda>z. f z = k) (merge_by f xs ys) =
     filter (\<lambda>z. f z = k) xs @ filter (\<lambda>z. f z = k) ys"
proof (induction f xs ys rule: merge_by.induct)
  case (3 f x xs y ys)
  have "filter (\<lambda>z. f z = f y) (x # xs) = []" if "f y < f x"
    using 3(3) that by (auto simp: filter_empty_conv)
  then show ?case
    using 3 by (cases "f x \<le> f y"; cases "f y = k") auto
qed auto

lemma merge_by_sort_key: "merge_by f (sort_key f xs) (sort_key f ys) = sort_key f (xs @ ys)"
proof (rule sym, rule properties_for_sort_key)
  show "filter (\<lambda>z. f k = f z) (merge_by f (sort_key f xs) (sort_key f ys)) =
      filter (\<lambda>z. f k = f z) (xs @ ys)" for k
    by (simp add: filter_merge_by sort_key_stable eq_commute [of "f k"])
qed (simp_all add: sorted_merge_by)

subsection \<open>The merge sort\<close>

definition cells_ok :: "trace_info list \<Rightarrow> nat option list \<Rightarrow> bool" where
  "cells_ok infos cs \<longleftrightarrow> (\<forall>c\<in>set cs. \<exists>p<length infos. c = Some p)"

definition tkey :: "trace_info list \<Rightarrow> nat option \<Rightarrow> u64" where
  "tkey infos c = ts (infos ! the c)"

lemma cells_ok_simps [simp]: "cells_ok infos []"
  "cells_ok infos (c # cs) \<longleftrightarrow> (\<exists>p<length infos. c = Some p) \<and> cells_ok infos cs"
  "cells_ok infos (cs @ ds) \<longleftrightarrow> cells_ok infos cs \<and> cells_ok infos ds"
  "cells_ok infos (sort_key f cs) \<longleftrightarrow> cells_ok infos cs"
  by (auto simp: cells_ok_def)

lemma sort_key_Nil_iff [simp]: "sort_key f xs = [] \<longleftrightarrow> xs = []"
  by (metis length_0_conv length_sort)

lemma ts_at_ok [simp]:
  "i < length im \<Longrightarrow> im ! i = Some p \<Longrightarrow> p < length infos \<Longrightarrow> ts_at infos im i = Inr (ts (infos ! p))"
  by (simp add: ts_at_def)

lemma copy_rest_ok:
  "i = length P \<Longrightarrow> j + 1 = length (P @ xs) \<Longrightarrow> length temp + length xs \<le> tlen \<Longrightarrow>
     copy_rest (P @ xs @ Q) tlen i j temp = Inr (temp @ xs)"
proof (induction xs arbitrary: i P temp)
  case Nil
  then show ?case by (simp add: copy_rest_def)
next
  case (Cons x xs)
  have "[i..<j + 1] = i # [i + 1..<j + 1]"
    using Cons.prems upt_conv_Cons [of i "j + 1"] by (auto simp del: upt_Suc)
  then have "copy_rest (P @ (x # xs) @ Q) tlen i j temp = copy_rest ((P @ [x]) @ xs @ Q) tlen (i + 1) j (temp @ [x])"
    using Cons.prems by (simp add: copy_rest_def push_temp_def nth_append)
  also have "\<dots> = Inr ((temp @ [x]) @ xs)"
    using Cons.prems by (intro Cons.IH) auto
  finally show ?case by simp
qed

lemma merge_temp_ok:
  assumes "im = P @ xs @ M @ ys @ Q" and "i = length P" and "j + 1 = length (P @ xs)"
    and "m = length (P @ xs @ M)" and "n + 1 = length (P @ xs @ M @ ys)"
    and "cells_ok infos xs" and "cells_ok infos ys" and "length temp + length xs + length ys \<le> tlen"
  shows "bindR (merge_ts_loop infos im tlen i j m n temp) (\<lambda>(i, m, temp1).
      bindR (copy_rest im tlen i j temp1) (\<lambda>temp2. copy_rest im tlen m n temp2)) =
    Inr (temp @ merge_by (tkey infos) xs ys)"
  using assms
proof (induction "tkey infos" xs ys arbitrary: P M i m temp rule: merge_by.induct)
  case (1 ys)
  then show ?case
    using copy_rest_ok [of i P j "[]" temp tlen "M @ ys @ Q"] copy_rest_ok [of m "P @ M" n ys temp tlen Q]
    by (subst merge_ts_loop.simps) simp
next
  case (2 x xs)
  then show ?case
    using copy_rest_ok [of i P j "x # xs" temp tlen "M @ Q"]
      copy_rest_ok [of m "P @ (x # xs) @ M" n "[]" "temp @ x # xs" tlen Q]
    by (subst merge_ts_loop.simps) simp
next
  case (3 x xs y ys)
  obtain p q where pq: "x = Some p" "p < length infos" "y = Some q" "q < length infos"
    using 3(8,9) by auto
  have at: "im ! i = x" "im ! m = y" "i < length im" "m < length im" "i \<le> j" "m \<le> n"
    using 3(3-7) by (auto simp: nth_append)
  show ?case
  proof (cases "ts (infos ! p) \<le> ts (infos ! q)")
    case True
    have "merge_ts_loop infos im tlen i j m n temp = merge_ts_loop infos im tlen (i + 1) j m n (temp @ [x])"
      using at pq True 3(10) by (subst merge_ts_loop.simps) (simp add: push_temp_def)
    then show ?thesis
      using 3(1) [of "P @ [x]" M "i + 1" m "temp @ [x]"] 3(3-) True pq by (simp add: tkey_def)
  next
    case False
    have "merge_ts_loop infos im tlen i j m n temp = merge_ts_loop infos im tlen i j (m + 1) n (temp @ [y])"
      using at pq False 3(10) by (subst merge_ts_loop.simps) (simp add: push_temp_def)
    then show ?thesis
      using 3(2) [of P "M @ [y]" i "m + 1" "temp @ [y]"] 3(3-) False pq by (simp add: tkey_def)
  qed
qed

lemma write_back_ok:
  "length zs = length temp \<Longrightarrow>
     foldR (\<lambda>i im. array_set im (length P + i) (temp ! i)) [0..<length temp] (P @ zs @ Q) = Inr (P @ temp @ Q)"
proof -
  assume len: "length zs = length temp"
  have "ok (foldR (\<lambda>i im. array_set im (length P + i) (temp ! i)) [0..<length temp] (P @ zs @ Q))
    (\<lambda>im. im = P @ take (length temp) temp @ drop (length temp) zs @ Q)"
    by (rule ok_foldR_upt [where I = "\<lambda>i im. im = P @ take i temp @ drop i zs @ Q"])
      (use len in \<open>simp_all add: array_set_def list_update_append take_Suc_conv_app_nth
          Cons_nth_drop_Suc [symmetric]\<close>)
  then show ?thesis
    using len by (auto elim!: okE)
qed


lemma merge_array_ok:
  assumes "im = P @ xs @ ys @ Q" and "xs \<noteq> []" and "ys \<noteq> []"
    and "cells_ok infos xs" and "cells_ok infos ys" and "length xs + length ys \<le> tlen"
  shows "merge_array_by_ts infos im (length P) (length (P @ xs) - 1) (length (P @ xs @ ys) - 1) tlen =
    Inr (P @ merge_by (tkey infos) xs ys @ Q)"
proof -
  let ?j = "length (P @ xs) - 1" and ?n = "length (P @ xs @ ys) - 1" and ?z = "merge_by (tkey infos) xs ys"
  have j: "?j + 1 = length (P @ xs)" "?n + 1 = length (P @ xs @ ys)"
    using assms(2,3) by (cases xs; cases ys; simp)+
  have "bindR (merge_ts_loop infos im tlen (length P) ?j (?j + 1) ?n []) (\<lambda>(i, m, temp1).
      bindR (copy_rest im tlen i ?j temp1) (\<lambda>temp2. copy_rest im tlen m ?n temp2)) = Inr ([] @ ?z)"
    using assms j by (intro merge_temp_ok [of im P xs "[]" ys Q]) simp_all
  then have "merge_array_by_ts infos im (length P) ?j ?n tlen =
      foldR (\<lambda>i im. array_set im (length P + i) (?z ! i)) [0..<length ?z] im"
    unfolding merge_array_by_ts_def by (auto simp: bindR_eq_Inr split: prod.splits)
  also have "\<dots> = Inr (P @ ?z @ Q)"
    using write_back_ok [of "xs @ ys" ?z P Q] assms(1) by simp
  finally show ?thesis .
qed

text \<open>The sort on an array leaves the stable sort of the range in place.\<close>

lemma msort_ok:
  "xs \<noteq> [] \<Longrightarrow> cells_ok infos xs \<Longrightarrow> length xs \<le> tlen \<Longrightarrow> length (P @ xs) < 2 ^ 63 \<Longrightarrow>
     trace_infomap_msort_by_ts infos (P @ xs @ Q) (length P) (length (P @ xs) - 1) tlen =
       Inr (P @ sort_key (tkey infos) xs @ Q)"
proof (induction "length xs" arbitrary: xs P Q rule: less_induct)
  case less
  show ?case
  proof (cases "length xs = 1")
    case True
    then show ?thesis
      by (subst trace_infomap_msort_by_ts.simps) (auto simp: length_Suc_conv)
  next
    case False
    let ?e = "length (P @ xs) - 1"
    define mid where "mid = (length P + ?e) div 2"
    define A B where "A = take (mid + 1 - length P) xs" and "B = drop (mid + 1 - length P) xs"
    have "2 \<le> length xs"
      using False less.prems(1) by (cases xs) (auto simp: Suc_le_eq)
    then have mid: "length P \<le> mid" "mid < ?e" "length P < ?e"
      by (auto simp: mid_def)
    have len: "length (P @ A) = mid + 1" "length A < length xs" "length B < length xs" "A \<noteq> []" "B \<noteq> []"
      using mid by (auto simp: A_def B_def)
    have xs: "xs = A @ B"
      by (simp add: A_def B_def)
    note A = less.hyps [OF len(2,4), of P "B @ Q"] and B = less.hyps [OF len(3,5), of "P @ sort_key (tkey infos) A" Q]
    have "merge_array_by_ts infos (P @ sort_key (tkey infos) A @ sort_key (tkey infos) B @ Q)
        (length P) mid ?e tlen = Inr (P @ sort_key (tkey infos) xs @ Q)"
      using merge_array_ok [OF refl, of "sort_key (tkey infos) A" "sort_key (tkey infos) B" infos tlen P Q]
        len less.prems(2,3) xs by (simp add: merge_by_sort_key)
    moreover have "length P + ?e < 2 ^ 64"
      using less.prems(4) by simp
    then have "trace_infomap_msort_by_ts infos (P @ xs @ Q) (length P) ?e tlen =
        bindR (trace_infomap_msort_by_ts infos (P @ xs @ Q) (length P) mid tlen) (\<lambda>im1.
        bindR (trace_infomap_msort_by_ts infos im1 (mid + 1) ?e tlen) (\<lambda>im2.
        merge_array_by_ts infos im2 (length P) mid ?e tlen))"
      using mid(3) by (subst trace_infomap_msort_by_ts.simps)
        (simp only: if_True guardR_True bindR.simps Let_def mid_def)
    ultimately show ?thesis
      using A B len less.prems xs by simp
  qed
qed


subsection \<open>The quicksort\<close>

lemma partition_loop_ok:
  assumes "cells_ok infos rest" and "\<forall>c\<in>set L. tkey infos c < t" and "\<forall>c\<in>set G. t \<le> tkey infos c"
    and "low = length P"
  shows "\<exists>L' G'. partition_loop infos t [low + 1 + length L + length G..<low + 1 + length L + length G + length rest]
      (P @ pv # L @ G @ rest @ Q, low + length L) = Inr (P @ pv # L' @ G' @ Q, low + length L') \<and>
    mset (L' @ G') = mset (L @ G @ rest) \<and> (\<forall>c\<in>set L'. tkey infos c < t) \<and> (\<forall>c\<in>set G'. t \<le> tkey infos c)"
  using assms
proof (induction rest arbitrary: L G)
  case Nil
  then show ?case by auto
next
  case (Cons x rest)
  let ?i = "low + 1 + length L + length G"
  have upt: "[?i..<?i + length (x # rest)] = ?i # [?i + 1..<?i + 1 + length rest]"
    using upt_conv_Cons [of ?i "?i + length (x # rest)"] by (simp del: upt_Suc)
  obtain p where x: "x = Some p" "p < length infos" "cells_ok infos rest"
    using Cons.prems(1) by auto
  let ?im = "P @ pv # L @ G @ (x # rest) @ Q"
  have at: "ts_at infos ?im ?i = Inr (tkey infos x)"
    using x Cons.prems(4) by (simp add: ts_at_def tkey_def nth_append)
  show ?case
  proof (cases "tkey infos x < t")
    case small: True
    show ?thesis
    proof (cases G)
      case Nil
      then show ?thesis
        using Cons.IH [of "L @ [x]" "[]"] Cons.prems x small at unfolding upt by (simp add: Let_def)
    next
      case G: (Cons g G2)
      have swap: "array_get ?im ?i = Inr x" "array_get ?im (low + length L + 1) = Inr g"
          "array_set ?im ?i g = Inr (P @ pv # L @ G @ (g # rest) @ Q)"
          "array_set (P @ pv # L @ G @ (g # rest) @ Q) (low + length L + 1) x =
             Inr (P @ pv # (L @ [x]) @ (G2 @ [g]) @ rest @ Q)"
        using G Cons.prems(4) by (simp_all add: array_get_def array_set_def nth_append list_update_append)
      have step: "partition_loop infos t (?i # [?i + 1..<?i + 1 + length rest]) (?im, low + length L) =
          partition_loop infos t [?i + 1..<?i + 1 + length rest]
            (P @ pv # (L @ [x]) @ (G2 @ [g]) @ rest @ Q, low + length (L @ [x]))"
        using at small G swap by (simp add: Let_def del: upt_Suc append.simps append_assoc)
      have sets: "\<forall>c\<in>set (L @ [x]). tkey infos c < t" "\<forall>c\<in>set (G2 @ [g]). t \<le> tkey infos c"
        using Cons.prems G small by auto
      have idx: "low + 1 + length (L @ [x]) + length (G2 @ [g]) = ?i + 1"
        using G by simp
      obtain L' G' where r: "partition_loop infos t [?i + 1..<?i + 1 + length rest]
            (P @ pv # (L @ [x]) @ (G2 @ [g]) @ rest @ Q, low + length (L @ [x])) =
          Inr (P @ pv # L' @ G' @ Q, low + length L')" "mset (L' @ G') = mset ((L @ [x]) @ (G2 @ [g]) @ rest)"
          "\<forall>c\<in>set L'. tkey infos c < t" "\<forall>c\<in>set G'. t \<le> tkey infos c"
        using Cons.IH [OF x(3) sets Cons.prems(4)] unfolding idx by blast
      have "mset (L' @ G') = mset (L @ G @ x # rest)"
        using r(2) G by simp
      then show ?thesis
        unfolding upt step r(1) using r(3,4) by blast
    qed
  next
    case False
    then show ?thesis
      using Cons.IH [of L "G @ [x]"] Cons.prems x at unfolding upt by auto
  qed
qed


lemma partition_ok:
  assumes "cells_ok infos (pv # xs)" and "low = length P" and "high = length P + length xs"
  shows "\<exists>A B. partition_by_ts infos (P @ pv # xs @ Q) low high = Inr (P @ A @ pv # B @ Q, low + length A) \<and>
    mset (A @ B) = mset xs \<and> (\<forall>c\<in>set A. tkey infos c < tkey infos pv) \<and> (\<forall>c\<in>set B. tkey infos pv \<le> tkey infos c)"
proof -
  let ?im = "P @ pv # xs @ Q"
  have at: "array_get ?im low = Inr pv" "ts_at infos ?im low = Inr (tkey infos pv)"
    using assms by (auto simp: array_get_def ts_at_def tkey_def nth_append)
  obtain L G where loop: "partition_loop infos (tkey infos pv) [low + 1..<high + 1] (?im, low) =
      Inr (P @ pv # L @ G @ Q, low + length L)" "mset (L @ G) = mset xs"
      "\<forall>c\<in>set L. tkey infos c < tkey infos pv" "\<forall>c\<in>set G. tkey infos pv \<le> tkey infos c"
    using partition_loop_ok [of infos xs "[]" "tkey infos pv" "[]" low P pv Q] assms by (auto simp del: upt_Suc)
  show ?thesis
  proof (cases L rule: rev_cases)
    case Nil
    then have "partition_by_ts infos ?im low high = Inr (P @ pv # G @ Q, low)"
      using at loop(1) assms(2) by (simp add: partition_by_ts_def array_get_def array_set_def nth_append list_update_append del: upt_Suc)
    then show ?thesis
      using Nil loop(2-) by (intro exI [of _ "[]"] exI [of _ G]) simp
  next
    case (snoc L' l)
    then have "partition_by_ts infos ?im low high = Inr (P @ l # L' @ pv # G @ Q, low + length L)"
      using at loop(1) assms(2) by (simp add: partition_by_ts_def array_get_def array_set_def nth_append list_update_append del: upt_Suc)
    then show ?thesis
      using snoc loop(2-) by (intro exI [of _ "l # L'"] exI [of _ G]) (auto simp: ac_simps)
  qed
qed

lemma qsort_ok:
  "cells_ok infos xs \<Longrightarrow> length xs \<le> fuel + 1 \<Longrightarrow> high + 1 = length P + length xs \<Longrightarrow>
     \<exists>ys. trace_infomap_qsort_by_ts fuel infos (P @ xs @ Q) (length P) high = Inr (P @ ys @ Q) \<and>
       mset ys = mset xs \<and> sorted (map (tkey infos) ys)"
proof (induction fuel arbitrary: xs P Q high)
  case 0
  then show ?case by (cases xs) auto
next
  case (Suc fuel)
  show ?case
  proof (cases "length P < high")
    case False
    then have "length xs \<le> 1"
      using Suc.prems(3) by linarith
    then show ?thesis
      using False by (cases xs) auto
  next
    case True
    then obtain pv xs' where xs: "xs = pv # xs'"
      using Suc.prems(3) by (cases xs) auto
    obtain A B where part: "partition_by_ts infos (P @ pv # xs' @ Q) (length P) high =
        Inr (P @ A @ pv # B @ Q, length P + length A)" "mset (A @ B) = mset xs'"
        "\<forall>c\<in>set A. tkey infos c < tkey infos pv" "\<forall>c\<in>set B. tkey infos pv \<le> tkey infos c"
      using partition_ok [of infos pv xs' "length P" P high Q] Suc.prems xs by auto
    have cells: "cells_ok infos A" "cells_ok infos B"
      using mset_eq_setD [OF part(2)] Suc.prems(1) xs by (auto simp: cells_ok_def)
    have len: "length A + length B = length xs'"
      using part(2) by (metis mset_eq_length length_append)
    obtain A' where A': "mset A' = mset A" "sorted (map (tkey infos) A')"
      "(if length P + length A > 0
        then trace_infomap_qsort_by_ts fuel infos (P @ A @ pv # B @ Q) (length P) (length P + length A - 1)
        else Inr (P @ A @ pv # B @ Q)) = Inr (P @ A' @ pv # B @ Q)"
    proof (cases "length P + length A > 0")
      case True
      then show ?thesis
        using that Suc.IH [OF cells(1), of "length P + length A - 1" P "pv # B @ Q"] len xs Suc.prems(2) by auto
    qed (use that in auto)
    have lenB: "length B \<le> fuel + 1" and high: "high + 1 = length (P @ A' @ [pv]) + length B"
      using len xs Suc.prems(2,3) mset_eq_length [OF A'(1)] by auto
    obtain B' where B': "mset B' = mset B" "sorted (map (tkey infos) B')"
      "trace_infomap_qsort_by_ts fuel infos ((P @ A' @ [pv]) @ B @ Q) (length (P @ A' @ [pv])) high =
        Inr ((P @ A' @ [pv]) @ B' @ Q)"
      using Suc.IH [OF cells(2) lenB high, of Q] by blast
    have "sorted (map (tkey infos) (A' @ pv # B'))"
      using A'(2) B'(2) part(3,4) mset_eq_setD [OF A'(1)] mset_eq_setD [OF B'(1)]
      by (auto simp: sorted_append) (meson less_imp_le order.trans)
    moreover have "mset (A' @ pv # B') = mset xs"
      using A'(1) B'(1) part(2) xs by (simp add: ac_simps)
    moreover have "trace_infomap_qsort_by_ts (Suc fuel) infos (P @ xs @ Q) (length P) high =
        Inr (P @ (A' @ pv # B') @ Q)"
      using True part(1) A'(3) B'(3) xs mset_eq_length [OF A'(1)] by (simp split del: if_split)
    ultimately show ?thesis by blast
  qed
qed

subsection \<open>Containers\<close>

definition tc_ok :: "trace_container \<Rightarrow> bool" where
  "tc_ok tc \<longleftrightarrow> length (infos_map tc) = tcapacity tc \<and> 0 < tcapacity tc \<and> tsize tc \<le> tcapacity tc \<and>
     None \<notin> set (take (tsize tc) (infos_map tc))"

text \<open>The records of a container, in order.\<close>

definition tc_list :: "trace_container \<Rightarrow> nat list" where
  "tc_list tc = map the (take (tsize tc) (infos_map tc))"

lemma tc_cells: "tc_ok tc \<Longrightarrow> take (tsize tc) (infos_map tc) = map Some (tc_list tc)"
  by (auto simp: tc_ok_def tc_list_def intro!: map_idI [symmetric])
    (metis option.exhaust_sel)

lemma length_tc_list: "tc_ok tc \<Longrightarrow> length (tc_list tc) = tsize tc"
  by (simp add: tc_ok_def tc_list_def)

lemma create_ok: "0 < cap \<Longrightarrow> tc_ok (trace_container_create cap mt)" "tc_list (trace_container_create cap mt) = []"
  by (simp_all add: tc_ok_def tc_list_def trace_container_create_def)

lemma add_ok:
  assumes "tc_ok tc" and "tsize tc < 2 ^ 30"
  shows "ok (trace_container_add tc (Some x)) (\<lambda>tc'. tc_ok tc' \<and> tc_list tc' = tc_list tc @ [x] \<and>
    meta tc' = meta tc)"
proof -
  define tc1 where "tc1 = (if tsize tc = tcapacity tc
    then tc\<lparr>tcapacity := tcapacity tc * 2, infos_map := infos_map tc @ replicate (tcapacity tc) None\<rparr> else tc)"
  have tc1: "tc_ok tc1" "tsize tc1 = tsize tc" "tsize tc1 < tcapacity tc1" "tc_list tc1 = tc_list tc" "meta tc1 = meta tc"
    using assms(1) by (auto simp: tc1_def tc_ok_def tc_list_def)
  have "trace_container_add tc (Some x) =
      Inr (tc1\<lparr>infos_map := (infos_map tc1)[tsize tc := Some x], tsize := tsize tc + 1\<rparr>)"
    using tc1 assms by (auto simp: trace_container_add_def tc1_def tc_ok_def)
  then show ?thesis
    using tc1 by (auto simp: tc_ok_def tc_list_def take_Suc_conv_app_nth)
qed


text \<open>A sequence that grows by one element at a time, up to a limit.\<close>

locale growable =
  fixes inv :: "'c \<Rightarrow> bool"
    and contents :: "'c \<Rightarrow> 'x list"
    and limit :: nat
    and add :: "'c \<Rightarrow> 'x \<Rightarrow> 'c res"
  assumes add_law: "inv c \<Longrightarrow> length (contents c) < limit \<Longrightarrow>
    ok (add c x) (\<lambda>c'. inv c' \<and> contents c' = contents c @ [x])"
begin

lemma add_many:
  assumes "inv c" and "length (contents c) + length xs \<le> limit"
  shows "ok (foldR (\<lambda>x c. add c x) xs c) (\<lambda>c'. inv c' \<and> contents c' = contents c @ xs)"
  using assms
proof (induction xs arbitrary: c)
  case (Cons x xs)
  have "ok (add c x) (\<lambda>c'. inv c' \<and> contents c' = contents c @ [x])"
    using Cons.prems by (intro add_law) auto
  moreover have "ok (foldR (\<lambda>x c. add c x) xs c') (\<lambda>c''. inv c'' \<and> contents c'' = contents c @ x # xs)"
    if "inv c' \<and> contents c' = contents c @ [x]" for c'
    using Cons.IH [of c'] Cons.prems that by simp
  ultimately show ?case
    by (auto intro: ok_bindR)
qed simp

end

interpretation tc: growable tc_ok tc_list "2 ^ 30" "\<lambda>tc x. trace_container_add tc (Some x)"
  by unfold_locales (rule ok_mono [OF add_ok]; simp add: length_tc_list)

text \<open>\<^verbatim>\<open>trace_container_add_collection\<close> adds the records of the other container one by one.\<close>

lemma add_collection_fold:
  assumes "tc_ok tc2"
  shows "trace_container_add_collection tc tc2 =
    foldR (\<lambda>x tc. trace_container_add tc (Some x)) (tc_list tc2) tc"
proof -
  have "infos_map tc2 ! i = Some (tc_list tc2 ! i)" if "i < tsize tc2" for i
    using arg_cong [OF tc_cells [OF assms], of "\<lambda>xs. xs ! i"] that length_tc_list [OF assms] by simp
  then have "trace_container_add_collection tc tc2 =
      foldR (\<lambda>i tc. trace_container_add tc (Some (tc_list tc2 ! i))) [0..<tsize tc2] tc"
    unfolding trace_container_add_collection_def
    using assms by (intro foldR_cong) (auto simp: tc_ok_def)
  also have "\<dots> = foldR (\<lambda>x tc. trace_container_add tc (Some x)) (map ((!) (tc_list tc2)) [0..<length (tc_list tc2)]) tc"
    by (simp add: foldR_map length_tc_list [OF assms])
  finally show ?thesis
    by (simp add: map_nth)
qed


lemma insort_key_map: "insort_key g (f x) (map f xs) = map f (insort_key (\<lambda>x. g (f x)) x xs)"
  by (induction xs) auto

lemma sort_key_map: "sort_key g (map f xs) = map f (sort_key (\<lambda>x. g (f x)) xs)"
  by (induction xs) (simp_all add: insort_key_map)

lemma sort_ok:
  assumes "tc_ok tc" and "tc_list tc \<noteq> []" and "\<forall>p\<in>set (tc_list tc). p < length infos" and "tsize tc < 2 ^ 31"
  shows "ok (trace_container_sort_infomap_by_ts infos tc) (\<lambda>tc'. tc_ok tc' \<and> tsize tc' = tsize tc \<and>
    tc_list tc' = sort_key (\<lambda>p. ts (infos ! p)) (tc_list tc))"
proof -
  let ?xs = "map Some (tc_list tc)" and ?Q = "drop (tsize tc) (infos_map tc)"
  have im: "infos_map tc = ?xs @ ?Q"
    using tc_cells [OF assms(1)] by (metis append_take_drop_id)
  have len: "length ?xs = tsize tc"
    using length_tc_list [OF assms(1)] by simp
  have cells: "cells_ok infos ?xs"
    using assms(3) by (auto simp: cells_ok_def)
  have pos: "0 < tsize tc"
    using assms(2) len by (metis length_greater_0_conv length_map)
  have "nat ((int (tsize tc) - 1) mod 2 ^ 64) = tsize tc - 1"
    using pos assms(4) by (simp add: nat_eq_iff mod_pos_pos_trivial of_nat_diff)
  then have "trace_container_sort_infomap_by_ts infos tc =
      Inr (tc\<lparr>infos_map := sort_key (tkey infos) ?xs @ ?Q\<rparr>)"
    using msort_ok [of ?xs infos "tsize tc" "[]" ?Q] cells pos assms(2,4) im len
    by (simp add: trace_container_sort_infomap_by_ts_def)
  moreover have "sort_key (tkey infos) ?xs = map Some (sort_key (\<lambda>p. ts (infos ! p)) (tc_list tc))"
    by (simp add: sort_key_map tkey_def)
  ultimately show ?thesis
    using assms(1) len by (auto simp: tc_ok_def tc_list_def)
qed

lemma msort_uninitialised:
  "1 \<le> e \<Longrightarrow> e < 2 ^ 64 \<Longrightarrow> 2 \<le> length im \<Longrightarrow> im ! 0 = None \<Longrightarrow>
     trace_infomap_msort_by_ts infos im 0 e tlen = Inl Uninitialised"
proof (induction e rule: less_induct)
  case (less e)
  show ?case
  proof (cases "e = 1")
    case True
    have stop: "trace_infomap_msort_by_ts infos im b b tlen = Inr im" for b
      by (subst trace_infomap_msort_by_ts.simps) simp
    have "0 < length im"
      using less.prems(3) by linarith
    then have "merge_array_by_ts infos im 0 0 1 tlen = Inl Uninitialised"
      using less.prems(4) by (simp add: merge_array_by_ts_def merge_ts_loop.simps ts_at_def array_get_def)
    then show ?thesis
      using True stop [of 0] stop [of 1] by (subst trace_infomap_msort_by_ts.simps) (simp add: Let_def)
  next
    case False
    then have "trace_infomap_msort_by_ts infos im 0 (e div 2) tlen = Inl Uninitialised"
      using less by simp
    then show ?thesis
      using False less.prems by (subst trace_infomap_msort_by_ts.simps) (simp add: Let_def)
  qed
qed

subsection \<open>Properties\<close>

text \<open>
  Filling a container. Adding up to \<open>2 ^ 30\<close> records one after the other to a fresh container
  succeeds through all the reallocations and keeps them all, in order, whatever (positive)
  capacity it starts with.
\<close>

theorem trace_container_fill:
  assumes "0 < cap" and "length xs \<le> 2 ^ 30"
  shows "ok (foldR (\<lambda>x tc. trace_container_add tc (Some x)) xs (trace_container_create cap mt))
    (\<lambda>tc. tc_ok tc \<and> tc_list tc = xs \<and> tsize tc = length xs)"
  using tc.add_many [of "trace_container_create cap mt" xs] assms create_ok
  by (auto simp: length_tc_list [symmetric] elim!: ok_mono)

theorem trace_container_fill_witness:
  "ok (foldR (\<lambda>x tc. trace_container_add tc (Some x)) [5, 6, 7, 8, 9] (trace_container_create 1 0))
    (\<lambda>tc. tc_list tc = [5, 6, 7, 8, 9])"
  using trace_container_fill [of 1 "[5, 6, 7, 8, 9]" 0] by (auto elim!: ok_mono simp del: foldR.simps)

text \<open>
  \<open>trace_container_add_collection\<close> appends the records of the second container, in order.
\<close>

theorem trace_container_add_collection_appends:
  assumes "tc_ok tc" and "tc_ok tc2" and "tsize tc + tsize tc2 \<le> 2 ^ 30"
  shows "ok (trace_container_add_collection tc tc2) (\<lambda>tc'. tc_ok tc' \<and> tc_list tc' = tc_list tc @ tc_list tc2)"
  unfolding add_collection_fold [OF assms(2)]
  using tc.add_many [OF assms(1), of "tc_list tc2"] assms by (simp add: length_tc_list)

theorem trace_container_add_collection_appends_witness:
  "ok (trace_container_add_collection (trace_container_create 2 0)
        \<lparr>infos_map = [Some 4, Some 2, Some 9, None], meta = 0, tsize = 3, tcapacity = 4\<rparr>)
     (\<lambda>tc'. tc_list tc' = [4, 2, 9])"
  using trace_container_add_collection_appends [OF create_ok(1) [of 2 0],
      of "\<lparr>infos_map = [Some 4, Some 2, Some 9, None], meta = 0, tsize = 3, tcapacity = 4\<rparr>"]
  by (auto simp: tc_ok_def tc_list_def trace_container_create_def elim!: ok_mono)

text \<open>
  C15: \<open>trace_container_sort_infomap_by_ts\<close> on a non-empty container returns, and the records are
  those of before, ordered by timestamp, with records of equal timestamp in their old order
  (\<open>sort_key\<close> is the stable sort).
\<close>

theorem trace_container_sort_stable:
  assumes "tc_ok tc" and "tc_list tc \<noteq> []" and "\<forall>p\<in>set (tc_list tc). p < length infos" and "tsize tc < 2 ^ 31"
  shows "ok (trace_container_sort_infomap_by_ts infos tc) (\<lambda>tc'. tc_ok tc' \<and> tsize tc' = tsize tc \<and>
    tc_list tc' = sort_key (\<lambda>p. ts (infos ! p)) (tc_list tc))"
  using assms by (rule sort_ok)

definition sample_info :: "u64 \<Rightarrow> trace_info" where
  "sample_info t = \<lparr>ts = t, pid = 0, lba = 0, ofs = 0, blks = 8, rw = CHR ''W'', major = 0, minor = 0, md5 = []\<rparr>"

theorem trace_container_sort_stable_witness:
  "ok (trace_container_sort_infomap_by_ts (map sample_info [7, 3, 7, 2])
        \<lparr>infos_map = [Some 0, Some 1, Some 2, Some 3], meta = 0, tsize = 4, tcapacity = 4\<rparr>)
     (\<lambda>tc'. tc_list tc' = [3, 1, 0, 2])"
  using trace_container_sort_stable [of
      "\<lparr>infos_map = [Some 0, Some 1, Some 2, Some 3], meta = 0, tsize = 4, tcapacity = 4\<rparr>"
      "map sample_info [7, 3, 7, 2]"]
  by (simp add: tc_ok_def tc_list_def sample_info_def) (auto elim!: ok_mono)

text \<open>
  Sorting an empty container is undefined behaviour: \<^verbatim>\<open>tc->size - 1\<close> becomes the largest
  \<^verbatim>\<open>unsigned long\<close>, and the sort reads and dereferences a cell that was never written.
\<close>

theorem trace_container_sort_empty:
  assumes "2 \<le> cap"
  shows "trace_container_sort_infomap_by_ts infos (trace_container_create cap mt) = Inl Uninitialised"
  using assms msort_uninitialised [of "2 ^ 64 - 1" "replicate cap None" infos 0]
  by (simp add: trace_container_sort_infomap_by_ts_def trace_container_create_def)

theorem trace_container_sort_empty_witness:
  "trace_container_sort_infomap_by_ts [] (trace_container_create DEFAULT_COLLECTIONS_CAPACITY 0) = Inl Uninitialised"
  by (rule trace_container_sort_empty) simp


text \<open>
  The quicksort \<open>trace_infomap_qsort_by_ts\<close> sorts the range it is given by timestamp, keeps the
  records and leaves the rest of the array alone (it is not stable).
\<close>

theorem trace_infomap_qsort_sorts:
  assumes "cells_ok infos xs" and "xs \<noteq> []"
  shows "\<exists>ys. trace_infomap_qsort_by_ts (length xs) infos (P @ xs @ Q) (length P) (length P + length xs - 1) =
      Inr (P @ ys @ Q) \<and> mset ys = mset xs \<and> sorted (map (tkey infos) ys)"
  using assms by (intro qsort_ok) auto

theorem trace_infomap_qsort_sorts_witness:
  "\<exists>ys. trace_infomap_qsort_by_ts 3 (map sample_info [7, 3, 5]) ([] @ [Some 0, Some 1, Some 2] @ [None]) 0 2 =
      Inr (ys @ [None]) \<and> mset ys = {#Some 0, Some 1, Some 2#} \<and> sorted (map (tkey (map sample_info [7, 3, 5])) ys)"
  using trace_infomap_qsort_sorts [of "map sample_info [7, 3, 5]" "[Some 0, Some 1, Some 2]" "[]" "[None]"]
  by (simp add: numeral_3_eq_3 numeral_2_eq_2 del: trace_infomap_qsort_by_ts.simps)

end
