(* ===== verification/Trace_Build.thy ===== *)
theory Trace_Build
  imports Hashmap_Sort Trace_Container
begin

text \<open>
  \<^verbatim>\<open>build_trace_containers\<close> of \<^verbatim>\<open>replay.c\<close>: the records are grouped by their logical block
  address with the hash map, one container per address. The keys of the map are the
  addresses of the \<^verbatim>\<open>lba\<close> fields inside the array of records, so the memory the map reads
  is given by that array. The proofs use the map through its ordered-map contract.
\<close>

subsection \<open>The array of records in memory\<close>

text \<open>
  In the LP64 data model \<^verbatim>\<open>struct trace_info\<close> has 312 bytes and \<^verbatim>\<open>lba\<close> is at offset 16.
\<close>

abbreviation (input) sizeof_trace_info :: nat where "sizeof_trace_info \<equiv> 312"
abbreviation (input) offsetof_lba :: nat where "offsetof_lba \<equiv> 16"

definition lba_addr :: "ptr \<Rightarrow> nat \<Rightarrow> ptr" where
  "lba_addr base i = base + of_nat (sizeof_trace_info * i + offsetof_lba)"

text \<open>
  The bytes of the array at \<open>base\<close> as far as the map looks at them: the \<^verbatim>\<open>lba\<close> fields. All other
  bytes are irrelevant and set to 0.
\<close>

definition infos_mem :: "ptr \<Rightarrow> trace_info list \<Rightarrow> memory" where
  "infos_mem base infos a =
     (let d = unat (a - base); i = d div sizeof_trace_info; o' = d mod sizeof_trace_info in
      if i < length infos \<and> offsetof_lba \<le> o' \<and> o' < offsetof_lba + 8
      then le_bytes64 (lba (infos ! i)) ! (o' - offsetof_lba) else 0)"

subsection \<open>Grouping\<close>

text \<open>
  The state: bucket heap, map, containers. A container pointer stored in the map is the number of
  the container in the container heap.
\<close>

type_synonym build_state = "bheap \<times> hashmap \<times> tc_heap"

definition build_step :: "ptr \<Rightarrow> trace_info list \<Rightarrow> nat \<Rightarrow> build_state \<Rightarrow> build_state res" where
  "build_step base infos i = (\<lambda>(h, m, tcs).
     bindR (hashmap_get (infos_mem base infos) h m (lba_addr base i) 8) (\<lambda>(not_null, v).
     bindR (if not_null then Inr (h, m, tcs, unat v)
            else
              bindR (hashmap_set (infos_mem base infos) h m (lba_addr base i) 8 (of_nat (length tcs))) (\<lambda>(h1, m1).
              Inr (h1, m1, tcs @ [Some (trace_container_create DEFAULT_COLLECTIONS_CAPACITY (lba_addr base i))],
                   length tcs))) (\<lambda>(h1, m1, tcs1, ptc).
     bindR (tc_get tcs1 ptc) (\<lambda>tc.
     bindR (trace_container_add tc (Some i)) (\<lambda>tc'.
     Inr (h1, m1, tcs1[ptc := Some tc']))))))"

definition build_trace_containers :: "ptr \<Rightarrow> trace_info list \<Rightarrow> nat \<Rightarrow> build_state \<Rightarrow> build_state res" where
  "build_trace_containers base infos valid_lines st = foldR (build_step base infos) [0..<valid_lines] st"

subsection \<open>Keys\<close>

lemma bit_le_bytes64: "n < 64 \<Longrightarrow> bit (le_bytes64 w ! (n div 8)) (n mod 8) \<longleftrightarrow> bit w n"
  using less_mult_imp_div_less [of n 8 8] by (simp add: le_bytes64_def bit_ucast_iff bit_drop_bit_eq)

lemma le_bytes64_inj [simp]: "le_bytes64 v = le_bytes64 w \<longleftrightarrow> v = w"
  by (auto intro!: bit_word_eqI) (metis bit_le_bytes64)+

text \<open>The array does not wrap around the address space.\<close>

definition infos_fit :: "ptr \<Rightarrow> trace_info list \<Rightarrow> bool" where
  "infos_fit base infos \<longleftrightarrow> unat base + sizeof_trace_info * length infos \<le> 2 ^ 64"

lemma lba_addr_nonzero:
  assumes "infos_fit base infos" and "i < length infos"
  shows "lba_addr base i \<noteq> 0"
proof -
  have "unat base + (312 * i + 16) < 2 ^ 64"
    using assms by (simp add: infos_fit_def)
  then have "unat (lba_addr base i) = unat base + (312 * i + 16)"
    by (simp add: lba_addr_def unat_word_ariths unat_of_nat)
  then show ?thesis
    by (metis add_is_0 unat_0 zero_neq_numeral)
qed

lemma load_lba:
  assumes "infos_fit base infos" and "i < length infos"
  shows "load_bytes (infos_mem base infos) (lba_addr base i) 8 = le_bytes64 (lba (infos ! i))"
proof (rule nth_equalityI)
  fix k assume "k < length (load_bytes (infos_mem base infos) (lba_addr base i) 8)"
  then have k: "k < 8" by simp
  have "312 * i + 16 + k < 2 ^ 64"
    using assms k by (simp add: infos_fit_def)
  moreover have "lba_addr base i + of_nat k - base = of_nat (312 * i + 16 + k)"
    by (simp add: lba_addr_def)
  ultimately have d: "unat (lba_addr base i + of_nat k - base) = 312 * i + 16 + k"
    by (simp only: unat_of_nat) simp
  have "(312 * i + 16 + k) div 312 = i" "(312 * i + 16 + k) mod 312 = 16 + k"
    using k by (simp_all add: add.assoc)
  then show "load_bytes (infos_mem base infos) (lba_addr base i) 8 ! k = le_bytes64 (lba (infos ! i)) ! k"
    using k assms(2) by (simp add: load_bytes_def infos_mem_def Let_def d)
qed simp


subsection \<open>The grouping invariant\<close>

text \<open>
  After \<open>n\<close> records: \<open>ls\<close> are the addresses met so far in order of first occurrence; entry \<open>k\<close> of
  the map leads from address \<open>ls ! k\<close> to container \<open>k\<close>, which holds the records with that address
  in trace order.
\<close>

definition holds_group :: "trace_info list \<Rightarrow> nat \<Rightarrow> u64 \<Rightarrow> trace_container option \<Rightarrow> bool" where
  "holds_group infos n l c \<longleftrightarrow>
     (\<exists>tc. c = Some tc \<and> tc_ok tc \<and> tc_list tc = filter (\<lambda>i. lba (infos ! i) = l) [0..<n])"

definition grouped :: "ptr \<Rightarrow> trace_info list \<Rightarrow> nat \<Rightarrow> u64 list \<Rightarrow> build_state \<Rightarrow> bool" where
  "grouped base infos n ls = (\<lambda>(h, m, tcs).
     hm_inv (infos_mem base infos) h m \<and>
     hm_entries (infos_mem base infos) h m = map (\<lambda>(k, l). (le_bytes64 l, of_nat k)) (enumerate 0 ls) \<and>
     distinct ls \<and> set ls = (\<lambda>i. lba (infos ! i)) ` {..<n} \<and>
     list_all2 (holds_group infos n) ls tcs)"

abbreviation (input) group_entries :: "u64 list \<Rightarrow> (u8 list \<times> u64) list" where
  "group_entries ls \<equiv> map (\<lambda>(k, l). (le_bytes64 l, of_nat k)) (enumerate 0 ls)"

lemma group_entries_keys: "map fst (group_entries ls) = map le_bytes64 ls"
  by (simp add: comp_def split_beta flip: map_map [of le_bytes64 snd, unfolded comp_def])

lemma group_entries_absent: "l \<notin> set ls \<Longrightarrow> map_of (group_entries ls) (le_bytes64 l) = None"
  unfolding map_of_eq_None_iff set_map [symmetric] group_entries_keys by auto

lemma group_entries_present:
  assumes "distinct ls" and "k < length ls"
  shows "map_of (group_entries ls) (le_bytes64 (ls ! k)) = Some (of_nat k)"
proof (rule map_of_is_SomeI)
  show "distinct (map fst (group_entries ls))"
    unfolding group_entries_keys using assms(1) by (simp add: distinct_map inj_on_def)
  have "(k, ls ! k) \<in> set (enumerate 0 ls)"
    using assms(2) by (simp add: in_set_enumerate_eq)
  then show "(le_bytes64 (ls ! k), of_nat k) \<in> set (group_entries ls)"
    by force
qed

lemma holds_group_skip: "holds_group infos n l c \<Longrightarrow> lba (infos ! n) \<noteq> l \<Longrightarrow> holds_group infos (Suc n) l c"
  by (auto simp: holds_group_def)

lemma holds_group_add:
  assumes "holds_group infos n l (Some tc)" and "lba (infos ! n) = l" and "n < 2 ^ 30"
  shows "ok (trace_container_add tc (Some n)) (\<lambda>tc'. holds_group infos (Suc n) l (Some tc'))"
proof -
  have tc: "tc_ok tc" "tc_list tc = filter (\<lambda>i. lba (infos ! i) = l) [0..<n]"
    using assms(1) by (auto simp: holds_group_def)
  then have "length (tc_list tc) \<le> n"
    by (metis length_filter_le length_upt diff_zero)
  then show ?thesis
    using tc.add_law [OF tc(1), of n] tc(2) assms(2,3) by (auto simp: holds_group_def elim!: ok_mono)
qed

lemma holds_group_new: "l \<notin> (\<lambda>i. lba (infos ! i)) ` {..<n} \<Longrightarrow> holds_group infos n l (Some (trace_container_create 64 a))"
proof -
  assume "l \<notin> (\<lambda>i. lba (infos ! i)) ` {..<n}"
  then have "filter (\<lambda>i. lba (infos ! i) = l) [0..<n] = []"
    by (auto simp: filter_empty_conv)
  then show ?thesis
    by (simp add: holds_group_def create_ok)
qed

lemma groups_step:
  assumes "list_all2 (holds_group infos n) ls tcs" and "distinct ls" and "k < length ls"
    and "ls ! k = lba (infos ! n)" and "holds_group infos (Suc n) (ls ! k) (Some tc')"
  shows "list_all2 (holds_group infos (Suc n)) ls (tcs[k := Some tc'])"
proof (rule list_all2_all_nthI)
  show "length ls = length (tcs[k := Some tc'])"
    using list_all2_lengthD [OF assms(1)] by simp
  fix j assume j: "j < length ls"
  show "holds_group infos (Suc n) (ls ! j) (tcs[k := Some tc'] ! j)"
  proof (cases "j = k")
    case True
    then show ?thesis
      using assms(5) j list_all2_lengthD [OF assms(1)] by simp
  next
    case False
    then have "ls ! j \<noteq> lba (infos ! n)"
      using assms(2-4) j by (metis nth_eq_iff_index_eq)
    then show ?thesis
      using False holds_group_skip list_all2_nthD [OF assms(1) j] by auto
  qed
qed

text \<open>The second half of the loop body: add the record to the container that was found or made.\<close>

lemma add_to_group:
  assumes "list_all2 (holds_group infos n) ls tcs" and "distinct ls" and "k < length ls"
    and "ls ! k = lba (infos ! n)" and "n < 2 ^ 30"
  shows "ok (bindR (tc_get tcs k) (\<lambda>tc. bindR (trace_container_add tc (Some n)) (\<lambda>tc'. Inr (h, m, tcs[k := Some tc']))))
    (\<lambda>(h', m', tcs'). h' = h \<and> m' = m \<and> list_all2 (holds_group infos (Suc n)) ls tcs')"
proof -
  have "holds_group infos n (ls ! k) (tcs ! k)" and k: "k < length tcs"
    using list_all2_nthD [OF assms(1,3)] list_all2_lengthD [OF assms(1)] assms(3) by auto
  then obtain tc where tc: "tcs ! k = Some tc" "holds_group infos n (ls ! k) (Some tc)"
    by (auto simp: holds_group_def)
  have "ok (trace_container_add tc (Some n)) (\<lambda>tc'. list_all2 (holds_group infos (Suc n)) ls (tcs[k := Some tc']))"
    using holds_group_add [OF tc(2) assms(4) [symmetric] assms(5)]
    by (rule ok_mono) (rule groups_step [OF assms(1-4)])
  then show ?thesis
    using tc(1) k by (auto simp: tc_get_def ok_bindR_eq)
qed

lemma set_ls_Suc: "set ls = (\<lambda>i. lba (infos ! i)) ` {..<n} \<Longrightarrow>
    insert (lba (infos ! n)) (set ls) = (\<lambda>i. lba (infos ! i)) ` {..<Suc n}"
  by (auto simp: lessThan_Suc)

lemma build_step_ok:
  assumes g: "grouped base infos n ls st" and fit: "infos_fit base infos" and n: "n < length infos" "n < 15 * 2 ^ 25"
  shows "ok (build_step base infos n st) (\<lambda>st'. \<exists>ls'. grouped base infos (Suc n) ls' st')"
proof -
  obtain h m tcs where st: "st = (h, m, tcs)"
    by (cases st)
  let ?mem = "infos_mem base infos" and ?l = "lba (infos ! n)" and ?key = "lba_addr base n"
  have inv: "hm_inv ?mem h m" and ent: "hm_entries ?mem h m = group_entries ls" and d: "distinct ls"
    and ls: "set ls = (\<lambda>i. lba (infos ! i)) ` {..<n}" and grp: "list_all2 (holds_group infos n) ls tcs"
    using g by (auto simp: grouped_def st)
  have key: "load_bytes ?mem ?key (unat (8 :: u64)) = le_bytes64 ?l"
    using load_lba [OF fit n(1)] by simp
  have len: "length ls \<le> n"
    using distinct_card [OF d] ls card_image_le [of "{..<n}" "\<lambda>i. lba (infos ! i)"] by simp
  show ?thesis
  proof (cases "?l \<in> set ls")
    case True
    then obtain k where k: "k < length ls" "ls ! k = ?l"
      by (auto simp: in_set_conv_nth)
    have "hm_lookup ?mem (h, m) (?key, 8) = Inr (Some (of_nat k))"
      using hm.lookup_law [of ?mem "(h, m)" "(?key, 8)"] inv key ent group_entries_present [OF d k(1)] k(2) by simp
    then have get: "hashmap_get ?mem h m ?key 8 = Inr (True, of_nat k)"
      by (auto simp: hm_lookup_def bindR_eq_Inr split: if_splits)
    have "unat (of_nat k :: u64) = k"
      using k(1) len n(2) by (simp add: unat_of_nat)
    then have "build_step base infos n st =
        bindR (tc_get tcs k) (\<lambda>tc. bindR (trace_container_add tc (Some n)) (\<lambda>tc'. Inr (h, m, tcs[k := Some tc'])))"
      by (simp add: build_step_def st get)
    then show ?thesis
      using add_to_group [OF grp d k, of h m] n(2) inv ent d set_ls_Suc [OF ls] True
      by (auto simp: grouped_def insert_absorb elim!: ok_mono)
  next
    case False
    have none: "map_of (hm_entries ?mem h m) (le_bytes64 ?l) = None"
      unfolding ent by (rule group_entries_absent [OF False])
    then have look: "hm_lookup ?mem (h, m) (?key, 8) = Inr None"
      using hm.lookup_law [of ?mem "(h, m)" "(?key, 8)"] inv key by simp
    then obtain v where get: "hashmap_get ?mem h m ?key 8 = Inr (False, v)"
      by (auto simp: hm_lookup_def bindR_eq_Inr split: if_splits)
    have lt: "length tcs = length ls"
      using list_all2_lengthD [OF grp] by simp
    have "ok (hm_put ?mem (h, m) (?key, 8) (of_nat (length tcs)))
      (\<lambda>(h', m'). hm_inv ?mem h' m' \<and> hm_entries ?mem h' m' = group_entries (ls @ [?l]))"
      using hm.put_new_last [of ?mem "(h, m)" "(?key, 8)" "of_nat (length tcs)", OF _ _ _ look]
        inv ent key lba_addr_nonzero [OF fit n(1)] len n(2) lt by (auto simp: enumerate_append_eq elim!: ok_mono)
    then obtain h' m' where put: "hashmap_set ?mem h m ?key 8 (of_nat (length tcs)) = Inr (h', m')"
      "hm_inv ?mem h' m'" "hm_entries ?mem h' m' = group_entries (ls @ [?l])"
      by (auto simp: hm_put_def elim!: okE)
    let ?tcs = "tcs @ [Some (trace_container_create 64 ?key)]"
    have "list_all2 (holds_group infos n) (ls @ [?l]) ?tcs"
      using grp holds_group_new False ls by (auto intro: list_all2_appendI)
    then have "ok (bindR (tc_get ?tcs (length ls)) (\<lambda>tc. bindR (trace_container_add tc (Some n)) (\<lambda>tc'.
        Inr (h', m', ?tcs[length ls := Some tc'])))) (\<lambda>(h2, m2, tcs'). h2 = h' \<and> m2 = m' \<and>
        list_all2 (holds_group infos (Suc n)) (ls @ [?l]) tcs')"
      by (rule add_to_group) (use d False n(2) in auto)
    moreover have "build_step base infos n st = bindR (tc_get ?tcs (length ls)) (\<lambda>tc.
        bindR (trace_container_add tc (Some n)) (\<lambda>tc'. Inr (h', m', ?tcs[length ls := Some tc'])))"
      using put(1) [unfolded lt] by (simp add: build_step_def st get lt)
    moreover have "grouped base infos (Suc n) (ls @ [?l]) (h', m', tcs')"
      if "list_all2 (holds_group infos (Suc n)) (ls @ [?l]) tcs'" for tcs'
      using that put(2,3) d False set_ls_Suc [OF ls] by (simp add: grouped_def)
    ultimately show ?thesis
      by (auto elim!: ok_mono)
  qed
qed

lemma build_ok:
  assumes "infos_fit base infos" and "valid_lines \<le> length infos" and "valid_lines \<le> 15 * 2 ^ 25"
  shows "ok (case hashmap_create empty_heap of (h, m) \<Rightarrow> build_trace_containers base infos valid_lines (h, m, []))
    (\<lambda>st. \<exists>ls. grouped base infos valid_lines ls st)"
proof -
  obtain h m where hm: "hashmap_create empty_heap = (h, m)"
    by fastforce
  have "grouped base infos 0 [] (h, m, [])"
    using create_inv(1,2) [of "infos_mem base infos"] hm by (simp add: grouped_def)
  then have "ok (foldR (build_step base infos) [0..<valid_lines] (h, m, []))
      (\<lambda>st. \<exists>ls. grouped base infos valid_lines ls st)"
    using assms build_step_ok
    by (intro ok_foldR_upt [where I = "\<lambda>n st. \<exists>ls. grouped base infos n ls st"]) auto
  then show ?thesis
    by (simp add: hm build_trace_containers_def)
qed


subsection \<open>Properties\<close>

text \<open>
  C21: \<open>build_trace_containers\<close> groups the records by address. For up to \<open>15 * 2 ^ 25\<close> records it
  returns; afterwards the map leads from (the address of) every record's \<^verbatim>\<open>lba\<close> to a container
  that holds exactly the records with that \<^verbatim>\<open>lba\<close>, in trace order; records share a container
  only if they have the same \<^verbatim>\<open>lba\<close>; and there are as many containers as addresses.
\<close>

theorem build_trace_containers_groups:
  assumes "infos_fit base infos" and "valid_lines \<le> length infos" and "valid_lines \<le> 15 * 2 ^ 25"
  shows "ok (case hashmap_create empty_heap of (h, m) \<Rightarrow> build_trace_containers base infos valid_lines (h, m, []))
    (\<lambda>(h, m, tcs). mcount m = length tcs \<and> length tcs = card ((\<lambda>i. lba (infos ! i)) ` {..<valid_lines}) \<and>
      (\<forall>i<valid_lines. \<exists>p tc. hashmap_get (infos_mem base infos) h m (lba_addr base i) 8 = Inr (True, of_nat p) \<and>
         tc_get tcs p = Inr tc \<and> tc_ok tc \<and>
         tc_list tc = filter (\<lambda>j. lba (infos ! j) = lba (infos ! i)) [0..<valid_lines]))"
proof (rule ok_mono [OF build_ok [OF assms]])
  fix st assume "\<exists>ls. grouped base infos valid_lines ls st"
  then obtain h m tcs ls where st: "st = (h, m, tcs)" and inv: "hm_inv (infos_mem base infos) h m"
      and ent: "hm_entries (infos_mem base infos) h m = group_entries ls" and d: "distinct ls"
      and ls: "set ls = (\<lambda>i. lba (infos ! i)) ` {..<valid_lines}"
      and grp: "list_all2 (holds_group infos valid_lines) ls tcs"
    unfolding grouped_def by (cases st) blast
  have len: "length tcs = length ls"
    using list_all2_lengthD [OF grp] by simp
  have "mcount m = length tcs" and "length tcs = card ((\<lambda>i. lba (infos ! i)) ` {..<valid_lines})"
    using hm_inv_size [OF inv] ent len distinct_card [OF d] ls by simp_all
  moreover have "\<exists>p tc. hashmap_get (infos_mem base infos) h m (lba_addr base i) 8 = Inr (True, of_nat p) \<and>
         tc_get tcs p = Inr tc \<and> tc_ok tc \<and>
         tc_list tc = filter (\<lambda>j. lba (infos ! j) = lba (infos ! i)) [0..<valid_lines]" if "i < valid_lines" for i
  proof -
    have "lba (infos ! i) \<in> set ls"
      unfolding ls using that by blast
    then obtain k where k: "k < length ls" "ls ! k = lba (infos ! i)"
      by (auto simp: in_set_conv_nth)
    have "hashmap_get (infos_mem base infos) h m (lba_addr base i) 8 = Inr (True, of_nat k)"
      using hashmap_get_ok [OF inv, of "lba_addr base i" 8] load_lba [OF assms(1), of i] that assms(2) ent
        group_entries_present [OF d k(1)] k(2) by simp
    moreover obtain tc where "tcs ! k = Some tc" "tc_ok tc"
        "tc_list tc = filter (\<lambda>j. lba (infos ! j) = lba (infos ! i)) [0..<valid_lines]"
      using list_all2_nthD [OF grp k(1)] k(2) unfolding holds_group_def by auto
    ultimately show ?thesis
      using k(1) len by (intro exI [of _ k] exI [of _ tc]) (simp add: tc_get_def)
  qed
  ultimately show "case st of (h, m, tcs) \<Rightarrow> mcount m = length tcs \<and>
      length tcs = card ((\<lambda>i. lba (infos ! i)) ` {..<valid_lines}) \<and>
      (\<forall>i<valid_lines. \<exists>p tc. hashmap_get (infos_mem base infos) h m (lba_addr base i) 8 = Inr (True, of_nat p) \<and>
         tc_get tcs p = Inr tc \<and> tc_ok tc \<and>
         tc_list tc = filter (\<lambda>j. lba (infos ! j) = lba (infos ! i)) [0..<valid_lines])"
    by (simp add: st)
qed

text \<open>A record at a time and an address.\<close>

definition info_at :: "u64 \<Rightarrow> u64 \<Rightarrow> trace_info" where
  "info_at t l = \<lparr>ts = t, pid = 0, lba = l, ofs = push_bit 9 l, blks = 8, rw = CHR ''W'', major = 0, minor = 0,
     md5 = replicate 32 CHR ''a''\<rparr>"

theorem build_trace_containers_groups_witness:
  "ok (case hashmap_create empty_heap of (h, m) \<Rightarrow>
        build_trace_containers 4096 [info_at 1 8, info_at 2 16, info_at 3 8] 3 (h, m, []))
     (\<lambda>(h, m, tcs). length tcs = 2 \<and> (\<exists>p tc. tc_get tcs p = Inr tc \<and> tc_list tc = [0, 2]))"
proof -
  let ?is = "[info_at 1 8, info_at 2 16, info_at 3 8]"
  have fit: "infos_fit 4096 ?is"
    by (simp add: infos_fit_def)
  have "{..<3 :: nat} = {0, 1, 2}"
    by auto
  then have card: "card ((\<lambda>i. lba (?is ! i)) ` {..<3}) = 2"
    by (simp add: info_at_def card_insert_if)
  have upt: "[0..<3] = [0, 1, 2 :: nat]"
    by (simp add: upt_rec)
  have "filter (\<lambda>j. lba (?is ! j) = lba (?is ! 0)) [0..<3] = [0, 2]"
    unfolding upt by (simp add: info_at_def)
  then show ?thesis
    using build_trace_containers_groups [OF fit, of 3] card
    by (auto elim!: ok_mono dest!: spec [of _ 0]) blast
qed

end
