(* ===== verification/Lcg.thy ===== *)
theory Lcg
  imports C_Prelude
begin

text \<open>
  The linear congruential generator of \<^verbatim>\<open>lcg.c\<close>. \<open>lcg_rand_r\<close> is the
  generator as compiled, with two's complement wrap-around of the
  \<^verbatim>\<open>int\<close> product; \<open>lcg_rand_r_strict\<close> follows the C rule that overflow of
  a signed product or sum is undefined.
\<close>

subsection \<open>The generator\<close>

text \<open>\<^verbatim>\<open>RAND_MAX\<close>, redefined by \<^verbatim>\<open>lcg.c\<close> as \<^verbatim>\<open>(1U << 31) - 1\<close>.\<close>

definition RAND_MAX :: u32 where
  "RAND_MAX = push_bit 31 1 - 1"

text \<open>The global \<^verbatim>\<open>rseed\<close> is passed as the state.\<close>

definition lcg_srand :: "i32 \<Rightarrow> i32" where
  "lcg_srand x = x"

definition lcg_rand_r :: "i32 \<Rightarrow> i32" where
  "lcg_rand_r rseed_r = (rseed_r * 1103515245 + 12345) AND RAND_MAX"

text \<open>\<^verbatim>\<open>lcg_rand\<close> returns the new seed and stores it: (result, new \<^verbatim>\<open>rseed\<close>).\<close>

definition lcg_rand :: "i32 \<Rightarrow> i32 \<times> i32" where
  "lcg_rand rseed = (let r = (rseed * 1103515245 + 12345) AND RAND_MAX in (r, r))"

definition lcg_rand_r_strict :: "int \<Rightarrow> int res" where
  "lcg_rand_r_strict rseed_r =
     bindR (guardR (int_range (rseed_r * 1103515245)) IntOverflow) (\<lambda>_.
     bindR (guardR (int_range (rseed_r * 1103515245 + 12345)) IntOverflow) (\<lambda>_.
     Inr (sint (word_of_int (rseed_r * 1103515245 + 12345) AND RAND_MAX))))"

text \<open>The geometric sum \<open>1 + a + \<dots> + a ^ (n - 1)\<close> that iterating the generator builds up.\<close>

fun geo :: "nat \<Rightarrow> nat \<Rightarrow> nat" where
  "geo a 0 = 0"
| "geo a (Suc n) = Suc (a * geo a n)"

subsection \<open>Geometric sums modulo powers of two\<close>

lemma geo_sum: "geo a (m + n) = geo a m + a ^ m * geo a n"
  by (induction m) (auto simp: algebra_simps)

lemma geo_pow: "Suc b ^ n = Suc (b * geo (Suc b) n)"
  by (induction n) (auto simp: algebra_simps)

lemma geo_affine_step: "(a ^ n * x + c * geo a n) * a + c = a ^ Suc n * x + c * geo a (Suc n)"
  by (simp add: algebra_simps)

lemma affine_iterate: "((\<lambda>x. (x * a + c) mod m) ^^ n) x mod m = (a ^ n * x + c * geo a n) mod (m::nat)"
proof (induction n)
  case (Suc n)
  have "((\<lambda>x. (x * a + c) mod m) ^^ Suc n) x mod m = (((\<lambda>x. (x * a + c) mod m) ^^ n) x mod m * a + c) mod m"
    by simp (metis mod_add_left_eq mod_mult_left_eq)
  also have "\<dots> = ((a ^ n * x + c * geo a n) mod m * a + c) mod m"
    by (simp only: Suc)
  also have "\<dots> = (a ^ Suc n * x + c * geo a (Suc n)) mod m"
    by (metis (no_types, lifting) geo.simps(2) geo_affine_step mod_add_left_eq mod_mult_left_eq)
  finally show ?case .
qed simp

lemma geo_odd: "odd a \<Longrightarrow> odd (geo a n) \<longleftrightarrow> odd n"
  by (induction n) auto

lemma pow_mod4: "a mod 4 = 1 \<Longrightarrow> a ^ n mod 4 = (1::nat)"
  by (metis power_mod power_one one_mod_numeral mod_less one_less_numeral_iff semiring_norm(76))

lemma geo_double: "a mod 4 = 1 \<Longrightarrow> \<exists>q. odd q \<and> geo a (2 * n) = 2 * q * geo a n"
proof -
  assume a: "a mod 4 = 1"
  have "geo a (2 * n) = geo a n * (1 + a ^ n)"
    unfolding mult_2 geo_sum by (simp add: algebra_simps)
  moreover have "(1 + a ^ n) mod 4 = 2"
    using pow_mod4 [OF a, of n] by presburger
  then have "\<exists>q. odd q \<and> 1 + a ^ n = 2 * q"
    by presburger
  ultimately show ?thesis by (metis mult.commute)
qed

lemma geo_dvd: "a mod 4 = 1 \<Longrightarrow> 2 ^ k dvd geo a n \<longleftrightarrow> 2 ^ k dvd n"
proof (induction k arbitrary: n)
  case (Suc k)
  show ?case
  proof (cases "even n")
    case True
    then obtain m where m: "n = 2 * m" by auto
    obtain q where q: "odd q" "geo a (2 * m) = 2 * q * geo a m"
      using geo_double [OF Suc.prems] by blast
    have "coprime (2 ^ k) q"
      using q(1) by (simp add: coprime_commute)
    then have "2 ^ Suc k dvd geo a n \<longleftrightarrow> 2 ^ k dvd geo a m"
      using q(2) m by (simp add: mult.assoc coprime_dvd_mult_right_iff)
    also have "\<dots> \<longleftrightarrow> 2 ^ Suc k dvd n"
      using Suc m by simp
    finally show ?thesis .
  next
    case False
    have "odd a" using Suc.prems by presburger
    then have "odd (geo a n)" using False geo_odd by blast
    then show ?thesis using False
      by (meson dvd_power dvd_trans zero_less_Suc)
  qed
qed simp
subsection \<open>The generator as arithmetic modulo \<open>2 ^ 31\<close>\<close>

lemma RAND_MAX_mask: "RAND_MAX = mask 31"
  by (simp add: RAND_MAX_def mask_eq_exp_minus_1)

lemma unat_lcg: "unat (lcg_rand_r x) = (unat x * 1103515245 + 12345) mod 2 ^ 31"
proof -
  have "unat (lcg_rand_r x) = unat (x * 1103515245 + 12345) mod 2 ^ 31"
    by (simp only: lcg_rand_r_def RAND_MAX_mask take_bit_eq_mask [symmetric] unsigned_take_bit_eq)
      (simp only: take_bit_eq_mod)
  also have "\<dots> = (unat x * 1103515245 + 12345) mod 2 ^ 32 mod 2 ^ 31"
    by (simp add: unat_word_ariths mod_simps)
  also have "\<dots> = (unat x * 1103515245 + 12345) mod 2 ^ 31"
    by (simp only: mod_mod_cancel le_imp_power_dvd)
  finally show ?thesis .
qed

lemma lcg_iterate: "unat ((lcg_rand_r ^^ n) x) mod 2 ^ 31 =
  (1103515245 ^ n * unat x + 12345 * geo 1103515245 n) mod 2 ^ 31"
proof -
  have "unat ((lcg_rand_r ^^ n) x) = ((\<lambda>y. (y * 1103515245 + 12345) mod 2 ^ 31) ^^ n) (unat x)"
    by (induction n) (simp_all add: unat_lcg)
  then show ?thesis by (simp only: affine_iterate)
qed

lemma lcg_small: "unat ((lcg_rand_r ^^ n) x) < 2 ^ 31" if "unat x < 2 ^ 31"
proof (cases n)
  case 0
  then show ?thesis using that by simp
next
  case (Suc m)
  then show ?thesis by (simp add: unat_lcg)
qed

subsection \<open>Properties\<close>

text \<open>
  C32: The generator has full period. From any state it can itself produce (31 bits),
  iterating \<open>lcg_rand_r\<close> returns to that state after exactly the multiples of \<open>2 ^ 31\<close>
  calls, so no shorter cycle exists and a replayed block stream never gets stuck in one.
\<close>

theorem lcg_full_period:
  assumes "unat x < 2 ^ 31"
  shows "(lcg_rand_r ^^ n) x = x \<longleftrightarrow> 2 ^ 31 dvd n"
proof -
  let ?g = "geo 1103515245 n"
  let ?t = "1103515244 * unat x + 12345"
  have pow: "(1103515245::nat) ^ n = Suc (1103515244 * ?g)"
    using geo_pow [of 1103515244 n] by simp
  have "(lcg_rand_r ^^ n) x = x \<longleftrightarrow> unat ((lcg_rand_r ^^ n) x) = unat x"
    by (rule word_unat_eq_iff)
  also have "\<dots> \<longleftrightarrow> unat ((lcg_rand_r ^^ n) x) mod 2 ^ 31 = unat x mod 2 ^ 31"
    using lcg_small [OF assms] assms by simp
  also have "\<dots> \<longleftrightarrow> (unat x + ?g * ?t) mod 2 ^ 31 = unat x mod 2 ^ 31"
    unfolding lcg_iterate pow by (simp add: algebra_simps)
  also have "\<dots> \<longleftrightarrow> 2 ^ 31 dvd ?g * ?t"
    by (metis add_diff_cancel_left' le_add1 mod_eq_dvd_iff_nat)
  also have "\<dots> \<longleftrightarrow> 2 ^ 31 dvd ?g"
    by (rule coprime_dvd_mult_left_iff)
      (simp only: coprime_power_left_iff coprime_left_2_iff_odd, simp)
  also have "\<dots> \<longleftrightarrow> 2 ^ 31 dvd n"
    by (rule geo_dvd) simp
  finally show ?thesis .
qed
theorem lcg_full_period_witness:
  "unat (1 :: i32) < 2 ^ 31 \<and> (lcg_rand_r ^^ 3) 1 \<noteq> 1"
proof -
  have small: "unat (1 :: i32) < 2 ^ 31" by simp
  show ?thesis using small lcg_full_period [OF small, of 3] by simp
qed

text \<open>
  C33: Read with the C rules for signed arithmetic, one step of the generator is defined
  for the seeds -1, 0 and 1 only; every other seed overflows the \<^verbatim>\<open>int\<close> product. Where
  it is defined the result is the one the wrapping generator computes, in \<open>0 .. RAND_MAX\<close>.
\<close>

theorem lcg_rand_r_strict_defined:
  "lcg_rand_r_strict z =
     (if - 1 \<le> z \<and> z \<le> 1 then Inr (uint (lcg_rand_r (word_of_int z))) else Inl IntOverflow)"
proof -
  have range: "int_range (z * 1103515245) \<and> int_range (z * 1103515245 + 12345) \<longleftrightarrow>
      - 1 \<le> z \<and> z \<le> 1"
    unfolding int_range_def by auto
  have "sint (lcg_rand_r w) = uint (lcg_rand_r w)" for w
    using lcg_small [of "lcg_rand_r w" 0] unat_lcg [of w]
    by (simp add: sint_uint signed_take_bit_int_eq_self_iff uint_nat)
  then have "sint (word_of_int (z * 1103515245 + 12345) AND RAND_MAX) =
      uint (lcg_rand_r (word_of_int z))"
    by (simp add: lcg_rand_r_def wi_hom_syms)
  with range show ?thesis
    by (auto simp: lcg_rand_r_strict_def guardR_def)
qed

end
