(* ===== verification/Mt19937ar.thy ===== *)
theory Mt19937ar
  imports C_Prelude
begin

text \<open>
  The Mersenne Twister of \<^verbatim>\<open>mt19937ar.c\<close>: the state array and its index, seeding
  by a number or by an array, generation of 624 words at a time with tempering,
  and the derived 31-bit and floating-point outputs. The static variables
  \<^verbatim>\<open>mt\<close>, \<^verbatim>\<open>mti\<close> and the caller's \<^verbatim>\<open>struct mt19937ar_state\<close> have the same
  shape, so both variants of the code act on the record \<open>mt19937ar_state\<close>.
  \<open>mt_ref\<close> and \<open>ref_temper\<close> state the generator as the recurrence over
  32-bit words that the published algorithm is given by; the main results say
  that the in-place 64-bit code computes exactly this sequence.
\<close>

subsection \<open>State and constants\<close>

record mt19937ar_state =
  mt :: "u64 list"
  mti :: nat

abbreviation (input) MT_N :: nat where "MT_N \<equiv> 624"
abbreviation (input) MT_M :: nat where "MT_M \<equiv> 397"

definition MATRIX_A :: u64 where "MATRIX_A = 0x9908b0df"
definition UPPER_MASK :: u64 where "UPPER_MASK = 0x80000000"
definition LOWER_MASK :: u64 where "LOWER_MASK = 0x7fffffff"

text \<open>The static state before any call: a zeroed array, \<^verbatim>\<open>mti\<close> out of range.\<close>

definition mt_static_init :: mt19937ar_state where
  "mt_static_init = \<lparr>mt = replicate MT_N 0, mti = MT_N + 1\<rparr>"

subsection \<open>Seeding\<close>

function init_genrand_loop :: "u64 list \<Rightarrow> nat \<Rightarrow> u64 list \<times> nat" where
  "init_genrand_loop m i =
     (if i < MT_N then
        init_genrand_loop
          (m[i := (1812433253 * (m ! (i - 1) XOR drop_bit 30 (m ! (i - 1))) + of_nat i)
                  AND 0xffffffff])
          (i + 1)
      else (m, i))"
  by pat_completeness auto
termination by (relation "measure (\<lambda>(m, i). MT_N - i)") auto

definition init_genrand_r :: "mt19937ar_state \<Rightarrow> u64 \<Rightarrow> mt19937ar_state" where
  "init_genrand_r state s =
     (let (m, i) = init_genrand_loop ((mt state)[0 := s AND 0xffffffff]) 1
      in \<lparr>mt = m, mti = i\<rparr>)"

definition init_genrand :: "mt19937ar_state \<Rightarrow> u64 \<Rightarrow> mt19937ar_state" where
  "init_genrand state s =
     (let (m, i) = init_genrand_loop ((mt state)[0 := s AND 0xffffffff]) 1
      in \<lparr>mt = m, mti = i\<rparr>)"

text \<open>
  \<^verbatim>\<open>init_by_array\<close>: two loops over the array. The first runs
  \<open>max N key_length\<close> times and mixes the key in, the second \<open>N - 1\<close> times;
  both wrap \<open>i\<close> from \<open>N\<close> to \<open>1\<close>, copying the last word to the front.
\<close>

definition wrap_index :: "u64 list \<Rightarrow> nat \<Rightarrow> u64 list \<times> nat" where
  "wrap_index m i = (if MT_N \<le> i then (m[0 := m ! (MT_N - 1)], 1) else (m, i))"

fun init_by_array_loop1 :: "u64 list \<Rightarrow> nat \<Rightarrow> u64 list \<Rightarrow> nat \<Rightarrow> nat \<Rightarrow> u64 list \<times> nat" where
  "init_by_array_loop1 init_key 0 m i j = (m, i)"
| "init_by_array_loop1 init_key (Suc k) m i j =
     (let m' = m[i := ((m ! i XOR ((m ! (i - 1) XOR drop_bit 30 (m ! (i - 1))) * 1664525))
                        + init_key ! j + of_nat j) AND 0xffffffff];
          (m'', i') = wrap_index m' (i + 1);
          j' = (if length init_key \<le> j + 1 then 0 else j + 1)
      in init_by_array_loop1 init_key k m'' i' j')"

fun init_by_array_loop2 :: "nat \<Rightarrow> u64 list \<Rightarrow> nat \<Rightarrow> u64 list \<times> nat" where
  "init_by_array_loop2 0 m i = (m, i)"
| "init_by_array_loop2 (Suc k) m i =
     (let m' = m[i := ((m ! i XOR ((m ! (i - 1) XOR drop_bit 30 (m ! (i - 1))) * 1566083941))
                        - of_nat i) AND 0xffffffff];
          (m'', i') = wrap_index m' (i + 1)
      in init_by_array_loop2 k m'' i')"

text \<open>An empty key makes the first loop read \<^verbatim>\<open>init_key[0]\<close> out of bounds.\<close>

definition init_by_array :: "mt19937ar_state \<Rightarrow> u64 list \<Rightarrow> mt19937ar_state res" where
  "init_by_array state init_key =
     (if init_key = [] then Inl OutOfBounds
      else
        let st = init_genrand state 19650218;
            (m1, i1) = init_by_array_loop1 init_key (max MT_N (length init_key)) (mt st) 1 0;
            (m2, i2) = init_by_array_loop2 (MT_N - 1) m1 i1
        in Inr (st\<lparr>mt := m2[0 := 0x80000000]\<rparr>))"

subsection \<open>Generation\<close>

text \<open>\<^verbatim>\<open>mag01[y & 1]\<close>.\<close>

definition mag01 :: "u64 \<Rightarrow> u64" where
  "mag01 y = [0, MATRIX_A] ! unat (y AND 1)"

text \<open>The word stored at \<open>kk\<close> from \<open>mt[kk]\<close>, \<open>mt[kk+1]\<close> and the word \<open>M\<close> ahead.\<close>

definition twist :: "u64 \<Rightarrow> u64 \<Rightarrow> u64 \<Rightarrow> u64" where
  "twist u l a =
     (let y = (u AND UPPER_MASK) OR (l AND LOWER_MASK)
      in a XOR drop_bit 1 y XOR mag01 y)"

function generate_loop1 :: "u64 list \<Rightarrow> nat \<Rightarrow> u64 list" where
  "generate_loop1 m kk =
     (if kk < MT_N - MT_M then
        generate_loop1 (m[kk := twist (m ! kk) (m ! (kk + 1)) (m ! (kk + MT_M))]) (kk + 1)
      else m)"
  by pat_completeness auto
termination by (relation "measure (\<lambda>(m, kk). MT_N - kk)") auto

function generate_loop2 :: "u64 list \<Rightarrow> nat \<Rightarrow> u64 list" where
  "generate_loop2 m kk =
     (if kk < MT_N - 1 then
        generate_loop2 (m[kk := twist (m ! kk) (m ! (kk + 1)) (m ! (kk - (MT_N - MT_M)))]) (kk + 1)
      else m)"
  by pat_completeness auto
termination by (relation "measure (\<lambda>(m, kk). MT_N - kk)") auto

definition generate_words :: "u64 list \<Rightarrow> u64 list" where
  "generate_words m0 =
     (let m1 = generate_loop1 m0 0;
          m2 = generate_loop2 m1 (MT_N - MT_M)
      in m2[MT_N - 1 := twist (m2 ! (MT_N - 1)) (m2 ! 0) (m2 ! (MT_M - 1))])"

definition temper :: "u64 \<Rightarrow> u64" where
  "temper y0 =
     (let y1 = y0 XOR drop_bit 11 y0;
          y2 = y1 XOR (push_bit 7 y1 AND 0x9d2c5680);
          y3 = y2 XOR (push_bit 15 y2 AND 0xefc60000)
      in y3 XOR drop_bit 18 y3)"

definition genrand_int32_r :: "mt19937ar_state \<Rightarrow> u64 \<times> mt19937ar_state" where
  "genrand_int32_r state =
     (let st = (if MT_N \<le> mti state
                then let st1 = (if mti state = MT_N + 1 then init_genrand_r state 5489 else state)
                     in \<lparr>mt = generate_words (mt st1), mti = 0\<rparr>
                else state)
      in (temper (mt st ! mti st), st\<lparr>mti := mti st + 1\<rparr>))"

definition genrand_int32 :: "mt19937ar_state \<Rightarrow> u64 \<times> mt19937ar_state" where
  "genrand_int32 state =
     (let st = (if MT_N \<le> mti state
                then let st1 = (if mti state = MT_N + 1 then init_genrand state 5489 else state)
                     in \<lparr>mt = generate_words (mt st1), mti = 0\<rparr>
                else state)
      in (temper (mt st ! mti st), st\<lparr>mti := mti st + 1\<rparr>))"

definition genrand_int31 :: "mt19937ar_state \<Rightarrow> u64 \<times> mt19937ar_state" where
  "genrand_int31 state = (let (r, st) = genrand_int32 state in (drop_bit 1 r, st))"

text \<open>\<open>n\<close> successive calls: the outputs, and the state after them.\<close>

fun genrand_many :: "nat \<Rightarrow> mt19937ar_state \<Rightarrow> u64 list \<times> mt19937ar_state" where
  "genrand_many 0 st = ([], st)"
| "genrand_many (Suc n) st =
     (let (y, st') = genrand_int32_r st; (ys, st'') = genrand_many n st' in (y # ys, st''))"

subsection \<open>The reference recurrence\<close>

definition ref_twist :: "u32 \<Rightarrow> u32 \<Rightarrow> u32" where
  "ref_twist u l =
     (let y = (u AND 0x80000000) OR (l AND 0x7fffffff)
      in drop_bit 1 y XOR (if bit y 0 then 0x9908b0df else 0))"

fun mt_ref :: "u32 \<Rightarrow> nat \<Rightarrow> u32" where
  "mt_ref s n =
     (if n = 0 then s
      else if n < MT_N then
        (let p = mt_ref s (n - 1) in 1812433253 * (p XOR drop_bit 30 p) + of_nat n)
      else mt_ref s (n - (MT_N - MT_M)) XOR ref_twist (mt_ref s (n - MT_N)) (mt_ref s (n - (MT_N - 1))))"

definition ref_temper :: "u32 \<Rightarrow> u32" where
  "ref_temper y0 =
     (let y1 = y0 XOR drop_bit 11 y0;
          y2 = y1 XOR (push_bit 7 y1 AND 0x9d2c5680);
          y3 = y2 XOR (push_bit 15 y2 AND 0xefc60000)
      in y3 XOR drop_bit 18 y3)"

declare init_genrand_loop.simps [simp del] generate_loop1.simps [simp del]
  generate_loop2.simps [simp del] mt_ref.simps [simp del]

subsection \<open>From 64-bit to 32-bit words\<close>

lemma and_mask32: "(w :: u64) AND 0xffffffff = ucast (ucast w :: u32)"
proof -
  have "(0xffffffff :: u64) = mask 32"
    by (simp add: mask_eq_exp_minus_1)
  then show ?thesis
    by (simp only: take_bit_eq_mask [symmetric])
      (rule bit_word_eqI, auto simp: bit_simps)
qed

lemma drop_bit_ucast: "drop_bit n (ucast (p :: u32) :: u64) = ucast (drop_bit n p)"
  by (rule bit_word_eqI) (auto simp: bit_simps dest: bit_imp_le_length)

lemma push_bit_ucast_and:
  "push_bit n (ucast (p :: u32)) AND (ucast c :: u64) = ucast (push_bit n p AND c)"
  by (rule bit_word_eqI) (auto simp: bit_simps dest: bit_imp_le_length)

lemma ucast_down_arith:
  "(ucast (c * ucast q + of_nat i :: u64) :: u32) = ucast c * q + of_nat i"
proof (rule word_unat_eq_iff [THEN iffD2])
  have d: "(4294967296 :: nat) dvd 18446744073709551616" by simp
  show "unat (ucast (c * ucast q + of_nat i :: u64) :: u32) = unat (ucast c * q + of_nat i :: u32)"
    by (simp add: unat_word_ariths unat_of_nat unsigned_ucast_eq take_bit_eq_mod mod_mod_cancel [OF d] mod_simps)
qed

lemma seed_step:
  "(1812433253 * (ucast p XOR drop_bit 30 (ucast p)) + of_nat i) AND 0xffffffff =
     (ucast (1812433253 * (p XOR drop_bit 30 p) + of_nat i :: u32) :: u64)"
proof -
  have "ucast p XOR drop_bit 30 (ucast p :: u64) = ucast (p XOR drop_bit 30 p)"
    by (simp add: unsigned_xor_eq drop_bit_ucast)
  then show ?thesis unfolding and_mask32 by (simp add: ucast_down_arith)
qed

lemma mag01_ucast: "mag01 (ucast y) = ucast (if bit (y :: u32) 0 then 0x9908b0df else 0 :: u32)"
proof -
  have "(ucast y AND 1 :: u64) = (if bit y 0 then 1 else 0)"
    by (rule bit_word_eqI) (auto simp: bit_simps bit_1_iff intro: gr0I)
  then show ?thesis by (simp add: mag01_def MATRIX_A_def)
qed

lemma twist_ucast: "twist (ucast u) (ucast l) (ucast a) = ucast (a XOR ref_twist u l)"
proof -
  let ?y = "(u AND 0x80000000) OR (l AND 0x7fffffff)"
  have "(ucast u AND UPPER_MASK) OR (ucast l AND LOWER_MASK) = (ucast ?y :: u64)"
    by (simp add: unsigned_and_eq unsigned_or_eq UPPER_MASK_def LOWER_MASK_def)
  then show ?thesis
    by (simp only: twist_def Let_def ref_twist_def mag01_ucast drop_bit_ucast unsigned_xor_eq
        xor.assoc)
qed

lemma temper_ucast: "temper (ucast y) = ucast (ref_temper y)"
proof -
  have "push_bit 7 (ucast (x :: u32)) AND 0x9d2c5680 = (ucast (push_bit 7 x AND 0x9d2c5680) :: u64)"
    and "push_bit 15 (ucast (x :: u32)) AND 0xefc60000 = (ucast (push_bit 15 x AND 0xefc60000) :: u64)"
    for x
    using push_bit_ucast_and [of 7 x "0x9d2c5680"] push_bit_ucast_and [of 15 x "0xefc60000"] by simp_all
  then show ?thesis
    by (simp only: temper_def ref_temper_def Let_def drop_bit_ucast unsigned_xor_eq [symmetric])
qed

subsection \<open>Seeding writes the first window of the reference sequence\<close>

definition mt_window :: "u32 \<Rightarrow> nat \<Rightarrow> u64 list" where
  "mt_window s k = map (\<lambda>i. ucast (mt_ref s (k + i))) [0..<MT_N]"

lemma length_mt_window [simp]: "length (mt_window s k) = MT_N"
  by (simp add: mt_window_def)

lemma nth_mt_window [simp]: "i < MT_N \<Longrightarrow> mt_window s k ! i = ucast (mt_ref s (k + i))"
  by (simp add: mt_window_def)

lemma init_genrand_loop_ref:
  assumes "length m = MT_N" and "1 \<le> i" and "i \<le> MT_N"
    and "\<forall>j<i. m ! j = ucast (mt_ref s j)"
  shows "init_genrand_loop m i = (mt_window s 0, MT_N)"
  using assms
proof (induction m i rule: init_genrand_loop.induct)
  case (1 m i)
  show ?case
  proof (cases "i < MT_N")
    case False
    then have "m = mt_window s 0"
      using 1(2-5) by (intro nth_equalityI) auto
    then show ?thesis
      using False 1(4) by (subst init_genrand_loop.simps) simp
  next
    case True
    let ?m = "m[i := (1812433253 * (m ! (i - 1) XOR drop_bit 30 (m ! (i - 1))) + of_nat i)
                 AND 0xffffffff]"
    have "m ! (i - 1) = ucast (mt_ref s (i - 1))"
      using 1(3,5) by simp
    then have "?m ! i = ucast (mt_ref s i)"
      using True 1(2,3) mt_ref.simps [of s i] by (simp add: seed_step Let_def)
    then have "\<forall>j<i + 1. ?m ! j = ucast (mt_ref s j)"
      using 1(5) by (auto simp: less_Suc_eq)
    then have "init_genrand_loop ?m (i + 1) = (mt_window s 0, MT_N)"
      using 1(1) [OF True] 1(2,3) True by simp
    then show ?thesis
      using True by (simp add: init_genrand_loop.simps [of m i])
  qed
qed

lemma init_genrand_r_ref:
  "length (mt st) = MT_N \<Longrightarrow>
     init_genrand_r st s = \<lparr>mt = mt_window (ucast s) 0, mti = MT_N\<rparr>"
  using init_genrand_loop_ref [of "(mt st)[0 := s AND 0xffffffff]" 1 "ucast s"]
  by (simp add: init_genrand_r_def and_mask32 mt_ref.simps [of _ 0])

lemma init_genrand_eq_r: "init_genrand = init_genrand_r"
  by (intro ext) (simp add: init_genrand_def init_genrand_r_def)

lemma genrand_int32_eq_r: "genrand_int32 = genrand_int32_r"
  by (intro ext) (simp add: genrand_int32_def genrand_int32_r_def init_genrand_eq_r)

subsection \<open>One batch advances the window by 624 words\<close>

text \<open>The array with its first \<open>kk\<close> words already replaced.\<close>

definition mixed :: "u32 \<Rightarrow> nat \<Rightarrow> nat \<Rightarrow> u64 list \<Rightarrow> bool" where
  "mixed s k kk m \<longleftrightarrow> length m = MT_N \<and>
     (\<forall>j<MT_N. m ! j = ucast (mt_ref s (if j < kk then k + MT_N + j else k + j)))"

lemma mixed_step:
  assumes "mixed s k kk m" and "kk < MT_N"
    and "u = ucast (mt_ref s (k + kk))" and "l = ucast (mt_ref s (k + kk + 1))"
    and "a = ucast (mt_ref s (k + kk + MT_M))"
  shows "mixed s k (kk + 1) (m[kk := twist u l a])"
proof -
  have "mt_ref s (k + MT_N + kk) =
      mt_ref s (k + kk + MT_M) XOR ref_twist (mt_ref s (k + kk)) (mt_ref s (k + kk + 1))"
    by (subst mt_ref.simps) (simp add: algebra_simps)
  then have "twist u l a = ucast (mt_ref s (k + MT_N + kk))"
    using assms(3-5) by (simp add: twist_ucast)
  then show ?thesis
    using assms(1,2) by (auto simp: mixed_def nth_list_update)
qed

lemma generate_loop1_mixed:
  "mixed s k kk m \<Longrightarrow> kk \<le> MT_N - MT_M \<Longrightarrow> mixed s k (MT_N - MT_M) (generate_loop1 m kk)"
proof (induction m kk rule: generate_loop1.induct)
  case (1 m kk)
  show ?case
  proof (cases "kk < MT_N - MT_M")
    case True
    then have "mixed s k (kk + 1) (m[kk := twist (m ! kk) (m ! (kk + 1)) (m ! (kk + MT_M))])"
      using "1.prems" by (intro mixed_step) (auto simp: mixed_def algebra_simps)
    then show ?thesis
      using "1.IH" True by (simp add: generate_loop1.simps [of m kk])
  next
    case False
    then show ?thesis
      using "1.prems" by (subst generate_loop1.simps) auto
  qed
qed

lemma generate_loop2_mixed:
  "mixed s k kk m \<Longrightarrow> MT_N - MT_M \<le> kk \<Longrightarrow> kk \<le> MT_N - 1 \<Longrightarrow>
     mixed s k (MT_N - 1) (generate_loop2 m kk)"
proof (induction m kk rule: generate_loop2.induct)
  case (1 m kk)
  show ?case
  proof (cases "kk < MT_N - 1")
    case True
    then have "mixed s k (kk + 1)
        (m[kk := twist (m ! kk) (m ! (kk + 1)) (m ! (kk - (MT_N - MT_M)))])"
      using "1.prems" by (intro mixed_step) (auto simp: mixed_def algebra_simps)
    then show ?thesis
      using "1.IH" True "1.prems" by (simp add: generate_loop2.simps [of m kk])
  next
    case False
    then show ?thesis
      using "1.prems" by (subst generate_loop2.simps) auto
  qed
qed

lemma generate_words_window: "generate_words (mt_window s k) = mt_window s (k + MT_N)"
proof -
  let ?m2 = "generate_loop2 (generate_loop1 (mt_window s k) 0) (MT_N - MT_M)"
  have "mixed s k 0 (mt_window s k)"
    by (simp add: mixed_def)
  then have m2: "mixed s k (MT_N - 1) ?m2"
    by (intro generate_loop2_mixed generate_loop1_mixed) auto
  then have "mixed s k (MT_N - 1 + 1)
      (?m2[MT_N - 1 := twist (?m2 ! (MT_N - 1)) (?m2 ! 0) (?m2 ! (MT_M - 1))])"
    by (intro mixed_step) (auto simp: mixed_def algebra_simps)
  then have "mixed s k MT_N (generate_words (mt_window s k))"
    by (simp add: generate_words_def Let_def)
  then show ?thesis
    by (intro nth_equalityI) (auto simp: mixed_def algebra_simps)
qed

subsection \<open>Calls of the generator walk along the reference sequence\<close>

text \<open>\<open>mt_pos s n st\<close>: the next output is word \<open>n\<close> of the sequence seeded with \<open>s\<close>.\<close>

definition mt_pos :: "u32 \<Rightarrow> nat \<Rightarrow> mt19937ar_state \<Rightarrow> bool" where
  "mt_pos s n st \<longleftrightarrow> (\<exists>k. mt st = mt_window s k \<and> mti st \<le> MT_N \<and> n = k + mti st)"

lemma mt_pos_init: "length (mt st) = MT_N \<Longrightarrow> mt_pos (ucast s) MT_N (init_genrand_r st s)"
  by (auto simp: mt_pos_def init_genrand_r_ref)

lemma mt_pos_length: "mt_pos s n st \<Longrightarrow> length (mt st) = MT_N"
  by (auto simp: mt_pos_def)

lemma genrand_int32_r_step:
  assumes "mt_pos s n st"
  obtains st' where "genrand_int32_r st = (ucast (ref_temper (mt_ref s n)), st')"
    and "mt_pos s (n + 1) st'"
proof -
  obtain k where k: "mt st = mt_window s k" "mti st \<le> MT_N" "n = k + mti st"
    using assms by (auto simp: mt_pos_def)
  let ?st = "if mti st = MT_N then \<lparr>mt = mt_window s (k + MT_N), mti = 0\<rparr> else st"
  have st: "(if MT_N \<le> mti st
       then let st1 = (if mti st = MT_N + 1 then init_genrand_r st 5489 else st)
            in \<lparr>mt = generate_words (mt st1), mti = 0\<rparr>
       else st) = ?st"
    using k by (simp add: generate_words_window)
  have "genrand_int32_r st = (temper (mt ?st ! mti ?st), ?st\<lparr>mti := mti ?st + 1\<rparr>)"
    unfolding genrand_int32_r_def st by (simp add: Let_def)
  moreover have "mt ?st ! mti ?st = ucast (mt_ref s n)"
    using k by auto
  moreover have "mt_pos s (n + 1) (?st\<lparr>mti := mti ?st + 1\<rparr>)"
    using k by (auto simp: mt_pos_def)
  ultimately show ?thesis
    using that by (simp add: temper_ucast)
qed

lemma genrand_many_step:
  "mt_pos s k st \<Longrightarrow>
     fst (genrand_many n st) = map (\<lambda>i. ucast (ref_temper (mt_ref s (k + i)))) [0..<n] \<and>
     mt_pos s (k + n) (snd (genrand_many n st))"
proof (induction n arbitrary: k st)
  case (Suc n)
  obtain st' where st': "genrand_int32_r st = (ucast (ref_temper (mt_ref s k)), st')"
      "mt_pos s (k + 1) st'"
    using genrand_int32_r_step [OF Suc.prems] .
  have eq: "map (\<lambda>i. ucast (ref_temper (mt_ref s (k + i)))) [0..<Suc n] =
      ucast (ref_temper (mt_ref s k)) # map (\<lambda>i. ucast (ref_temper (mt_ref s (k + 1 + i)))) [0..<n]"
    by (simp add: upt_conv_Cons map_Suc_upt [symmetric] del: upt_Suc)
  show ?case
    unfolding eq using Suc.IH [OF st'(2)] st'(1) by (simp add: split_beta Let_def)
qed simp

subsection \<open>Words stay within 32 bits\<close>

definition word32 :: "u64 \<Rightarrow> bool" where
  "word32 w \<longleftrightarrow> w < 2 ^ 32"

definition mt_ok :: "mt19937ar_state \<Rightarrow> bool" where
  "mt_ok st \<longleftrightarrow> length (mt st) = MT_N \<and> mti st \<le> MT_N + 1 \<and> (\<forall>w\<in>set (mt st). word32 w)"

lemma word32_ucast [simp]: "word32 (ucast (v :: u32))"
  unfolding word32_def word_less_nat_alt using unsigned_less [of v, where 'a = nat]
  by (simp add: unsigned_ucast_eq take_bit_eq_mod)

lemma word32_aux: "take_bit 32 w = w \<longleftrightarrow> w < (2 :: u64) ^ 32"
  unfolding word_unat_eq_iff unsigned_take_bit_eq word_less_nat_alt
  by (simp only: take_bit_nat_eq_self_iff) simp

lemma word32_iff: "word32 w \<longleftrightarrow> w = ucast (ucast w :: u32)"
proof -
  have "ucast (ucast w :: u32) = take_bit 32 w"
    using and_mask32 [of w] by (simp add: take_bit_eq_mask mask_eq_exp_minus_1)
  then show ?thesis
    by (simp add: word32_def word32_aux eq_commute [of w])
qed

lemma word32_cases: "word32 w \<Longrightarrow> (\<And>v :: u32. w = ucast v \<Longrightarrow> thesis) \<Longrightarrow> thesis"
  using word32_iff by blast

lemma word32_mask [simp]: "word32 (w AND 0xffffffff)"
  by (simp add: and_mask32)

lemma word32_twist: "word32 u \<Longrightarrow> word32 l \<Longrightarrow> word32 a \<Longrightarrow> word32 (twist u l a)"
  by (elim word32_cases) (simp add: twist_ucast)

lemma word32_temper: "word32 y \<Longrightarrow> word32 (temper y)"
  by (elim word32_cases) (simp add: temper_ucast)

definition words_ok :: "u64 list \<Rightarrow> bool" where
  "words_ok m \<longleftrightarrow> length m = MT_N \<and> (\<forall>w\<in>set m. word32 w)"

lemma words_ok_upd [simp, intro]: "words_ok m \<Longrightarrow> word32 w \<Longrightarrow> words_ok (m[i := w])"
  by (auto simp: words_ok_def dest!: set_update_subset_insert [THEN subsetD])

lemma words_ok_nth [simp, intro]: "words_ok m \<Longrightarrow> i < MT_N \<Longrightarrow> word32 (m ! i)"
  by (simp add: words_ok_def)

lemma words_ok_window [simp]: "words_ok (mt_window s k)"
  by (auto simp: words_ok_def mt_window_def)

lemma words_ok_loop1: "words_ok m \<Longrightarrow> words_ok (generate_loop1 m kk)"
proof (induction m kk rule: generate_loop1.induct)
  case (1 m kk)
  have "words_ok (m[kk := twist (m ! kk) (m ! (kk + 1)) (m ! (kk + MT_M))])" if "kk < MT_N - MT_M"
    using that 1(2) by (intro words_ok_upd word32_twist) auto
  then show ?case
    using 1 by (subst generate_loop1.simps) auto
qed

lemma words_ok_loop2: "words_ok m \<Longrightarrow> words_ok (generate_loop2 m kk)"
proof (induction m kk rule: generate_loop2.induct)
  case (1 m kk)
  have "words_ok (m[kk := twist (m ! kk) (m ! (kk + 1)) (m ! (kk - (MT_N - MT_M)))])" if "kk < MT_N - 1"
    using that 1(2) by (intro words_ok_upd word32_twist) auto
  then show ?case
    using 1 by (subst generate_loop2.simps) auto
qed

lemma words_ok_generate: "words_ok m \<Longrightarrow> words_ok (generate_words m)"
  by (auto simp: generate_words_def Let_def
      intro!: words_ok_upd word32_twist words_ok_loop1 words_ok_loop2)

lemma words_ok_array_loop1:
  "words_ok m \<Longrightarrow> 1 \<le> i \<Longrightarrow> i < MT_N \<Longrightarrow> init_by_array_loop1 key k m i j = (m', i') \<Longrightarrow>
     words_ok m' \<and> 1 \<le> i' \<and> i' < MT_N"
proof (induction key k m i j rule: init_by_array_loop1.induct)
  case (2 key k m i j)
  then show ?case
    by (auto simp: Let_def wrap_index_def split: if_splits prod.splits)
qed simp

lemma words_ok_array_loop2:
  "words_ok m \<Longrightarrow> 1 \<le> i \<Longrightarrow> i < MT_N \<Longrightarrow> init_by_array_loop2 k m i = (m', i') \<Longrightarrow>
     words_ok m' \<and> 1 \<le> i' \<and> i' < MT_N"
proof (induction k m i rule: init_by_array_loop2.induct)
  case (2 k m i)
  then show ?case
    by (auto simp: Let_def wrap_index_def split: if_splits prod.splits)
qed simp

lemma mt_ok_words: "mt_ok st \<longleftrightarrow> words_ok (mt st) \<and> mti st \<le> MT_N + 1"
  by (auto simp: mt_ok_def words_ok_def)

lemma mt_ok_init: "length (mt st) = MT_N \<Longrightarrow> mt_ok (init_genrand_r st s)"
  by (simp add: init_genrand_r_ref mt_ok_words)

lemma mt_ok_genrand:
  assumes "mt_ok st" and "genrand_int32_r st = (y, st')"
  shows "word32 y \<and> mt_ok st' \<and> 1 \<le> mti st' \<and> mti st' \<le> MT_N"
proof -
  define st1 where "st1 = (if MT_N \<le> mti st
      then let s1 = (if mti st = MT_N + 1 then init_genrand_r st 5489 else st)
           in \<lparr>mt = generate_words (mt s1), mti = 0\<rparr>
      else st)"
  have "words_ok (mt st)" and len: "length (mt st) = MT_N"
    using assms(1) by (auto simp: mt_ok_def words_ok_def)
  then have st1: "words_ok (mt st1)" "mti st1 < MT_N"
    using mt_ok_init [OF len] by (auto simp: st1_def Let_def mt_ok_words intro: words_ok_generate)
  moreover have "y = temper (mt st1 ! mti st1)" "st' = st1\<lparr>mti := mti st1 + 1\<rparr>"
    using assms(2) by (auto simp: genrand_int32_r_def st1_def Let_def)
  ultimately show ?thesis
    by (auto simp: mt_ok_words intro: word32_temper)
qed

lemma word32_half: "word32 y \<Longrightarrow> drop_bit 1 y < 2 ^ 31"
  by (simp only: word32_def word_less_nat_alt unat_drop_bit_eq) (simp add: drop_bit_eq_div)

lemma init_by_array_ok:
  assumes "length (mt st) = MT_N" and "key \<noteq> []"
  shows "ok (init_by_array st key) (\<lambda>st'. mt_ok st' \<and> mt st' ! 0 = 0x80000000)"
proof -
  let ?st = "init_genrand st 19650218"
  have st: "words_ok (mt ?st)" "mti ?st = MT_N"
    using assms(1) by (simp_all add: init_genrand_eq_r init_genrand_r_ref)
  obtain m1 i1 where 1: "init_by_array_loop1 key (max MT_N (length key)) (mt ?st) 1 0 = (m1, i1)"
    by fastforce
  obtain m2 i2 where 2: "init_by_array_loop2 (MT_N - 1) m1 i1 = (m2, i2)"
    by fastforce
  have "words_ok m1 \<and> 1 \<le> i1 \<and> i1 < MT_N"
    using words_ok_array_loop1 [OF st(1) _ _ 1] by simp
  then have "words_ok m2"
    using words_ok_array_loop2 [OF _ _ _ 2] by simp
  then have "words_ok (m2[0 := 0x80000000])" and "length m2 = MT_N"
    by (auto simp: words_ok_def word32_def dest!: set_update_subset_insert [THEN subsetD])
  then show ?thesis
    using assms(2) 1 2 st(2) by (simp add: init_by_array_def mt_ok_words)
qed

lemma ucast_up_inj: "(ucast (v :: u32) :: u64) = ucast w \<Longrightarrow> v = w"
proof (rule bit_word_eqI)
  fix n
  assume eq: "(ucast v :: u64) = ucast w" and n: "n < LENGTH(32)"
  then have "bit (ucast v :: u64) n = bit (ucast w :: u64) n"
    by simp
  then show "bit v n = bit w n"
    using n by (simp add: bit_simps)
qed

subsection \<open>A fast path through the seeding recurrence\<close>

fun seed_iter :: "u32 \<Rightarrow> nat \<Rightarrow> nat \<Rightarrow> u32" where
  "seed_iter p i 0 = p"
| "seed_iter p i (Suc n) = seed_iter (1812433253 * (p XOR drop_bit 30 p) + of_nat i) (Suc i) n"

lemma seed_iter_ref: "i + n < MT_N \<Longrightarrow> seed_iter (mt_ref s i) (Suc i) n = mt_ref s (i + n)"
proof (induction n arbitrary: i)
  case (Suc n)
  have "mt_ref s (Suc i) = 1812433253 * (mt_ref s i XOR drop_bit 30 (mt_ref s i)) + of_nat (Suc i)"
    using Suc.prems by (subst mt_ref.simps) (simp add: Let_def)
  then show ?case
    using Suc.IH [of "Suc i"] Suc.prems by simp
qed simp

lemma mt_ref_first_word:
  "mt_ref s MT_N = seed_iter s 1 397 XOR ref_twist s (seed_iter s 1 1)"
proof -
  have "mt_ref s 0 = s"
    by (simp add: mt_ref.simps)
  moreover have "mt_ref s MT_N = mt_ref s 397 XOR ref_twist (mt_ref s 0) (mt_ref s 1)"
    by (subst mt_ref.simps) simp
  ultimately show ?thesis
    using seed_iter_ref [of 0 397 s] seed_iter_ref [of 0 1 s] by simp
qed

subsection \<open>Tempering loses nothing\<close>

lemma shift_up_fixpoint:
  fixes d c :: u32
  assumes "d = push_bit n d AND c" and "0 < n"
  shows "d = 0"
proof (rule bit_word_eqI)
  fix i
  have "\<not> bit d i"
  proof (induction i rule: less_induct)
    case (less i)
    show ?case
    proof
      assume b: "bit d i"
      then have "bit (push_bit n d AND c) i"
        using assms(1) by simp
      then have "n \<le> i \<and> bit d (i - n)"
        by (simp add: bit_simps)
      then show False using less [of "i - n"] assms(2) by auto
    qed
  qed
  then show "bit d i = bit 0 i" by simp
qed

lemma shift_down_fixpoint:
  fixes d :: u32
  assumes "d = drop_bit n d" and "0 < n"
  shows "d = 0"
proof (rule bit_word_eqI)
  fix i
  have step: "bit d j \<Longrightarrow> bit d (n + j)" for j
    using assms(1) by (metis bit_drop_bit_eq comp_apply)
  have "bit d i \<Longrightarrow> bit d (k * n + i)" for k
    by (induction k) (auto dest: step simp: add.assoc)
  from this [of 32] have "\<not> bit d i"
    using assms(2) bit_imp_le_length [of d "32 * n + i"] by fastforce
  then show "bit d i = bit 0 i" by simp
qed

lemma xor_eq_iff: "a XOR b = c XOR d \<longleftrightarrow> a XOR c = b XOR (d :: u32)"
  unfolding bit_eq_iff bit_xor_iff by (intro iff_allI) auto

lemma xor_zero_iff: "a XOR b = 0 \<longleftrightarrow> a = (b :: u32)"
  by (metis xor.assoc xor_self_eq xor.left_neutral xor.right_neutral)

lemma inj_shift_down:
  assumes "0 < n" and "y XOR drop_bit n y = z XOR drop_bit n (z :: u32)"
  shows "y = z"
proof -
  have "y XOR z = drop_bit n (y XOR z)"
    unfolding drop_bit_xor by (rule xor_eq_iff [THEN iffD1, OF assms(2)])
  then show ?thesis
    using shift_down_fixpoint assms(1) xor_zero_iff by blast
qed

lemma inj_shift_up:
  assumes "0 < n" and "y XOR (push_bit n y AND c) = z XOR (push_bit n z AND (c :: u32))"
  shows "y = z"
proof -
  have "y XOR z = push_bit n (y XOR z) AND c"
    unfolding push_bit_xor bit.conj_xor_distrib2 by (rule xor_eq_iff [THEN iffD1, OF assms(2)])
  then show ?thesis
    using shift_up_fixpoint assms(1) xor_zero_iff by blast
qed

lemma ref_temper_inj: "ref_temper y = ref_temper z \<Longrightarrow> y = z"
  unfolding ref_temper_def Let_def
  by (drule inj_shift_down [rotated], simp, drule inj_shift_up [rotated], simp,
      drule inj_shift_up [rotated], simp, drule inj_shift_down [rotated], simp, assumption)

subsection \<open>Properties\<close>

text \<open>
  C13: After seeding with \<open>s\<close>, any number of calls of the generator return the tempered
  words of the reference recurrence: the batch-wise, in-place code over 64-bit words and
  the published recurrence over 32-bit words produce the same stream.
\<close>

theorem genrand_many_reference:
  assumes "length (mt st) = MT_N"
  shows "fst (genrand_many n (init_genrand_r st s)) =
     map (\<lambda>i. ucast (ref_temper (mt_ref (ucast s) (MT_N + i)))) [0..<n]"
  using genrand_many_step [OF mt_pos_init [OF assms]] by blast

theorem genrand_many_reference_witness:
  "length (mt mt_static_init) = MT_N \<and>
   fst (genrand_many 2 (init_genrand_r mt_static_init 1)) =
     [ucast (ref_temper (mt_ref 1 624)), ucast (ref_temper (mt_ref 1 625))]"
proof -
  have len: "length (mt mt_static_init) = MT_N"
    by (simp add: mt_static_init_def)
  show ?thesis
    using genrand_many_reference [OF len, of 2 1] len by (simp add: numeral_2_eq_2)
qed

text \<open>
  C31: The state invariant: 624 words of at most 32 bits and an index of at most 625.
  Seeding by a number (any array content) and by a non-empty key establish it, each
  generator call keeps it, and every output has at most 32 bits, 31 for \<open>genrand_int31\<close>.
\<close>

theorem mt_ok_invariant:
  assumes "length (mt st) = MT_N" and "key \<noteq> []" and "mt_ok g"
  shows "mt_ok (init_genrand_r st s) \<and> mt_ok (init_genrand st s) \<and>
    ok (init_by_array st key) (\<lambda>st'. mt_ok st' \<and> mt st' ! 0 = 0x80000000) \<and>
    (case genrand_int32_r g of (y, g') \<Rightarrow> y < 2 ^ 32 \<and> mt_ok g') \<and>
    (case genrand_int32 g of (y, g') \<Rightarrow> y < 2 ^ 32 \<and> mt_ok g') \<and>
    (case genrand_int31 g of (y, g') \<Rightarrow> y < 2 ^ 31 \<and> mt_ok g')"
proof -
  obtain y g' where g: "genrand_int32_r g = (y, g')"
    by fastforce
  then have "word32 y" and "mt_ok g'"
    using mt_ok_genrand [OF assms(3)] by auto
  then have "y < 2 ^ 32" and "drop_bit 1 y < 2 ^ 31" and "mt_ok g'"
    using word32_half by (simp_all only: word32_def)
  then show ?thesis
    using g mt_ok_init [OF assms(1)] init_by_array_ok [OF assms(1,2)]
    by (simp add: init_genrand_eq_r genrand_int32_eq_r genrand_int31_def)
qed

theorem mt_ok_invariant_witness:
  "mt_ok mt_static_init \<and> mt_ok (init_genrand_r mt_static_init 1) \<and>
   (case genrand_int32_r mt_static_init of (y, g') \<Rightarrow> y < 2 ^ 32 \<and> mt_ok g')"
proof -
  have st: "length (mt mt_static_init) = MT_N" "mt_ok mt_static_init"
    by (simp_all add: mt_static_init_def mt_ok_def word32_def)
  show ?thesis
    using mt_ok_invariant [OF st(1) _ st(2), of "[1]" 1] st(2) by simp
qed

text \<open>
  Tempering is injective on 32-bit words: distinct state words give distinct outputs,
  so no output value is lost.
\<close>

theorem temper_inj: "inj_on temper {y. y < 2 ^ 32}"
proof (rule inj_onI)
  fix y z :: u64
  assume "y \<in> {y. y < 2 ^ 32}" and "z \<in> {y. y < 2 ^ 32}" and eq: "temper y = temper z"
  then have "word32 y" and "word32 z"
    by (auto simp: word32_def)
  then obtain v w :: u32 where vw: "y = ucast v" "z = ucast w"
    by (metis word32_cases)
  then have "ref_temper v = ref_temper w"
    using eq ucast_up_inj by (auto simp: temper_ucast)
  then show "y = z"
    using ref_temper_inj vw by blast
qed

text \<open>
  Called without any seeding, the static generator seeds itself with 5489 and its
  first output is 3499211612, the value published for this generator.
\<close>

theorem genrand_int32_default_seed: "fst (genrand_int32 mt_static_init) = 3499211612"
proof -
  have len: "length (mt mt_static_init) = MT_N"
    by (simp add: mt_static_init_def)
  have "fst (genrand_int32 mt_static_init) = fst (genrand_int32_r (init_genrand_r mt_static_init 5489))"
    by (simp add: genrand_int32_eq_r genrand_int32_r_def init_genrand_r_ref [OF len] Let_def)
      (simp add: mt_static_init_def)
  also have "\<dots> = ucast (ref_temper (mt_ref 5489 MT_N))"
    using genrand_int32_r_step [OF mt_pos_init [OF len, of 5489]] by fastforce
  also have "ref_temper (mt_ref 5489 MT_N) = 3499211612"
    unfolding mt_ref_first_word by code_simp
  finally show ?thesis by simp
qed

end
