(* ===== verification/Rand_Gener.thy ===== *)
theory Rand_Gener
  imports Lcg Mt19937ar
begin

text \<open>
  The seedable generators behind \<^verbatim>\<open>rand_gener_t\<close> of \<^verbatim>\<open>replay.c\<close>: wrappers around the
  Mersenne Twister, the C library's \<^verbatim>\<open>rand_r\<close> (a parameter here) and the linear
  congruential generator. The locale \<open>seeded_rng\<close> is what a client relies on: after
  seeding, the numbers drawn depend on the seed alone.
\<close>

subsection \<open>Contexts and wrappers\<close>

text \<open>What \<^verbatim>\<open>ctx\<close> points to; \<open>CtxNull\<close> is the null pointer.\<close>

datatype rand_ctx = CtxNull | CtxMt mt19937ar_state | CtxInt i32

fun mt19937ar_seed_wrapper :: "rand_ctx \<Rightarrow> u32 \<Rightarrow> rand_ctx res" where
  "mt19937ar_seed_wrapper (CtxMt st) s = Inr (CtxMt (init_genrand_r st (ucast s)))"
| "mt19937ar_seed_wrapper _ s = Inl NullDeref"

fun mt19937ar_gen_wrapper :: "rand_ctx \<Rightarrow> (i32 \<times> rand_ctx) res" where
  "mt19937ar_gen_wrapper (CtxMt st) =
     (let (y, st') = genrand_int32_r st in Inr (ucast y, CtxMt st'))"
| "mt19937ar_gen_wrapper _ = Inl NullDeref"

fun stdlib_seed_wrapper :: "rand_ctx \<Rightarrow> u32 \<Rightarrow> rand_ctx res" where
  "stdlib_seed_wrapper (CtxInt x) s = Inr (CtxInt s)"
| "stdlib_seed_wrapper _ s = Inl NullDeref"

text \<open>
  \<^verbatim>\<open>rand_r\<close> returns a number and stores the next state through its argument; the
  assignment then overwrites that state with the number.
\<close>

fun stdlib_gen_wrapper :: "(u32 \<Rightarrow> i32 \<times> u32) \<Rightarrow> rand_ctx \<Rightarrow> (i32 \<times> rand_ctx) res" where
  "stdlib_gen_wrapper rand_r (CtxInt x) = (let r = fst (rand_r x) in Inr (r, CtxInt r))"
| "stdlib_gen_wrapper rand_r _ = Inl NullDeref"

fun lcg_seed_wrapper :: "rand_ctx \<Rightarrow> u32 \<Rightarrow> rand_ctx res" where
  "lcg_seed_wrapper (CtxInt x) s = Inr (CtxInt s)"
| "lcg_seed_wrapper _ s = Inl NullDeref"

fun lcg_gen_wrapper :: "rand_ctx \<Rightarrow> (i32 \<times> rand_ctx) res" where
  "lcg_gen_wrapper (CtxInt x) = (let r = lcg_rand_r x in Inr (r, CtxInt r))"
| "lcg_gen_wrapper _ = Inl NullDeref"

text \<open>\<^verbatim>\<open>rand_gener_t\<close>; a null function pointer is \<open>None\<close>.\<close>

record rand_gener =
  ctx :: rand_ctx
  fedseed :: "(rand_ctx \<Rightarrow> u32 \<Rightarrow> rand_ctx res) option"
  genrandom :: "(rand_ctx \<Rightarrow> (i32 \<times> rand_ctx) res) option"

datatype rand_type = RANDOM_NULL | RANDOM_MT19937AR | RANDOM_STDLIB | RANDOM_LCG

text \<open>
  The \<^verbatim>\<open>switch (rand_gener_type)\<close> of \<^verbatim>\<open>assign_params_per_worker\<close>. The context is fresh from
  \<^verbatim>\<open>malloc\<close>: \<open>junk\<close> and \<open>junk_int\<close> are its arbitrary contents.
\<close>

definition make_rand_gener ::
  "(u32 \<Rightarrow> i32 \<times> u32) \<Rightarrow> mt19937ar_state \<Rightarrow> i32 \<Rightarrow> rand_type \<Rightarrow> rand_gener" where
  "make_rand_gener rand_r junk junk_int rand_gener_type =
     (case rand_gener_type of
        RANDOM_MT19937AR \<Rightarrow> \<lparr>ctx = CtxMt junk, fedseed = Some mt19937ar_seed_wrapper,
          genrandom = Some mt19937ar_gen_wrapper\<rparr>
      | RANDOM_STDLIB \<Rightarrow> \<lparr>ctx = CtxInt junk_int, fedseed = Some stdlib_seed_wrapper,
          genrandom = Some (stdlib_gen_wrapper rand_r)\<rparr>
      | RANDOM_LCG \<Rightarrow> \<lparr>ctx = CtxInt junk_int, fedseed = Some lcg_seed_wrapper,
          genrandom = Some lcg_gen_wrapper\<rparr>
      | RANDOM_NULL \<Rightarrow> \<lparr>ctx = CtxNull, fedseed = None, genrandom = None\<rparr>)"

subsection \<open>The contract\<close>

text \<open>\<open>drawn c s n\<close>: \<open>c\<close> is a context that was seeded with \<open>s\<close> and drawn from \<open>n\<close> times.\<close>

locale seeded_rng =
  fixes valid :: "rand_ctx \<Rightarrow> bool"
    and drawn :: "rand_ctx \<Rightarrow> u32 \<Rightarrow> nat \<Rightarrow> bool"
    and stream :: "u32 \<Rightarrow> nat \<Rightarrow> u32"
    and seed :: "rand_ctx \<Rightarrow> u32 \<Rightarrow> rand_ctx res"
    and gen :: "rand_ctx \<Rightarrow> (i32 \<times> rand_ctx) res"
  assumes seed_law: "valid c \<Longrightarrow> ok (seed c s) (\<lambda>c'. drawn c' s 0)"
    and gen_law: "drawn c s n \<Longrightarrow> ok (gen c) (\<lambda>(r, c'). r = stream s n \<and> drawn c' s (Suc n))"
    and drawn_valid: "drawn c s n \<Longrightarrow> valid c"
subsection \<open>The three generators obey it\<close>

fun mt_valid :: "rand_ctx \<Rightarrow> bool" where
  "mt_valid (CtxMt st) \<longleftrightarrow> length (mt st) = MT_N"
| "mt_valid _ \<longleftrightarrow> False"

fun mt_drawn :: "rand_ctx \<Rightarrow> u32 \<Rightarrow> nat \<Rightarrow> bool" where
  "mt_drawn (CtxMt st) s n \<longleftrightarrow> mt_pos s (MT_N + n) st"
| "mt_drawn _ s n \<longleftrightarrow> False"

definition mt_stream :: "u32 \<Rightarrow> nat \<Rightarrow> u32" where
  "mt_stream s n = ref_temper (mt_ref s (MT_N + n))"

lemma ucast_ucast_u32 [simp]: "ucast (ucast (s :: u32) :: u64) = s"
  by (simp add: ucast_down_ucast_id is_down)

lemma mt_gen:
  assumes "mt_drawn c s n"
  shows "ok (mt19937ar_gen_wrapper c) (\<lambda>(r, c'). r = mt_stream s n \<and> mt_drawn c' s (Suc n))"
proof -
  obtain st where c: "c = CtxMt st" "mt_pos s (MT_N + n) st"
    using assms by (cases c) auto
  obtain st' where "genrand_int32_r st = (ucast (ref_temper (mt_ref s (MT_N + n))), st')"
      "mt_pos s (MT_N + n + 1) st'"
    using genrand_int32_r_step [OF c(2)] .
  then show ?thesis
    using c(1) by (simp add: mt_stream_def)
qed

interpretation mt_rng: seeded_rng mt_valid mt_drawn mt_stream mt19937ar_seed_wrapper mt19937ar_gen_wrapper
proof
  show "mt_valid c \<Longrightarrow> ok (mt19937ar_seed_wrapper c s) (\<lambda>c'. mt_drawn c' s 0)" for c s
    using mt_pos_init [of _ "ucast s"] by (cases c) auto
  show "mt_drawn c s n \<Longrightarrow> mt_valid c" for c s n
    by (cases c) (auto dest: mt_pos_length)
qed (rule mt_gen)

fun int_valid :: "rand_ctx \<Rightarrow> bool" where
  "int_valid (CtxInt x) \<longleftrightarrow> True"
| "int_valid _ \<longleftrightarrow> False"

text \<open>A generator whose whole state is the last number.\<close>

definition iter_drawn :: "(u32 \<Rightarrow> u32) \<Rightarrow> rand_ctx \<Rightarrow> u32 \<Rightarrow> nat \<Rightarrow> bool" where
  "iter_drawn f c s n \<longleftrightarrow> c = CtxInt ((f ^^ n) s)"

definition iter_stream :: "(u32 \<Rightarrow> u32) \<Rightarrow> u32 \<Rightarrow> nat \<Rightarrow> u32" where
  "iter_stream f s n = (f ^^ Suc n) s"

interpretation lcg_rng: seeded_rng int_valid "iter_drawn lcg_rand_r" "iter_stream lcg_rand_r"
    lcg_seed_wrapper lcg_gen_wrapper
proof
  show "int_valid c \<Longrightarrow> ok (lcg_seed_wrapper c s) (\<lambda>c'. iter_drawn lcg_rand_r c' s 0)" for c s
    by (cases c) (auto simp: iter_drawn_def)
qed (auto simp: iter_drawn_def iter_stream_def Let_def)

interpretation stdlib_rng: seeded_rng int_valid "iter_drawn (\<lambda>x. fst (rand_r x))"
    "iter_stream (\<lambda>x. fst (rand_r x))" stdlib_seed_wrapper "stdlib_gen_wrapper rand_r" for rand_r
proof
  show "int_valid c \<Longrightarrow> ok (stdlib_seed_wrapper c s) (\<lambda>c'. iter_drawn (\<lambda>x. fst (rand_r x)) c' s 0)" for c s
    by (cases c) (auto simp: iter_drawn_def)
qed (auto simp: iter_drawn_def iter_stream_def Let_def)

end
