(* ===== verification/Fill_Blk.thy ===== *)
theory Fill_Blk
  imports Rand_Gener Trace_Container
begin

text \<open>
  \<^verbatim>\<open>fill_blk\<close> of \<^verbatim>\<open>replay.c\<close>: the contents of a replayed block are computed from the
  fingerprint in the trace. The theorems say when it writes exactly one block,
  that the contents depend on the fingerprint only (equal fingerprints give equal
  blocks), and how much of the fingerprint they depend on.
\<close>

subsection \<open>Writing bytes\<close>

abbreviation (input) BLK_SIZE :: nat where "BLK_SIZE \<equiv> 4096"
abbreviation (input) BLK_SHIFT :: nat where "BLK_SHIFT \<equiv> 12"

text \<open>A store of consecutive bytes at an offset of a buffer.\<close>

definition write_bytes :: "u8 list \<Rightarrow> nat \<Rightarrow> u8 list \<Rightarrow> u8 list res" where
  "write_bytes buf off d =
     (if off + length d \<le> length buf then Inr (take off buf @ d @ drop (off + length d) buf)
      else Inl OutOfBounds)"

definition le_bytes32 :: "u32 \<Rightarrow> u8 list" where
  "le_bytes32 w = map (\<lambda>i. ucast (drop_bit (8 * i) w)) [0..<4]"

definition le_value32 :: "u8 list \<Rightarrow> u32" where
  "le_value32 d = ucast (d ! 0) OR push_bit 8 (ucast (d ! 1)) OR push_bit 16 (ucast (d ! 2)) OR
     push_bit 24 (ucast (d ! 3))"

text \<open>The values of \<^verbatim>\<open>j\<close> in \<^verbatim>\<open>for (j = 0; j < n; j += d)\<close>.\<close>

definition count_by :: "nat \<Rightarrow> nat \<Rightarrow> nat list" where
  "count_by d n = map (\<lambda>k. k * d) [0..<(n + d - 1) div d]"

subsection \<open>Filling a block\<close>

text \<open>The bytes of the fingerprint from character \<open>32 * i\<close> on.\<close>

definition md5_chunk :: "string \<Rightarrow> nat \<Rightarrow> u8 list" where
  "md5_chunk md i = take 32 (drop (32 * i) (map of_char md))"

text \<open>The two inner loops, writing at \<open>off\<close>.\<close>

definition fill_copy :: "u8 list \<Rightarrow> nat \<Rightarrow> nat \<Rightarrow> u8 list \<Rightarrow> u8 list res" where
  "fill_copy buf off blk_size_per_step d =
     foldR (\<lambda>j buf. write_bytes buf (off + j) d) (count_by 32 blk_size_per_step) buf"

definition fill_random ::
  "(rand_ctx \<Rightarrow> (i32 \<times> rand_ctx) res) \<Rightarrow> u8 list \<Rightarrow> nat \<Rightarrow> nat \<Rightarrow> rand_ctx \<Rightarrow> (u8 list \<times> rand_ctx) res" where
  "fill_random gen buf off blk_size_per_step c =
     foldR (\<lambda>j (buf, c).
       bindR (gen c) (\<lambda>(r, c').
       bindR (write_bytes buf (off + j) (le_bytes32 r)) (\<lambda>buf'. Inr (buf', c'))))
       (count_by 4 blk_size_per_step) (buf, c)"

text \<open>
  \<^verbatim>\<open>fill_blk(blk, md5, md5_len, rand_gener)\<close> with \<^verbatim>\<open>blk\<close> at offset \<open>off\<close> of the buffer
  and \<^verbatim>\<open>md5_len\<close> the length of the string. The generator's context is returned too.
\<close>

definition fill_blk :: "u8 list \<Rightarrow> nat \<Rightarrow> string \<Rightarrow> rand_gener \<Rightarrow> (u8 list \<times> rand_gener) res" where
  "fill_blk buf off md g =
     (let step = length md div 32 in
      bindR (guardR (step \<noteq> 0) DivByZero) (\<lambda>_.
      let blk_size_per_step = BLK_SIZE div step in
      bindR (foldR (\<lambda>i (buf, c).
          case genrandom g of
            None \<Rightarrow>
              bindR (fill_copy buf (off + i * blk_size_per_step) blk_size_per_step (md5_chunk md i)) (\<lambda>buf'.
              Inr (buf', c))
          | Some gen \<Rightarrow>
              (case fedseed g of None \<Rightarrow> Inl NullDeref
               | Some seed \<Rightarrow>
                  bindR (seed c (le_value32 (md5_chunk md i))) (\<lambda>c1.
                  fill_random gen buf (off + i * blk_size_per_step) blk_size_per_step c1)))
        [0..<step] (buf, ctx g)) (\<lambda>(buf', c').
      Inr (buf', g\<lparr>ctx := c'\<rparr>))))"

subsection \<open>Writing runs of bytes\<close>

text \<open>\<open>put_bytes\<close> is the buffer with the bytes from \<open>off\<close> on replaced.\<close>

definition put_bytes :: "u8 list \<Rightarrow> nat \<Rightarrow> u8 list \<Rightarrow> u8 list" where
  "put_bytes buf off d = take off buf @ d @ drop (off + length d) buf"

lemma length_put_bytes [simp]: "off + length d \<le> length buf \<Longrightarrow> length (put_bytes buf off d) = length buf"
  by (simp add: put_bytes_def)

lemma put_bytes_Nil [simp]: "off \<le> length buf \<Longrightarrow> put_bytes buf off [] = buf"
  by (simp add: put_bytes_def)

lemma put_bytes_append:
  "off + length d + length e \<le> length buf \<Longrightarrow>
     put_bytes (put_bytes buf off d) (off + length d) e = put_bytes buf off (d @ e)"
  by (simp add: put_bytes_def ac_simps)

lemma write_bytes_ok [simp]:
  "off + length d \<le> length buf \<Longrightarrow> write_bytes buf off d = Inr (put_bytes buf off d)"
  by (simp add: write_bytes_def put_bytes_def)

lemma length_le_bytes32 [simp]: "length (le_bytes32 w) = 4"
  by (simp add: le_bytes32_def)

lemma count_by_mult: "0 < d \<Longrightarrow> count_by d (n * d) = map (\<lambda>k. k * d) [0..<n]"
proof -
  assume d: "0 < d"
  then have "n * d + d - 1 = (d - 1) + n * d"
    by simp
  moreover have "((d - 1) + n * d) div d = n + (d - 1) div d"
    by (rule div_mult_self1) (use d in simp)
  moreover have "(d - 1) div d = 0"
    using d by simp
  ultimately have "(n * d + d - 1) div d = n"
    by (simp only: add_0_right)
  then show ?thesis
    by (simp add: count_by_def)
qed

lemma length_concat_const: "(\<And>x. x \<in> set xs \<Longrightarrow> length (f x) = n) \<Longrightarrow> length (concat (map f xs)) = length xs * n"
  by (induction xs) auto

text \<open>Writing pieces of equal length one after the other, each step also changing a state.\<close>

lemma write_pieces:
  assumes "off + n * k \<le> length buf" and "I 0 s" and "\<And>i. i < n \<Longrightarrow> length (d i) = k"
    and "\<And>i buf s. i < n \<Longrightarrow> I i s \<Longrightarrow> off + n * k \<le> length buf \<Longrightarrow>
      ok (f i (buf, s)) (\<lambda>(buf', s'). buf' = put_bytes buf (off + i * k) (d i) \<and> I (Suc i) s')"
  shows "ok (foldR f [0..<n] (buf, s))
    (\<lambda>(buf', s'). buf' = put_bytes buf off (concat (map d [0..<n])) \<and> I n s')"
proof (rule ok_foldR_upt [where I = "\<lambda>i (buf', s'). buf' = put_bytes buf off (concat (map d [0..<i])) \<and> I i s'"])
  fix i bs assume i: "i < n" and inv: "case bs of (buf', s') \<Rightarrow> buf' = put_bytes buf off (concat (map d [0..<i])) \<and> I i s'"
  obtain s' where bs: "bs = (put_bytes buf off (concat (map d [0..<i])), s')" "I i s'"
    using inv by (cases bs) auto
  have len: "length (concat (map d [0..<i])) = i * k"
    using i assms(3) by (subst length_concat_const [where n = k]) auto
  have "i * k + k \<le> n * k"
    using i by (metis Suc_leI add.commute mult_Suc mult_le_mono1)
  then have fits: "off + i * k + k \<le> length buf"
    using assms(1) by linarith
  have "ok (f i bs) (\<lambda>(buf', s''). buf' = put_bytes (put_bytes buf off (concat (map d [0..<i]))) (off + i * k) (d i) \<and> I (Suc i) s'')"
    unfolding bs(1) using i bs(2) fits len assms(1) by (intro assms(4)) auto
  then show "ok (f i bs) (\<lambda>(buf', s'). buf' = put_bytes buf off (concat (map d [0..<Suc i])) \<and> I (Suc i) s')"
    by (rule ok_mono) (use put_bytes_append [of off "concat (map d [0..<i])" "d i" buf] fits len assms(3) [OF i] in auto)
qed (use assms(1,2) in auto)


subsection \<open>One step of the block\<close>

lemma fill_copy_ok:
  assumes "length d = 32" and "off + n * 32 \<le> length buf"
  shows "fill_copy buf off (n * 32) d = Inr (put_bytes buf off (concat (replicate n d)))"
proof -
  have "ok (foldR (\<lambda>i (buf, u). bindR (write_bytes buf (off + i * 32) d) (\<lambda>buf'. Inr (buf', u))) [0..<n] (buf, ()))
    (\<lambda>(buf', u). buf' = put_bytes buf off (concat (map (\<lambda>_. d) [0..<n])) \<and> True)"
    using assms by (intro write_pieces [where k = 32]) auto
  moreover have "foldR (\<lambda>i (buf, u). bindR (write_bytes buf (off + i * 32) d) (\<lambda>buf'. Inr (buf', u))) is (buf, ()) =
      bindR (foldR (\<lambda>i buf. write_bytes buf (off + i * 32) d) is buf) (\<lambda>buf'. Inr (buf', ()))" for "is" and buf
    by (induction "is" arbitrary: buf) simp_all
  ultimately show ?thesis
    using count_by_mult [of 32 n]
    by (auto simp: fill_copy_def foldR_map ok_bindR_eq map_replicate_const elim!: okE)
qed

context seeded_rng
begin

text \<open>The random filling writes the numbers drawn from the stream of the seed.\<close>

lemma fill_random_ok:
  assumes "valid c" and "off + n * 4 \<le> length buf"
  shows "ok (bindR (seed c s) (\<lambda>c1. fill_random gen buf off (n * 4) c1))
    (\<lambda>(buf', c'). buf' = put_bytes buf off (concat (map (\<lambda>k. le_bytes32 (stream s k)) [0..<n])) \<and> valid c')"
proof (rule ok_bindR [OF seed_law [OF assms(1)]])
  fix c1 assume c1: "drawn c1 s 0"
  let ?f = "\<lambda>i (buf, c). bindR (gen c) (\<lambda>(r, c').
      bindR (write_bytes buf (off + i * 4) (le_bytes32 r)) (\<lambda>buf'. Inr (buf', c')))"
  have "ok (foldR ?f [0..<n] (buf, c1))
    (\<lambda>(buf', c'). buf' = put_bytes buf off (concat (map (\<lambda>k. le_bytes32 (stream s k)) [0..<n])) \<and> drawn c' s n)"
  proof (rule write_pieces [where k = 4 and I = "\<lambda>i c'. drawn c' s i", OF assms(2) c1])
    fix i c and buf :: "u8 list" assume i: "i < n" "drawn c s i" "off + n * 4 \<le> length buf"
    show "ok (?f i (buf, c))
        (\<lambda>(buf', s'). buf' = put_bytes buf (off + i * 4) (le_bytes32 (stream s i)) \<and> drawn s' s (Suc i))"
      using gen_law [OF i(2)] i(1,3) by (auto simp: ok_bindR_eq elim!: ok_mono)
  qed simp
  then show "ok (fill_random gen buf off (n * 4) c1)
    (\<lambda>(buf', c'). buf' = put_bytes buf off (concat (map (\<lambda>k. le_bytes32 (stream s k)) [0..<n])) \<and> valid c')"
    using count_by_mult [of 4 n] by (auto simp: fill_random_def foldR_map intro: drawn_valid elim!: ok_mono)
qed

end


subsection \<open>The whole block\<close>

text \<open>What a fingerprint chunk turns into, for the null generator and for a stream of numbers.\<close>

definition chunk_data :: "(u32 \<Rightarrow> nat \<Rightarrow> u32) option \<Rightarrow> nat \<Rightarrow> u8 list \<Rightarrow> u8 list" where
  "chunk_data strm n ch =
     (case strm of None \<Rightarrow> concat (replicate (n div 32) ch)
      | Some f \<Rightarrow> concat (map (\<lambda>k. le_bytes32 (f (le_value32 ch) k)) [0..<n div 4]))"

definition blk_data :: "(u32 \<Rightarrow> nat \<Rightarrow> u32) option \<Rightarrow> string \<Rightarrow> u8 list" where
  "blk_data strm md =
     concat (map (\<lambda>i. chunk_data strm (4096 div (length md div 32)) (md5_chunk md i)) [0..<length md div 32])"

text \<open>The generator of a type, and the stream it follows.\<close>

definition gener_stream :: "(u32 \<Rightarrow> i32 \<times> u32) \<Rightarrow> rand_type \<Rightarrow> (u32 \<Rightarrow> nat \<Rightarrow> u32) option" where
  "gener_stream rand_r t =
     (case t of RANDOM_NULL \<Rightarrow> None
      | RANDOM_MT19937AR \<Rightarrow> Some mt_stream
      | RANDOM_STDLIB \<Rightarrow> Some (iter_stream (\<lambda>x. fst (rand_r x)))
      | RANDOM_LCG \<Rightarrow> Some (iter_stream lcg_rand_r))"

definition gener_obeys :: "rand_gener \<Rightarrow> (u32 \<Rightarrow> nat \<Rightarrow> u32) option \<Rightarrow> bool" where
  "gener_obeys g strm \<longleftrightarrow>
     (case strm of None \<Rightarrow> genrandom g = None
      | Some f \<Rightarrow> \<exists>seed gen valid drawn. fedseed g = Some seed \<and> genrandom g = Some gen \<and>
          seeded_rng valid drawn f seed gen \<and> valid (ctx g))"

lemma make_rand_gener_obeys:
  "length (mt junk) = MT_N \<Longrightarrow> gener_obeys (make_rand_gener rand_r junk j t) (gener_stream rand_r t)"
  using mt_rng.seeded_rng_axioms lcg_rng.seeded_rng_axioms stdlib_rng.seeded_rng_axioms
  by (cases t) (fastforce simp: gener_obeys_def gener_stream_def make_rand_gener_def)+

text \<open>Fingerprint lengths whose step divides the block evenly: 1, 2, 4, 8, \<open>\<dots>\<close> chunks of 32.\<close>

definition md5_ok :: "string \<Rightarrow> bool" where
  "md5_ok md \<longleftrightarrow> (let step = length md div 32 in step \<noteq> 0 \<and> step dvd 128)"

lemma md5_step:
  assumes "md5_ok md"
  obtains n where "4096 div (length md div 32) = n * 32" and "length md div 32 * n = 128" and "0 < length md div 32"
proof -
  let ?s = "length md div 32"
  obtain n where n: "128 = ?s * n" and pos: "0 < ?s"
    using assms by (auto simp: md5_ok_def Let_def elim: dvdE)
  have "(4096 :: nat) = 128 * 32"
    by simp
  also have "\<dots> = ?s * (n * 32)"
    unfolding n by (simp add: mult.assoc)
  finally have "4096 div ?s = n * 32"
    using pos by (metis less_numeral_extra(3) nonzero_mult_div_cancel_left)
  then show ?thesis
    using that n pos by metis
qed


lemma length_md5_chunk: "i < length md div 32 \<Longrightarrow> length (md5_chunk md i) = 32"
  by (simp add: md5_chunk_def)

lemma length_chunk_data: "length ch = 32 \<Longrightarrow> length (chunk_data strm (n * 32) ch) = n * 32"
proof (cases strm)
  case None
  then show "length ch = 32 \<Longrightarrow> ?thesis"
    by (simp add: chunk_data_def length_concat sum_list_replicate)
next
  case (Some f)
  then show ?thesis
    by (simp add: chunk_data_def length_concat_const [where n = 4])
qed

lemma length_blk_data: "md5_ok md \<Longrightarrow> length (blk_data strm md) = 4096"
proof -
  assume md: "md5_ok md"
  obtain n where n: "4096 div (length md div 32) = n * 32" "length md div 32 * n = 128"
    using md5_step [OF md] .
  have "length (blk_data strm md) = length md div 32 * (n * 32)"
    unfolding blk_data_def n(1)
    by (subst length_concat_const [where n = "n * 32"]) (auto simp: length_chunk_data length_md5_chunk)
  then show ?thesis
    using n(2) by (metis mult.assoc numeral_times_numeral semiring_norm(12,13) mult_num_simps)
qed

text \<open>One iteration of the outer loop.\<close>

lemma fill_step_ok:
  assumes "gener_obeys (g\<lparr>ctx := c\<rparr>) strm" and "length ch = 32" and "off + n * 32 \<le> length buf"
  shows "ok (case genrandom g of
       None \<Rightarrow> bindR (fill_copy buf off (n * 32) ch) (\<lambda>buf'. Inr (buf', c))
     | Some gen \<Rightarrow> (case fedseed g of None \<Rightarrow> Inl NullDeref
         | Some seed \<Rightarrow> bindR (seed c (le_value32 ch)) (\<lambda>c1. fill_random gen buf off (n * 32) c1)))
    (\<lambda>(buf', c'). buf' = put_bytes buf off (chunk_data strm (n * 32) ch) \<and> gener_obeys (g\<lparr>ctx := c'\<rparr>) strm)"
proof (cases strm)
  case None
  then show ?thesis
    using assms by (simp add: gener_obeys_def fill_copy_ok chunk_data_def)
next
  case (Some f)
  then obtain seed gen valid drawn where g: "fedseed g = Some seed" "genrandom g = Some gen" "valid c"
      and rng: "seeded_rng valid drawn f seed gen"
    using assms(1) by (auto simp: gener_obeys_def)
  have eq: "n * 32 = n * 8 * 4" "n * 32 div 4 = n * 8"
    by simp_all
  have "ok (bindR (seed c (le_value32 ch)) (\<lambda>c1. fill_random gen buf off (n * 8 * 4) c1))
    (\<lambda>(buf', c'). buf' = put_bytes buf off (concat (map (\<lambda>k. le_bytes32 (f (le_value32 ch) k)) [0..<n * 8])) \<and> valid c')"
    by (rule seeded_rng.fill_random_ok [OF rng g(3)]) (use assms(3) in simp)
  then show ?thesis
    using g rng Some unfolding eq(1)
    by (auto simp: gener_obeys_def chunk_data_def mult.commute elim!: ok_mono)
qed

lemma fill_blk_ok:
  assumes "gener_obeys g strm" and "md5_ok md" and "off + 4096 \<le> length buf"
  shows "ok (fill_blk buf off md g) (\<lambda>(buf', g'). buf' = put_bytes buf off (blk_data strm md) \<and> gener_obeys g' strm)"
proof -
  obtain n where n: "4096 div (length md div 32) = n * 32" "length md div 32 * n = 128" "0 < length md div 32"
    using md5_step [OF assms(2)] .
  have total: "length md div 32 * (n * 32) = 4096"
    using n(2) by (metis mult.assoc numeral_times_numeral semiring_norm(12,13) mult_num_simps)
  let ?f = "\<lambda>i (buf, c).
          case genrandom g of
            None \<Rightarrow> bindR (fill_copy buf (off + i * (n * 32)) (n * 32) (md5_chunk md i)) (\<lambda>buf'. Inr (buf', c))
          | Some gen \<Rightarrow>
              (case fedseed g of None \<Rightarrow> Inl NullDeref
               | Some seed \<Rightarrow> bindR (seed c (le_value32 (md5_chunk md i))) (\<lambda>c1.
                  fill_random gen buf (off + i * (n * 32)) (n * 32) c1))"
  have "ok (foldR ?f [0..<length md div 32] (buf, ctx g)) (\<lambda>(buf', c').
      buf' = put_bytes buf off (concat (map (\<lambda>i. chunk_data strm (n * 32) (md5_chunk md i)) [0..<length md div 32])) \<and>
      gener_obeys (g\<lparr>ctx := c'\<rparr>) strm)"
  proof (rule write_pieces [where k = "n * 32" and I = "\<lambda>_ c'. gener_obeys (g\<lparr>ctx := c'\<rparr>) strm"])
    fix i c and buf :: "u8 list"
    assume i: "i < length md div 32" "gener_obeys (g\<lparr>ctx := c\<rparr>) strm" "off + length md div 32 * (n * 32) \<le> length buf"
    have "i * (n * 32) + n * 32 \<le> length md div 32 * (n * 32)"
      using i(1) by (metis Suc_leI add.commute mult_Suc mult_le_mono1)
    then show "ok (?f i (buf, c)) (\<lambda>(buf', s'). buf' = put_bytes buf (off + i * (n * 32))
        (chunk_data strm (n * 32) (md5_chunk md i)) \<and> gener_obeys (g\<lparr>ctx := s'\<rparr>) strm)"
      using fill_step_ok [OF i(2) length_md5_chunk [OF i(1)], of "off + i * (n * 32)" n buf] i(3) by simp
  next
    show "off + length md div 32 * (n * 32) \<le> length buf"
      unfolding total by (rule assms(3))
  qed (use assms in \<open>auto simp: length_chunk_data length_md5_chunk\<close>)
  then show ?thesis
    unfolding fill_blk_def Let_def n(1) blk_data_def using n(3) by (auto simp: ok_bindR_eq elim!: ok_mono)
qed

subsection \<open>How much of the fingerprint a block depends on\<close>

lemma concat_eq_pieces:
  assumes "\<And>i. i < n \<Longrightarrow> length (f i) = k" and "\<And>i. i < n \<Longrightarrow> length (g i) = k"
  shows "concat (map f [0..<n]) = concat (map g [0..<n]) \<longleftrightarrow> (\<forall>i<n. f i = g i)"
  using assms
proof (induction n)
  case (Suc n)
  have "length (concat (map f [0..<n])) = length (concat (map g [0..<n]))"
    using Suc.prems length_concat_const [of "[0..<n]" f k] length_concat_const [of "[0..<n]" g k] by auto
  then show ?case
    using Suc by (auto simp: less_Suc_eq)
qed simp

lemma replicate_eq: "concat (replicate n x) = concat (replicate n y) \<Longrightarrow> length x = length y \<Longrightarrow> 0 < n \<Longrightarrow> x = y"
  by (cases n) auto

lemma blk_data_eq:
  assumes "md5_ok md" and "length md' = length md"
    and "4096 div (length md div 32) = n * 32"
  shows "blk_data strm md = blk_data strm md' \<longleftrightarrow>
    (\<forall>i<length md div 32. chunk_data strm (n * 32) (md5_chunk md i) = chunk_data strm (n * 32) (md5_chunk md' i))"
  unfolding blk_data_def assms(2,3)
  by (rule concat_eq_pieces) (use assms(2) in \<open>auto simp: length_chunk_data length_md5_chunk\<close>)

lemma of_char_inj: "(of_char c :: u8) = of_char d \<longleftrightarrow> c = d"
proof -
  have "unat (of_char c :: u8) = of_char c" for c
    by (cases c) (auto simp: of_char_def unat_of_nat)
  then show ?thesis
    by (metis of_char_eq_iff)
qed

lemma le_value32_bytes: "le_value32 (le_bytes32 w) = w"
proof (rule bit_word_eqI)
  fix n assume "n < LENGTH(32)"
  then have "n < 8 \<or> 8 \<le> n \<and> n < 16 \<or> 16 \<le> n \<and> n < 24 \<or> 24 \<le> n \<and> n < 32"
    by auto
  then show "bit (le_value32 (le_bytes32 w)) n \<longleftrightarrow> bit w n"
    by (auto simp: le_value32_def le_bytes32_def bit_or_iff bit_push_bit_iff bit_ucast_iff bit_drop_bit_eq)
qed

lemma le_bytes32_inj: "le_bytes32 a = le_bytes32 b \<longleftrightarrow> a = b"
  by (metis le_value32_bytes)

lemma bit_u8_high [simp]: "8 \<le> n \<Longrightarrow> \<not> bit (w :: u8) n"
  by (auto dest: bit_imp_le_length)

lemma le_bytes32_value: "length d = 4 \<Longrightarrow> le_bytes32 (le_value32 d) = d"
proof (rule nth_equalityI)
  fix i assume d: "length d = 4" and "i < length (le_bytes32 (le_value32 d))"
  then have "i = 0 \<or> i = 1 \<or> i = 2 \<or> i = 3"
    by auto
  then show "le_bytes32 (le_value32 d) ! i = d ! i"
    by (auto simp: le_value32_def le_bytes32_def intro!: bit_word_eqI
        simp: bit_or_iff bit_push_bit_iff bit_ucast_iff bit_drop_bit_eq)
qed simp

text \<open>The seed is made of the first four characters of a chunk.\<close>

lemma le_value32_take: "4 \<le> length d \<Longrightarrow> le_value32 (take 4 d) = le_value32 d"
  by (simp add: le_value32_def)

lemma seed_eq_iff:
  assumes "4 \<le> length d" and "4 \<le> length e"
  shows "le_value32 d = le_value32 e \<longleftrightarrow> take 4 d = take 4 e"
proof
  assume "le_value32 d = le_value32 e"
  then have "le_bytes32 (le_value32 (take 4 d)) = le_bytes32 (le_value32 (take 4 e))"
    using assms by (simp add: le_value32_take)
  then show "take 4 d = take 4 e"
    using assms by (simp add: le_bytes32_value)
next
  assume "take 4 d = take 4 e"
  then show "le_value32 d = le_value32 e"
    using assms le_value32_take by metis
qed

lemma md5_chunk_take4: "i < length md div 32 \<Longrightarrow>
    take 4 (md5_chunk md i) = map of_char (take 4 (drop (32 * i) md))"
  by (simp add: md5_chunk_def take_map drop_map min_def)

lemma md5_prefix_eq:
  assumes "i < length md div 32" and "length md' = length md"
  shows "le_value32 (md5_chunk md i) = le_value32 (md5_chunk md' i) \<longleftrightarrow>
    take 4 (drop (32 * i) md) = take 4 (drop (32 * i) md')"
  using assms
  by (simp add: seed_eq_iff length_md5_chunk md5_chunk_take4 inj_map_eq_map inj_def of_char_inj)

text \<open>The first number of the linear congruential generator shows the seed modulo \<open>2 ^ 31\<close>.\<close>

lemma lcg_step_invert: "(((x * 1103515245 + 12345) mod 2 ^ 31 + (2 ^ 31 - 12345)) * 1857678181) mod 2 ^ 31 = x mod (2 ^ 31 :: nat)"
proof -
  have "(((x * 1103515245 + 12345) mod 2 ^ 31 + (2 ^ 31 - 12345)) * 1857678181) mod 2 ^ 31 =
      ((x * 1103515245 + 12345 + (2 ^ 31 - 12345)) * 1857678181) mod (2 ^ 31 :: nat)"
    by (subst mod_mult_left_eq [symmetric], subst mod_add_left_eq, subst mod_mult_left_eq, rule refl)
  also have "(x * 1103515245 + 12345 + (2 ^ 31 - 12345)) * 1857678181 = x + (x * 954594553 + 1857678181) * (2 ^ 31 :: nat)"
    by (simp add: algebra_simps)
  finally show ?thesis
    by (simp only: mod_mult_self1)
qed

lemma lcg_rand_r_inj:
  assumes "lcg_rand_r a = lcg_rand_r b" and "unat a < 2 ^ 31" and "unat b < 2 ^ 31"
  shows "a = b"
proof -
  have "unat a mod 2 ^ 31 = unat b mod 2 ^ 31"
    using lcg_step_invert [of "unat a"] lcg_step_invert [of "unat b"] unat_lcg [of a] unat_lcg [of b] assms(1)
    by simp
  then show ?thesis
    using assms(2,3) by (simp add: word_unat_eq_iff)
qed


lemma bit_of_char_7: "bit (of_char c :: u8) 7 \<longleftrightarrow> digit7 c"
  by (simp add: of_char_def bit_horner_sum_bit_word_iff)

lemma seed_small:
  assumes "\<not> bit (d ! 3) 7"
  shows "unat (le_value32 d) < 2 ^ 31"
proof -
  have "\<not> bit (le_value32 d) 31"
    using assms by (simp add: le_value32_def bit_or_iff bit_push_bit_iff bit_ucast_iff)
  then have "n < 32 \<Longrightarrow> bit (le_value32 d) n \<Longrightarrow> n < 31" for n
    by (cases "n = 31") auto
  then have "take_bit 31 (le_value32 d) = le_value32 d"
    by (intro bit_word_eqI) (auto simp: bit_take_bit_iff)
  then have "unat (le_value32 d) = take_bit 31 (unat (le_value32 d))"
    by (metis unsigned_take_bit_eq)
  then show ?thesis
    by (metis take_bit_nat_less_exp)
qed

lemma chunk_ascii: "i < length md div 32 \<Longrightarrow> \<forall>c\<in>set md. \<not> digit7 c \<Longrightarrow> \<not> bit (md5_chunk md i ! 3) 7"
  by (auto simp: md5_chunk_def bit_of_char_7)

lemma chunk_data_seed: "le_value32 ch = le_value32 ch' \<Longrightarrow> chunk_data (Some f) n ch = chunk_data (Some f) n ch'"
  by (simp add: chunk_data_def)

lemma lcg_chunk_seed:
  assumes "chunk_data (Some (iter_stream lcg_rand_r)) (n * 32) ch = chunk_data (Some (iter_stream lcg_rand_r)) (n * 32) ch'"
    and "0 < n" and "\<not> bit (ch ! 3) 7" and "\<not> bit (ch' ! 3) 7"
  shows "le_value32 ch = le_value32 ch'"
proof -
  have "le_bytes32 (iter_stream lcg_rand_r (le_value32 ch) 0) = le_bytes32 (iter_stream lcg_rand_r (le_value32 ch') 0)"
    using assms(1,2)
    by (auto simp: chunk_data_def concat_eq_pieces [where k = 4])
  then show ?thesis
    using lcg_rand_r_inj [OF _ seed_small seed_small] assms(3,4) by (simp add: le_bytes32_inj iter_stream_def)
qed

subsection \<open>When the filling stays inside the block\<close>

lemma write_outside:
  "\<exists>j\<in>set js. length buf < off + j + length d \<Longrightarrow>
     foldR (\<lambda>j buf. write_bytes buf (off + j) d) js buf = Inl OutOfBounds"
proof (induction js arbitrary: buf)
  case (Cons j js)
  then show ?case
    by (cases "off + j + length d \<le> length buf") (auto simp: write_bytes_def)
qed simp

lemma fill_copy_length:
  assumes "length d = 32" and "off + ((n + 31) div 32) * 32 \<le> length buf"
  shows "ok (fill_copy buf off n d) (\<lambda>buf'. length buf' = length buf)"
proof -
  have "fill_copy buf off n d = fill_copy buf off (((n + 31) div 32) * 32) d"
    using count_by_mult [of 32 "(n + 31) div 32"] by (simp add: fill_copy_def count_by_def add.commute)
  also have "\<dots> = Inr (put_bytes buf off (concat (replicate ((n + 31) div 32) d)))"
    using assms by (rule fill_copy_ok)
  finally show ?thesis
    using assms by (simp add: length_concat sum_list_replicate)
qed

lemma fill_copy_outside:
  assumes "length d = 32" and "length buf < off + ((n + 31) div 32) * 32" and "0 < n"
  shows "fill_copy buf off n d = Inl OutOfBounds"
  unfolding fill_copy_def
proof (rule write_outside)
  let ?m = "(n + 31) div 32"
  have m: "0 < ?m"
    using assms(3) by (simp add: div_greater_zero_iff)
  then have "(?m - 1) * 32 \<in> set (count_by 32 n)"
    by (simp add: count_by_def)
  moreover have "(?m - 1) * 32 + 32 = ?m * 32"
    using m by (metis Suc_pred' mult_Suc add.commute)
  ultimately show "\<exists>j\<in>set (count_by 32 n). length buf < off + j + length d"
    using assms(1,2) by (metis add.assoc)
qed

lemma fill_blk_null_unroll:
  assumes "genrandom g = None" and "length md div 32 = step" and "step \<noteq> 0"
  shows "fill_blk buf off md g = bindR (foldR (\<lambda>i (buf, c).
      bindR (fill_copy buf (off + i * (4096 div step)) (4096 div step) (md5_chunk md i)) (\<lambda>buf'. Inr (buf', c)))
    [0..<step] (buf, ctx g)) (\<lambda>(buf', c'). Inr (buf', g\<lparr>ctx := c'\<rparr>))"
  using assms by (simp add: fill_blk_def Let_def)

text \<open>
  All steps but the last fit; the last one runs over the end of a buffer that ends with the
  block.
\<close>

lemma fill_blk_null_overrun:
  assumes g: "genrandom g = None" and step: "length md div 32 = Suc s" and len: "length buf = off + 4096"
    and fits1: "(s - 1) * k + ((k + 31) div 32) * 32 \<le> 4096" and over: "4096 < s * k + ((k + 31) div 32) * 32"
    and k: "k = 4096 div Suc s" "0 < k"
  shows "fill_blk buf off md g = Inl OutOfBounds"
proof -
  have fits: "i < s \<Longrightarrow> i * k + ((k + 31) div 32) * 32 \<le> 4096" for i
    using fits1 mult_le_mono1 [of i "s - 1" k] by linarith
  let ?f = "\<lambda>i (buf, c). bindR (fill_copy buf (off + i * k) k (md5_chunk md i)) (\<lambda>buf'. Inr (buf', c))"
  have "ok (foldR ?f [0..<s] (buf, ctx g)) (\<lambda>(buf', c). length buf' = off + 4096)"
  proof (rule ok_foldR_upt [where I = "\<lambda>_ (buf', c). length buf' = off + 4096"])
    fix i and bc :: "u8 list \<times> rand_ctx" assume "i < s" and "case bc of (buf', c) \<Rightarrow> length buf' = off + 4096"
    then show "ok (?f i bc) (\<lambda>(buf', c). length buf' = off + 4096)"
      using fits step length_md5_chunk [of i md]
      by (auto simp: ok_bindR_eq elim!: ok_mono [OF fill_copy_length])
  qed (use len in auto)
  then obtain buf' c where r: "foldR ?f [0..<s] (buf, ctx g) = Inr (buf', c)" "length buf' = off + 4096"
    by (auto elim!: okE)
  have "?f s (buf', c) = Inl OutOfBounds"
    using fill_copy_outside [of "md5_chunk md s" buf' "off + s * k" k] r(2) over k(2) step by (simp add: length_md5_chunk)
  then show ?thesis
    using r(1) fill_blk_null_unroll [OF g step] k(1) by (simp add: foldR_append)
qed


lemma chunks_bad:
  assumes "\<not> md5_ok md" and "length md \<le> 256" and "32 \<le> length md"
  shows "\<exists>s\<in>{2, 4, 5, 6}. length md div 32 = Suc s"
proof -
  have "length md div 32 \<le> 8" "1 \<le> length md div 32"
    using assms(2,3) by linarith+
  then have "length md div 32 \<in> {1, 2, 3, 4, 5, 6, 7, 8}"
    by auto
  then show ?thesis
    using assms(1) by (auto simp: md5_ok_def Let_def)
qed

lemma put_bytes_inj:
  "off + length d \<le> length buf \<Longrightarrow> length e = length d \<Longrightarrow> put_bytes buf off d = put_bytes buf off e \<longleftrightarrow> d = e"
  by (simp add: put_bytes_def)

lemma md5_ok_length: "md5_ok md \<Longrightarrow> length md' = length md \<Longrightarrow> md5_ok md'"
  by (simp add: md5_ok_def)

text \<open>Two fillings agree exactly when the data written do.\<close>

lemma fill_blk_eq_iff:
  assumes "gener_obeys g strm" and "md5_ok md" and "length md' = length md" and "off + 4096 \<le> length buf"
  shows "map_sum id fst (fill_blk buf off md g) = map_sum id fst (fill_blk buf off md' g) \<longleftrightarrow>
    blk_data strm md = blk_data strm md'"
  using fill_blk_ok [OF assms(1,2,4)] fill_blk_ok [OF assms(1) md5_ok_length [OF assms(2,3)] assms(4)]
    put_bytes_inj [of off "blk_data strm md" buf "blk_data strm md'"] assms(2,4) md5_ok_length [OF assms(2,3)]
  by (auto simp: length_blk_data elim!: okE)

lemma blk_data_None_inj:
  assumes "md5_ok md" and "length md' = length md" and "32 dvd length md"
  shows "blk_data None md = blk_data None md' \<longleftrightarrow> md = md'"
proof
  assume eq: "blk_data None md = blk_data None md'"
  obtain n where n: "4096 div (length md div 32) = n * 32" "length md div 32 * n = 128"
    using md5_step [OF assms(1)] .
  have "0 < n"
    using n(2) by (cases n) auto
  have chunks: "md5_chunk md i = md5_chunk md' i" if "i < length md div 32" for i
    using eq that \<open>0 < n\<close> replicate_eq [of n "md5_chunk md i" "md5_chunk md' i"] assms(2)
    unfolding blk_data_eq [OF assms(1,2) n(1)]
    by (auto simp: chunk_data_def length_md5_chunk)
  have "map of_char md ! j = (map of_char md' ! j :: u8)" if "j < length md" for j
  proof -
    have i: "j div 32 < length md div 32"
      using that assms(3) by (metis dvd_mult_div_cancel div_less_iff_less_mult mult.commute zero_less_numeral)
    have "32 * (j div 32) + j mod 32 = j"
      by simp
    then have "md5_chunk md (j div 32) ! (j mod 32) = map of_char md ! j"
      and "md5_chunk md' (j div 32) ! (j mod 32) = map of_char md' ! j"
      using that assms(2) by (simp_all add: md5_chunk_def)
    then show ?thesis
      using chunks [OF i] by simp
  qed
  then have "map of_char md = (map of_char md' :: u8 list)"
    using assms(2) by (intro nth_equalityI) auto
  then show "md = md'"
    by (simp add: inj_map_eq_map inj_def of_char_inj)
qed simp

lemma blk_data_lcg:
  assumes "md5_ok md" and "length md' = length md" and "\<forall>c\<in>set md \<union> set md'. \<not> digit7 c"
  shows "blk_data (Some (iter_stream lcg_rand_r)) md = blk_data (Some (iter_stream lcg_rand_r)) md' \<longleftrightarrow>
    (\<forall>i<length md div 32. take 4 (drop (32 * i) md) = take 4 (drop (32 * i) md'))"
proof -
  obtain n where n: "4096 div (length md div 32) = n * 32" "length md div 32 * n = 128"
    using md5_step [OF assms(1)] .
  have "0 < n"
    using n(2) by (cases n) auto
  have "chunk_data (Some (iter_stream lcg_rand_r)) (n * 32) (md5_chunk md i) =
        chunk_data (Some (iter_stream lcg_rand_r)) (n * 32) (md5_chunk md' i) \<longleftrightarrow>
      le_value32 (md5_chunk md i) = le_value32 (md5_chunk md' i)" if "i < length md div 32" for i
    using lcg_chunk_seed [OF _ \<open>0 < n\<close>] chunk_data_seed chunk_ascii [of i md] chunk_ascii [of i md'] that assms(2,3)
    by (metis UnCI)
  then show ?thesis
    unfolding blk_data_eq [OF assms(1,2) n(1)] using md5_prefix_eq [OF _ assms(2)]
    by simp
qed

subsection \<open>Properties\<close>

definition mt_junk :: mt19937ar_state where
  "mt_junk = \<lparr>mt = replicate MT_N 0, mti = 0\<rparr>"

lemma length_mt_junk [simp]: "length (mt mt_junk) = MT_N"
  by (simp add: mt_junk_def)

text \<open>
  C17: Block contents are a function of the fingerprint. A worker fills any number of blocks, one
  after the other, with the same generator. Every call returns and replaces exactly the 4096
  bytes of its block by \<open>blk_data\<close> of the fingerprint, for all four generators, whatever was in
  the malloc'ed context and whatever was drawn for the earlier blocks.
\<close>

theorem fill_blk_sequence:
  assumes "length (mt junk) = MT_N" and "\<forall>(off, md)\<in>set jobs. md5_ok md \<and> off + 4096 \<le> length buf"
  shows "ok (foldR (\<lambda>(off, md) (buf, g). fill_blk buf off md g) jobs
      (buf, make_rand_gener rand_r junk junk_int t))
    (\<lambda>(buf', g'). buf' = fold (\<lambda>(off, md) buf. put_bytes buf off (blk_data (gener_stream rand_r t) md)) jobs buf \<and>
      length buf' = length buf)"
proof -
  let ?strm = "gener_stream rand_r t"
  have "ok (foldR (\<lambda>(off, md) (buf, g). fill_blk buf off md g) jobs (buf, make_rand_gener rand_r junk junk_int t))
    (\<lambda>(buf', g'). buf' = fold (\<lambda>(off, md) buf. put_bytes buf off (blk_data ?strm md)) jobs buf \<and>
      length buf' = length buf \<and> gener_obeys g' ?strm)"
  proof (rule ok_foldR [where I = "\<lambda>d (buf', g'). buf' = fold (\<lambda>(off, md) buf. put_bytes buf off (blk_data ?strm md)) d buf \<and>
      length buf' = length buf \<and> gener_obeys g' ?strm"])
    fix d and x :: "nat \<times> string" and rest bg
    assume jobs: "jobs = d @ x # rest"
      and inv: "case bg of (buf', g') \<Rightarrow> buf' = fold (\<lambda>(off, md) buf. put_bytes buf off (blk_data ?strm md)) d buf \<and>
        length buf' = length buf \<and> gener_obeys g' ?strm"
    have "md5_ok (snd x)" "fst x + 4096 \<le> length buf"
      using assms(2) jobs by auto
    then show "ok ((case x of (off, md) \<Rightarrow> \<lambda>(buf, g). fill_blk buf off md g) bg) (\<lambda>(buf', g').
        buf' = fold (\<lambda>(off, md) buf. put_bytes buf off (blk_data ?strm md)) (d @ [x]) buf \<and>
        length buf' = length buf \<and> gener_obeys g' ?strm)"
      using inv by (auto simp: split_beta length_blk_data elim!: ok_mono [OF fill_blk_ok])
  qed (simp add: make_rand_gener_obeys [OF assms(1)])
  then show ?thesis
    by (rule ok_mono) auto
qed

theorem fill_blk_sequence_witness:
  "ok (foldR (\<lambda>(off, md) (buf, g). fill_blk buf off md g) [(0, replicate 32 CHR ''a''), (4096, replicate 64 CHR ''b'')]
      (replicate 8192 0, make_rand_gener (\<lambda>x. (x, x)) mt_junk 7 RANDOM_MT19937AR))
    (\<lambda>(buf', g'). length buf' = 8192)"
  using fill_blk_sequence [of mt_junk "[(0, replicate 32 CHR ''a''), (4096, replicate 64 CHR ''b'')]" "replicate 8192 0"
      "\<lambda>x. (x, x)" 7 RANDOM_MT19937AR]
  by (auto simp: md5_ok_def Let_def simp del: foldR.simps elim!: ok_mono)

text \<open>
  Without a generator, two fingerprints of the same admissible length (a multiple of 32
  characters) give the same block exactly when they are equal: the replay keeps distinct
  contents distinct.
\<close>

theorem fill_blk_null_injective:
  assumes "genrandom g = None" and "md5_ok md" and "length md' = length md" and "32 dvd length md"
    and "off + 4096 \<le> length buf"
  shows "map_sum id fst (fill_blk buf off md g) = map_sum id fst (fill_blk buf off md' g) \<longleftrightarrow> md = md'"
  using fill_blk_eq_iff [of g None] blk_data_None_inj [OF assms(2-4)] assms by (simp add: gener_obeys_def)

theorem fill_blk_null_injective_witness:
  "let g = make_rand_gener (\<lambda>x. (x, x)) mt_junk 0 RANDOM_NULL in
     map_sum id fst (fill_blk (replicate 4096 0) 0 (replicate 32 CHR ''a'') g) \<noteq>
     map_sum id fst (fill_blk (replicate 4096 0) 0 (replicate 32 CHR ''b'') g)"
  using fill_blk_null_injective [of "make_rand_gener (\<lambda>x. (x, x)) mt_junk 0 RANDOM_NULL"
      "replicate 32 CHR ''a''" "replicate 32 CHR ''b''" 0 "replicate 4096 0"]
  by (simp add: make_rand_gener_def md5_ok_def Let_def)

text \<open>
  C36: With the linear congruential generator, two (ASCII) fingerprints of the same admissible length
  give the same block exactly when the first four characters of every 32-character chunk
  agree: the other 28 characters of a chunk do not influence the block, so different
  fingerprints can be replayed as duplicates.
\<close>

theorem fill_blk_lcg_collision:
  assumes "md5_ok md" and "length md' = length md" and "\<forall>c\<in>set md \<union> set md'. \<not> digit7 c"
    and "off + 4096 \<le> length buf" and "length (mt junk) = MT_N"
  shows "(let g = make_rand_gener rand_r junk junk_int RANDOM_LCG in
      map_sum id fst (fill_blk buf off md g) = map_sum id fst (fill_blk buf off md' g)) \<longleftrightarrow>
    (\<forall>i<length md div 32. take 4 (drop (32 * i) md) = take 4 (drop (32 * i) md'))"
  using fill_blk_eq_iff [OF make_rand_gener_obeys [OF assms(5)] assms(1,2,4), of rand_r junk_int RANDOM_LCG]
    blk_data_lcg [OF assms(1-3)] by (simp add: gener_stream_def Let_def)

theorem fill_blk_lcg_collision_witness:
  "let g = make_rand_gener (\<lambda>x. (x, x)) mt_junk 0 RANDOM_LCG in
     map_sum id fst (fill_blk (replicate 4096 0) 0 (''aaaa'' @ replicate 28 CHR ''b'') g) =
     map_sum id fst (fill_blk (replicate 4096 0) 0 (''aaaa'' @ replicate 28 CHR ''c'') g)"
  using fill_blk_lcg_collision [of "''aaaa'' @ replicate 28 CHR ''b''" "''aaaa'' @ replicate 28 CHR ''c''"
      0 "replicate 4096 0" mt_junk "\<lambda>x. (x, x)" 0]
  by (simp add: md5_ok_def Let_def)

text \<open>
  For which fingerprints the filling is defined. For a fingerprint that fits the 257-byte
  field and a buffer that ends with the block, \<open>fill_blk\<close> without a generator returns exactly
  when the number of 32-character chunks is 1, 2, 4 or 8. With fewer than 32 characters it
  divides by zero; with 3, 5, 6 or 7 chunks the copies run past the end of the block.
\<close>

theorem fill_blk_null_defined:
  assumes "genrandom g = None" and "length md \<le> 256" and "length buf = off + 4096"
  shows "map_sum id fst (fill_blk buf off md g) =
    (if length md < 32 then Inl DivByZero
     else if md5_ok md then Inr (put_bytes buf off (blk_data None md))
     else Inl OutOfBounds)"
proof (cases "md5_ok md")
  case True
  then have "32 \<le> length md"
    by (auto simp: md5_ok_def Let_def intro: leI)
  then show ?thesis
    using fill_blk_ok [of g None md off buf] assms True by (auto simp: gener_obeys_def elim!: okE)
next
  case False
  show ?thesis
  proof (cases "length md < 32")
    case True
    then show ?thesis
      by (simp add: fill_blk_def Let_def guardR_def)
  next
    case long: False
    obtain s where "length md div 32 = Suc s" "s \<in> {2, 4, 5, 6}"
      using chunks_bad [OF False assms(2)] long by auto
    then have "fill_blk buf off md g = Inl OutOfBounds"
      using fill_blk_null_overrun [OF assms(1) _ assms(3), of md s "4096 div Suc s"]
      by auto
    then show ?thesis
      using long False by simp
  qed
qed

theorem fill_blk_null_defined_witness:
  "map_sum id fst (fill_blk (replicate 4096 0) 0 (replicate 96 CHR ''a'') (make_rand_gener (\<lambda>x. (x, x)) mt_junk 0 RANDOM_NULL)) =
     Inl OutOfBounds"
  using fill_blk_null_defined [of "make_rand_gener (\<lambda>x. (x, x)) mt_junk 0 RANDOM_NULL" "replicate 96 CHR ''a''" "replicate 4096 0" 0]
  by (simp add: make_rand_gener_def md5_ok_def Let_def)

end
