(* ===== verification/Assign.thy ===== *)
theory Assign
  imports Trace_Build Fill_Blk Decimal
begin

text \<open>
  \<^verbatim>\<open>assign_params_per_worker\<close> of \<^verbatim>\<open>replay.c\<close>: the containers are dealt out to the workers
  in the order of the sorted map, each worker's records are sorted by time, and runs of
  consecutive blocks are described by hints. \<^verbatim>\<open>rand\<close> of the C library is a parameter:
  \<open>rnd k\<close> is what its call number \<open>k\<close> returns.
\<close>

subsection \<open>Data\<close>

record trace_replay_hint =
  continuous_blks :: nat
  start_trace_line :: nat
  hint_rw :: char

datatype replay_mode = REPLAY_WRITEONLY | REPLAY_READWRITE | REPLAY_APPEND

text \<open>The global variables that the options set.\<close>

record replay_config =
  threads :: nat
  max_continuous_4K_blks :: u64
  rand_gener_type :: rand_type
  cfg_mode :: replay_mode
  cfg_dstpath :: string
  dump_read_path :: "string option"
  verbose :: bool

text \<open>
  \<^verbatim>\<open>replay_param_t\<close>. The array of hints is shared by all workers and passed separately; of the
  buffer only its length is of interest, its contents are uninitialised.
\<close>

record replay_param =
  param_tc :: trace_container
  hints_start :: nat
  hints_end :: nat
  buf_len :: nat
  dstfilepath :: string
  drfilepath :: string
  param_gener :: rand_gener
  param_mode :: replay_mode

abbreviation (input) MAX_NAME_LEN :: nat where "MAX_NAME_LEN \<equiv> 256"

text \<open>\<^verbatim>\<open>trace_container_cmp\<close>: the difference of two addresses, cut down to an \<^verbatim>\<open>int\<close>.\<close>

definition trace_container_cmp :: "memory \<Rightarrow> ptr \<Rightarrow> ptr \<Rightarrow> int" where
  "trace_container_cmp mem a b =
     (let lba_a = le_value (load_bytes mem a 8); lba_b = le_value (load_bytes mem b 8) in
      sint (ucast (lba_a - lba_b) :: i32))"

subsection \<open>Dealing out the containers\<close>

record assign_state =
  cur_thread :: nat
  cur_thread_lines :: u64
  worker_tcs :: "trace_container list"
  tc_store :: tc_heap
  draws :: nat

text \<open>
  The first half of the loop body: possibly go on to the next worker. \<^verbatim>\<open>threads - 1\<close> is
  written \<open>cur_thread + 1 \<noteq> threads\<close>.
\<close>

definition maybe_next_thread :: "nat \<Rightarrow> u64 \<Rightarrow> (nat \<Rightarrow> nat) \<Rightarrow> nat \<Rightarrow> assign_state \<Rightarrow> assign_state res" where
  "maybe_next_thread nthreads per_thread_lines rnd sz st =
     (if cur_thread st + 1 \<noteq> nthreads \<and> of_nat sz + cur_thread_lines st > per_thread_lines then
        bindR (guardR (sz \<noteq> 0) DivByZero) (\<lambda>_.
        let probability_assign_current =
              sint (ucast ((per_thread_lines - cur_thread_lines st) * 100 div of_nat sz) :: i32);
            st1 = st\<lparr>draws := draws st + 1\<rparr> in
        Inr (if int (rnd (draws st) mod 100) < probability_assign_current
             then st1\<lparr>cur_thread := cur_thread st + 1, cur_thread_lines := 0\<rparr> else st1))
      else Inr st)"

definition assign_bucket :: "nat \<Rightarrow> u64 \<Rightarrow> (nat \<Rightarrow> nat) \<Rightarrow> nat \<Rightarrow> assign_state \<Rightarrow> assign_state res" where
  "assign_bucket nthreads per_thread_lines rnd p st0 =
     bindR (tc_get (tc_store st0) p) (\<lambda>tc.
     bindR (maybe_next_thread nthreads per_thread_lines rnd (tsize tc) st0) (\<lambda>st.
     bindR (array_get (worker_tcs st) (cur_thread st)) (\<lambda>w.
     bindR (trace_container_add_collection w tc) (\<lambda>w'.
     bindR (trace_container_destroy (tc_store st) (Some p)) (\<lambda>store.
     let lines = cur_thread_lines st + of_nat (tsize tc);
         st1 = st\<lparr>worker_tcs := (worker_tcs st)[cur_thread st := w'], tc_store := store, cur_thread_lines := lines\<rparr> in
     Inr (if cur_thread st + 1 \<noteq> nthreads \<and> lines \<ge> per_thread_lines
          then st1\<lparr>cur_thread := cur_thread st + 1, cur_thread_lines := 0\<rparr> else st1))))))"

text \<open>
  From the creation of the workers' containers to the end of \<^verbatim>\<open>foreach_hashmap_bucket\<close>;
  \<open>waddr i\<close> is the address of \<^verbatim>\<open>params[i].worker_id\<close>.
\<close>

definition distribute :: "memory \<Rightarrow> nat \<Rightarrow> nat \<Rightarrow> (nat \<Rightarrow> ptr) \<Rightarrow> (nat \<Rightarrow> nat) \<Rightarrow> build_state \<Rightarrow> assign_state res" where
  "distribute mem nthreads valid_lines waddr rnd = (\<lambda>(h, m, tcs).
     bindR (guardR (nthreads \<noteq> 0) DivByZero) (\<lambda>_.
     let per_thread_lines = of_nat valid_lines div of_nat nthreads;
         st = \<lparr>cur_thread = 0, cur_thread_lines = 0,
               worker_tcs = map (\<lambda>i. trace_container_create DEFAULT_COLLECTIONS_CAPACITY (waddr i)) [0..<nthreads],
               tc_store = tcs, draws = 0\<rparr> in
     bindR (hashmap_sort h m (trace_container_cmp mem)) (\<lambda>(h', m').
     walk (capacity m') h' (first m') (\<lambda>b. assign_bucket nthreads per_thread_lines rnd (unat (bvalue b))) st)))"

subsection \<open>Hints\<close>

definition info_cell :: "trace_info list \<Rightarrow> nat option list \<Rightarrow> nat \<Rightarrow> trace_info res" where
  "info_cell infos im i = bindR (array_get im i) (\<lambda>c.
     case c of None \<Rightarrow> Inl Uninitialised | Some p \<Rightarrow> array_get infos p)"

text \<open>
  The state of the extraction: \<^verbatim>\<open>hints\<close> (a cell never written is \<open>None\<close>), \<^verbatim>\<open>hints_idx\<close> and
  \<^verbatim>\<open>_max_continuous_4K_blks\<close>.
\<close>

record hint_state =
  hints :: "trace_replay_hint option list"
  hints_idx :: nat
  max_blks :: nat

definition save_hint :: "trace_info list \<Rightarrow> nat option list \<Rightarrow> nat \<Rightarrow> nat \<Rightarrow> hint_state \<Rightarrow> hint_state res" where
  "save_hint infos im consecutive_start j hs =
     bindR (info_cell infos im consecutive_start) (\<lambda>info.
     let n = j - consecutive_start in
     bindR (array_set (hints hs) (hints_idx hs)
       (Some \<lparr>continuous_blks = n, start_trace_line = consecutive_start, hint_rw = rw info\<rparr>)) (\<lambda>hs'.
     Inr \<lparr>hints = hs', hints_idx = hints_idx hs + 1, max_blks = max (max_blks hs) n\<rparr>))"

definition hint_step :: "trace_info list \<Rightarrow> nat option list \<Rightarrow> u64 \<Rightarrow> nat \<Rightarrow> nat \<times> hint_state \<Rightarrow> (nat \<times> hint_state) res" where
  "hint_step infos im max_continuous j = (\<lambda>(consecutive_start, hs).
     bindR (info_cell infos im j) (\<lambda>info.
     bindR (info_cell infos im (j - 1)) (\<lambda>pre.
     if lba info - lba pre = 8 \<and> rw info = rw pre \<and> of_nat (j - consecutive_start) < max_continuous
     then Inr (consecutive_start, hs)
     else bindR (save_hint infos im consecutive_start j hs) (\<lambda>hs'. Inr (j, hs')))))"

definition extract_hints :: "trace_info list \<Rightarrow> trace_container \<Rightarrow> u64 \<Rightarrow> hint_state \<Rightarrow> hint_state res" where
  "extract_hints infos tc max_continuous hs0 =
     bindR (foldR (hint_step infos (infos_map tc) max_continuous) [1..<tsize tc] (0, hs0\<lparr>max_blks := 0\<rparr>))
       (\<lambda>(consecutive_start, hs).
     save_hint infos (infos_map tc) consecutive_start (tsize tc) hs)"

text \<open>A path is put together in a field of 256 bytes, including the terminating zero.\<close>

definition make_path :: "string \<Rightarrow> string \<Rightarrow> nat \<Rightarrow> string res" where
  "make_path dir name i =
     (let p = dir @ name @ decimal i in if length p < MAX_NAME_LEN then Inr p else Inl OutOfBounds)"

text \<open>\<^verbatim>\<open>check_param_per_worker\<close>: what is printed for each hint.\<close>

definition check_param_per_worker ::
  "trace_replay_hint option list \<Rightarrow> replay_param \<Rightarrow> (nat \<times> nat \<times> nat \<times> nat) list res" where
  "check_param_per_worker hs param =
     foldR (\<lambda>i out. bindR (array_get hs i) (\<lambda>c. case c of None \<Rightarrow> Inl Uninitialised
       | Some hint \<Rightarrow> bindR (guardR (continuous_blks hint \<noteq> 0) (Exit 1)) (\<lambda>_.
           Inr (out @ [(i, tsize (param_tc param), continuous_blks hint, start_trace_line hint)]))))
       [hints_start param..<hints_end param] []"

text \<open>
  The body of the second loop over the workers. \<open>junk\<close> and \<open>junk_int\<close> are the contents of the
  fresh generator context.
\<close>

definition assign_worker ::
  "replay_config \<Rightarrow> (u32 \<Rightarrow> i32 \<times> u32) \<Rightarrow> mt19937ar_state \<Rightarrow> i32 \<Rightarrow> trace_info list \<Rightarrow> nat \<Rightarrow> trace_container \<Rightarrow>
   hint_state \<times> replay_param list \<Rightarrow> (hint_state \<times> replay_param list) res" where
  "assign_worker cfg rand_r junk junk_int infos i tc0 = (\<lambda>(hs0, params).
     bindR (trace_container_sort_infomap_by_ts infos tc0) (\<lambda>tc.
     bindR (extract_hints infos tc (max_continuous_4K_blks cfg) hs0) (\<lambda>hs.
     bindR (make_path (cfg_dstpath cfg) ''trace_'' i) (\<lambda>dst.
     bindR (case dump_read_path cfg of None \<Rightarrow> Inr []
            | Some dir \<Rightarrow> make_path dir ''dump_read_'' i) (\<lambda>dr.
     let param = \<lparr>param_tc = tc, hints_start = hints_idx hs0, hints_end = hints_idx hs,
           buf_len = max_blks hs * BLK_SIZE, dstfilepath = dst, drfilepath = dr,
           param_gener = make_rand_gener rand_r junk junk_int (rand_gener_type cfg),
           param_mode = cfg_mode cfg\<rparr> in
     bindR (if verbose cfg then bindR (check_param_per_worker (hints hs) param) (\<lambda>_. Inr ()) else Inr ()) (\<lambda>_.
     Inr (hs, params @ [param])))))))"

definition assign_params_per_worker ::
  "replay_config \<Rightarrow> (u32 \<Rightarrow> i32 \<times> u32) \<Rightarrow> mt19937ar_state \<Rightarrow> i32 \<Rightarrow> (nat \<Rightarrow> ptr) \<Rightarrow> (nat \<Rightarrow> nat) \<Rightarrow>
   ptr \<Rightarrow> trace_info list \<Rightarrow> nat \<Rightarrow> build_state \<Rightarrow> (trace_replay_hint option list \<times> replay_param list) res" where
  "assign_params_per_worker cfg rand_r junk junk_int waddr rnd base infos valid_lines st =
     bindR (distribute (infos_mem base infos) (threads cfg) valid_lines waddr rnd st) (\<lambda>ast.
     bindR (foldR (\<lambda>i s. bindR (array_get (worker_tcs ast) i) (\<lambda>tc.
              assign_worker cfg rand_r junk junk_int infos i tc s))
       [0..<threads cfg]
       (\<lparr>hints = replicate valid_lines None, hints_idx = 0, max_blks = 0\<rparr>, [])) (\<lambda>(hs, params).
     Inr (hints hs, params)))"

end
