(* ===== verification/Distribute.thy ===== *)
theory Distribute
  imports Assign
begin

text \<open>
  Correctness of the distribution of containers to workers: whatever \<^verbatim>\<open>rand\<close> returns and
  whatever order the sort leaves, every worker gets a contiguous part of the containers,
  and every container goes to exactly one worker.
\<close>

subsection \<open>Walking over the buckets\<close>

text \<open>A walk with any body is a fold over the buckets that a collecting walk returns.\<close>

lemma walk_collect:
  assumes "walk fuel h p (\<lambda>e es. Inr (es @ [e])) acc = Inr r"
  obtains es where "r = acc @ es" and "\<And>body u. walk fuel h p body (u :: 'u) = foldR body es u"
proof -
  have "\<exists>es. r = acc @ es \<and> (\<forall>body u. walk fuel h p body (u :: 'u) = foldR body es u)"
    using assms
  proof (induction fuel arbitrary: p acc)
    case 0
    then show ?case
      by (cases p) (auto intro!: exI [of _ "[]"])
  next
    case (Suc fuel)
    show ?case
    proof (cases p)
      case NullB
      then show ?thesis
        using Suc.prems by (auto intro!: exI [of _ "[]"])
    next
      case (Bkt b i)
      obtain e where e: "bkt_get h b i = Inr e"
        "walk fuel h (bnext e) (\<lambda>e es. Inr (es @ [e])) (acc @ [e]) = Inr r"
        using Suc.prems Bkt by (auto simp: bindR_eq_Inr)
      obtain es where es: "r = (acc @ [e]) @ es" "\<And>body u. walk fuel h (bnext e) body (u :: 'u) = foldR body es u"
        using Suc.IH [OF e(2)] by blast
      have "walk fuel h (bnext e) body = foldR body es" for body :: "bucket \<Rightarrow> 'u \<Rightarrow> 'u res"
        using es(2) by blast
      then show ?thesis
        using es(1) e(1) Bkt by (intro exI [of _ "e # es"]) simp
    qed
  qed
  then show ?thesis
    using that by blast
qed

lemma hm_buckets_walk:
  assumes "hm_buckets h m = Inr es"
  shows "walk (capacity m) h (first m) body u = foldR body es u"
  using walk_collect [OF assms [unfolded hm_buckets_def]] by (metis append_Nil)

subsection \<open>The distribution invariant\<close>

text \<open>
  A worker's container holds the records of the containers \<open>seg\<close>; without any, it is as it
  was created.
\<close>

definition worker_holds :: "('p \<Rightarrow> nat list) \<Rightarrow> 'p list \<Rightarrow> trace_container \<Rightarrow> bool" where
  "worker_holds grp seg tc \<longleftrightarrow> tc_ok tc \<and> tc_list tc = concat (map grp seg) \<and>
     (seg = [] \<longrightarrow> infos_map tc = replicate 64 None)"

text \<open>
  Containers \<open>done\<close> have been dealt out: \<open>segs\<close> says which worker got which, in order; workers
  behind the current one have nothing yet. \<open>grp p\<close> are the records of container \<open>p\<close>.
\<close>

definition dealt :: "nat \<Rightarrow> nat \<Rightarrow> (nat \<Rightarrow> nat list) \<Rightarrow> nat list \<Rightarrow> nat list list \<Rightarrow> assign_state \<Rightarrow> bool" where
  "dealt nthreads ntcs grp done segs st \<longleftrightarrow>
     length segs = nthreads \<and> concat segs = done \<and>
     cur_thread st < nthreads \<and> (\<forall>i<nthreads. cur_thread st < i \<longrightarrow> segs ! i = []) \<and>
     list_all2 (worker_holds grp) segs (worker_tcs st) \<and>
     length (tc_store st) = ntcs \<and>
     (\<forall>p<ntcs. p \<notin> set done \<longrightarrow> (\<exists>tc. tc_store st ! p = Some tc \<and> tc_ok tc \<and> tc_list tc = grp p))"

lemma concat_update_last:
  assumes "c < length segs" and "\<forall>i<length segs. c < i \<longrightarrow> segs ! i = []"
  shows "concat (segs[c := segs ! c @ xs]) = concat segs @ xs"
proof -
  have "concat (drop (Suc c) segs) = []"
    using assms(2) by (auto simp: concat_eq_Nil_conv set_conv_nth)
  moreover have "segs = take c segs @ segs ! c # drop (Suc c) segs"
    by (rule id_take_nth_drop [OF assms(1)])
  ultimately show ?thesis
    using assms(1) by (metis append.assoc append_Nil2 concat.simps(2) concat_append upd_conv_take_nth_drop)
qed

lemma maybe_next_thread_ok:
  assumes "dealt nthreads ntcs grp d segs st" and "0 < sz"
  shows "ok (maybe_next_thread nthreads per rnd sz st) (\<lambda>st'. dealt nthreads ntcs grp d segs st' \<and>
    tc_store st' = tc_store st)"
proof -
  have "dealt nthreads ntcs grp d segs (st\<lparr>draws := n\<rparr>)" for n
    using assms(1) by (simp add: dealt_def)
  moreover have "dealt nthreads ntcs grp d segs (st\<lparr>draws := n, cur_thread := cur_thread st + 1, cur_thread_lines := 0\<rparr>)"
    if "cur_thread st + 1 \<noteq> nthreads" for n
    using assms(1) that by (auto simp: dealt_def)
  ultimately show ?thesis
    using assms by (simp add: maybe_next_thread_def Let_def)
qed

lemma assign_bucket_ok:
  assumes st0: "dealt nthreads ntcs grp d segs st0" and p: "p < ntcs" "p \<notin> set d"
    and ne: "grp p \<noteq> []" and total: "length (concat (map grp (d @ [p]))) \<le> 2 ^ 30"
  shows "ok (assign_bucket nthreads per rnd p st0) (\<lambda>st'. \<exists>segs'. dealt nthreads ntcs grp (d @ [p]) segs' st')"
proof -
  obtain tc where tc: "tc_store st0 ! p = Some tc" "tc_ok tc" "tc_list tc = grp p" "p < length (tc_store st0)"
    using st0 p by (auto simp: dealt_def)
  have sz: "0 < tsize tc"
    using length_tc_list [OF tc(2)] tc(3) ne by (metis length_greater_0_conv)
  obtain st where st: "maybe_next_thread nthreads per rnd (tsize tc) st0 = Inr st" "dealt nthreads ntcs grp d segs st"
      "tc_store st = tc_store st0"
    using maybe_next_thread_ok [OF st0 sz, of per rnd] by (auto elim!: okE)
  let ?c = "cur_thread st"
  have c: "?c < nthreads" "length segs = nthreads" "concat segs = d" "\<forall>i<length segs. ?c < i \<longrightarrow> segs ! i = []"
    and ws: "list_all2 (worker_holds grp) segs (worker_tcs st)"
    using st(2) by (auto simp: dealt_def)
  have lw: "length (worker_tcs st) = nthreads"
    using list_all2_lengthD [OF ws] c(2) by simp
  have w: "tc_ok (worker_tcs st ! ?c)" "tc_list (worker_tcs st ! ?c) = concat (map grp (segs ! ?c))"
    using list_all2_nthD [OF ws, of ?c] c(1,2) by (auto simp: worker_holds_def)
  have "d = concat (take ?c segs) @ segs ! ?c @ concat (drop (Suc ?c) segs)"
    using c(1-3) id_take_nth_drop [of ?c segs] by (metis concat.simps(2) concat_append)
  from arg_cong [OF this, of "\<lambda>d. length (concat (map grp d))"]
  have "length (concat (map grp (segs ! ?c))) \<le> length (concat (map grp d))"
    by simp
  then have room: "length (tc_list (worker_tcs st ! ?c)) + length (tc_list tc) \<le> 2 ^ 30"
    using total w(2) tc(3) by simp
  obtain w' where w': "trace_container_add_collection (worker_tcs st ! ?c) tc = Inr w'" "tc_ok w'"
      "tc_list w' = concat (map grp (segs ! ?c @ [p]))"
    using tc.add_many [OF w(1) room] w(2) tc(3)
    unfolding add_collection_fold [OF tc(2)] by (auto elim!: okE)
  let ?segs = "segs[?c := segs ! ?c @ [p]]" and ?store = "(tc_store st)[p := None]"
  have segs': "concat ?segs = d @ [p]"
    using concat_update_last [of ?c segs "[p]"] c by simp
  have ws': "list_all2 (worker_holds grp) ?segs ((worker_tcs st)[?c := w'])"
    using ws w'(2,3) by (intro list_all2_update_cong) (auto simp: worker_holds_def)
  have store: "\<forall>q<ntcs. q \<notin> set (d @ [p]) \<longrightarrow> (\<exists>tc. ?store ! q = Some tc \<and> tc_ok tc \<and> tc_list tc = grp q)"
    using st(2) by (auto simp: dealt_def)
  have "dealt nthreads ntcs grp (d @ [p]) ?segs (st\<lparr>worker_tcs := (worker_tcs st)[?c := w'], tc_store := ?store,
      cur_thread_lines := l\<rparr>)" for l
    using c segs' ws' store st(2) by (auto simp: dealt_def)
  moreover have "dealt nthreads ntcs grp (d @ [p]) ?segs (st\<lparr>worker_tcs := (worker_tcs st)[?c := w'], tc_store := ?store,
      cur_thread := ?c + 1, cur_thread_lines := l\<rparr>)" if "?c + 1 \<noteq> nthreads" for l
    using c segs' ws' store st(2) that by (auto simp: dealt_def)
  ultimately show ?thesis
    using tc st w'(1) c(1) lw
    by (auto simp: assign_bucket_def tc_get_def trace_container_destroy_def Let_def)
qed


lemma assign_all_ok:
  assumes st0: "dealt nthreads ntcs grp [] segs0 st0" and ps: "distinct ps" "set ps = {..<ntcs}"
    and ne: "\<forall>p<ntcs. grp p \<noteq> []" and total: "length (concat (map grp ps)) \<le> 2 ^ 30"
  shows "ok (foldR (assign_bucket nthreads per rnd) ps st0) (\<lambda>st'. \<exists>segs. dealt nthreads ntcs grp ps segs st')"
proof (rule ok_foldR [where I = "\<lambda>d st. \<exists>segs. dealt nthreads ntcs grp d segs st"])
  show "\<exists>segs. dealt nthreads ntcs grp [] segs st0"
    using st0 by blast
  fix d p rest st
  assume split: "ps = d @ p # rest" and "\<exists>segs. dealt nthreads ntcs grp d segs st"
  then obtain segs where segs: "dealt nthreads ntcs grp d segs st"
    by blast
  have p: "p < ntcs" "p \<notin> set d"
    using ps split by auto
  show "ok (assign_bucket nthreads per rnd p st) (\<lambda>st'. \<exists>segs'. dealt nthreads ntcs grp (d @ [p]) segs' st')"
    using assign_bucket_ok [OF segs p] ne p(1) total split by simp
qed

lemma dealt_init:
  assumes "0 < nthreads" and "length tcs = ntcs"
    and "\<forall>p<ntcs. \<exists>tc. tcs ! p = Some tc \<and> tc_ok tc \<and> tc_list tc = grp p"
  shows "dealt nthreads ntcs grp [] (replicate nthreads [])
    \<lparr>cur_thread = 0, cur_thread_lines = 0,
     worker_tcs = map (\<lambda>i. trace_container_create DEFAULT_COLLECTIONS_CAPACITY (waddr i)) [0..<nthreads],
     tc_store = tcs, draws = 0\<rparr>"
  using assms by (auto simp: dealt_def list_all2_conv_all_nth create_ok worker_holds_def)
    (simp add: trace_container_create_def)

text \<open>
  Over a grouped map: \<open>grp p\<close> are the records with address \<open>ls ! p\<close>.
\<close>

definition group_of :: "trace_info list \<Rightarrow> nat \<Rightarrow> u64 \<Rightarrow> nat list" where
  "group_of infos n l = filter (\<lambda>i. lba (infos ! i) = l) [0..<n]"

lemma concat_filters_mset:
  assumes "distinct ls" and "\<forall>x\<in>set xs. f x \<in> set ls"
  shows "mset (concat (map (\<lambda>l. filter (\<lambda>x. f x = l) xs) ls)) = mset xs"
  using assms
proof (induction ls arbitrary: xs)
  case (Cons l ls)
  let ?r = "filter (\<lambda>x. f x \<noteq> l) xs"
  have "filter (\<lambda>x. f x = k) xs = filter (\<lambda>x. f x = k) ?r" if "k \<in> set ls" for k
    using Cons.prems(1) that by (auto intro!: filter_cong)
  then have "map (\<lambda>k. filter (\<lambda>x. f x = k) xs) ls = map (\<lambda>k. filter (\<lambda>x. f x = k) ?r) ls"
    by simp
  moreover have "mset (concat (map (\<lambda>k. filter (\<lambda>x. f x = k) ?r) ls)) = mset ?r"
    using Cons by (intro Cons.IH) auto
  moreover have "mset (filter (\<lambda>x. f x = l) xs) + mset ?r = mset xs"
    by (simp add: multiset_partition [of "mset xs" "\<lambda>x. f x = l", symmetric])
  ultimately show ?case
    by (metis (no_types, lifting) concat.simps(2) list.simps(9) mset_append)
qed simp


lemma map_nth_perm:
  assumes "mset ps = mset [0..<length ls]"
  shows "mset (map ((!) ls) ps) = mset ls"
  using assms by (metis mset_map map_nth)

text \<open>What the map holds after the sort: the container numbers, in some order.\<close>

lemma sorted_values:
  assumes "hm_inv mem h m" and "mcount m \<le> 2 ^ 30"
    and "hm_entries mem h m = map (\<lambda>(k, l). (le_bytes64 l, of_nat k)) (enumerate 0 ls)" and "length ls < 2 ^ 64"
  obtains h' es where "hashmap_sort h m cmp = Inr (h', m)" and "hm_buckets h' m = Inr es"
    and "mset (map (\<lambda>e. unat (bvalue e)) es) = mset [0..<length ls]"
proof -
  obtain h' es where r: "hashmap_sort h m cmp = Inr (h', m)" "hm_buckets h' m = Inr es"
      "mset (entries_abs mem es) = mset (hm_entries mem h m)"
    using sort_permutes_ok [OF assms(1,2), of cmp] by (auto elim!: okE)
  have "mset (map (\<lambda>e. unat (bvalue e)) es) = image_mset (\<lambda>x. unat (snd x)) (mset (entries_abs mem es))"
    by (simp add: entries_abs_def image_mset.compositionality comp_def)
  also have "\<dots> = mset (map (\<lambda>x. unat (of_nat (fst x) :: u64)) (enumerate 0 ls))"
    unfolding r(3) assms(3) by (simp add: image_mset.compositionality comp_def split_beta)
  also have "map (\<lambda>x. unat (of_nat (fst x) :: u64)) (enumerate 0 ls) = map fst (enumerate 0 ls)"
    by (rule map_cong [OF refl]) (use assms(4) in \<open>auto simp: in_set_enumerate_eq unat_of_nat\<close>)
  finally show ?thesis
    using that r(1,2) by simp
qed


lemma group_of_nonempty: "l \<in> (\<lambda>i. lba (infos ! i)) ` {..<n} \<Longrightarrow> group_of infos n l \<noteq> []"
  by (auto simp: group_of_def filter_empty_conv)

lemma groups_mset:
  assumes "mset ls' = mset ls" and "distinct ls" and "set ls = (\<lambda>i. lba (infos ! i)) ` {..<n}"
  shows "mset (concat (map (group_of infos n) ls')) = mset [0..<n]"
proof -
  have "distinct ls'" and "set ls' = set ls"
    using assms(1,2) mset_eq_imp_distinct_iff mset_eq_setD by blast+
  then show ?thesis
    unfolding group_of_def using assms(3) by (intro concat_filters_mset) auto
qed

text \<open>The workers' records after the distribution; \<open>segs\<close> are the addresses each worker got.\<close>

definition split_by_lba :: "trace_info list \<Rightarrow> nat \<Rightarrow> u64 list list \<Rightarrow> trace_container list \<Rightarrow> bool" where
  "split_by_lba infos n segs ws \<longleftrightarrow>
     distinct (concat segs) \<and> set (concat segs) = (\<lambda>i. lba (infos ! i)) ` {..<n} \<and>
     list_all2 (worker_holds (group_of infos n)) segs ws"

lemma distribute_ok:
  assumes g: "grouped base infos n ls st" and n: "n \<le> 15 * 2 ^ 25" and t: "0 < nthreads"
  shows "ok (distribute (infos_mem base infos) nthreads n waddr rnd st)
    (\<lambda>st'. \<exists>segs. length segs = nthreads \<and> split_by_lba infos n segs (worker_tcs st'))"
proof -
  obtain h m tcs where st: "st = (h, m, tcs)"
    by (cases st)
  let ?mem = "infos_mem base infos" and ?grp = "\<lambda>p. group_of infos n (ls ! p)"
  have inv: "hm_inv ?mem h m" and ent: "hm_entries ?mem h m = group_entries ls" and d: "distinct ls"
    and ls: "set ls = (\<lambda>i. lba (infos ! i)) ` {..<n}" and grp: "list_all2 (holds_group infos n) ls tcs"
    using g by (auto simp: grouped_def st)
  have len: "length ls \<le> n"
    using distinct_card [OF d] ls card_image_le [of "{..<n}" "\<lambda>i. lba (infos ! i)"] by simp
  have "mcount m \<le> 2 ^ 30"
    using hm_inv_size [OF inv] ent len n by simp
  then obtain h' es where s: "hashmap_sort h m (trace_container_cmp ?mem) = Inr (h', m)" "hm_buckets h' m = Inr es"
      "mset (map (\<lambda>e. unat (bvalue e)) es) = mset [0..<length ls]"
    using sorted_values [OF inv _ ent, of "trace_container_cmp ?mem"] len n by auto
  define ps where "ps = map (\<lambda>e. unat (bvalue e)) es"
  have ps: "distinct ps" "set ps = {..<length ls}" "mset (map ((!) ls) ps) = mset ls"
    using mset_eq_imp_distinct_iff [OF s(3)] mset_eq_setD [OF s(3)] map_nth_perm [OF s(3)] by (auto simp: ps_def)
  have total: "mset (concat (map ?grp ps)) = mset [0..<n]"
    using groups_mset [OF ps(3) d ls] by (simp add: comp_def)
  have init: "dealt nthreads (length ls) ?grp [] (replicate nthreads [])
    \<lparr>cur_thread = 0, cur_thread_lines = 0,
     worker_tcs = map (\<lambda>i. trace_container_create DEFAULT_COLLECTIONS_CAPACITY (waddr i)) [0..<nthreads],
     tc_store = tcs, draws = 0\<rparr>"
    using t grp by (intro dealt_init) (auto simp: list_all2_conv_all_nth holds_group_def group_of_def)
  have "ok (foldR (assign_bucket nthreads (of_nat n div of_nat nthreads) rnd) ps
      \<lparr>cur_thread = 0, cur_thread_lines = 0,
       worker_tcs = map (\<lambda>i. trace_container_create DEFAULT_COLLECTIONS_CAPACITY (waddr i)) [0..<nthreads],
       tc_store = tcs, draws = 0\<rparr>) (\<lambda>st'. \<exists>segs. dealt nthreads (length ls) ?grp ps segs st')"
  proof (rule assign_all_ok [OF init ps(1,2)])
    show "\<forall>p<length ls. ?grp p \<noteq> []"
      using group_of_nonempty ls by (metis nth_mem)
    show "length (concat (map ?grp ps)) \<le> 2 ^ 30"
      using mset_eq_length [OF total] n by simp
  qed
  moreover have "\<exists>segs'. length segs' = nthreads \<and> split_by_lba infos n segs' (worker_tcs st')"
    if "dealt nthreads (length ls) ?grp ps segs st'" for segs st'
  proof (intro exI conjI)
    let ?segs = "map (map ((!) ls)) segs"
    show "length ?segs = nthreads"
      using that by (simp add: dealt_def)
    have c: "mset (concat ?segs) = mset ls"
      using that ps(3) by (simp add: dealt_def flip: map_concat)
    show "split_by_lba infos n ?segs (worker_tcs st')"
      unfolding split_by_lba_def
      using that mset_eq_imp_distinct_iff [OF c] mset_eq_setD [OF c] d ls
      by (auto simp: dealt_def list_all2_conv_all_nth comp_def worker_holds_def)
  qed
  ultimately show ?thesis
    using t s(1)
    by (auto simp: distribute_def st Let_def foldR_map ps_def hm_buckets_walk [OF s(2)] elim!: ok_mono)
qed

end
