(* ===== verification/Hints.thy ===== *)
theory Hints
  imports Assign
begin

text \<open>
  Correctness of the extraction of hints: the runs of a worker tile its records in order,
  never exceed the configured length, consist of consecutive blocks of one kind, and the
  buffer is large enough for each of them.
\<close>

subsection \<open>Runs\<close>

text \<open>Record \<open>k\<close> of the worker continues record \<open>k - 1\<close>.\<close>

definition continues :: "trace_info list \<Rightarrow> nat list \<Rightarrow> nat \<Rightarrow> bool" where
  "continues infos L k \<longleftrightarrow> lba (infos ! (L ! k)) - lba (infos ! (L ! (k - 1))) = 8 \<and>
     rw (infos ! (L ! k)) = rw (infos ! (L ! (k - 1)))"

definition run_ok :: "trace_info list \<Rightarrow> nat list \<Rightarrow> u64 \<Rightarrow> nat \<Rightarrow> nat \<Rightarrow> bool" where
  "run_ok infos L maxc s n \<longleftrightarrow> 0 < n \<and> n \<le> max 1 (unat maxc) \<and> s + n \<le> length L \<and>
     (\<forall>k. s < k \<and> k < s + n \<longrightarrow> continues infos L k)"

definition hint_ok :: "trace_info list \<Rightarrow> nat list \<Rightarrow> u64 \<Rightarrow> trace_replay_hint \<Rightarrow> bool" where
  "hint_ok infos L maxc hint \<longleftrightarrow> run_ok infos L maxc (start_trace_line hint) (continuous_blks hint) \<and>
     hint_rw hint = rw (infos ! (L ! start_trace_line hint))"

definition hint_lines :: "trace_replay_hint \<Rightarrow> nat list" where
  "hint_lines hint = [start_trace_line hint..<start_trace_line hint + continuous_blks hint]"

text \<open>The hints \<open>hl\<close> tile the first \<open>n\<close> records.\<close>

definition tiles :: "trace_info list \<Rightarrow> nat list \<Rightarrow> u64 \<Rightarrow> nat \<Rightarrow> trace_replay_hint list \<Rightarrow> bool" where
  "tiles infos L maxc n hl \<longleftrightarrow> concat (map hint_lines hl) = [0..<n] \<and> (\<forall>hint\<in>set hl. hint_ok infos L maxc hint)"

text \<open>The hints \<open>hl\<close> have been stored from index \<open>i\<close> of the array \<open>H\<close> on.\<close>

definition saved :: "trace_replay_hint option list \<Rightarrow> nat \<Rightarrow> trace_replay_hint list \<Rightarrow> hint_state \<Rightarrow> bool" where
  "saved H i hl hs \<longleftrightarrow> hints hs = take i H @ map Some hl @ drop (i + length hl) H \<and>
     hints_idx hs = i + length hl \<and> max_blks hs = fold max (map continuous_blks hl) 0"

lemma fold_max_ge: "n \<in> set ns \<Longrightarrow> n \<le> fold max ns (0 :: nat)"
  unfolding Max.set_eq_fold [symmetric] by simp

lemma tiles_length: "tiles infos L maxc n hl \<Longrightarrow> length hl \<le> n"
proof -
  assume t: "tiles infos L maxc n hl"
  have "length hl \<le> length (concat (map hint_lines hl))"
    if "\<forall>hint\<in>set hl. hint_ok infos L maxc hint" for hl
    using that by (induction hl) (auto simp: hint_lines_def hint_ok_def run_ok_def)
  then show ?thesis
    using t by (force simp: tiles_def)
qed

subsection \<open>The extraction loop\<close>

lemma info_cell_ok:
  assumes "tc_ok tc" and "j < tsize tc" and "tc_list tc ! j < length infos"
  shows "info_cell infos (infos_map tc) j = Inr (infos ! (tc_list tc ! j))"
proof -
  have "infos_map tc ! j = Some (tc_list tc ! j)"
    using arg_cong [OF tc_cells [OF assms(1)], of "\<lambda>xs. xs ! j"] assms(2) length_tc_list [OF assms(1)] by simp
  then show ?thesis
    using assms by (simp add: info_cell_def tc_ok_def)
qed

lemma save_hint_ok:
  assumes tc: "tc_ok tc" "\<forall>p\<in>set (tc_list tc). p < length infos"
    and t: "tiles infos (tc_list tc) maxc s hl" and r: "run_ok infos (tc_list tc) maxc s (j - s)"
    and sv: "saved H i hl hs" and room: "i + tsize tc \<le> length H"
  shows "\<exists>hs' hint. save_hint infos (infos_map tc) s j hs = Inr hs' \<and>
    tiles infos (tc_list tc) maxc j (hl @ [hint]) \<and> saved H i (hl @ [hint]) hs'"
proof -
  let ?info = "infos ! (tc_list tc ! s)"
  define hint where "hint = \<lparr>continuous_blks = j - s, start_trace_line = s, hint_rw = rw ?info\<rparr>"
  have s: "s < j" "j \<le> length (tc_list tc)"
    using r by (auto simp: run_ok_def)
  have cell: "info_cell infos (infos_map tc) s = Inr ?info"
    using info_cell_ok [OF tc(1)] s tc length_tc_list [OF tc(1)] by (metis nth_mem order_less_le_trans)
  have idx: "i + length hl < length H"
    using tiles_length [OF t] s room length_tc_list [OF tc(1)] by simp
  have "array_set (hints hs) (hints_idx hs) (Some hint) =
      Inr (take i H @ map Some hl @ Some hint # drop (Suc (i + length hl)) H)"
    using sv idx by (simp add: array_set_def saved_def list_update_append Cons_nth_drop_Suc [OF idx, symmetric])
  then have "save_hint infos (infos_map tc) s j hs = Inr \<lparr>hints = take i H @ map Some hl @ Some hint # drop (Suc (i + length hl)) H,
      hints_idx = hints_idx hs + 1, max_blks = max (max_blks hs) (j - s)\<rparr>"
    by (simp add: save_hint_def cell Let_def hint_def)
  moreover have "saved H i (hl @ [hint]) \<lparr>hints = take i H @ map Some hl @ Some hint # drop (Suc (i + length hl)) H,
      hints_idx = hints_idx hs + 1, max_blks = max (max_blks hs) (j - s)\<rparr>"
    using sv by (simp add: saved_def hint_def max.commute)
  moreover have "[0..<s] @ [s..<j] = [0..<j]"
    using s(1) by (metis le0 less_imp_le upt_add_eq_append le_add_diff_inverse)
  then have "tiles infos (tc_list tc) maxc j (hl @ [hint])"
    using t r s(1) by (auto simp: tiles_def hint_ok_def hint_lines_def hint_def)
  ultimately show ?thesis
    by blast
qed

text \<open>Before record \<open>j\<close> is looked at: a run is open since \<open>s\<close>.\<close>

definition extracting :: "trace_info list \<Rightarrow> nat list \<Rightarrow> u64 \<Rightarrow> trace_replay_hint option list \<Rightarrow> nat \<Rightarrow> nat \<Rightarrow>
    nat \<times> hint_state \<Rightarrow> bool" where
  "extracting infos L maxc H i j = (\<lambda>(s, hs). s < j \<and> run_ok infos L maxc s (j - s) \<and>
     (\<exists>hl. tiles infos L maxc s hl \<and> saved H i hl hs))"

lemma hint_step_ok:
  assumes tc: "tc_ok tc" "\<forall>p\<in>set (tc_list tc). p < length infos"
    and st: "extracting infos (tc_list tc) maxc H i j st" and j: "0 < j" "j < tsize tc"
    and room: "i + tsize tc \<le> length H" and small: "tsize tc < 2 ^ 31"
  shows "ok (hint_step infos (infos_map tc) maxc j st) (extracting infos (tc_list tc) maxc H i (Suc j))"
proof -
  obtain s hs hl where st': "st = (s, hs)" "s < j" "run_ok infos (tc_list tc) maxc s (j - s)"
      "tiles infos (tc_list tc) maxc s hl" "saved H i hl hs"
    using st by (cases st) (auto simp: extracting_def)
  have len: "length (tc_list tc) = tsize tc"
    by (rule length_tc_list [OF tc(1)])
  have cells: "info_cell infos (infos_map tc) j = Inr (infos ! (tc_list tc ! j))"
      "info_cell infos (infos_map tc) (j - 1) = Inr (infos ! (tc_list tc ! (j - 1)))"
    using info_cell_ok [OF tc(1)] tc(2) j len by simp_all
  have of_nat: "unat (of_nat (j - s) :: u64) = j - s"
    using j small by (simp add: unat_of_nat)
  show ?thesis
  proof (cases "continues infos (tc_list tc) j \<and> of_nat (j - s) < maxc")
    case True
    then have "j - s < unat maxc"
      using of_nat by (simp add: word_less_nat_alt)
    moreover have "k < s + (Suc j - s) \<longleftrightarrow> k < s + (j - s) \<or> k = j" for k
      using st'(2) by auto
    ultimately have "run_ok infos (tc_list tc) maxc s (Suc j - s)"
      using st'(2,3) True j len by (auto simp: run_ok_def)
    then show ?thesis
      using st' True cells by (auto simp: hint_step_def extracting_def continues_def)
  next
    case False
    obtain hs' hint where sv: "save_hint infos (infos_map tc) s j hs = Inr hs'"
        "tiles infos (tc_list tc) maxc j (hl @ [hint])" "saved H i (hl @ [hint]) hs'"
      using save_hint_ok [OF tc st'(4,3,5) room] by blast
    have "run_ok infos (tc_list tc) maxc j (Suc j - j)"
      using j len by (auto simp: run_ok_def)
    then show ?thesis
      using sv st'(1) False cells by (auto simp: hint_step_def extracting_def continues_def)
  qed
qed

lemma extract_hints_ok:
  assumes tc: "tc_ok tc" "\<forall>p\<in>set (tc_list tc). p < length infos" and ne: "tc_list tc \<noteq> []"
    and room: "hints_idx hs0 + tsize tc \<le> length (hints hs0)" and small: "tsize tc < 2 ^ 31"
  shows "ok (extract_hints infos tc maxc hs0) (\<lambda>hs. \<exists>hl. tiles infos (tc_list tc) maxc (tsize tc) hl \<and>
    saved (hints hs0) (hints_idx hs0) hl hs)"
proof -
  let ?H = "hints hs0" and ?i = "hints_idx hs0"
  have len: "length (tc_list tc) = tsize tc"
    by (rule length_tc_list [OF tc(1)])
  have "run_ok infos (tc_list tc) maxc 0 1"
    using ne by (cases "tc_list tc") (auto simp: run_ok_def)
  then have "extracting infos (tc_list tc) maxc ?H ?i 1 (0, hs0\<lparr>max_blks := 0\<rparr>)"
    by (auto simp: extracting_def tiles_def saved_def intro!: exI [of _ "[]"])
  moreover have "1 \<le> tsize tc"
    using ne len by (cases "tc_list tc") auto
  ultimately have "ok (foldR (hint_step infos (infos_map tc) maxc) [1..<tsize tc] (0, hs0\<lparr>max_blks := 0\<rparr>))
      (extracting infos (tc_list tc) maxc ?H ?i (tsize tc))"
    using hint_step_ok [OF tc _ _ _ room small]
    by (intro ok_foldR_upt) auto
  then obtain s hs hl where loop: "foldR (hint_step infos (infos_map tc) maxc) [1..<tsize tc] (0, hs0\<lparr>max_blks := 0\<rparr>) = Inr (s, hs)"
      "run_ok infos (tc_list tc) maxc s (tsize tc - s)" "tiles infos (tc_list tc) maxc s hl" "saved ?H ?i hl hs"
    by (auto simp: extracting_def elim!: okE)
  show ?thesis
    using save_hint_ok [OF tc loop(3,2,4) room] loop(1) by (auto simp: extract_hints_def)
qed

end
