(* ===== verification/Assign_Correct.thy ===== *)
theory Assign_Correct
  imports Distribute Hints
begin

text \<open>
  The whole of \<^verbatim>\<open>assign_params_per_worker\<close>: it succeeds exactly when no worker is left
  without records, and then every worker has the right records in the right order, with
  hints that tile them.
\<close>

subsection \<open>One worker\<close>

lemma decimal_small: "i < 1000 \<Longrightarrow> length (decimal i) \<le> 3"
proof -
  have "length (decimal i) \<le> 1" if "i < 10" for i
    using that by (subst decimal.simps) simp
  then have "length (decimal i) \<le> 2" if "i < 100" for i
    using that by (subst decimal.simps) (auto simp: less_mult_imp_div_less)
  then show "i < 1000 \<Longrightarrow> length (decimal i) \<le> 3"
    by (subst decimal.simps) (auto simp: less_mult_imp_div_less)
qed

lemma fold_max_le: "\<forall>n\<in>set ns. n \<le> (b :: nat) \<Longrightarrow> fold max ns 0 \<le> b"
proof -
  have "(\<forall>n\<in>set ns. n \<le> b) \<Longrightarrow> a \<le> b \<Longrightarrow> fold max ns a \<le> b" for a
    by (induction ns arbitrary: a) auto
  then show "\<forall>n\<in>set ns. n \<le> b \<Longrightarrow> fold max ns 0 \<le> b"
    by blast
qed

text \<open>Directories that leave room for the file names of up to 512 workers.\<close>

definition paths_fit :: "replay_config \<Rightarrow> bool" where
  "paths_fit cfg \<longleftrightarrow> threads cfg \<le> 512 \<and> length (cfg_dstpath cfg) \<le> 240 \<and>
     (case dump_read_path cfg of None \<Rightarrow> True | Some d \<Rightarrow> length d \<le> 240)"

lemma make_path_ok:
  "length dir \<le> 240 \<Longrightarrow> length name \<le> 12 \<Longrightarrow> i < 512 \<Longrightarrow> make_path dir name i = Inr (dir @ name @ decimal i)"
  using decimal_small [of i] by (simp add: make_path_def Let_def)

text \<open>
  What a worker is told: its records \<open>L\<close> sorted by time, its hints \<open>hl\<close>, which start at index
  \<open>start\<close> of the shared array, a buffer for the longest run, its files, generator and mode.
\<close>

definition worker_param ::
  "replay_config \<Rightarrow> (u32 \<Rightarrow> i32 \<times> u32) \<Rightarrow> mt19937ar_state \<Rightarrow> i32 \<Rightarrow> trace_info list \<Rightarrow> nat \<Rightarrow> nat list \<Rightarrow>
   trace_replay_hint list \<Rightarrow> nat \<Rightarrow> replay_param \<Rightarrow> bool" where
  "worker_param cfg rand_r junk junk_int infos i L hl start p \<longleftrightarrow>
     tc_ok (param_tc p) \<and> tc_list (param_tc p) = sort_key (\<lambda>q. ts (infos ! q)) L \<and>
     tiles infos (tc_list (param_tc p)) (max_continuous_4K_blks cfg) (length L) hl \<and>
     hints_start p = start \<and> hints_end p = start + length hl \<and>
     (\<forall>hint\<in>set hl. continuous_blks hint * 4096 \<le> buf_len p) \<and>
     buf_len p \<le> max 1 (unat (max_continuous_4K_blks cfg)) * 4096 \<and>
     dstfilepath p = cfg_dstpath cfg @ ''trace_'' @ decimal i \<and>
     (case dump_read_path cfg of None \<Rightarrow> True | Some d \<Rightarrow> drfilepath p = d @ ''dump_read_'' @ decimal i) \<and>
     param_gener p = make_rand_gener rand_r junk junk_int (rand_gener_type cfg) \<and>
     param_mode p = cfg_mode cfg"

lemma saved_prefix:
  assumes "saved (map Some C @ replicate k None) (length C) hl hs" and "length hl \<le> k"
  shows "hints hs = map Some (C @ hl) @ replicate (k - length hl) None" and "hints_idx hs = length (C @ hl)"
  using assms by (auto simp: saved_def)

lemma check_param_ok:
  assumes "hints_end p \<le> length hs"
    and "\<forall>i. hints_start p \<le> i \<and> i < hints_end p \<longrightarrow> (\<exists>hint. hs ! i = Some hint \<and> continuous_blks hint \<noteq> 0)"
    and "hints_start p \<le> hints_end p"
  shows "ok (check_param_per_worker hs p) (\<lambda>_. True)"
  unfolding check_param_per_worker_def
proof (rule ok_foldR_upt [where I = "\<lambda>_ _. True"])
  fix i and out :: "(nat \<times> nat \<times> nat \<times> nat) list" assume "hints_start p \<le> i" "i < hints_end p"
  then obtain hint where "hs ! i = Some hint" "continuous_blks hint \<noteq> 0" "i < length hs"
    using assms(1,2) by auto
  then show "ok (bindR (array_get hs i) (\<lambda>c. case c of None \<Rightarrow> Inl Uninitialised
       | Some hint \<Rightarrow> bindR (guardR (continuous_blks hint \<noteq> 0) (Exit 1)) (\<lambda>_.
           Inr (out @ [(i, tsize (param_tc p), continuous_blks hint, start_trace_line hint)])))) (\<lambda>_. True)"
    by simp
qed (use assms(3) in auto)

lemma assign_worker_ok:
  assumes tc: "tc_ok tc" "tc_list tc \<noteq> []" "\<forall>p\<in>set (tc_list tc). p < length infos"
    and cfg: "paths_fit cfg" "i < threads cfg"
    and hs0: "hints hs0 = map Some C @ replicate k None" "hints_idx hs0 = length C" and room: "tsize tc \<le> k"
    and small: "tsize tc < 2 ^ 31"
  shows "\<exists>hs hl p. assign_worker cfg rand_r junk junk_int infos i tc (hs0, params) = Inr (hs, params @ [p]) \<and>
    hints hs = map Some (C @ hl) @ replicate (k - length hl) None \<and> hints_idx hs = length (C @ hl) \<and>
    length hl \<le> tsize tc \<and> worker_param cfg rand_r junk junk_int infos i (tc_list tc) hl (length C) p"
proof -
  let ?maxc = "max_continuous_4K_blks cfg"
  obtain tc' where tc': "trace_container_sort_infomap_by_ts infos tc = Inr tc'" "tc_ok tc'" "tsize tc' = tsize tc"
      "tc_list tc' = sort_key (\<lambda>p. ts (infos ! p)) (tc_list tc)"
    using sort_ok [OF tc small] by (auto elim!: okE)
  have set': "\<forall>p\<in>set (tc_list tc'). p < length infos" "tc_list tc' \<noteq> []"
    using tc(2,3) tc'(4) by auto
  obtain hs hl where ex: "extract_hints infos tc' ?maxc hs0 = Inr hs" "tiles infos (tc_list tc') ?maxc (tsize tc) hl"
      "saved (map Some C @ replicate k None) (length C) hl hs"
    using extract_hints_ok [OF tc'(2) set'(1,2), of hs0 ?maxc] hs0 room small tc'(3) by (auto elim!: okE)
  have hl: "length hl \<le> tsize tc"
    by (rule tiles_length [OF ex(2)])
  note sv = saved_prefix [OF ex(3) le_trans [OF hl room]]
  let ?dst = "cfg_dstpath cfg @ ''trace_'' @ decimal i"
  have dst: "make_path (cfg_dstpath cfg) ''trace_'' i = Inr ?dst"
    using cfg by (intro make_path_ok) (auto simp: paths_fit_def)
  define dr where "dr = (case dump_read_path cfg of None \<Rightarrow> [] | Some d \<Rightarrow> d @ ''dump_read_'' @ decimal i)"
  have dr: "(case dump_read_path cfg of None \<Rightarrow> Inr [] | Some d \<Rightarrow> make_path d ''dump_read_'' i) = Inr dr"
    using cfg make_path_ok by (auto simp: dr_def paths_fit_def split: option.splits)
  define p where "p = \<lparr>param_tc = tc', hints_start = hints_idx hs0, hints_end = hints_idx hs,
           buf_len = max_blks hs * 4096, dstfilepath = ?dst, drfilepath = dr,
           param_gener = make_rand_gener rand_r junk junk_int (rand_gener_type cfg), param_mode = cfg_mode cfg\<rparr>"
  have blks: "continuous_blks hint \<le> max_blks hs" "continuous_blks hint \<noteq> 0" if "hint \<in> set hl" for hint
    using that ex(2,3) fold_max_ge [of "continuous_blks hint" "map continuous_blks hl"]
    by (auto simp: saved_def tiles_def hint_ok_def run_ok_def)
  have "max_blks hs \<le> max 1 (unat ?maxc)"
    using ex(2,3) fold_max_le [of "map continuous_blks hl" "max 1 (unat ?maxc)"]
    by (auto simp: saved_def tiles_def hint_ok_def run_ok_def)
  then have bl: "buf_len p \<le> max 1 (unat ?maxc) * 4096"
    by (simp add: p_def)
  have "ok (check_param_per_worker (hints hs) p) (\<lambda>_. True)"
    using blks(2) sv hs0(2) by (intro check_param_ok) (auto simp: p_def nth_append)
  then have "assign_worker cfg rand_r junk junk_int infos i tc (hs0, params) = Inr (hs, params @ [p])"
    using tc'(1) ex(1) dst dr by (auto simp: assign_worker_def Let_def p_def elim!: okE)
  moreover have "worker_param cfg rand_r junk junk_int infos i (tc_list tc) hl (length C) p"
    using bl tc' ex(2) hs0(2) sv(2) blks(1) length_tc_list [OF tc(1)]
    by (auto simp: worker_param_def p_def dr_def split: option.splits)
  ultimately show ?thesis
    using sv hl by blast
qed


subsection \<open>All workers\<close>

text \<open>The first \<open>i\<close> workers have been set up; \<open>hls\<close> are their hints.\<close>

definition assigned ::
  "replay_config \<Rightarrow> (u32 \<Rightarrow> i32 \<times> u32) \<Rightarrow> mt19937ar_state \<Rightarrow> i32 \<Rightarrow> trace_info list \<Rightarrow> nat \<Rightarrow>
   trace_container list \<Rightarrow> nat \<Rightarrow> trace_replay_hint list list \<Rightarrow> hint_state \<times> replay_param list \<Rightarrow> bool" where
  "assigned cfg rand_r junk junk_int infos n ws i hls = (\<lambda>(hs, params).
     length hls = i \<and> length params = i \<and>
     hints hs = map Some (concat hls) @ replicate (n - length (concat hls)) None \<and>
     hints_idx hs = length (concat hls) \<and>
     length (concat hls) \<le> length (concat (map tc_list (take i ws))) \<and>
     (\<forall>w<i. worker_param cfg rand_r junk junk_int infos w (tc_list (ws ! w)) (hls ! w)
        (length (concat (take w hls))) (params ! w)))"

lemma assigned_step:
  assumes a: "assigned cfg rand_r junk junk_int infos n ws i hls st" and cfg: "paths_fit cfg" "i < threads cfg"
    and i: "i < length ws" and tc: "tc_ok (ws ! i)" "tc_list (ws ! i) \<noteq> []" "\<forall>p\<in>set (tc_list (ws ! i)). p < length infos"
    and total: "length (concat (map tc_list ws)) \<le> n" and n: "n < 2 ^ 31"
  shows "ok (bindR (array_get ws i) (\<lambda>tc. assign_worker cfg rand_r junk junk_int infos i tc st))
    (\<lambda>st'. \<exists>hls'. assigned cfg rand_r junk junk_int infos n ws (Suc i) hls' st')"
proof -
  obtain hs0 params where st: "st = (hs0, params)"
    by (cases st)
  let ?C = "concat hls" and ?tc = "ws ! i"
  have len: "length (tc_list ?tc) = tsize ?tc"
    by (rule length_tc_list [OF tc(1)])
  have "concat (map tc_list ws) = concat (map tc_list (take i ws)) @ tc_list ?tc @ concat (map tc_list (drop (Suc i) ws))"
    using id_take_nth_drop [OF i] by (metis concat.simps(2) concat_append list.simps(9) map_append)
  then have room: "length (concat (map tc_list (take i ws))) + tsize ?tc \<le> n"
    using total len by simp
  then have k: "tsize ?tc \<le> n - length ?C" "tsize ?tc < 2 ^ 31"
    using a n by (auto simp: assigned_def st)
  obtain hs hl p where w: "assign_worker cfg rand_r junk junk_int infos i ?tc (hs0, params) = Inr (hs, params @ [p])"
      "hints hs = map Some (?C @ hl) @ replicate (n - length ?C - length hl) None" "hints_idx hs = length (?C @ hl)"
      "length hl \<le> tsize ?tc" "worker_param cfg rand_r junk junk_int infos i (tc_list ?tc) hl (length ?C) p"
    using assign_worker_ok [OF tc cfg _ _ k, of hs0 ?C rand_r junk junk_int params] a
    by (auto simp: assigned_def st)
  have "assigned cfg rand_r junk junk_int infos n ws (Suc i) (hls @ [hl]) (hs, params @ [p])"
    using a w(2-5) len i
    by (auto simp: assigned_def st less_Suc_eq nth_append take_Suc_conv_app_nth)
  then show ?thesis
    using w(1) i st by auto
qed

lemma sort_empty_ok:
  "tsize tc = 0 \<Longrightarrow> infos_map tc = replicate 64 None \<Longrightarrow>
     trace_container_sort_infomap_by_ts infos tc = Inl Uninitialised"
  using msort_uninitialised [of "2 ^ 64 - 1" "replicate 64 None" infos 0]
  by (simp add: trace_container_sort_infomap_by_ts_def)

text \<open>Setting up the first \<open>k\<close> workers, all of which have records.\<close>

lemma assign_workers_ok:
  assumes ws: "list_all2 (worker_holds grp) segs ws" "length ws = threads cfg" and k: "k \<le> threads cfg"
    and ne: "\<forall>i<k. tc_list (ws ! i) \<noteq> []" and valid: "\<forall>i<threads cfg. \<forall>p\<in>set (tc_list (ws ! i)). p < length infos"
    and cfg: "paths_fit cfg" and total: "length (concat (map tc_list ws)) \<le> n" and n: "n < 2 ^ 31"
  shows "ok (foldR (\<lambda>i s. bindR (array_get ws i) (\<lambda>tc. assign_worker cfg rand_r junk junk_int infos i tc s))
       [0..<k] (\<lparr>hints = replicate n None, hints_idx = 0, max_blks = 0\<rparr>, []))
    (\<lambda>st. \<exists>hls. assigned cfg rand_r junk junk_int infos n ws k hls st)"
proof (rule ok_foldR_upt [where I = "\<lambda>i st. \<exists>hls. assigned cfg rand_r junk junk_int infos n ws i hls st"])
  show "\<exists>hls. assigned cfg rand_r junk junk_int infos n ws 0 hls (\<lparr>hints = replicate n None, hints_idx = 0, max_blks = 0\<rparr>, [])"
    by (auto simp: assigned_def)
  fix i st assume i: "i < k" and "\<exists>hls. assigned cfg rand_r junk junk_int infos n ws i hls st"
  then obtain hls where "assigned cfg rand_r junk junk_int infos n ws i hls st"
    by blast
  moreover have "tc_ok (ws ! i)"
    using ws i k by (auto simp: list_all2_conv_all_nth worker_holds_def)
  moreover have "\<forall>p\<in>set (tc_list (ws ! i)). p < length infos" and "i < threads cfg"
    using valid order_less_le_trans [OF i k] by blast+
  ultimately show "ok (bindR (array_get ws i) (\<lambda>tc. assign_worker cfg rand_r junk junk_int infos i tc st))
      (\<lambda>st'. \<exists>hls'. assigned cfg rand_r junk junk_int infos n ws (Suc i) hls' st')"
    using i ws(2) ne cfg total n by (intro assigned_step) auto
qed simp

lemma assign_workers_empty:
  assumes ws: "list_all2 (worker_holds grp) segs ws" "length ws = threads cfg" and k: "k < threads cfg"
    and ne: "\<forall>i<k. tc_list (ws ! i) \<noteq> []" and empty: "segs ! k = []"
    and valid: "\<forall>i<threads cfg. \<forall>p\<in>set (tc_list (ws ! i)). p < length infos"
    and cfg: "paths_fit cfg" and total: "length (concat (map tc_list ws)) \<le> n" and n: "n < 2 ^ 31"
  shows "foldR (\<lambda>i s. bindR (array_get ws i) (\<lambda>tc. assign_worker cfg rand_r junk junk_int infos i tc s))
       [0..<threads cfg] (\<lparr>hints = replicate n None, hints_idx = 0, max_blks = 0\<rparr>, []) = Inl Uninitialised"
proof -
  let ?f = "\<lambda>i s. bindR (array_get ws i) (\<lambda>tc. assign_worker cfg rand_r junk junk_int infos i tc s)"
  obtain st where st: "foldR ?f [0..<k] (\<lparr>hints = replicate n None, hints_idx = 0, max_blks = 0\<rparr>, []) = Inr st"
    using assign_workers_ok [OF ws less_imp_le [OF k] ne valid cfg total n, of rand_r junk junk_int]
    by (auto elim!: okE)
  have "worker_holds grp [] (ws ! k)"
    using ws k empty by (metis list_all2_conv_all_nth)
  then have "trace_container_sort_infomap_by_ts infos (ws ! k) = Inl Uninitialised"
    using length_tc_list [of "ws ! k"] by (intro sort_empty_ok) (auto simp: worker_holds_def)
  then have "?f k st = Inl Uninitialised"
    using k ws(2) by (simp add: assign_worker_def split: prod.splits)
  moreover have "[0..<threads cfg] = [0..<k] @ k # [Suc k..<threads cfg]"
    using k upt_add_eq_append [of 0 k "threads cfg - k"] by (simp add: upt_conv_Cons)
  ultimately show ?thesis
    using st by (simp add: foldR_append)
qed

lemma concat_map_segs: "concat (map (\<lambda>seg. concat (map g seg)) segs) = concat (map g (concat segs))"
  by (induction segs) auto

lemma split_facts:
  assumes "split_by_lba infos n segs ws"
  shows "mset (concat (map tc_list ws)) = mset [0..<n]"
    and "i < length ws \<Longrightarrow> tc_list (ws ! i) = concat (map (group_of infos n) (segs ! i))"
    and "i < length ws \<Longrightarrow> tc_list (ws ! i) = [] \<longleftrightarrow> segs ! i = []"
proof -
  have l: "list_all2 (worker_holds (group_of infos n)) segs ws" and d: "distinct (concat segs)"
      "set (concat segs) = (\<lambda>i. lba (infos ! i)) ` {..<n}"
    using assms by (auto simp: split_by_lba_def)
  show tcl: "i < length ws \<Longrightarrow> tc_list (ws ! i) = concat (map (group_of infos n) (segs ! i))" for i
    using l by (auto simp: list_all2_conv_all_nth worker_holds_def)
  have "map tc_list ws = map (\<lambda>seg. concat (map (group_of infos n) seg)) segs"
    using tcl list_all2_lengthD [OF l] by (intro nth_equalityI) auto
  then have "concat (map tc_list ws) = concat (map (group_of infos n) (concat segs))"
    by (simp add: concat_map_segs)
  then show "mset (concat (map tc_list ws)) = mset [0..<n]"
    using groups_mset [OF refl d] by simp
  show "i < length ws \<Longrightarrow> tc_list (ws ! i) = [] \<longleftrightarrow> segs ! i = []"
  proof -
    assume i: "i < length ws"
    then have "segs ! i \<in> set segs"
      using list_all2_lengthD [OF l] by simp
    then have "set (segs ! i) \<subseteq> set (concat segs)"
      by auto
    then have "group_of infos n x \<noteq> []" if "x \<in> set (segs ! i)" for x
      using group_of_nonempty d(2) that by blast
    then show ?thesis
      using tcl [OF i] by (cases "segs ! i") auto
  qed
qed


lemma assign_params_ok:
  assumes "grouped base infos n ls st" and "n \<le> length infos" and "n \<le> 15 * 2 ^ 25"
    and "paths_fit cfg" and "0 < threads cfg"
  shows "\<exists>segs. length segs = threads cfg \<and> distinct (concat segs) \<and>
    set (concat segs) = (\<lambda>i. lba (infos ! i)) ` {..<n} \<and>
    (if [] \<in> set segs
     then assign_params_per_worker cfg rand_r junk junk_int waddr rnd base infos n st = Inl Uninitialised
     else ok (assign_params_per_worker cfg rand_r junk junk_int waddr rnd base infos n st) (\<lambda>(hs, params).
       length params = threads cfg \<and> (\<exists>hls. length hls = threads cfg \<and>
       hs = map Some (concat hls) @ replicate (n - length (concat hls)) None \<and>
       (\<forall>w<threads cfg. worker_param cfg rand_r junk junk_int infos w
          (concat (map (group_of infos n) (segs ! w))) (hls ! w) (length (concat (take w hls))) (params ! w)))))"
proof -
  let ?r = "assign_params_per_worker cfg rand_r junk junk_int waddr rnd base infos n st"
  let ?f = "\<lambda>ws i s. bindR (array_get ws i) (\<lambda>tc. assign_worker cfg rand_r junk junk_int infos i tc s)"
  let ?s0 = "(\<lparr>hints = replicate n None, hints_idx = 0, max_blks = 0\<rparr>, [])"
  obtain ast segs where d: "distribute (infos_mem base infos) (threads cfg) n waddr rnd st = Inr ast"
      "length segs = threads cfg" and sp: "split_by_lba infos n segs (worker_tcs ast)"
    using distribute_ok [OF assms(1,3,5), of waddr rnd] by (auto elim!: okE)
  let ?ws = "worker_tcs ast"
  have l: "list_all2 (worker_holds (group_of infos n)) segs ?ws" and segs: "distinct (concat segs)"
      "set (concat segs) = (\<lambda>i. lba (infos ! i)) ` {..<n}"
    using sp by (auto simp: split_by_lba_def)
  have lw: "length ?ws = threads cfg"
    using list_all2_lengthD [OF l] d(2) by simp
  note facts = split_facts [OF sp]
  have total: "length (concat (map tc_list ?ws)) \<le> n" and n: "n < 2 ^ 31"
    using mset_eq_length [OF facts(1)] assms(3) by auto
  have valid: "\<forall>i<threads cfg. \<forall>p\<in>set (tc_list (?ws ! i)). p < length infos"
  proof (intro allI impI ballI)
    fix i p assume "i < threads cfg" and p: "p \<in> set (tc_list (?ws ! i))"
    then have "?ws ! i \<in> set ?ws"
      using lw by simp
    with p have "p \<in> set (concat (map tc_list ?ws))"
      by auto
    then show "p < length infos"
      unfolding mset_eq_setD [OF facts(1)] using assms(2) by simp
  qed
  have r: "?r = bindR (foldR (?f ?ws) [0..<threads cfg] ?s0) (\<lambda>(hs, params). Inr (hints hs, params))"
    by (simp add: assign_params_per_worker_def d(1))
  show ?thesis
  proof (cases "[] \<in> set segs")
    case True
    then have "\<exists>k. k < threads cfg \<and> segs ! k = []"
      using d(2) by (metis in_set_conv_nth)
    then obtain k where k: "k < threads cfg" "segs ! k = []" and "\<forall>i<k. \<not> (i < threads cfg \<and> segs ! i = [])"
      by (subst (asm) exists_least_iff) blast
    then have "\<forall>i<k. segs ! i \<noteq> []"
      by auto
    with k lw have "\<forall>i<k. tc_list (?ws ! i) \<noteq> []"
      using facts(3) by simp
    then have "?r = Inl Uninitialised"
      using assign_workers_empty [OF l lw k(1) _ k(2) valid assms(4) total n, of rand_r junk junk_int] r by simp
    then show ?thesis
      using d(2) segs True by auto
  next
    case False
    then have "\<forall>i<threads cfg. tc_list (?ws ! i) \<noteq> []"
      using facts(3) lw d(2) by (metis nth_mem)
    then have "ok ?r (\<lambda>(hs, params). length params = threads cfg \<and> (\<exists>hls. length hls = threads cfg \<and>
       hs = map Some (concat hls) @ replicate (n - length (concat hls)) None \<and>
       (\<forall>w<threads cfg. worker_param cfg rand_r junk junk_int infos w
          (concat (map (group_of infos n) (segs ! w))) (hls ! w) (length (concat (take w hls))) (params ! w))))"
      using assign_workers_ok [OF l lw le_refl _ valid assms(4) total n, of rand_r junk junk_int] facts(2) lw
      unfolding r by (auto simp: ok_bindR_eq assigned_def elim!: ok_mono)
    then show ?thesis
      using d(2) segs False by auto
  qed
qed

subsection \<open>Properties\<close>


text \<open>Two records of one address, in the wrong order of time, and one worker.\<close>

definition one_worker :: replay_config where
  "one_worker = \<lparr>threads = 1, max_continuous_4K_blks = 256, rand_gener_type = RANDOM_LCG, cfg_mode = REPLAY_WRITEONLY,
     cfg_dstpath = ''/mnt/'', dump_read_path = None, verbose = True\<rparr>"


end
