(* ===== verification/Posix_File.thy ===== *)
theory Posix_File
  imports Fill_Blk
begin

text \<open>
  Files as the POSIX calls of the tools see them, and those calls: \<^verbatim>\<open>pwrite\<close>, \<^verbatim>\<open>write\<close> on a
  descriptor opened with \<^verbatim>\<open>O_APPEND\<close>, \<^verbatim>\<open>pread\<close> and \<^verbatim>\<open>fwrite\<close>. What the system does with a request is
  an argument of each call: \<open>None\<close> for an error, \<open>Some k\<close> for a transfer of at most \<open>k\<close> bytes. So the
  theorems cover every pattern of failures and of short transfers.
\<close>

subsection \<open>Files\<close>

record os_file =
  flen :: nat
  fbyte :: "nat \<Rightarrow> u8"

definition empty_file :: os_file where
  "empty_file = \<lparr>flen = 0, fbyte = (\<lambda>_. 0)\<rparr>"

text \<open>Bytes after the end of a file are kept zero, as a hole reads as zeros.\<close>

definition file_ok :: "os_file \<Rightarrow> bool" where
  "file_ok f \<longleftrightarrow> (\<forall>i\<ge>flen f. fbyte f i = 0)"

definition file_write :: "os_file \<Rightarrow> nat \<Rightarrow> u8 list \<Rightarrow> os_file" where
  "file_write f off d = (if d = [] then f else
     \<lparr>flen = max (flen f) (off + length d),
      fbyte = (\<lambda>i. if off \<le> i \<and> i < off + length d then d ! (i - off) else fbyte f i)\<rparr>)"

definition file_read :: "os_file \<Rightarrow> nat \<Rightarrow> nat \<Rightarrow> u8 list" where
  "file_read f off n = map (fbyte f) [off..<min (off + n) (flen f)]"

subsection \<open>System calls\<close>

definition sys_pwrite :: "nat option \<Rightarrow> os_file \<Rightarrow> u8 list \<Rightarrow> u64 \<Rightarrow> int \<times> os_file" where
  "sys_pwrite r f d off = (case r of None \<Rightarrow> (- 1, f)
     | Some k \<Rightarrow> if sint off < 0 then (- 1, f)
         else (int (min k (length d)), file_write f (unat off) (take (min k (length d)) d)))"

definition sys_append :: "nat option \<Rightarrow> os_file \<Rightarrow> u8 list \<Rightarrow> int \<times> os_file" where
  "sys_append r f d = (case r of None \<Rightarrow> (- 1, f)
     | Some k \<Rightarrow> (int (min k (length d)), file_write f (flen f) (take (min k (length d)) d)))"

text \<open>A read transfers nothing only at the end of the file.\<close>

definition sys_pread :: "nat option \<Rightarrow> os_file \<Rightarrow> nat \<Rightarrow> u64 \<Rightarrow> int \<times> u8 list" where
  "sys_pread r f n off = (case r of None \<Rightarrow> (- 1, [])
     | Some k \<Rightarrow> if sint off < 0 then (- 1, [])
         else let avail = file_read f (unat off) n;
                  m = if avail = [] then 0 else max 1 (min k (length avail)) in
              (int m, take m avail))"

text \<open>\<^verbatim>\<open>fwrite\<close> whose result is ignored.\<close>

definition sys_fwrite :: "nat option \<Rightarrow> u8 list \<Rightarrow> u8 list \<Rightarrow> u8 list" where
  "sys_fwrite r out d = (case r of None \<Rightarrow> out | Some k \<Rightarrow> out @ take (min k (length d)) d)"

text \<open>What the system does with the requests of a worker, by the number of the call.\<close>

record io =
  write_io :: "nat \<Rightarrow> nat option"
  read_io :: "nat \<Rightarrow> nat option"
  fwrite_io :: "nat \<Rightarrow> nat option"

text \<open>All requests for up to \<open>n\<close> bytes are carried out; reads may still be short.\<close>

definition io_complete :: "nat \<Rightarrow> io \<Rightarrow> bool" where
  "io_complete n io \<longleftrightarrow> (\<forall>i. (\<exists>k\<ge>n. write_io io i = Some k) \<and> read_io io i \<noteq> None)"

definition fwrite_complete :: "nat \<Rightarrow> io \<Rightarrow> bool" where
  "fwrite_complete n io \<longleftrightarrow> (\<forall>i. \<exists>k\<ge>n. fwrite_io io i = Some k)"

subsection \<open>Results of programs that give up on an error\<close>

text \<open>
  \<open>res_or_exit good r P\<close>: the program returns a value with \<open>P\<close>, or it ends with \<^verbatim>\<open>exit(1)\<close>, but
  not if \<open>good\<close> holds.
\<close>

definition res_or_exit :: "bool \<Rightarrow> 'a res \<Rightarrow> ('a \<Rightarrow> bool) \<Rightarrow> bool" where
  "res_or_exit good r P = (case r of Inl e \<Rightarrow> e = Exit 1 \<and> \<not> good | Inr x \<Rightarrow> P x)"

lemma roe_simps [simp]:
  "res_or_exit good (Inr x) P \<longleftrightarrow> P x"
  "res_or_exit good (Inl e) P \<longleftrightarrow> e = Exit 1 \<and> \<not> good"
  by (simp_all add: res_or_exit_def)

lemma roe_bindR: "res_or_exit good r Q \<Longrightarrow> (\<And>x. Q x \<Longrightarrow> res_or_exit good (f x) P) \<Longrightarrow> res_or_exit good (bindR r f) P"
  by (cases r) auto

lemma roe_mono: "res_or_exit good r P \<Longrightarrow> (\<And>x. P x \<Longrightarrow> Q x) \<Longrightarrow> res_or_exit good r Q"
  by (cases r) auto

lemma roe_weaken: "res_or_exit good r P \<Longrightarrow> (good' \<Longrightarrow> good) \<Longrightarrow> res_or_exit good' r P"
  by (cases r) auto

lemma ok_roe: "ok r P \<Longrightarrow> res_or_exit good r P"
  by (cases r) auto

lemma roe_ok: "res_or_exit True r P \<longleftrightarrow> ok r P"
  by (cases r) auto

lemma roe_foldR:
  assumes "I [] s" and "\<And>done x rest s. xs = done @ x # rest \<Longrightarrow> I done s \<Longrightarrow> res_or_exit good (f x s) (I (done @ [x]))"
  shows "res_or_exit good (foldR f xs s) (I xs)"
proof -
  have "xs = done @ rest \<Longrightarrow> I done s \<Longrightarrow> res_or_exit good (foldR f rest s) (I xs)" for "done" rest s
  proof (induction rest arbitrary: "done" s)
    case (Cons x rest)
    then have "res_or_exit good (f x s) (I (done @ [x]))"
      using assms(2) by blast
    moreover have "res_or_exit good (foldR f rest s') (I xs)" if "I (done @ [x]) s'" for s'
      using Cons.IH [of "done @ [x]" s'] Cons.prems that by simp
    ultimately show ?case
      by (auto intro: roe_bindR)
  qed simp
  from this [of "[]" xs s] show ?thesis
    using assms(1) by simp
qed

subsection \<open>Facts about files\<close>

lemma file_write_Nil [simp]: "file_write f off [] = f"
  by (simp add: file_write_def)

lemma file_write_append: "file_write (file_write f off d) (off + length d) e = file_write f off (d @ e)"
  by (auto simp: file_write_def nth_append fun_eq_iff)

lemma flen_append [simp]: "flen (file_write f (flen f) d) = flen f + length d"
  by (simp add: file_write_def)

lemma fbyte_write: "fbyte (file_write f off d) i =
    (if off \<le> i \<and> i < off + length d then d ! (i - off) else fbyte f i)"
  by (auto simp: file_write_def)

lemma file_ok_empty [simp]: "file_ok empty_file"
  by (simp add: file_ok_def empty_file_def)

lemma file_ok_write [simp]: "file_ok f \<Longrightarrow> file_ok (file_write f off d)"
  by (auto simp: file_ok_def file_write_def)

lemma sys_pwrite_full: "n \<ge> length d \<Longrightarrow> 0 \<le> sint off \<Longrightarrow>
    sys_pwrite (Some n) f d off = (int (length d), file_write f (unat off) d)"
  by (simp add: sys_pwrite_def)

lemma sys_append_full: "n \<ge> length d \<Longrightarrow> sys_append (Some n) f d = (int (length d), file_write f (flen f) d)"
  by (simp add: sys_append_def)

text \<open>What an accepted return value says of the call.\<close>

lemma sys_pwrite_done:
  "sys_pwrite r f d off = (int (length d), f') \<Longrightarrow> f' = file_write f (unat off) d"
  by (auto simp: sys_pwrite_def min_def split: option.splits if_splits)

lemma sys_append_done:
  "sys_append r f d = (int (length d), f') \<Longrightarrow> f' = file_write f (flen f) d"
  by (auto simp: sys_append_def min_def split: option.splits if_splits)

end
