(* ===== verification/Replay_Worker.thy ===== *)
theory Replay_Worker
  imports Assign_Correct Posix_File
begin

text \<open>
  \<^verbatim>\<open>replay_worker\<close> of \<^verbatim>\<open>replay.c\<close> in its three modes: a worker goes through its hints, fills its
  buffer with the blocks of a run and writes the run with one call, or reads it.
\<close>

subsection \<open>The worker\<close>

text \<open>\<^verbatim>\<open>check_ret\<close>; both numbers are cut down to \<^verbatim>\<open>int\<close> when they are passed.\<close>

definition check_ret :: "int \<Rightarrow> nat \<Rightarrow> unit res" where
  "check_ret ret expected = (if (of_int ret :: i32) = of_nat expected then Inr () else Inl (Exit 1))"

record worker_state =
  wfile :: os_file
  wdump :: "u8 list"
  wbuf :: "u8 list"
  wgener :: rand_gener
  wcalls :: nat

text \<open>The loop that fills the buffer for a hint; \<open>p\<close> is the offset of \<^verbatim>\<open>p\<close> in the buffer.\<close>

definition fill_run ::
  "trace_info list \<Rightarrow> nat option list \<Rightarrow> trace_replay_hint \<Rightarrow> worker_state \<Rightarrow> worker_state res" where
  "fill_run infos im hint st =
     bindR (foldR (\<lambda>j (p, buf, g).
         bindR (info_cell infos im j) (\<lambda>info.
         bindR (fill_blk buf p (md5 info) g) (\<lambda>(buf', g').
         Inr (p + BLK_SIZE, buf', g'))))
       [start_trace_line hint..<start_trace_line hint + continuous_blks hint] (0, wbuf st, wgener st))
     (\<lambda>(p, buf, g). Inr (st\<lparr>wbuf := buf, wgener := g\<rparr>))"

text \<open>The first \<open>n\<close> bytes of a buffer, as a system call reads them.\<close>

definition load_buf :: "u8 list \<Rightarrow> nat \<Rightarrow> u8 list res" where
  "load_buf buf n = (if n \<le> length buf then Inr (take n buf) else Inl OutOfBounds)"

definition pwrite_hint ::
  "io \<Rightarrow> trace_info list \<Rightarrow> nat option list \<Rightarrow> trace_replay_hint \<Rightarrow> worker_state \<Rightarrow> worker_state res" where
  "pwrite_hint io infos im hint st0 =
     (let blk_size = push_bit BLK_SHIFT (continuous_blks hint) in
      bindR (fill_run infos im hint st0) (\<lambda>st.
      bindR (info_cell infos im (start_trace_line hint)) (\<lambda>info.
      bindR (load_buf (wbuf st) blk_size) (\<lambda>d.
      let (ret, f) = sys_pwrite (write_io io (wcalls st)) (wfile st) d (ofs info) in
      bindR (check_ret ret blk_size) (\<lambda>_.
      Inr (st\<lparr>wfile := f, wcalls := wcalls st + 1\<rparr>))))))"

definition append_hint ::
  "io \<Rightarrow> trace_info list \<Rightarrow> nat option list \<Rightarrow> trace_replay_hint \<Rightarrow> worker_state \<Rightarrow> worker_state res" where
  "append_hint io infos im hint st0 =
     (let blk_size = push_bit BLK_SHIFT (continuous_blks hint) in
      bindR (fill_run infos im hint st0) (\<lambda>st.
      bindR (load_buf (wbuf st) blk_size) (\<lambda>d.
      let (ret, f) = sys_append (write_io io (wcalls st)) (wfile st) d in
      bindR (check_ret ret blk_size) (\<lambda>_.
      Inr (st\<lparr>wfile := f, wcalls := wcalls st + 1\<rparr>)))))"

text \<open>
  The loop around \<^verbatim>\<open>pread\<close>: it ends when everything is read or at the end of the file. The
  number of calls made so far is threaded through.
\<close>

function read_loop ::
  "io \<Rightarrow> os_file \<Rightarrow> u64 \<Rightarrow> nat \<Rightarrow> nat \<Rightarrow> u8 list \<Rightarrow> nat \<Rightarrow> (nat \<times> u8 list \<times> nat) res" where
  "read_loop io f off blk_size fin buf calls =
     (if fin = blk_size then Inr (fin, buf, calls)
      else let (ret, d) = sys_pread (read_io io calls) f (blk_size - fin) (off + of_nat fin) in
        if ret = - 1 then Inl (Exit 1)
        else if ret = 0 then Inr (fin, buf, calls + 1)
        else bindR (write_bytes buf fin d) (\<lambda>buf'. read_loop io f off blk_size (fin + nat ret) buf' (calls + 1)))"
  by pat_completeness auto

lemma sys_pread_le:
  "sys_pread r f n off = (ret, d) \<Longrightarrow> ret = - 1 \<or> ret = int (length d) \<and> length d \<le> n"
  by (auto simp: sys_pread_def file_read_def Let_def min_def max_def split: option.splits if_splits)

termination read_loop
  by (relation "measure (\<lambda>(io, f, off, blk_size, fin, buf, calls). blk_size - fin)")
    (auto dest!: sys_pread_le [OF sym] simp: neq_Nil_conv)

declare read_loop.simps [simp del]

definition read_hint ::
  "io \<Rightarrow> bool \<Rightarrow> trace_info list \<Rightarrow> nat option list \<Rightarrow> trace_replay_hint \<Rightarrow> worker_state \<Rightarrow> worker_state res" where
  "read_hint io is_dump_read infos im hint st =
     (let blk_size = push_bit BLK_SHIFT (continuous_blks hint) in
      bindR (info_cell infos im (start_trace_line hint)) (\<lambda>info.
      bindR (read_loop io (wfile st) (ofs info) blk_size 0 (wbuf st) (wcalls st)) (\<lambda>(fin, buf, calls).
      bindR (write_bytes buf fin (replicate (blk_size - fin) 0)) (\<lambda>buf'.
      bindR (load_buf buf' blk_size) (\<lambda>d.
      Inr (if is_dump_read
           then st\<lparr>wbuf := buf', wcalls := calls + 1, wdump := sys_fwrite (fwrite_io io calls) (wdump st) d\<rparr>
           else st\<lparr>wbuf := buf', wcalls := calls\<rparr>))))))"

definition replay_hint ::
  "io \<Rightarrow> bool \<Rightarrow> trace_info list \<Rightarrow> replay_param \<Rightarrow> trace_replay_hint \<Rightarrow> worker_state \<Rightarrow> worker_state res" where
  "replay_hint io is_dump_read infos param hint st =
     (let im = infos_map (param_tc param) in
      case param_mode param of
        REPLAY_WRITEONLY \<Rightarrow> pwrite_hint io infos im hint st
      | REPLAY_APPEND \<Rightarrow> append_hint io infos im hint st
      | REPLAY_READWRITE \<Rightarrow>
          if hint_rw hint = CHR ''W'' then pwrite_hint io infos im hint st
          else read_hint io is_dump_read infos im hint st)"

definition hint_at :: "trace_replay_hint option list \<Rightarrow> nat \<Rightarrow> trace_replay_hint res" where
  "hint_at hs i = bindR (array_get hs i) (\<lambda>c. case c of None \<Rightarrow> Inl Uninitialised | Some hint \<Rightarrow> Inr hint)"

text \<open>
  Opening: \<open>old\<close> is the destination file if it exists, \<open>dst_opens\<close> and \<open>dr_opens\<close> say whether the
  two files can be opened. \<open>junk_buf\<close> are the contents of the buffer from \<^verbatim>\<open>malloc\<close>.
\<close>

definition worker_start ::
  "bool \<Rightarrow> bool \<Rightarrow> bool \<Rightarrow> os_file option \<Rightarrow> u8 list \<Rightarrow> replay_param \<Rightarrow> worker_state res" where
  "worker_start is_dump_read dr_opens dst_opens old junk_buf param =
     bindR (guardR (is_dump_read \<longrightarrow> dr_opens) (Exit 1)) (\<lambda>_.
     bindR (guardR dst_opens (Exit 1)) (\<lambda>_.
     Inr \<lparr>wfile = (case old of None \<Rightarrow> empty_file | Some f \<Rightarrow> f), wdump = [], wbuf = junk_buf,
          wgener = param_gener param, wcalls = 0\<rparr>))"

definition replay_worker ::
  "io \<Rightarrow> bool \<Rightarrow> bool \<Rightarrow> bool \<Rightarrow> os_file option \<Rightarrow> u8 list \<Rightarrow> trace_info list \<Rightarrow>
   trace_replay_hint option list \<Rightarrow> replay_param \<Rightarrow> worker_state res" where
  "replay_worker io is_dump_read dr_opens dst_opens old junk_buf infos hs param =
     bindR (worker_start is_dump_read dr_opens dst_opens old junk_buf param)
     (foldR (\<lambda>i st. bindR (hint_at hs i) (\<lambda>hint. replay_hint io is_dump_read infos param hint st))
       [hints_start param..<hints_end param])"

subsection \<open>Reference: one record at a time\<close>

text \<open>
  What a record means for the file and for the dump of the reads. \<open>strm\<close> are the numbers of the
  worker's generator.
\<close>

definition replay_record ::
  "(u32 \<Rightarrow> nat \<Rightarrow> u32) option \<Rightarrow> bool \<Rightarrow> replay_mode \<Rightarrow> trace_info \<Rightarrow> os_file \<times> u8 list \<Rightarrow> os_file \<times> u8 list" where
  "replay_record strm is_dump_read m info = (\<lambda>(f, out).
     let pos = unat (ofs info); blk = blk_data strm (md5 info) in
     case m of
       REPLAY_WRITEONLY \<Rightarrow> (file_write f pos blk, out)
     | REPLAY_APPEND \<Rightarrow> (file_write f (flen f) blk, out)
     | REPLAY_READWRITE \<Rightarrow>
         if rw info = CHR ''W'' then (file_write f pos blk, out)
         else (f, if is_dump_read then out @ map (fbyte f) [pos..<pos + 4096] else out))"

text \<open>Records as the parser makes them from addresses below \<open>2 ^ 52\<close> with good fingerprints.\<close>

definition record_ok :: "trace_info \<Rightarrow> bool" where
  "record_ok info \<longleftrightarrow> ofs info = push_bit 9 (lba info) \<and> unat (lba info) < 2 ^ 52 \<and> md5_ok (md5 info)"

end
