(* ===== verification/Worker_Correct.thy ===== *)
theory Worker_Correct
  imports Replay_Worker
begin

text \<open>
  A worker does to its file what its records say one after the other: a run of consecutive
  blocks written or read with one call is the same as its blocks one by one.
\<close>

subsection \<open>Filling the buffer\<close>

lemma take_put_bytes:
  "off + length d \<le> length buf \<Longrightarrow> take (off + length d) (put_bytes buf off d) = take off buf @ d"
  by (simp add: put_bytes_def)

lemma fill_run_ok:
  assumes tc: "tc_ok tc" "\<forall>p\<in>set (tc_list tc). p < length infos \<and> md5_ok (md5 (infos ! p))"
    and run: "start_trace_line hint + continuous_blks hint \<le> tsize tc"
    and buf: "continuous_blks hint * 4096 \<le> length (wbuf st)" and g: "gener_obeys (wgener st) strm"
  shows "ok (fill_run infos (infos_map tc) hint st) (\<lambda>st'. \<exists>buf g. st' = st\<lparr>wbuf := buf, wgener := g\<rparr> \<and>
    length buf = length (wbuf st) \<and> gener_obeys g strm \<and> take (continuous_blks hint * 4096) buf =
      concat (map (\<lambda>j. blk_data strm (md5 (infos ! (tc_list tc ! j)))) (hint_lines hint)))"
proof -
  let ?s = "start_trace_line hint" and ?n = "continuous_blks hint"
  let ?D = "\<lambda>j. blk_data strm (md5 (infos ! (tc_list tc ! j)))"
  let ?I = "\<lambda>j (p, buf, g). p = (j - ?s) * 4096 \<and> length buf = length (wbuf st) \<and> gener_obeys g strm \<and>
    take p buf = concat (map ?D [?s..<j])"
  let ?f = "\<lambda>j (p, buf, g). bindR (info_cell infos (infos_map tc) j) (\<lambda>info.
         bindR (fill_blk buf p (md5 info) g) (\<lambda>(buf', g'). Inr (p + 4096, buf', g')))"
  have "ok (foldR ?f [?s..<?s + ?n] (0, wbuf st, wgener st)) (?I (?s + ?n))"
  proof (rule ok_foldR_upt [where I = ?I])
    fix j x assume j: "?s \<le> j" "j < ?s + ?n" and I: "?I j x"
    obtain p buf g where x: "x = (p, buf, g)"
      by (cases x)
    have lt: "tc_list tc ! j \<in> set (tc_list tc)"
      using j run length_tc_list [OF tc(1)] by simp
    then have cell: "info_cell infos (infos_map tc) j = Inr (infos ! (tc_list tc ! j))" and md: "md5_ok (md5 (infos ! (tc_list tc ! j)))"
      using tc j run by (auto intro!: info_cell_ok)
    have "Suc (j - ?s) \<le> ?n"
      using j by linarith
    then have room: "p + 4096 \<le> length buf"
      using I buf x mult_le_mono1 [of "Suc (j - ?s)" ?n 4096] by simp
    have "take (p + 4096) (put_bytes buf p (?D j)) = concat (map ?D [?s..<Suc j])"
      using take_put_bytes [of p "?D j" buf] room I x j(1) length_blk_data [OF md] by auto
    moreover have "p + 4096 = (Suc j - ?s) * 4096"
      using I x j(1) by (simp add: Suc_diff_le)
    ultimately show "ok (?f j x) (?I (Suc j))"
      using fill_blk_ok [OF _ md room, of g strm] I x cell room length_blk_data [OF md]
      by (auto simp: ok_bindR_eq elim!: ok_mono)
  qed (use g in auto)
  then show ?thesis
    by (auto simp: fill_run_def hint_lines_def ok_bindR_eq elim!: ok_mono) blast
qed

subsection \<open>Runs of consecutive blocks\<close>

lemma unat_ofs:
  assumes "record_ok info"
  shows "unat (ofs info) = unat (lba info) * 512"
proof -
  have "unat (ofs info) = unat (lba info) * 512 mod 2 ^ 64"
    using assms by (simp add: record_ok_def push_bit_eq_mult unat_word_ariths)
  then show ?thesis
    using assms by (simp add: record_ok_def)
qed

lemma sint_small: "unat (w :: u64) < 2 ^ 63 \<Longrightarrow> 0 \<le> sint w"
proof -
  assume "unat w < 2 ^ 63"
  then have "uint w < 2 ^ 63"
    by (simp add: nat_less_iff flip: nat_uint_eq)
  then have "sint w = uint w"
    unfolding sint_uint by (intro signed_take_bit_int_eq_self) (simp_all add: order_trans [OF _ uint_ge_0])
  then show ?thesis
    by simp
qed

lemma ofs_nonneg:
  assumes "record_ok info" and "n < 2 ^ 62"
  shows "0 \<le> sint (ofs info + of_nat n)" and "unat (ofs info + of_nat n) = unat (ofs info) + n"
proof -
  have b: "unat (ofs info) < 2 ^ 61"
    using unat_ofs [OF assms(1)] assms(1) by (simp add: record_ok_def)
  then show u: "unat (ofs info + of_nat n) = unat (ofs info) + n"
    using assms(2) by (simp add: unat_word_ariths unat_of_nat)
  then show "0 \<le> sint (ofs info + of_nat n)"
    using b assms(2) by (intro sint_small) simp
qed

lemma run_offsets:
  assumes "run_ok infos L maxc s n" and "\<forall>p\<in>set L. record_ok (infos ! p)" and "s \<le> j" and "j < s + n"
  shows "unat (ofs (infos ! (L ! j))) = unat (ofs (infos ! (L ! s))) + (j - s) * 4096 \<and>
    rw (infos ! (L ! j)) = rw (infos ! (L ! s))"
  using assms(3,4)
proof (induction j)
  case (Suc j)
  show ?case
  proof (cases "s = Suc j")
    case False
    then have IH: "unat (ofs (infos ! (L ! j))) = unat (ofs (infos ! (L ! s))) + (j - s) * 4096"
        "rw (infos ! (L ! j)) = rw (infos ! (L ! s))" and sj: "s \<le> j"
      using Suc by auto
    have c: "lba (infos ! (L ! Suc j)) - lba (infos ! (L ! j)) = 8" "rw (infos ! (L ! Suc j)) = rw (infos ! (L ! j))"
      using assms(1) Suc.prems False by (auto simp: run_ok_def continues_def dest!: spec [of _ "Suc j"])
    have ok: "record_ok (infos ! (L ! j))" "record_ok (infos ! (L ! Suc j))"
      using assms(1,2) Suc.prems by (auto simp: run_ok_def)
    have "lba (infos ! (L ! Suc j)) = lba (infos ! (L ! j)) + 8"
      using c(1) by (simp add: algebra_simps)
    then have "unat (lba (infos ! (L ! Suc j))) = unat (lba (infos ! (L ! j))) + 8"
      using ok(1) by (simp add: record_ok_def unat_word_ariths)
    then show ?thesis
      using IH c(2) sj unat_ofs [OF ok(1)] unat_ofs [OF ok(2)] by (simp add: Suc_diff_le)
  qed simp
qed simp

text \<open>Writing the pieces of a run one after the other, or reading them.\<close>

lemma fold_write_run:
  assumes "\<forall>j\<in>{s..<s + n}. length (D j) = k \<and> pos j = off + (j - s) * k"
  shows "fold (\<lambda>j f. file_write f (pos j) (D j)) [s..<s + n] f = file_write f off (concat (map D [s..<s + n]))"
  using assms
proof (induction n)
  case (Suc n)
  have "length (concat (map D [s..<s + n])) = n * k"
    using Suc.prems length_concat_const [of "[s..<s + n]" D k] by simp
  then show ?case
    using Suc file_write_append [of f off "concat (map D [s..<s + n])" "D (s + n)"] by simp
qed simp

lemma fold_append_run: "fold (\<lambda>j f. file_write f (flen f) (D j)) js f = file_write f (flen f) (concat (map D js))"
proof (induction js arbitrary: f)
  case (Cons j js)
  then show ?case
    using file_write_append [of f "flen f" "D j"] by simp
qed simp

lemma fold_read_run:
  assumes "\<forall>j\<in>{s..<s + n}. pos j = off + (j - s) * k"
  shows "fold (\<lambda>j out. out @ map (fbyte f) [pos j..<pos j + k]) [s..<s + n] out = out @ map (fbyte f) [off..<off + n * k]"
  using assms
proof (induction n)
  case (Suc n)
  have "[off..<off + Suc n * k] = [off..<off + n * k] @ [off + n * k..<off + n * k + k]"
    using upt_add_eq_append [of off "off + n * k" k] by (simp add: algebra_simps)
  then show ?case
    using Suc by simp
qed simp

subsection \<open>Reading a run\<close>

lemma sys_pread_cases:
  assumes "sys_pread r f n off = (ret, d)" and "0 \<le> sint off"
  shows "r = None \<and> ret = - 1 \<or> r \<noteq> None \<and> ret = 0 \<and> (n = 0 \<or> flen f \<le> unat off) \<or>
    ret = int (length d) \<and> 0 < length d \<and> length d \<le> n \<and> d = map (fbyte f) [unat off..<unat off + length d]"
proof -
  have "take m [a..<b] = [a..<a + m]" if "m \<le> b - a" for m a b :: nat
    using that by (cases "a \<le> b") (simp_all add: take_upt)
  then show ?thesis
    using assms
    by (auto simp: sys_pread_def file_read_def Let_def take_map min_def max_def split: option.splits if_splits)
qed

lemma read_loop_ok:
  assumes "record_ok info" and "blk_size < 2 ^ 62" and "blk_size \<le> length buf" and "fin \<le> blk_size"
    and "take fin buf = map (fbyte f) [unat (ofs info)..<unat (ofs info) + fin]"
  shows "res_or_exit (\<forall>i. read_io io i \<noteq> None) (read_loop io f (ofs info) blk_size fin buf calls)
    (\<lambda>(fin', buf', calls'). fin' \<le> blk_size \<and> length buf' = length buf \<and>
      take fin' buf' = map (fbyte f) [unat (ofs info)..<unat (ofs info) + fin'] \<and>
      (fin' < blk_size \<longrightarrow> flen f \<le> unat (ofs info) + fin'))"
  using assms(3-5)
proof (induction "blk_size - fin" arbitrary: fin buf calls rule: less_induct)
  case less
  let ?off = "unat (ofs info)"
  obtain ret d where r: "sys_pread (read_io io calls) f (blk_size - fin) (ofs info + of_nat fin) = (ret, d)"
    by fastforce
  have "fin < 2 ^ 62"
    using less.prems assms(2) by simp
  note o = ofs_nonneg [OF assms(1) this]
  note c = sys_pread_cases [OF r o(1), unfolded o(2)]
  show ?case
  proof (cases "fin = blk_size \<or> ret = - 1 \<or> ret = 0")
    case True
    then show ?thesis
      using less.prems c by (subst read_loop.simps) (auto simp: r)
  next
    case False
    then have d: "ret = int (length d)" "0 < length d" "length d \<le> blk_size - fin"
        "d = map (fbyte f) [?off + fin..<?off + fin + length d]"
      using c by auto
    then have w: "fin + length d \<le> blk_size" "write_bytes buf fin d = Inr (put_bytes buf fin d)"
      using less.prems by auto
    have t: "take (fin + length d) (put_bytes buf fin d) = map (fbyte f) [?off..<?off + (fin + length d)]"
      using take_put_bytes [of fin d buf] less.prems w(1) d(4) [symmetric] upt_add_eq_append [of ?off "?off + fin" "length d"]
      by (simp add: add.assoc)
    have lt: "blk_size - (fin + length d) < blk_size - fin"
      using w(1) d(2) by linarith
    show ?thesis
      using less.hyps [OF lt _ w(1) t, of "calls + 1"] False w d(1,2) less.prems
      by (subst read_loop.simps) (auto simp: r)
  qed
qed

lemma file_tail_zero: "file_ok f \<Longrightarrow> flen f \<le> a \<Longrightarrow> map (fbyte f) [a..<a + n] = replicate n 0"
  by (auto simp: file_ok_def intro!: nth_equalityI)

lemma read_hint_ok:
  assumes tc: "info_cell infos im (start_trace_line hint) = Inr info" "record_ok info"
    and n: "continuous_blks hint * 4096 \<le> length (wbuf st)" "length (wbuf st) < 2 ^ 31" and f: "file_ok (wfile st)"
  shows "res_or_exit (\<forall>i. read_io io i \<noteq> None) (read_hint io is_dump infos im hint st)
    (\<lambda>st'. \<exists>buf calls calls' out. st' = st\<lparr>wbuf := buf, wcalls := calls', wdump := out\<rparr> \<and> length buf = length (wbuf st) \<and>
      out = (if is_dump then sys_fwrite (fwrite_io io calls) (wdump st)
        (map (fbyte (wfile st)) [unat (ofs info)..<unat (ofs info) + continuous_blks hint * 4096]) else wdump st))"
proof -
  let ?n = "continuous_blks hint * 4096" and ?off = "unat (ofs info)" and ?f = "wfile st"
  have b: "push_bit 12 (continuous_blks hint) = ?n"
    by (simp add: push_bit_eq_mult)
  show ?thesis
    unfolding read_hint_def Let_def b tc(1) bindR.simps
  proof (rule roe_bindR [OF read_loop_ok [OF tc(2)]], goal_cases)
    case (5 x)
    then obtain fin buf calls where x: "x = (fin, buf, calls)"
      and a: "fin \<le> ?n" "length buf = length (wbuf st)" "take fin buf = map (fbyte ?f) [?off..<?off + fin]"
      and e: "fin < ?n \<longrightarrow> flen ?f \<le> ?off + fin"
      by (cases x) auto
    let ?z = "replicate (?n - fin) 0" and ?buf = "put_bytes buf fin (replicate (?n - fin) 0)"
    have w: "write_bytes buf fin ?z = Inr ?buf"
      using a n by simp
    have "map (fbyte ?f) [?off + fin..<?off + fin + (?n - fin)] = ?z"
      using e a(1) file_tail_zero [OF f, of "?off + fin" "?n - fin"] by (cases "fin < ?n") auto
    then have t: "take ?n ?buf = map (fbyte ?f) [?off..<?off + ?n]"
      using take_put_bytes [of fin ?z buf] a n upt_add_eq_append [of ?off "?off + fin" "?n - fin"] by simp
    have l: "load_buf ?buf ?n = Inr (map (fbyte ?f) [?off..<?off + ?n])" "length ?buf = length (wbuf st)"
      using t a n by (simp_all add: load_buf_def)
    show ?case
      unfolding x prod.case w bindR.simps l(1) roe_simps
      by (rule exI [of _ ?buf], rule exI [of _ calls], rule exI [of _ "if is_dump then calls + 1 else calls"])
        (auto simp: l(2) simp del: length_put_bytes)
  qed (use n in auto)
qed

subsection \<open>Writing a run\<close>

lemma check_ret_eq:
  assumes "- 1 \<le> ret" and "ret \<le> int n" and "n < 2 ^ 31"
  shows "check_ret ret n = (if ret = int n then Inr () else Inl (Exit 1))"
proof -
  have "(of_int ret :: i32) = of_nat n \<longleftrightarrow> ret mod 2 ^ 32 = int n mod 2 ^ 32"
    using word_of_int_eq_iff [where 'a = 32, of ret "int n"] by (simp add: take_bit_eq_mod)
  also have "\<dots> \<longleftrightarrow> ret = int n"
    using assms by (cases "ret = - 1") auto
  finally show ?thesis
    by (simp add: check_ret_def)
qed

lemma sys_write_range:
  "sys_pwrite r f d off = (ret, f') \<Longrightarrow> - 1 \<le> ret \<and> ret \<le> int (length d)"
  "sys_append r f d = (ret, f') \<Longrightarrow> - 1 \<le> ret \<and> ret \<le> int (length d)"
  by (auto simp: sys_pwrite_def sys_append_def split: option.splits if_splits)

text \<open>The records of a hint, and what a state of the worker has to do with its data.\<close>

abbreviation (input) rec_at :: "trace_info list \<Rightarrow> trace_container \<Rightarrow> nat \<Rightarrow> trace_info" where
  "rec_at infos tc j \<equiv> infos ! (tc_list tc ! j)"

definition worker_ready ::
  "trace_info list \<Rightarrow> trace_container \<Rightarrow> u64 \<Rightarrow> (u32 \<Rightarrow> nat \<Rightarrow> u32) option \<Rightarrow> trace_replay_hint \<Rightarrow> worker_state \<Rightarrow> bool" where
  "worker_ready infos tc maxc strm hint st \<longleftrightarrow> tc_ok tc \<and>
     (\<forall>p\<in>set (tc_list tc). p < length infos \<and> record_ok (infos ! p)) \<and> hint_ok infos (tc_list tc) maxc hint \<and>
     continuous_blks hint * 4096 \<le> length (wbuf st) \<and> length (wbuf st) < 2 ^ 31 \<and> gener_obeys (wgener st) strm"

lemma hint_facts:
  assumes "worker_ready infos tc maxc strm hint st"
  shows "info_cell infos (infos_map tc) (start_trace_line hint) = Inr (rec_at infos tc (start_trace_line hint))"
    and "record_ok (rec_at infos tc (start_trace_line hint))"
    and "\<forall>j\<in>set (hint_lines hint). length (blk_data strm (md5 (rec_at infos tc j))) = 4096 \<and>
      unat (ofs (rec_at infos tc j)) =
        unat (ofs (rec_at infos tc (start_trace_line hint))) + (j - start_trace_line hint) * 4096 \<and>
      rw (rec_at infos tc j) = hint_rw hint"
    and "ok (fill_run infos (infos_map tc) hint st) (\<lambda>st'. \<exists>buf g. st' = st\<lparr>wbuf := buf, wgener := g\<rparr> \<and>
      length buf = length (wbuf st) \<and> gener_obeys g strm \<and>
      load_buf buf (push_bit 12 (continuous_blks hint)) =
        Inr (concat (map (\<lambda>j. blk_data strm (md5 (rec_at infos tc j))) (hint_lines hint))))"
proof -
  let ?s = "start_trace_line hint" and ?n = "continuous_blks hint"
  have r: "run_ok infos (tc_list tc) maxc ?s ?n" and rw: "hint_rw hint = rw (rec_at infos tc ?s)"
    and tc: "tc_ok tc" "\<forall>p\<in>set (tc_list tc). p < length infos \<and> record_ok (infos ! p)"
    using assms by (auto simp: worker_ready_def hint_ok_def)
  have l: "?s + ?n \<le> tsize tc" "0 < ?n"
    using r length_tc_list [OF tc(1)] by (auto simp: run_ok_def)
  have mem: "tc_list tc ! j \<in> set (tc_list tc)" if "j \<in> set (hint_lines hint)" for j
    using that l length_tc_list [OF tc(1)] by (simp add: hint_lines_def)
  have s: "?s \<in> set (hint_lines hint)"
    using l by (simp add: hint_lines_def)
  show "info_cell infos (infos_map tc) ?s = Inr (rec_at infos tc ?s)"
    using tc mem [OF s] l by (intro info_cell_ok) auto
  show "record_ok (rec_at infos tc ?s)"
    using tc mem [OF s] by blast
  show "\<forall>j\<in>set (hint_lines hint). length (blk_data strm (md5 (rec_at infos tc j))) = 4096 \<and>
      unat (ofs (rec_at infos tc j)) = unat (ofs (rec_at infos tc ?s)) + (j - ?s) * 4096 \<and>
      rw (rec_at infos tc j) = hint_rw hint"
  proof
    fix j assume j: "j \<in> set (hint_lines hint)"
    then have "md5_ok (md5 (rec_at infos tc j))"
      using mem [OF j] tc(2) by (auto simp: record_ok_def)
    then show "length (blk_data strm (md5 (rec_at infos tc j))) = 4096 \<and>
      unat (ofs (rec_at infos tc j)) = unat (ofs (rec_at infos tc ?s)) + (j - ?s) * 4096 \<and>
      rw (rec_at infos tc j) = hint_rw hint"
      using run_offsets [OF r, of j] tc(2) j length_blk_data rw by (auto simp: hint_lines_def)
  qed
  have "ok (fill_run infos (infos_map tc) hint st) (\<lambda>st'. \<exists>buf g. st' = st\<lparr>wbuf := buf, wgener := g\<rparr> \<and>
    length buf = length (wbuf st) \<and> gener_obeys g strm \<and> take (?n * 4096) buf =
      concat (map (\<lambda>j. blk_data strm (md5 (rec_at infos tc j))) (hint_lines hint)))"
    using assms l tc by (intro fill_run_ok) (auto simp: worker_ready_def record_ok_def)
  then show "ok (fill_run infos (infos_map tc) hint st) (\<lambda>st'. \<exists>buf g. st' = st\<lparr>wbuf := buf, wgener := g\<rparr> \<and>
      length buf = length (wbuf st) \<and> gener_obeys g strm \<and>
      load_buf buf (push_bit 12 ?n) = Inr (concat (map (\<lambda>j. blk_data strm (md5 (rec_at infos tc j))) (hint_lines hint))))"
    using assms by (elim ok_mono) (fastforce simp: load_buf_def push_bit_eq_mult worker_ready_def)
qed

text \<open>The data of a hint, and the state after it has been written.\<close>

definition hint_data ::
  "trace_info list \<Rightarrow> trace_container \<Rightarrow> (u32 \<Rightarrow> nat \<Rightarrow> u32) option \<Rightarrow> trace_replay_hint \<Rightarrow> u8 list" where
  "hint_data infos tc strm hint = concat (map (\<lambda>j. blk_data strm (md5 (rec_at infos tc j))) (hint_lines hint))"

definition written_to :: "(u32 \<Rightarrow> nat \<Rightarrow> u32) option \<Rightarrow> os_file \<Rightarrow> worker_state \<Rightarrow> worker_state \<Rightarrow> bool" where
  "written_to strm f st st' \<longleftrightarrow> wfile st' = f \<and> wdump st' = wdump st \<and> length (wbuf st') = length (wbuf st) \<and>
     gener_obeys (wgener st') strm"

lemma length_hint_data:
  assumes "worker_ready infos tc maxc strm hint st"
  shows "length (hint_data infos tc strm hint) = continuous_blks hint * 4096"
proof -
  have "length (hint_data infos tc strm hint) = length (hint_lines hint) * 4096"
    unfolding hint_data_def using hint_facts(3) [OF assms] by (intro length_concat_const) simp
  then show ?thesis
    by (simp add: hint_lines_def)
qed

lemma io_complete_hint:
  assumes "worker_ready infos tc maxc strm hint st" and "io_complete (length (wbuf st)) io"
  shows "\<exists>k\<ge>length (hint_data infos tc strm hint). write_io io i = Some k"
proof -
  obtain k where "length (wbuf st) \<le> k" "write_io io i = Some k"
    using assms(2) by (auto simp: io_complete_def)
  then show ?thesis
    using assms(1) length_hint_data [OF assms(1)] by (auto simp: worker_ready_def)
qed

lemma write_checked:
  assumes "worker_ready infos tc maxc strm hint st" and "- 1 \<le> ret" "ret \<le> int (length (hint_data infos tc strm hint))"
    and "ret = int (length (hint_data infos tc strm hint)) \<Longrightarrow> P s"
    and "good \<Longrightarrow> ret = int (length (hint_data infos tc strm hint))"
  shows "res_or_exit good (bindR (check_ret ret (push_bit 12 (continuous_blks hint))) (\<lambda>_. Inr s)) P"
  using assms check_ret_eq [of ret "continuous_blks hint * 4096"] length_hint_data [OF assms(1)]
  by (auto simp: worker_ready_def push_bit_eq_mult)

lemma pwrite_hint_ok:
  assumes w: "worker_ready infos tc maxc strm hint st"
  shows "res_or_exit (io_complete (length (wbuf st)) io) (pwrite_hint io infos (infos_map tc) hint st)
    (written_to strm (file_write (wfile st) (unat (ofs (rec_at infos tc (start_trace_line hint))))
       (hint_data infos tc strm hint)) st)"
  unfolding pwrite_hint_def Let_def
proof (rule roe_bindR [OF ok_roe [OF hint_facts(4) [OF w]]])
  let ?d = "hint_data infos tc strm hint" and ?info = "rec_at infos tc (start_trace_line hint)"
  fix st' assume "\<exists>buf g. st' = st\<lparr>wbuf := buf, wgener := g\<rparr> \<and> length buf = length (wbuf st) \<and> gener_obeys g strm \<and>
      load_buf buf (push_bit 12 (continuous_blks hint)) =
        Inr (concat (map (\<lambda>j. blk_data strm (md5 (rec_at infos tc j))) (hint_lines hint)))"
  then obtain buf g where st': "st' = st\<lparr>wbuf := buf, wgener := g\<rparr>" "length buf = length (wbuf st)" "gener_obeys g strm"
      and l: "load_buf (wbuf st') (push_bit 12 (continuous_blks hint)) = Inr ?d"
    by (auto simp: hint_data_def)
  obtain ret f where r: "sys_pwrite (write_io io (wcalls st')) (wfile st') ?d (ofs ?info) = (ret, f)"
    by fastforce
  have o: "0 \<le> sint (ofs ?info)"
    using ofs_nonneg [OF hint_facts(2) [OF w], of 0] by simp
  have "ret = int (length ?d)" if "io_complete (length (wbuf st)) io"
    using io_complete_hint [OF w that, of "wcalls st'"] r o sys_pwrite_full [of ?d _ "ofs ?info" "wfile st'"] by auto
  moreover have "ret = int (length ?d) \<Longrightarrow> f = file_write (wfile st) (unat (ofs ?info)) ?d"
    using r sys_pwrite_done st' by fastforce
  ultimately show "res_or_exit (io_complete (length (wbuf st)) io)
      (bindR (info_cell infos (infos_map tc) (start_trace_line hint)) (\<lambda>info.
       bindR (load_buf (wbuf st') (push_bit 12 (continuous_blks hint))) (\<lambda>d.
       case sys_pwrite (write_io io (wcalls st')) (wfile st') d (ofs info) of (ret, f) \<Rightarrow>
       bindR (check_ret ret (push_bit 12 (continuous_blks hint))) (\<lambda>_. Inr (st'\<lparr>wfile := f, wcalls := wcalls st' + 1\<rparr>)))))
      (written_to strm (file_write (wfile st) (unat (ofs ?info)) ?d) st)"
    unfolding hint_facts(1) [OF w] bindR.simps l Let_def r prod.case
    using sys_write_range(1) [OF r] st' by (intro write_checked [OF w]) (auto simp: written_to_def)
qed

lemma append_hint_ok:
  assumes w: "worker_ready infos tc maxc strm hint st"
  shows "res_or_exit (io_complete (length (wbuf st)) io) (append_hint io infos (infos_map tc) hint st)
    (written_to strm (file_write (wfile st) (flen (wfile st)) (hint_data infos tc strm hint)) st)"
  unfolding append_hint_def Let_def
proof (rule roe_bindR [OF ok_roe [OF hint_facts(4) [OF w]]])
  let ?d = "hint_data infos tc strm hint"
  fix st' assume "\<exists>buf g. st' = st\<lparr>wbuf := buf, wgener := g\<rparr> \<and> length buf = length (wbuf st) \<and> gener_obeys g strm \<and>
      load_buf buf (push_bit 12 (continuous_blks hint)) =
        Inr (concat (map (\<lambda>j. blk_data strm (md5 (rec_at infos tc j))) (hint_lines hint)))"
  then obtain buf g where st': "st' = st\<lparr>wbuf := buf, wgener := g\<rparr>" "length buf = length (wbuf st)" "gener_obeys g strm"
      and l: "load_buf (wbuf st') (push_bit 12 (continuous_blks hint)) = Inr ?d"
    by (auto simp: hint_data_def)
  obtain ret f where r: "sys_append (write_io io (wcalls st')) (wfile st') ?d = (ret, f)"
    by fastforce
  have "ret = int (length ?d)" if "io_complete (length (wbuf st)) io"
    using io_complete_hint [OF w that, of "wcalls st'"] r sys_append_full [of ?d _ "wfile st'"] by auto
  moreover have "ret = int (length ?d) \<Longrightarrow> f = file_write (wfile st) (flen (wfile st)) ?d"
    using r sys_append_done st' by fastforce
  ultimately show "res_or_exit (io_complete (length (wbuf st)) io)
      (bindR (load_buf (wbuf st') (push_bit 12 (continuous_blks hint))) (\<lambda>d.
       case sys_append (write_io io (wcalls st')) (wfile st') d of (ret, f) \<Rightarrow>
       bindR (check_ret ret (push_bit 12 (continuous_blks hint))) (\<lambda>_. Inr (st'\<lparr>wfile := f, wcalls := wcalls st' + 1\<rparr>))))
      (written_to strm (file_write (wfile st) (flen (wfile st)) ?d) st)"
    unfolding l bindR.simps Let_def r prod.case
    using sys_write_range(2) [OF r] st' by (intro write_checked [OF w]) (auto simp: written_to_def)
qed

subsection \<open>A hint is its records\<close>

lemma fold_fst: "fold (\<lambda>j (f, out). (g j f, out)) js (f, out) = (fold g js f, out)"
  by (induction js arbitrary: f) auto

lemma fold_snd: "fold (\<lambda>j (f, out). (f, g f j out)) js (f, out) = (f, fold (g f) js out)"
  by (induction js arbitrary: out) auto

definition replay_records ::
  "(u32 \<Rightarrow> nat \<Rightarrow> u32) option \<Rightarrow> bool \<Rightarrow> replay_mode \<Rightarrow> trace_info list \<Rightarrow> os_file \<times> u8 list \<Rightarrow> os_file \<times> u8 list" where
  "replay_records strm is_dump m = fold (replay_record strm is_dump m)"

lemma mode_cases:
  obtains (append) "m = REPLAY_APPEND"
    | (writing) "m \<noteq> REPLAY_APPEND" "m = REPLAY_WRITEONLY \<or> c = CHR ''W''"
    | (read) "m = REPLAY_READWRITE" "c \<noteq> CHR ''W''"
  by (cases m) auto

lemma records_of_hint:
  assumes w: "worker_ready infos tc maxc strm hint st"
  shows "replay_records strm is_dump m (map (rec_at infos tc) (hint_lines hint)) (f, out) =
    (let pos = unat (ofs (rec_at infos tc (start_trace_line hint))); d = hint_data infos tc strm hint in
     if m = REPLAY_APPEND then (file_write f (flen f) d, out)
     else if m = REPLAY_WRITEONLY \<or> hint_rw hint = CHR ''W'' then (file_write f pos d, out)
     else (f, if is_dump then out @ map (fbyte f) [pos..<pos + continuous_blks hint * 4096] else out))"
proof -
  let ?r = "rec_at infos tc" and ?js = "hint_lines hint"
  let ?pos = "\<lambda>j. unat (ofs (?r j))" and ?D = "\<lambda>j. blk_data strm (md5 (?r j))"
  note facts = hint_facts(3) [OF w]
  have rws: "\<forall>j\<in>set ?js. rw (?r j) = hint_rw hint"
    using facts by blast
  have run: "\<forall>j\<in>{start_trace_line hint..<start_trace_line hint + continuous_blks hint}. length (?D j) = 4096 \<and>
      ?pos j = ?pos (start_trace_line hint) + (j - start_trace_line hint) * 4096"
    using facts unfolding hint_lines_def set_upt by blast
  have cong: "replay_records strm is_dump m (map ?r ?js) (f, out) = fold g ?js (f, out)"
    if "\<And>j. j \<in> set ?js \<Longrightarrow> replay_record strm is_dump m (?r j) = g j" for g
    unfolding replay_records_def fold_map by (rule fold_cong) (auto simp only: o_apply that)
  show ?thesis
  proof (cases rule: mode_cases [where m = m and c = "hint_rw hint"])
    case append
    then have "replay_records strm is_dump m (map ?r ?js) (f, out) = fold (\<lambda>j (f, out). (file_write f (flen f) (?D j), out)) ?js (f, out)"
      by (intro cong) (simp add: replay_record_def)
    then show ?thesis
      using append by (simp add: fold_fst fold_append_run hint_data_def)
  next
    case writing
    then have "replay_records strm is_dump m (map ?r ?js) (f, out) = fold (\<lambda>j (f, out). (file_write f (?pos j) (?D j), out)) ?js (f, out)"
      using rws by (intro cong, cases m) (simp_all add: replay_record_def Let_def)
    then show ?thesis
      using writing fold_write_run [OF run] by (simp add: fold_fst hint_data_def hint_lines_def)
  next
    case read
    then have "replay_records strm is_dump m (map ?r ?js) (f, out) =
        fold (\<lambda>j (f, out). (f, if is_dump then out @ map (fbyte f) [?pos j..<?pos j + 4096] else out)) ?js (f, out)"
      using rws by (intro cong) (simp add: replay_record_def Let_def)
    moreover have "fold (\<lambda>j out. out) js x = x" for js :: "nat list" and x :: "u8 list"
      by (induction js) auto
    moreover have "fold (\<lambda>j out. out @ map (fbyte f) [?pos j..<?pos j + 4096]) ?js out =
        out @ map (fbyte f) [?pos (start_trace_line hint)..<?pos (start_trace_line hint) + continuous_blks hint * 4096]"
      unfolding hint_lines_def by (rule fold_read_run) (use run in blast)
    ultimately show ?thesis
      using read by (simp add: fold_snd Let_def)
  qed
qed

text \<open>
  The simulation: a state of the worker stands for a file and a dump. The dump is only right if
  no \<^verbatim>\<open>fwrite\<close> falls short, since its result is ignored.
\<close>

definition worker_rel ::
  "(u32 \<Rightarrow> nat \<Rightarrow> u32) option \<Rightarrow> nat \<Rightarrow> io \<Rightarrow> worker_state \<Rightarrow> os_file \<times> u8 list \<Rightarrow> bool" where
  "worker_rel strm n io st = (\<lambda>(f, out). wfile st = f \<and> file_ok f \<and> length (wbuf st) = n \<and>
     gener_obeys (wgener st) strm \<and> (fwrite_complete n io \<longrightarrow> wdump st = out))"

lemma sys_fwrite_complete:
  "fwrite_complete n io \<Longrightarrow> length d \<le> n \<Longrightarrow> sys_fwrite (fwrite_io io i) out d = out @ d"
  by (auto simp: fwrite_complete_def sys_fwrite_def dest!: spec [of _ i])

lemma replay_hint_simulates:
  assumes w: "worker_ready infos (param_tc param) maxc strm hint st" and rel: "worker_rel strm n io st s"
  shows "res_or_exit (io_complete n io) (replay_hint io is_dump infos param hint st) (\<lambda>st'. worker_rel strm n io st'
    (replay_records strm is_dump (param_mode param) (map (rec_at infos (param_tc param)) (hint_lines hint)) s))"
proof -
  let ?tc = "param_tc param" and ?m = "param_mode param"
  obtain f out where s: "s = (f, out)" and f: "wfile st = f" "file_ok f" "length (wbuf st) = n"
      "gener_obeys (wgener st) strm" "fwrite_complete n io \<longrightarrow> wdump st = out"
    using rel by (cases s) (auto simp: worker_rel_def)
  have n: "continuous_blks hint * 4096 \<le> n" "n < 2 ^ 31"
    using w f(3) by (auto simp: worker_ready_def)
  note simps = replay_hint_def records_of_hint [OF w] s Let_def worker_rel_def
  show ?thesis
  proof (cases rule: mode_cases [where m = ?m and c = "hint_rw hint"])
    case append
    then show ?thesis
      using append_hint_ok [OF w, of io] f by (auto simp: simps written_to_def elim!: roe_mono)
  next
    case writing
    then have "replay_hint io is_dump infos param hint st = pwrite_hint io infos (infos_map ?tc) hint st"
      by (cases ?m) (auto simp: simps)
    then show ?thesis
      using pwrite_hint_ok [OF w, of io] f writing by (auto simp: simps written_to_def elim!: roe_mono)
  next
    case read
    let ?pos = "unat (ofs (rec_at infos ?tc (start_trace_line hint)))"
    have "res_or_exit (io_complete n io) (read_hint io is_dump infos (infos_map ?tc) hint st)
      (\<lambda>st'. \<exists>buf calls calls' o'. st' = st\<lparr>wbuf := buf, wcalls := calls', wdump := o'\<rparr> \<and> length buf = length (wbuf st) \<and>
        o' = (if is_dump then sys_fwrite (fwrite_io io calls) (wdump st)
          (map (fbyte (wfile st)) [?pos..<?pos + continuous_blks hint * 4096]) else wdump st))"
      using n f by (intro roe_weaken [OF read_hint_ok] hint_facts(1,2) [OF w]) (auto simp: io_complete_def)
    then show ?thesis
      using f read n(1) by (auto simp: simps sys_fwrite_complete elim!: roe_mono)
  qed
qed

subsection \<open>A worker is its records\<close>

definition hints_from :: "trace_replay_hint option list \<Rightarrow> nat \<Rightarrow> trace_replay_hint list \<Rightarrow> bool" where
  "hints_from hs start hl \<longleftrightarrow> take (length hl) (drop start hs) = map Some hl"

lemma hint_at_ok: "hints_from hs start hl \<Longrightarrow> k < length hl \<Longrightarrow> hint_at hs (start + k) = Inr (hl ! k)"
proof -
  assume h: "hints_from hs start hl" and k: "k < length hl"
  have len: "length hl \<le> length hs - start"
    using arg_cong [OF h [unfolded hints_from_def], of length] by simp
  moreover have "hs ! (start + k) = Some (hl ! k)"
    using arg_cong [OF h [unfolded hints_from_def], of "\<lambda>xs. xs ! k"] k len by simp
  ultimately show ?thesis
    using k by (simp add: hint_at_def)
qed

text \<open>What a worker needs to run: what \<open>worker_param\<close> provides, and records it can write.\<close>

definition runnable ::
  "trace_info list \<Rightarrow> trace_replay_hint option list \<Rightarrow> u64 \<Rightarrow> (u32 \<Rightarrow> nat \<Rightarrow> u32) option \<Rightarrow> trace_replay_hint list \<Rightarrow> replay_param \<Rightarrow> bool" where
  "runnable infos hs maxc strm hl p \<longleftrightarrow>
     tc_ok (param_tc p) \<and> (\<forall>q\<in>set (tc_list (param_tc p)). q < length infos \<and> record_ok (infos ! q)) \<and>
     tiles infos (tc_list (param_tc p)) maxc (tsize (param_tc p)) hl \<and>
     hints_from hs (hints_start p) hl \<and> hints_end p = hints_start p + length hl \<and>
     (\<forall>hint\<in>set hl. continuous_blks hint * 4096 \<le> buf_len p) \<and> buf_len p < 2 ^ 31 \<and>
     gener_obeys (param_gener p) strm"

lemma runnable_ready:
  assumes "runnable infos hs maxc strm hl p" and "worker_rel strm (buf_len p) io st s" and "hint \<in> set hl"
  shows "worker_ready infos (param_tc p) maxc strm hint st"
  using assms by (auto simp: runnable_def worker_ready_def worker_rel_def tiles_def split: prod.splits)

lemma all_records:
  assumes "runnable infos hs maxc strm hl p"
  shows "map (rec_at infos (param_tc p)) (concat (map hint_lines hl)) = map ((!) infos) (tc_list (param_tc p))"
  using assms length_tc_list [of "param_tc p"]
  by (auto simp: runnable_def tiles_def intro!: nth_equalityI)

lemma run_hints:
  assumes run: "runnable infos hs maxc strm hl p" and rel: "worker_rel strm (buf_len p) io st0 s0"
  shows "res_or_exit (io_complete (buf_len p) io)
    (foldR (\<lambda>i st. bindR (hint_at hs i) (\<lambda>hint. replay_hint io is_dump infos p hint st)) [hints_start p..<hints_end p] st0)
    (\<lambda>st. worker_rel strm (buf_len p) io st
       (replay_records strm is_dump (param_mode p) (map ((!) infos) (tc_list (param_tc p))) s0))"
proof -
  let ?R = "\<lambda>hl. replay_records strm is_dump (param_mode p) (map (rec_at infos (param_tc p)) (concat (map hint_lines hl))) s0"
  let ?f = "\<lambda>i st. bindR (hint_at hs i) (\<lambda>hint. replay_hint io is_dump infos p hint st)"
  have idx: "[hints_start p..<hints_end p] = map (\<lambda>k. hints_start p + k) [0..<length hl]"
    using run map_add_upt [of "hints_start p" "length hl"] by (simp add: runnable_def add.commute)
  have "res_or_exit (io_complete (buf_len p) io) (foldR (\<lambda>k. ?f (hints_start p + k)) [0..<length hl] st0)
      (\<lambda>st. worker_rel strm (buf_len p) io st (?R (take (length [0..<length hl]) hl)))"
  proof (rule roe_foldR [where I = "\<lambda>done st. worker_rel strm (buf_len p) io st (?R (take (length done) hl))"])
    show "worker_rel strm (buf_len p) io st0 (?R (take (length []) hl))"
      using rel by (simp add: replay_records_def)
    fix ks k rest st
    assume ks: "[0..<length hl] = ks @ k # rest" and st: "worker_rel strm (buf_len p) io st (?R (take (length ks) hl))"
    have "length ks < length hl"
      using arg_cong [OF ks, of length] by simp
    then have k: "k = length ks" "k < length hl"
      using arg_cong [OF ks, of "\<lambda>xs. xs ! length ks"] by (simp_all del: upt_Suc)
    then have "hl ! k \<in> set hl" and h: "hint_at hs (hints_start p + k) = Inr (hl ! k)"
      using hint_at_ok run by (auto simp: runnable_def)
    note w = runnable_ready [OF run st this(1)]
    have "?R (take (length (ks @ [k])) hl) = replay_records strm is_dump (param_mode p)
        (map (rec_at infos (param_tc p)) (hint_lines (hl ! k))) (?R (take (length ks) hl))"
      using k by (simp add: take_Suc_conv_app_nth replay_records_def)
    then show "res_or_exit (io_complete (buf_len p) io) (?f (hints_start p + k) st)
        (\<lambda>st. worker_rel strm (buf_len p) io st (?R (take (length (ks @ [k])) hl)))"
      using replay_hint_simulates [OF w st, of is_dump] h by simp
  qed
  then show ?thesis
    unfolding idx foldR_map using all_records [OF run] by simp
qed

lemma replay_worker_ok:
  assumes run: "runnable infos hs maxc strm hl p" and buf: "length junk_buf = buf_len p"
    and old: "\<forall>f. old = Some f \<longrightarrow> file_ok f"
  shows "res_or_exit (io_complete (buf_len p) io \<and> dst_opens \<and> (is_dump \<longrightarrow> dr_opens))
    (replay_worker io is_dump dr_opens dst_opens old junk_buf infos hs p)
    (\<lambda>st. worker_rel strm (buf_len p) io st (replay_records strm is_dump (param_mode p)
       (map ((!) infos) (tc_list (param_tc p))) (case old of None \<Rightarrow> empty_file | Some f \<Rightarrow> f, [])))"
proof (cases "dst_opens \<and> (is_dump \<longrightarrow> dr_opens)")
  case True
  let ?st = "\<lparr>wfile = (case old of None \<Rightarrow> empty_file | Some f \<Rightarrow> f), wdump = [], wbuf = junk_buf,
          wgener = param_gener p, wcalls = 0\<rparr>"
  have "worker_rel strm (buf_len p) io ?st (case old of None \<Rightarrow> empty_file | Some f \<Rightarrow> f, [])"
    using run buf old by (auto simp: worker_rel_def runnable_def split: option.splits)
  from run_hints [OF run this, of is_dump] show ?thesis
    using True by (simp add: replay_worker_def worker_start_def)
next
  case False
  then show ?thesis
    by (auto simp: replay_worker_def worker_start_def guardR_def)
qed

subsection \<open>Properties\<close>

text \<open>
  C3: \<open>replay_worker\<close> against every behaviour of the system. Whatever calls fail or fall
  short, the worker either ends the program with \<^verbatim>\<open>exit(1)\<close>, or its file is what comes of its
  records one after the other: in write mode each block is written at its offset, in append
  mode the blocks are appended, in read-write mode reads leave the file alone and, if dumped,
  add the block as it is at that moment, with zeros after the end of the file. The dump is only
  guaranteed if no \<^verbatim>\<open>fwrite\<close> fell short. If the files open, no call fails and no write is short,
  the worker returns; short reads do not matter.
\<close>

theorem replay_worker_refines:
  assumes "runnable infos hs maxc strm hl p" and "length junk_buf = buf_len p"
    and "\<forall>f. old = Some f \<longrightarrow> file_ok f"
  shows "case replay_worker io is_dump dr_opens dst_opens old junk_buf infos hs p of
      Inl e \<Rightarrow> e = Exit 1 \<and> \<not> (io_complete (buf_len p) io \<and> dst_opens \<and> (is_dump \<longrightarrow> dr_opens))
    | Inr st \<Rightarrow> (case fold (replay_record strm is_dump (param_mode p)) (map ((!) infos) (tc_list (param_tc p)))
          (case old of None \<Rightarrow> empty_file | Some f \<Rightarrow> f, []) of
        (f, out) \<Rightarrow> wfile st = f \<and> (fwrite_complete (buf_len p) io \<longrightarrow> wdump st = out))"
  using replay_worker_ok [OF assms, of io dst_opens is_dump dr_opens]
  by (auto simp: res_or_exit_def worker_rel_def replay_records_def split: sum.splits prod.splits)

text \<open>Two consecutive blocks as one run, and a system that does all that is asked of it.\<close>

definition two_blocks :: replay_param where
  "two_blocks = \<lparr>param_tc = \<lparr>infos_map = [Some 0, Some 1], meta = 0, tsize = 2, tcapacity = 2\<rparr>,
     hints_start = 0, hints_end = 1, buf_len = 8192, dstfilepath = ''/mnt/trace_0'', drfilepath = [],
     param_gener = make_rand_gener (\<lambda>s. (0, s)) mt_junk 0 RANDOM_NULL, param_mode = REPLAY_WRITEONLY\<rparr>"

definition full_io :: io where
  "full_io = \<lparr>write_io = (\<lambda>_. Some 8192), read_io = (\<lambda>_. Some 1), fwrite_io = (\<lambda>_. Some 8192)\<rparr>"

lemma two_blocks_runnable:
  "runnable [info_at 1 8, info_at 2 16] [Some \<lparr>continuous_blks = 2, start_trace_line = 0, hint_rw = CHR ''W''\<rparr>] 8
     None [\<lparr>continuous_blks = 2, start_trace_line = 0, hint_rw = CHR ''W''\<rparr>] two_blocks"
proof -
  have "gener_obeys (param_gener two_blocks) None"
    using make_rand_gener_obeys [of mt_junk "\<lambda>s. (0, s)" 0 RANDOM_NULL] by (simp add: two_blocks_def gener_stream_def)
  moreover have "k = 1" if "0 < k" "k < Suc (Suc 0)" for k :: nat
    using that by simp
  moreover have "[0..<2] = [0, 1 :: nat]"
    by (simp add: upt_rec)
  ultimately show ?thesis
    by (auto simp: runnable_def two_blocks_def tc_ok_def tc_list_def record_ok_def info_at_def md5_ok_def tiles_def
        hint_lines_def hint_ok_def run_ok_def continues_def hints_from_def)
qed

theorem replay_worker_refines_witness:
  "\<exists>st. replay_worker full_io False False True None (replicate 8192 7) [info_at 1 8, info_at 2 16]
     [Some \<lparr>continuous_blks = 2, start_trace_line = 0, hint_rw = CHR ''W''\<rparr>] two_blocks = Inr st \<and> flen (wfile st) = 12288"
proof -
  have "md5_ok (replicate 32 CHR ''a'')"
    by (simp add: md5_ok_def)
  then have blk: "length (blk_data None (replicate 32 CHR ''a'')) = 4096"
    by (rule length_blk_data)
  then have "blk_data None (replicate 32 CHR ''a'') \<noteq> []"
    by auto
  with blk have spec: "case fold (replay_record None False (param_mode two_blocks))
        (map ((!) [info_at 1 8, info_at 2 16]) (tc_list (param_tc two_blocks))) (empty_file, []) of (f, out) \<Rightarrow> flen f = 12288"
    by (simp add: two_blocks_def tc_list_def replay_record_def info_at_def file_write_def empty_file_def Let_def)
  have "length (replicate 8192 (7 :: u8)) = buf_len two_blocks" "io_complete (buf_len two_blocks) full_io"
    by (simp_all add: two_blocks_def full_io_def io_complete_def)
  then show ?thesis
    using replay_worker_refines [OF two_blocks_runnable, where old = None and junk_buf = "replicate 8192 7" and io = full_io
        and is_dump = False and dr_opens = False and dst_opens = True] spec
    by (auto split: sum.splits prod.splits)
qed

end
