(* ===== verification/Replay_Threads.thy ===== *)
theory Replay_Threads
  imports Worker_Correct
begin

text \<open>
  The workers as threads: \<^verbatim>\<open>main\<close> starts one thread per worker and joins them all. A step lets
  one thread open its files or replay its next hint; the steps of different threads
  interleave in every order. The threads share the file system. Each worker writes a file of
  its own, so every schedule ends with the files the workers leave when run alone.
\<close>

subsection \<open>Interface: a file for every worker\<close>

locale worker_paths =
  fixes path :: "string \<Rightarrow> nat \<Rightarrow> string"
  assumes path_inj: "path dir i = path dir j \<Longrightarrow> i = j"
begin

lemma distinct_paths: "distinct (map (path dir) [0..<n])"
  using path_inj by (auto simp: distinct_map intro!: inj_onI)

lemma other_file: "i \<noteq> j \<Longrightarrow> (fs(path dir i := f)) (path dir j) = fs (path dir j)"
  using path_inj by fastforce

end

interpretation trace_path: worker_paths "\<lambda>dir i. dir @ ''trace_'' @ decimal i"
  by unfold_locales simp

interpretation dump_path: worker_paths "\<lambda>dir i. dir @ ''dump_read_'' @ decimal i"
  by unfold_locales simp

subsection \<open>The system\<close>

text \<open>
  What the threads are given: the records and hints, the parameters of every worker and, for
  every worker, what the system does with its calls and what is in its fresh buffer.
\<close>

record replay_env =
  env_dump :: bool
  env_infos :: "trace_info list"
  env_hints :: "trace_replay_hint option list"
  env_params :: "replay_param list"
  env_io :: "nat \<Rightarrow> io"
  env_dr_opens :: "nat \<Rightarrow> bool"
  env_dst_opens :: "nat \<Rightarrow> bool"
  env_bufs :: "nat \<Rightarrow> u8 list"

text \<open>A thread before it has opened its files, or about to replay the hint with the given index.\<close>

datatype thread = Created | At nat worker_state

record replay_system =
  files :: "string \<Rightarrow> os_file option"
  ths :: "thread list"

definition hint_body :: "replay_env \<Rightarrow> nat \<Rightarrow> replay_param \<Rightarrow> nat \<Rightarrow> worker_state \<Rightarrow> worker_state res" where
  "hint_body env w p i st =
     bindR (hint_at (env_hints env) i) (\<lambda>hint. replay_hint (env_io env w) (env_dump env) (env_infos env) p hint st)"

definition open_files :: "replay_env \<Rightarrow> nat \<Rightarrow> replay_param \<Rightarrow> os_file option \<Rightarrow> worker_state res" where
  "open_files env w p old =
     worker_start (env_dump env) (env_dr_opens env w) (env_dst_opens env w) old (env_bufs env w) p"

fun thread_step :: "replay_env \<Rightarrow> nat \<Rightarrow> replay_param \<Rightarrow> os_file option \<Rightarrow> thread \<Rightarrow> (nat \<times> worker_state) res" where
  "thread_step env w p old Created = bindR (open_files env w p old) (\<lambda>st. Inr (hints_start p, st))"
| "thread_step env w p old (At i st) =
     (case old of None \<Rightarrow> Inl NullDeref
      | Some f \<Rightarrow> bindR (hint_body env w p i (st\<lparr>wfile := f\<rparr>)) (\<lambda>st'. Inr (Suc i, st')))"

fun live :: "replay_param \<Rightarrow> thread \<Rightarrow> bool" where
  "live p Created \<longleftrightarrow> True"
| "live p (At i st) \<longleftrightarrow> i < hints_end p"

definition system_step :: "replay_env \<Rightarrow> nat \<Rightarrow> replay_system \<Rightarrow> replay_system res" where
  "system_step env w s =
     (let p = env_params env ! w in
      bindR (thread_step env w p (files s (dstfilepath p)) (ths s ! w)) (\<lambda>(i, st).
      Inr (s\<lparr>files := (files s)(dstfilepath p := Some (wfile st)), ths := (ths s)[w := At i st]\<rparr>)))"

definition system_start :: "replay_env \<Rightarrow> (string \<Rightarrow> os_file option) \<Rightarrow> replay_system" where
  "system_start env fs = \<lparr>files = fs, ths = replicate (length (env_params env)) Created\<rparr>"

text \<open>
  One step of some thread; an error, in particular \<^verbatim>\<open>exit\<close>, ends all threads.
\<close>

inductive replay_step :: "replay_env \<Rightarrow> replay_system res \<Rightarrow> replay_system res \<Rightarrow> bool" for env where
  step: "w < length (env_params env) \<Longrightarrow> live (env_params env ! w) (ths s ! w) \<Longrightarrow>
    replay_step env (Inr s) (system_step env w s)"

inductive_cases replay_stepE: "replay_step env r r'"

inductive reachable :: "replay_env \<Rightarrow> (string \<Rightarrow> os_file option) \<Rightarrow> nat \<Rightarrow> replay_system res \<Rightarrow> bool" for env fs where
  start: "reachable env fs 0 (Inr (system_start env fs))"
| more: "reachable env fs k r \<Longrightarrow> replay_step env r r' \<Longrightarrow> reachable env fs (Suc k) r'"

text \<open>A worker on its own, up to its hint number \<open>i\<close>.\<close>

definition solo :: "replay_env \<Rightarrow> (string \<Rightarrow> os_file option) \<Rightarrow> nat \<Rightarrow> nat \<Rightarrow> worker_state res" where
  "solo env fs w i = (let p = env_params env ! w in
     bindR (open_files env w p (fs (dstfilepath p))) (foldR (hint_body env w p) [hints_start p..<i]))"

lemma solo_replay_worker:
  "solo env fs w (hints_end (env_params env ! w)) =
    replay_worker (env_io env w) (env_dump env) (env_dr_opens env w) (env_dst_opens env w)
      (fs (dstfilepath (env_params env ! w))) (env_bufs env w) (env_infos env) (env_hints env) (env_params env ! w)"
  by (simp add: solo_def open_files_def replay_worker_def hint_body_def [abs_def] Let_def)

lemma foldR_single: "foldR f [x] = f x"
  by (rule ext) (simp add: foldR.simps(1) [abs_def])

lemma solo_Suc:
  "hints_start (env_params env ! w) \<le> i \<Longrightarrow>
    solo env fs w (Suc i) = bindR (solo env fs w i) (hint_body env w (env_params env ! w) i)"
  unfolding solo_def Let_def
  by (cases "open_files env w (env_params env ! w) (fs (dstfilepath (env_params env ! w)))") (simp_all add: foldR_append foldR_single)

text \<open>An error on the way is the error of the whole worker.\<close>

lemma solo_error:
  assumes "solo env fs w i = Inl e" and "hints_start (env_params env ! w) \<le> i" and "i \<le> j"
  shows "solo env fs w j = Inl e"
proof -
  have "solo env fs w (i + k) = Inl e" for k
    using assms(1,2) by (induction k) (simp_all add: solo_Suc)
  from this [of "j - i"] show ?thesis
    using assms(3) by simp
qed

subsection \<open>Invariant of all schedules\<close>

text \<open>
  A thread is where the worker alone would be, and its file is what the worker alone would have
  made of it.
\<close>

fun thread_inv :: "replay_env \<Rightarrow> (string \<Rightarrow> os_file option) \<Rightarrow> nat \<Rightarrow> os_file option \<Rightarrow> thread \<Rightarrow> bool" where
  "thread_inv env fs w cur Created \<longleftrightarrow> cur = fs (dstfilepath (env_params env ! w))"
| "thread_inv env fs w cur (At i st) \<longleftrightarrow> solo env fs w i = Inr st \<and> cur = Some (wfile st) \<and>
     hints_start (env_params env ! w) \<le> i \<and> i \<le> hints_end (env_params env ! w)"

definition system_inv :: "replay_env \<Rightarrow> (string \<Rightarrow> os_file option) \<Rightarrow> replay_system \<Rightarrow> bool" where
  "system_inv env fs s \<longleftrightarrow> length (ths s) = length (env_params env) \<and>
     (\<forall>w<length (env_params env). thread_inv env fs w (files s (dstfilepath (env_params env ! w))) (ths s ! w)) \<and>
     (\<forall>f. f \<notin> dstfilepath ` set (env_params env) \<longrightarrow> files s f = fs f)"

text \<open>The parameters of the workers: every worker has its own file, and its range of hints.\<close>

definition env_ok :: "replay_env \<Rightarrow> bool" where
  "env_ok env \<longleftrightarrow> distinct (map dstfilepath (env_params env)) \<and>
     (\<forall>p\<in>set (env_params env). hints_start p \<le> hints_end p)"

lemma thread_step_inv:
  assumes "thread_inv env fs w old t" and "live (env_params env ! w) t"
    and "hints_start (env_params env ! w) \<le> hints_end (env_params env ! w)"
  shows "case thread_step env w (env_params env ! w) old t of
      Inl e \<Rightarrow> solo env fs w (hints_end (env_params env ! w)) = Inl e
    | Inr (i, st) \<Rightarrow> thread_inv env fs w (Some (wfile st)) (At i st)"
proof (cases t)
  case Created
  have "solo env fs w (hints_start (env_params env ! w)) = open_files env w (env_params env ! w) old"
    using assms(1) Created by (simp add: solo_def Let_def foldR.simps(1) [abs_def])
  then show ?thesis
    using Created assms(3) solo_error [OF _ le_refl assms(3)]
    by (cases "open_files env w (env_params env ! w) old") auto
next
  case (At i st)
  then have "solo env fs w (Suc i) = hint_body env w (env_params env ! w) i st" "old = Some (wfile st)"
    using assms(1) by (auto simp: solo_Suc)
  then show ?thesis
    using At assms(1,2) solo_error [of env fs w "Suc i" _ "hints_end (env_params env ! w)"]
    by (cases "hint_body env w (env_params env ! w) i st") auto
qed

lemma system_step_inv:
  assumes inv: "system_inv env fs s" and env: "env_ok env" and w: "w < length (env_params env)"
    and l: "live (env_params env ! w) (ths s ! w)"
  shows "case system_step env w s of Inl e \<Rightarrow> solo env fs w (hints_end (env_params env ! w)) = Inl e
    | Inr s' \<Rightarrow> system_inv env fs s'"
proof -
  let ?p = "env_params env ! w"
  have t: "thread_inv env fs w (files s (dstfilepath ?p)) (ths s ! w)"
    using inv w by (simp add: system_inv_def)
  have "hints_start ?p \<le> hints_end ?p"
    using env w by (simp add: env_ok_def)
  note st = thread_step_inv [OF t l this]
  have ne: "dstfilepath (env_params env ! v) \<noteq> dstfilepath ?p" if "v < length (env_params env)" "v \<noteq> w" for v
    using env w that by (auto simp: env_ok_def distinct_conv_nth)
  show ?thesis
  proof (cases "thread_step env w ?p (files s (dstfilepath ?p)) (ths s ! w)")
    case (Inr r)
    then show ?thesis
      using st inv w ne by (cases r) (auto simp: system_step_def system_inv_def nth_list_update)
  qed (use st in \<open>simp add: system_step_def\<close>)
qed

lemma reachable_inv:
  assumes "reachable env fs k r" and "env_ok env"
  shows "case r of Inl e \<Rightarrow> (\<exists>w<length (env_params env). solo env fs w (hints_end (env_params env ! w)) = Inl e)
    | Inr s \<Rightarrow> system_inv env fs s"
  using assms(1)
proof induction
  case start
  show ?case
    by (auto simp: system_inv_def system_start_def)
next
  case (more k r r')
  from more.hyps(2) more.IH show ?case
    by (cases rule: replay_step.cases) (use system_step_inv [OF _ assms(2)] in \<open>fastforce split: sum.splits\<close>)
qed

subsection \<open>Every schedule ends\<close>

fun remaining :: "replay_param \<Rightarrow> thread \<Rightarrow> nat" where
  "remaining p Created = Suc (hints_end p - hints_start p)"
| "remaining p (At i st) = hints_end p - i"

definition work :: "replay_env \<Rightarrow> replay_system res \<Rightarrow> nat" where
  "work env r = (case r of Inl e \<Rightarrow> 0
     | Inr s \<Rightarrow> (\<Sum>w<length (env_params env). remaining (env_params env ! w) (ths s ! w)))"

definition final :: "replay_env \<Rightarrow> replay_system res \<Rightarrow> bool" where
  "final env r = (case r of Inl e \<Rightarrow> True
     | Inr s \<Rightarrow> (\<forall>w<length (env_params env). \<not> live (env_params env ! w) (ths s ! w)))"

definition total_steps :: "replay_env \<Rightarrow> nat" where
  "total_steps env = (\<Sum>w<length (env_params env).
     Suc (hints_end (env_params env ! w) - hints_start (env_params env ! w)))"

lemma live_remaining: "live p t \<Longrightarrow> 0 < remaining p t"
  by (cases t) auto

lemma thread_step_remaining:
  "thread_step env w p old t = Inr (i, st) \<Longrightarrow> live p t \<Longrightarrow> remaining p (At i st) < remaining p t"
  by (cases t) (auto simp: bindR_eq_Inr split: option.splits)

lemma system_step_work:
  assumes w: "w < length (env_params env)" and l: "live (env_params env ! w) (ths s ! w)"
    and len: "length (ths s) = length (env_params env)"
  shows "work env (system_step env w s) < work env (Inr s)"
proof -
  let ?p = "env_params env ! w"
  show ?thesis
  proof (cases "thread_step env w ?p (files s (dstfilepath ?p)) (ths s ! w)")
    case (Inl e)
    then show ?thesis
      using live_remaining [OF l] w sum_pos2 [of "{..<length (env_params env)}" w "\<lambda>w. remaining (env_params env ! w) (ths s ! w)"]
      by (auto simp: system_step_def work_def)
  next
    case (Inr r)
    then obtain i st where r: "r = (i, st)" and lt: "remaining ?p (At i st) < remaining ?p (ths s ! w)"
      using thread_step_remaining l by (cases r) blast
    have "(\<Sum>v<length (env_params env). remaining (env_params env ! v) ((ths s)[w := At i st] ! v)) <
        (\<Sum>v<length (env_params env). remaining (env_params env ! v) (ths s ! v))"
      using w lt len by (intro sum_strict_mono_ex1) (auto simp: nth_list_update intro!: bexI [of _ w])
    then show ?thesis
      using Inr r by (simp add: system_step_def work_def)
  qed
qed

lemma system_step_length: "Inr s' = system_step env w s \<Longrightarrow> length (ths s') = length (ths s)"
  by (auto simp: system_step_def bindR_eq_Inr Let_def split: prod.splits dest!: sym [of "Inr s'"])

lemma reachable_length: "reachable env fs k (Inr s) \<Longrightarrow> length (ths s) = length (env_params env)"
proof (induction k "Inr s :: replay_system res" arbitrary: s rule: reachable.induct)
  case start
  then show ?case
    by (simp add: system_start_def)
next
  case (more k r)
  from more.hyps(3) show ?case
    using more.hyps(2) system_step_length by (cases rule: replay_step.cases) metis
qed

lemma reachable_work: "reachable env fs k r \<Longrightarrow> k + work env r \<le> total_steps env"
proof (induction rule: reachable.induct)
  case start
  show ?case
    by (simp add: work_def total_steps_def system_start_def)
next
  case (more k r r')
  then obtain w s where "w < length (env_params env)" "live (env_params env ! w) (ths s ! w)"
      "r = Inr s" "r' = system_step env w s"
    by (auto elim: replay_stepE)
  then show ?case
    using system_step_work [of w env s] reachable_length more by fastforce
qed

lemma progress:
  assumes "\<not> final env r"
  shows "\<exists>r'. replay_step env r r'"
  using assms by (auto simp: final_def split: sum.splits intro: replay_step.step)

lemma reaches_final:
  assumes "reachable env fs k r"
  shows "\<exists>k' r'. k \<le> k' \<and> reachable env fs k' r' \<and> (replay_step env)\<^sup>*\<^sup>* r r' \<and> final env r'"
  using assms
proof (induction "total_steps env - k" arbitrary: k r rule: less_induct)
  case less
  show ?case
  proof (cases "final env r")
    case False
    then obtain r' where r': "replay_step env r r'"
      using progress by blast
    then have "reachable env fs (Suc k) r'"
      using less.prems by (rule reachable.more [rotated])
    moreover from this have "total_steps env - Suc k < total_steps env - k"
      using reachable_work by fastforce
    ultimately obtain k' r'' where "Suc k \<le> k'" "reachable env fs k' r''" "(replay_step env)\<^sup>*\<^sup>* r' r''" "final env r''"
      using less.hyps by blast
    then show ?thesis
      using r' by (meson Suc_leD converse_rtranclp_into_rtranclp)
  qed (use less.prems in blast)
qed

subsection \<open>Properties\<close>

text \<open>
  C7: The result does not depend on the schedule. When all threads have run to their end, in
  whatever order their steps came, every worker's file is the one that \<open>replay_worker\<close> leaves
  when it runs alone on the original file system, and no other file is touched. If the
  program is ended by an error, it is an error that some worker also runs into alone.
\<close>

theorem replay_schedule_independent:
  assumes "reachable env fs k r" and "env_ok env" and "final env r"
  shows "case r of
      Inl e \<Rightarrow> \<exists>w<length (env_params env). replay_worker (env_io env w) (env_dump env) (env_dr_opens env w) (env_dst_opens env w)
        (fs (dstfilepath (env_params env ! w))) (env_bufs env w) (env_infos env) (env_hints env) (env_params env ! w) = Inl e
    | Inr s \<Rightarrow> (\<forall>w<length (env_params env). \<exists>st.
        replay_worker (env_io env w) (env_dump env) (env_dr_opens env w) (env_dst_opens env w)
          (fs (dstfilepath (env_params env ! w))) (env_bufs env w) (env_infos env) (env_hints env) (env_params env ! w) = Inr st \<and>
        files s (dstfilepath (env_params env ! w)) = Some (wfile st)) \<and>
        (\<forall>f. f \<notin> dstfilepath ` set (env_params env) \<longrightarrow> files s f = fs f)"
  using assms(3) reachable_inv [OF assms(1,2)] unfolding solo_replay_worker [symmetric]
proof (cases r)
  case (Inr s)
  have "\<exists>st. solo env fs w (hints_end (env_params env ! w)) = Inr st \<and> files s (dstfilepath (env_params env ! w)) = Some (wfile st)"
    if w: "w < length (env_params env)" for w
  proof -
    have "thread_inv env fs w (files s (dstfilepath (env_params env ! w))) (ths s ! w)" "\<not> live (env_params env ! w) (ths s ! w)"
      using reachable_inv [OF assms(1,2)] assms(3) w Inr by (auto simp: system_inv_def final_def)
    then show ?thesis
      by (cases "ths s ! w") auto
  qed
  then show "case r of Inl e \<Rightarrow> \<exists>w<length (env_params env). solo env fs w (hints_end (env_params env ! w)) = Inl e
    | Inr s \<Rightarrow> (\<forall>w<length (env_params env). \<exists>st. solo env fs w (hints_end (env_params env ! w)) = Inr st \<and>
        files s (dstfilepath (env_params env ! w)) = Some (wfile st)) \<and>
        (\<forall>f. f \<notin> dstfilepath ` set (env_params env) \<longrightarrow> files s f = fs f)"
    using Inr reachable_inv [OF assms(1,2)] by (simp add: system_inv_def)
qed simp

text \<open>
  C8: The threads always finish, so the joins of \<^verbatim>\<open>main\<close> return: no schedule has more steps than
  there are files to open and hints to replay, and from every state on the way an end is
  reached, in which all threads are done or the program has exited.
\<close>

theorem replay_terminates:
  assumes "reachable env fs k r"
  shows "k \<le> total_steps env \<and> (\<exists>k' r'. k \<le> k' \<and> reachable env fs k' r' \<and> (replay_step env)\<^sup>*\<^sup>* r r' \<and> final env r')"
  using reachable_work [OF assms] reaches_final [OF assms] by simp

text \<open>One worker with two blocks, on an empty file system.\<close>

definition one_thread :: replay_env where
  "one_thread = \<lparr>env_dump = False, env_infos = [info_at 1 8, info_at 2 16],
     env_hints = [Some \<lparr>continuous_blks = 2, start_trace_line = 0, hint_rw = CHR ''W''\<rparr>],
     env_params = [two_blocks], env_io = (\<lambda>_. full_io), env_dr_opens = (\<lambda>_. False), env_dst_opens = (\<lambda>_. True),
     env_bufs = (\<lambda>_. replicate 8192 7)\<rparr>"

lemma one_thread_simps:
  "env_params one_thread = [two_blocks]" "dstfilepath two_blocks = ''/mnt/trace_0''" "env_io one_thread 0 = full_io"
  "env_dump one_thread = False" "env_dr_opens one_thread 0 = False" "env_dst_opens one_thread 0 = True"
  "env_infos one_thread = [info_at 1 8, info_at 2 16]" "env_bufs one_thread 0 = replicate 8192 7"
  "env_hints one_thread = [Some \<lparr>continuous_blks = 2, start_trace_line = 0, hint_rw = CHR ''W''\<rparr>]"
  by (simp_all add: one_thread_def two_blocks_def)

theorem replay_terminates_witness:
  "\<exists>k r. k \<le> 2 \<and> reachable one_thread (\<lambda>_. None) k r \<and> final one_thread r"
proof -
  obtain k r where r: "reachable one_thread (\<lambda>_. None) k r" "final one_thread r"
    using replay_terminates [OF reachable.start, of one_thread "\<lambda>_. None"] by blast
  moreover have "total_steps one_thread = 2"
    by (simp add: total_steps_def one_thread_simps) (simp add: two_blocks_def)
  ultimately show ?thesis
    using replay_terminates [OF r(1)] by auto
qed

theorem replay_schedule_independent_witness:
  "\<exists>k s f. reachable one_thread (\<lambda>_. None) k (Inr s) \<and> files s ''/mnt/trace_0'' = Some f \<and> files s ''/mnt/other'' = None"
proof -
  obtain k r where r: "reachable one_thread (\<lambda>_. None) k r" "final one_thread r"
    using reaches_final [OF reachable.start] by blast
  have "env_ok one_thread"
    by (simp add: env_ok_def one_thread_def two_blocks_def)
  note result = replay_schedule_independent [OF r(1) this r(2), unfolded one_thread_simps]
  have "buf_len two_blocks = 8192" "io_complete 8192 full_io"
    by (simp_all add: two_blocks_def full_io_def io_complete_def)
  then have "\<exists>st. replay_worker full_io False False True None (replicate 8192 7) [info_at 1 8, info_at 2 16]
      [Some \<lparr>continuous_blks = 2, start_trace_line = 0, hint_rw = CHR ''W''\<rparr>] two_blocks = Inr st"
    using replay_worker_ok [OF two_blocks_runnable, where old = None and junk_buf = "replicate 8192 7" and io = full_io
        and is_dump = False and dr_opens = False and dst_opens = True]
    by (auto simp: res_or_exit_def split: sum.splits)
  with result obtain s where s: "r = Inr s" "\<exists>f. files s ''/mnt/trace_0'' = Some f"
      "\<forall>f. f \<noteq> ''/mnt/trace_0'' \<longrightarrow> files s f = None"
    by (cases r) (auto simp: one_thread_simps)
  moreover from s(3) have "files s ''/mnt/other'' = None"
    by simp
  ultimately show ?thesis
    using r(1) by blast
qed

end
