(* ===== verification/Replay_All.thy ===== *)
theory Replay_All
  imports Replay_Threads
begin

text \<open>
  From the records to the files: what is on the file system when all workers that
  \<^verbatim>\<open>assign_params_per_worker\<close> has set up have run.
\<close>

subsection \<open>Assigned workers can run\<close>

lemma hints_from_concat:
  assumes "w < length hls"
  shows "hints_from (map Some (concat hls) @ rest) (length (concat (take w hls))) (hls ! w)"
proof -
  have "concat hls = concat (take w hls) @ hls ! w @ concat (drop (Suc w) hls)"
    using id_take_nth_drop [OF assms] by (metis concat.simps(2) concat_append)
  then show ?thesis
    by (simp add: hints_from_def)
qed

lemma assigned_runnable:
  assumes p: "worker_param cfg rand_r junk junk_int infos w L (hls ! w) (length (concat (take w hls))) p"
    and hs: "hs = map Some (concat hls) @ rest" "w < length hls"
    and L: "\<forall>q\<in>set L. q < length infos \<and> record_ok (infos ! q)"
    and junk: "length (mt junk) = MT_N" and maxc: "unat (max_continuous_4K_blks cfg) < 2 ^ 19"
  shows "runnable infos hs (max_continuous_4K_blks cfg) (gener_stream rand_r (rand_gener_type cfg)) (hls ! w) p"
proof -
  have tc: "tc_ok (param_tc p)" "tc_list (param_tc p) = sort_key (\<lambda>q. ts (infos ! q)) L"
    using p by (auto simp: worker_param_def)
  have "tsize (param_tc p) = length L"
    using length_tc_list [OF tc(1)] tc(2) by simp
  moreover have "max 1 (unat (max_continuous_4K_blks cfg)) * 4096 < 2 ^ 31"
    using maxc by (simp add: max_def)
  ultimately show ?thesis
    using p tc hints_from_concat [OF hs(2), of rest] make_rand_gener_obeys [OF junk] hs(1) L
    by (auto simp: runnable_def worker_param_def)
qed

lemma assigned_env_ok:
  assumes "length params = n"
    and "\<forall>w<n. worker_param cfg rand_r junk junk_int infos w (L w) (hl w) (s w) (params ! w)"
    and "env_params env = params"
  shows "env_ok env"
proof -
  have "map dstfilepath params = map (\<lambda>i. cfg_dstpath cfg @ ''trace_'' @ decimal i) [0..<n]"
    using assms(1,2) by (intro nth_equalityI) (auto simp: worker_param_def)
  then show ?thesis
    using trace_path.distinct_paths [of "cfg_dstpath cfg" n] assms
    by (auto simp: env_ok_def in_set_conv_nth worker_param_def)
qed

subsection \<open>The last write of a block\<close>

lemma blocks_disjoint:
  fixes a b j :: nat
  assumes "8 dvd a" and "8 dvd b" and "b * 512 \<le> a * 512 + j" and "a * 512 + j < b * 512 + 4096" and "j < 4096"
  shows "a = b"
proof -
  obtain a' b' where "a = 8 * a'" "b = 8 * b'"
    using assms(1,2) by (auto elim!: dvdE)
  then show ?thesis
    using assms(3-5) by simp
qed

definition aligned :: "trace_info \<Rightarrow> bool" where
  "aligned info \<longleftrightarrow> record_ok info \<and> 8 dvd unat (lba info)"

lemma last_write:
  assumes "\<forall>q\<in>set qs. aligned (infos ! q)" and "filter (\<lambda>q. lba (infos ! q) = l) qs \<noteq> []" and "j < 4096"
  shows "fbyte (fst (replay_records strm d REPLAY_WRITEONLY (map ((!) infos) qs) s)) (unat l * 512 + j) =
    blk_data strm (md5 (infos ! last (filter (\<lambda>q. lba (infos ! q) = l) qs))) ! j"
  using assms(1,2)
proof (induction qs rule: rev_induct)
  case (snoc q qs)
  let ?s = "replay_records strm d REPLAY_WRITEONLY (map ((!) infos) qs) s"
  have q: "record_ok (infos ! q)" "8 dvd unat (lba (infos ! q))"
    using snoc.prems by (auto simp: aligned_def)
  have len: "length (blk_data strm (md5 (infos ! q))) = 4096"
    using q(1) by (intro length_blk_data) (simp add: record_ok_def)
  have s: "replay_records strm d REPLAY_WRITEONLY (map ((!) infos) (qs @ [q])) s =
      (file_write (fst ?s) (unat (lba (infos ! q)) * 512) (blk_data strm (md5 (infos ! q))), snd ?s)"
    using unat_ofs [OF q(1)] by (simp add: replay_records_def replay_record_def split_beta)
  show ?case
  proof (cases "lba (infos ! q) = l")
    case True
    then show ?thesis
      using assms(3) len unfolding s by (simp add: fbyte_write)
  next
    case False
    then obtain q' where "q' \<in> set qs" "lba (infos ! q') = l"
      using snoc.prems(2) by (auto simp: filter_empty_conv)
    then have "8 dvd unat l"
      using snoc.prems(1) by (auto simp: aligned_def)
    moreover have "unat l \<noteq> unat (lba (infos ! q))"
      using False unsigned_word_eqI [of l "lba (infos ! q)"] by blast
    ultimately have "\<not> (unat (lba (infos ! q)) * 512 \<le> unat l * 512 + j \<and> unat l * 512 + j < unat (lba (infos ! q)) * 512 + 4096)"
      using blocks_disjoint [OF _ q(2) _ _ assms(3), of "unat l"] by blast
    then show ?thesis
      using snoc False len unfolding s by (auto simp: fbyte_write)
  qed
qed simp

lemma filter_groups:
  assumes "distinct seg"
  shows "filter (\<lambda>q. lba (infos ! q) = l) (concat (map (group_of infos n) seg)) =
    (if l \<in> set seg then group_of infos n l else [])"
proof -
  have other: "filter (\<lambda>q. lba (infos ! q) = l) (group_of infos n x) = (if x = l then group_of infos n l else [])" for x
    by (auto simp: group_of_def filter_empty_conv intro: filter_cong)
  from assms show ?thesis
    by (induction seg) (auto simp: other)
qed

subsection \<open>From the records to the files\<close>

text \<open>
  The system is good to the threads: the files open, no call fails and no write falls short; old
  files are well-formed.
\<close>

definition env_good :: "replay_env \<Rightarrow> (string \<Rightarrow> os_file option) \<Rightarrow> bool" where
  "env_good env fs \<longleftrightarrow> (\<forall>w<length (env_params env).
     io_complete (buf_len (env_params env ! w)) (env_io env w) \<and> env_dst_opens env w \<and> (env_dump env \<longrightarrow> env_dr_opens env w) \<and>
     length (env_bufs env w) = buf_len (env_params env ! w)) \<and>
     (\<forall>path f. fs path = Some f \<longrightarrow> file_ok f)"

lemma all_workers_return:
  assumes r: "reachable env fs k r" "env_ok env" "final env r" and good: "env_good env fs"
    and run: "\<forall>w<length (env_params env). runnable (env_infos env) (env_hints env) maxc strm (hl w) (env_params env ! w)"
  shows "\<exists>s. r = Inr s \<and> (\<forall>w<length (env_params env). files s (dstfilepath (env_params env ! w)) =
    Some (fst (replay_records strm (env_dump env) (param_mode (env_params env ! w))
      (map ((!) (env_infos env)) (tc_list (param_tc (env_params env ! w))))
      (case fs (dstfilepath (env_params env ! w)) of None \<Rightarrow> empty_file | Some f \<Rightarrow> f, []))))"
proof -
  have solo: "ok (solo env fs w (hints_end (env_params env ! w))) (\<lambda>st. wfile st =
      fst (replay_records strm (env_dump env) (param_mode (env_params env ! w))
        (map ((!) (env_infos env)) (tc_list (param_tc (env_params env ! w))))
        (case fs (dstfilepath (env_params env ! w)) of None \<Rightarrow> empty_file | Some f \<Rightarrow> f, [])))"
    if w: "w < length (env_params env)" for w
  proof -
    have *: "length (env_bufs env w) = buf_len (env_params env ! w)" "\<forall>f. fs (dstfilepath (env_params env ! w)) = Some f \<longrightarrow> file_ok f"
      "(io_complete (buf_len (env_params env ! w)) (env_io env w) \<and> env_dst_opens env w \<and> (env_dump env \<longrightarrow> env_dr_opens env w)) = True"
      using good w by (auto simp: env_good_def)
    show ?thesis
      using replay_worker_ok [OF run [rule_format, OF w] *(1,2), of "env_io env w" "env_dst_opens env w" "env_dump env" "env_dr_opens env w"]
      unfolding *(3) roe_ok solo_replay_worker by (auto simp: worker_rel_def split_beta elim!: ok_mono)
  qed
  obtain s where s: "r = Inr s"
    using reachable_inv [OF r(1,2)] solo by (cases r) (fastforce simp: ok_def)+
  have "files s (dstfilepath (env_params env ! w)) = Some (wfile st)"
    if "w < length (env_params env)" "solo env fs w (hints_end (env_params env ! w)) = Inr st" for w st
  proof -
    have "thread_inv env fs w (files s (dstfilepath (env_params env ! w))) (ths s ! w)" "\<not> live (env_params env ! w) (ths s ! w)"
      using reachable_inv [OF r(1,2)] r(3) that s by (auto simp: system_inv_def final_def)
    then show ?thesis
      using that(2) by (cases "ths s ! w") auto
  qed
  with solo show ?thesis
    unfolding s by (fastforce simp: ok_def)
qed

lemma replay_contents_ok:
  assumes fit: "infos_fit base infos" and n: "n \<le> length infos" "n \<le> 15 * 2 ^ 25" and cfg: "paths_fit cfg" "0 < threads cfg"
    and junk: "length (mt junk) = MT_N" and mode: "cfg_mode cfg = REPLAY_WRITEONLY"
    and maxc: "unat (max_continuous_4K_blks cfg) < 2 ^ 19" and al: "\<forall>i<n. aligned (infos ! i)"
    and assign: "bindR (case hashmap_create empty_heap of (h, m) \<Rightarrow> build_trace_containers base infos n (h, m, []))
      (assign_params_per_worker cfg rand_r junk junk_int waddr rnd base infos n) = Inr (hs, params)"
    and env: "env_infos env = infos" "env_hints env = hs" "env_params env = params" and good: "env_good env fs"
    and r: "reachable env fs k r" "final env r"
  shows "\<exists>s. r = Inr s \<and> (\<forall>i<n. \<exists>w<threads cfg. \<exists>f. files s (cfg_dstpath cfg @ ''trace_'' @ decimal w) = Some f \<and>
    (\<forall>j<4096. fbyte f (unat (lba (infos ! i)) * 512 + j) =
      blk_data (gener_stream rand_r (rand_gener_type cfg)) (md5 (infos ! last (sort_key (\<lambda>q. ts (infos ! q))
        (filter (\<lambda>q. lba (infos ! q) = lba (infos ! i)) [0..<n])))) ! j))"
proof -
  let ?strm = "gener_stream rand_r (rand_gener_type cfg)"
  obtain st ls where st: "grouped base infos n ls st"
      and a: "assign_params_per_worker cfg rand_r junk junk_int waddr rnd base infos n st = Inr (hs, params)"
    using build_ok [OF fit n] assign by (auto simp: bindR_eq_Inr elim!: okE)
  obtain segs hls where segs: "length segs = threads cfg" "distinct (concat segs)"
      "set (concat segs) = (\<lambda>i. lba (infos ! i)) ` {..<n}"
    and hls: "length params = threads cfg" "length hls = threads cfg"
      "hs = map Some (concat hls) @ replicate (n - length (concat hls)) None"
    and ps: "\<forall>w<threads cfg. worker_param cfg rand_r junk junk_int infos w
          (concat (map (group_of infos n) (segs ! w))) (hls ! w) (length (concat (take w hls))) (params ! w)"
    using assign_params_ok [OF st n cfg, of rand_r junk junk_int waddr rnd] a by (auto split: if_splits)
  have L: "\<forall>q\<in>set (concat (map (group_of infos n) seg)). q < n" for seg
    by (auto simp: group_of_def)
  have run: "\<forall>w<length (env_params env). runnable (env_infos env) (env_hints env) (max_continuous_4K_blks cfg) ?strm (hls ! w) (env_params env ! w)"
    unfolding env hls(1) using L al n(1) hls(2,3) junk maxc
    by (intro allI impI assigned_runnable [OF ps [rule_format]]) (fastforce simp: aligned_def)+
  obtain s where s: "r = Inr s" and f: "\<forall>w<threads cfg. files s (dstfilepath (params ! w)) =
    Some (fst (replay_records ?strm (env_dump env) (param_mode (params ! w)) (map ((!) infos) (tc_list (param_tc (params ! w))))
      (case fs (dstfilepath (params ! w)) of None \<Rightarrow> empty_file | Some f \<Rightarrow> f, [])))"
    using all_workers_return [OF r(1) assigned_env_ok [OF hls(1) ps env(3)] r(2) good run] env hls(1) by auto
  have "\<exists>w<threads cfg. \<exists>f. files s (cfg_dstpath cfg @ ''trace_'' @ decimal w) = Some f \<and>
    (\<forall>j<4096. fbyte f (unat (lba (infos ! i)) * 512 + j) =
      blk_data ?strm (md5 (infos ! last (sort_key (\<lambda>q. ts (infos ! q)) (group_of infos n (lba (infos ! i)))))) ! j)"
    if i: "i < n" for i
  proof -
    let ?l = "lba (infos ! i)"
    have "?l \<in> set (concat segs)"
      using segs(3) i by auto
    then obtain seg where "seg \<in> set segs" "?l \<in> set seg"
      by auto
    then obtain w where w: "w < threads cfg" "?l \<in> set (segs ! w)"
      using segs(1) by (metis in_set_conv_nth)
    have d: "distinct (segs ! w)"
      using segs(1,2) w(1) by (simp add: distinct_concat_iff)
    let ?L = "concat (map (group_of infos n) (segs ! w))" and ?p = "params ! w"
    have p: "tc_list (param_tc ?p) = sort_key (\<lambda>q. ts (infos ! q)) ?L" "param_mode ?p = REPLAY_WRITEONLY"
        "dstfilepath ?p = cfg_dstpath cfg @ ''trace_'' @ decimal w"
      using ps w(1) mode by (auto simp: worker_param_def)
    have g: "filter (\<lambda>q. lba (infos ! q) = ?l) (tc_list (param_tc ?p)) = sort_key (\<lambda>q. ts (infos ! q)) (group_of infos n ?l)"
      unfolding p(1) using filter_groups [OF d, of infos ?l n] w(2) by (simp add: filter_sort)
    have "i \<in> set (filter (\<lambda>q. lba (infos ! q) = ?l) (tc_list (param_tc ?p)))"
      unfolding g using i by (simp add: group_of_def)
    then have "filter (\<lambda>q. lba (infos ! q) = ?l) (tc_list (param_tc ?p)) \<noteq> []"
      by (metis empty_iff empty_set)
    moreover have "\<forall>q\<in>set (tc_list (param_tc ?p)). aligned (infos ! q)"
      using L al unfolding p(1) by auto
    ultimately have "\<forall>j<4096. fbyte (fst (replay_records ?strm d REPLAY_WRITEONLY (map ((!) infos) (tc_list (param_tc ?p))) s)) (unat ?l * 512 + j) =
        blk_data ?strm (md5 (infos ! last (sort_key (\<lambda>q. ts (infos ! q)) (group_of infos n ?l)))) ! j" for d s
      using last_write [of "tc_list (param_tc ?p)" infos ?l] unfolding g by blast
    moreover have "\<exists>d s0. files s (dstfilepath ?p) =
        Some (fst (replay_records ?strm d REPLAY_WRITEONLY (map ((!) infos) (tc_list (param_tc ?p))) s0))"
      using f w(1) p(2) by metis
    ultimately show ?thesis
      using w(1) p(3) by metis
  qed
  then show ?thesis
    using s by (simp add: group_of_def)
qed

subsection \<open>Properties\<close>

text \<open>
  C19: The replay of a trace in write mode, end to end. The records of the trace have 4 KiB aligned
  addresses and good fingerprints; the containers are built, the workers set up (none of them
  without records) and run as threads in any order. If the files open and no write fails, all
  threads return, and for every record of the trace there is a worker in whose file the
  block at the record's address holds the contents that belong to the latest record of that
  address (of several with the same time, the one that comes last in the trace).
\<close>

theorem replay_final_contents:
  assumes fit: "infos_fit base infos" and n: "n \<le> length infos" "n \<le> 15 * 2 ^ 25" and cfg: "paths_fit cfg" "0 < threads cfg"
    and junk: "length (mt junk) = MT_N" and mode: "cfg_mode cfg = REPLAY_WRITEONLY"
    and maxc: "unat (max_continuous_4K_blks cfg) < 2 ^ 19" and al: "\<forall>i<n. aligned (infos ! i)"
    and assign: "bindR (case hashmap_create empty_heap of (h, m) \<Rightarrow> build_trace_containers base infos n (h, m, []))
      (assign_params_per_worker cfg rand_r junk junk_int waddr rnd base infos n) = Inr (hs, params)"
    and env: "env_infos env = infos" "env_hints env = hs" "env_params env = params" and good: "env_good env fs"
    and r: "reachable env fs k r" "final env r"
  shows "\<exists>s. r = Inr s \<and> (\<forall>i<n. \<exists>w<threads cfg. \<exists>f. files s (cfg_dstpath cfg @ ''trace_'' @ decimal w) = Some f \<and>
    (\<forall>j<4096. fbyte f (unat (lba (infos ! i)) * 512 + j) =
      blk_data (gener_stream rand_r (rand_gener_type cfg)) (md5 (infos ! last (sort_key (\<lambda>q. ts (infos ! q))
        (filter (\<lambda>q. lba (infos ! q) = lba (infos ! i)) [0..<n])))) ! j))"
  using assms by (rule replay_contents_ok)

text \<open>Two records of one address with different fingerprints; the one that comes first is the later one.\<close>

definition two_writes :: "trace_info list" where
  "two_writes = [info_at 2 8, info_at 1 8\<lparr>md5 := replicate 32 CHR ''b''\<rparr>]"

definition good_env :: "trace_replay_hint option list \<Rightarrow> replay_param list \<Rightarrow> replay_env" where
  "good_env hs params = \<lparr>env_dump = False, env_infos = two_writes, env_hints = hs, env_params = params,
     env_io = (\<lambda>w. \<lparr>write_io = (\<lambda>_. Some (buf_len (params ! w))), read_io = (\<lambda>_. Some 1), fwrite_io = (\<lambda>_. None)\<rparr>),
     env_dr_opens = (\<lambda>_. False), env_dst_opens = (\<lambda>_. True), env_bufs = (\<lambda>w. replicate (buf_len (params ! w)) 0)\<rparr>"

lemma good_env_simps [simp]:
  "env_infos (good_env hs params) = two_writes" "env_hints (good_env hs params) = hs" "env_params (good_env hs params) = params"
  "env_good (good_env hs params) (\<lambda>_. None)"
  by (simp_all add: good_env_def env_good_def io_complete_def)

lemma two_writes_assigned:
  "\<exists>hs params. bindR (case hashmap_create empty_heap of (h, m) \<Rightarrow> build_trace_containers 4096 two_writes 2 (h, m, []))
     (assign_params_per_worker one_worker (\<lambda>s. (0, s)) mt_junk 0 (\<lambda>_. 64) (\<lambda>_. 7) 4096 two_writes 2) = Inr (hs, params)"
proof -
  have fit: "infos_fit 4096 two_writes"
    by (simp add: infos_fit_def two_writes_def)
  have n: "2 \<le> length two_writes" "2 \<le> 15 * (2 :: nat) ^ 25" and cfg: "paths_fit one_worker" "0 < threads one_worker"
    by (simp_all add: two_writes_def one_worker_def paths_fit_def)
  obtain st ls where b: "(case hashmap_create empty_heap of (h, m) \<Rightarrow> build_trace_containers 4096 two_writes 2 (h, m, [])) = Inr st"
      and g: "grouped 4096 two_writes 2 ls st"
    using build_ok [OF fit n] by (auto elim!: okE)
  obtain segs where s: "length segs = threads one_worker" "set (concat segs) = (\<lambda>i. lba (two_writes ! i)) ` {..<2}"
    and r: "if [] \<in> set segs then assign_params_per_worker one_worker (\<lambda>s. (0, s)) mt_junk 0 (\<lambda>_. 64) (\<lambda>_. 7) 4096 two_writes 2 st = Inl Uninitialised
      else ok (assign_params_per_worker one_worker (\<lambda>s. (0, s)) mt_junk 0 (\<lambda>_. 64) (\<lambda>_. 7) 4096 two_writes 2 st) (\<lambda>_. True)"
    using assign_params_ok [OF g n cfg, of "\<lambda>s. (0, s)" mt_junk 0 "\<lambda>_. 64" "\<lambda>_. 7"]
    by (auto simp: ok_def split: if_splits)
  have "[] \<notin> set segs"
    using s by (auto simp: one_worker_def length_Suc_conv lessThan_nat_numeral)
  with r show ?thesis
    unfolding b by (auto elim!: okE)
qed

theorem replay_final_contents_witness:
  "\<exists>hs params k s f. reachable (good_env hs params) (\<lambda>_. None) k (Inr s) \<and> files s ''/mnt/trace_0'' = Some f \<and>
     fbyte f 4096 = blk_data (Some (iter_stream lcg_rand_r)) (replicate 32 CHR ''a'') ! 0"
proof -
  obtain hs params where hp: "bindR (case hashmap_create empty_heap of (h, m) \<Rightarrow> build_trace_containers 4096 two_writes 2 (h, m, []))
     (assign_params_per_worker one_worker (\<lambda>s. (0, s)) mt_junk 0 (\<lambda>_. 64) (\<lambda>_. 7) 4096 two_writes 2) = Inr (hs, params)"
    using two_writes_assigned by blast
  obtain k r where r: "reachable (good_env hs params) (\<lambda>_. None) k r" "final (good_env hs params) r"
    using reaches_final [OF reachable.start] by blast
  have pre: "infos_fit 4096 two_writes" "2 \<le> length two_writes" "2 \<le> 15 * (2 :: nat) ^ 25" "paths_fit one_worker"
    "0 < threads one_worker" "length (mt mt_junk) = MT_N" "cfg_mode one_worker = REPLAY_WRITEONLY"
    "unat (max_continuous_4K_blks one_worker) < 2 ^ 19"
    by (simp_all add: infos_fit_def two_writes_def one_worker_def paths_fit_def)
  have al: "\<forall>i<2. aligned (two_writes ! i)"
  proof (intro allI impI)
    fix i :: nat assume "i < 2"
    then have "i = 0 \<or> i = 1"
      by linarith
    then show "aligned (two_writes ! i)"
      by (auto simp: aligned_def two_writes_def record_ok_def info_at_def md5_ok_def)
  qed
  have "[0..<2] = [0, 1 :: nat]"
    by (simp add: upt_rec)
  then have last: "last (sort_key (\<lambda>q. ts (two_writes ! q)) (filter (\<lambda>q. lba (two_writes ! q) = lba (two_writes ! 0)) [0..<2])) = 0"
    by (simp add: two_writes_def info_at_def word_le_nat_alt)
  obtain s w f where "r = Inr s" "w < threads one_worker" "files s (cfg_dstpath one_worker @ ''trace_'' @ decimal w) = Some f"
      "fbyte f (unat (lba (two_writes ! 0)) * 512 + 0) = blk_data (gener_stream (\<lambda>s. (0, s)) (rand_gener_type one_worker))
         (md5 (two_writes ! 0)) ! 0"
    using replay_final_contents [OF pre al hp good_env_simps(1-4) r] unfolding last
    by (metis last zero_less_numeral)
  moreover have "decimal 0 = ''0''"
    by code_simp
  ultimately show ?thesis
    using r(1) by (auto simp: one_worker_def two_writes_def info_at_def gener_stream_def) blast
qed

end
