(* ===== verification/Parse.thy ===== *)
theory Parse
  imports Assign
begin

text \<open>
  \<^verbatim>\<open>parse_trace_info\<close> of \<^verbatim>\<open>replay.c\<close>: the trace file is read line by line with \<^verbatim>\<open>fgets\<close>, the last
  character of every line is cut off, and the line is taken apart with \<^verbatim>\<open>sscanf\<close>. The directives of
  \<^verbatim>\<open>sscanf\<close> that the two formats use are modelled with what the C standard leaves undefined as
  errors: a number that does not fit its type, and a word that does not fit its array.
\<close>

subsection \<open>Lines\<close>

abbreviation (input) LINE_SIZE :: nat where "LINE_SIZE \<equiv> 4096"

abbreviation (input) newline :: char where "newline \<equiv> CHR 0x0A"

text \<open>\<^verbatim>\<open>fgets\<close> with room for \<open>k\<close> characters: the line it reads and the rest of the file.\<close>

fun fgets :: "nat \<Rightarrow> string \<Rightarrow> string \<times> string" where
  "fgets 0 s = ([], s)"
| "fgets (Suc k) [] = ([], [])"
| "fgets (Suc k) (c # s) =
     (if c = newline then ([c], s) else case fgets k s of (l, rest) \<Rightarrow> (c # l, rest))"

lemma fgets_split: "fgets k s = (l, rest) \<Longrightarrow> s = l @ rest"
  by (induction k s arbitrary: l rest rule: fgets.induct) (auto split: if_splits prod.splits)

lemma fgets_shorter: "(l, rest) = fgets k s \<Longrightarrow> 0 < k \<Longrightarrow> s \<noteq> [] \<Longrightarrow> length rest < length s"
  using fgets_split [of k s l rest] by (cases k; cases s) (auto split: if_splits prod.splits)

text \<open>All that \<^verbatim>\<open>while (fgets(line, LINE_SIZE, src_fp))\<close> reads.\<close>

function read_lines :: "string \<Rightarrow> string list" where
  "read_lines s = (if s = [] then [] else case fgets (LINE_SIZE - 1) s of (l, rest) \<Rightarrow> l # read_lines rest)"
  by pat_completeness auto

termination read_lines
  by (relation "measure length") (auto dest: fgets_shorter)

declare read_lines.simps [simp del]

text \<open>The string in \<^verbatim>\<open>line\<close> after \<^verbatim>\<open>line[strlen(line) - 1] = 0\<close>.\<close>

definition strip_line :: "string \<Rightarrow> string res" where
  "strip_line l = (let str = takeWhile (\<lambda>c. c \<noteq> CHR 0x00) l in
     if str = [] then Inl OutOfBounds else Inr (butlast str))"

subsection \<open>Directives of \<^verbatim>\<open>sscanf\<close>\<close>

text \<open>A directive reads a value from the front of a string, or it does not match (\<open>None\<close>).\<close>

type_synonym 'a scan = "string \<Rightarrow> ('a \<times> string) option res"

definition bindS :: "'a scan \<Rightarrow> ('a \<Rightarrow> 'b scan) \<Rightarrow> 'b scan" where
  "bindS m f s = bindR (m s) (\<lambda>r. case r of None \<Rightarrow> Inr None | Some (x, s') \<Rightarrow> f x s')"

definition returnS :: "'a \<Rightarrow> 'a scan" where
  "returnS x s = Inr (Some (x, s))"

definition scan_sign :: "string \<Rightarrow> bool \<times> string" where
  "scan_sign s = (case s of [] \<Rightarrow> (False, [])
     | c # s' \<Rightarrow> if c = CHR ''-'' then (True, s') else if c = CHR ''+'' then (False, s') else (False, s))"

definition scan_ulong :: "u64 scan" where
  "scan_ulong s = (case scan_sign (dropWhile is_space s) of (neg, s') \<Rightarrow>
     let ds = takeWhile is_digit s'; v = digits_val ds in
     if ds = [] then Inr None
     else if v < 2 ^ 64 then Inr (Some (if neg then - of_nat v else of_nat v, dropWhile is_digit s'))
     else Inl IntOverflow)"

definition scan_int :: "int scan" where
  "scan_int s = (case scan_sign (dropWhile is_space s) of (neg, s') \<Rightarrow>
     let ds = takeWhile is_digit s'; v = (if neg then - int (digits_val ds) else int (digits_val ds)) in
     if ds = [] then Inr None
     else if int_range v then Inr (Some (v, dropWhile is_digit s'))
     else Inl IntOverflow)"

definition scan_char :: "char scan" where
  "scan_char s = (case dropWhile is_space s of [] \<Rightarrow> Inr None | c # s' \<Rightarrow> Inr (Some (c, s')))"

text \<open>A word into an array of \<open>cap\<close> characters, including the terminating zero.\<close>

definition scan_str :: "nat \<Rightarrow> string scan" where
  "scan_str cap s = (let s1 = dropWhile is_space s; w = takeWhile (\<lambda>c. \<not> is_space c) s1 in
     if w = [] then Inr None
     else if length w < cap then Inr (Some (w, dropWhile (\<lambda>c. \<not> is_space c) s1))
     else Inl OutOfBounds)"

subsection \<open>The two formats\<close>

datatype trace_format = REPLAY_FIU | REPLAY_HITSZ

text \<open>\<open>slot\<close> is what the array element held before.\<close>

definition scan_fiu :: "trace_info \<Rightarrow> trace_info scan" where
  "scan_fiu slot =
     bindS scan_ulong (\<lambda>t. bindS scan_ulong (\<lambda>p. bindS (scan_str MAX_NAME_LEN) (\<lambda>_.
     bindS scan_ulong (\<lambda>l. bindS scan_ulong (\<lambda>b. bindS scan_char (\<lambda>c.
     bindS scan_int (\<lambda>mj. bindS scan_int (\<lambda>mn. bindS (scan_str 257) (\<lambda>md.
     returnS (slot\<lparr>ts := t, pid := p, lba := l, blks := b, rw := c, major := mj, minor := mn, md5 := md\<rparr>))))))))))"

definition scan_hitsz :: "trace_info \<Rightarrow> trace_info scan" where
  "scan_hitsz slot =
     bindS scan_ulong (\<lambda>t. bindS scan_ulong (\<lambda>p. bindS scan_ulong (\<lambda>l. bindS (scan_str 257) (\<lambda>md.
     returnS (slot\<lparr>ts := t, pid := p, lba := l, md5 := md\<rparr>)))))"

text \<open>The record that a line adds, if any.\<close>

definition parse_line :: "trace_format \<Rightarrow> replay_mode \<Rightarrow> trace_info \<Rightarrow> string \<Rightarrow> trace_info option res" where
  "parse_line fmt m slot line = (case fmt of
     REPLAY_FIU \<Rightarrow> bindR (scan_fiu slot line) (\<lambda>r. Inr (case r of None \<Rightarrow> None
       | Some (info, _) \<Rightarrow> let info' = info\<lparr>ofs := push_bit 9 (lba info)\<rparr> in
           if m = REPLAY_READWRITE then Some info'
           else if rw info = CHR ''W'' then Some info' else None))
   | REPLAY_HITSZ \<Rightarrow> bindR (scan_hitsz slot line) (\<lambda>r. Inr (case r of None \<Rightarrow> None
       | Some (info, _) \<Rightarrow> Some (info\<lparr>rw := CHR ''W'', blks := 8, ofs := push_bit 9 (lba info)\<rparr>))))"

text \<open>
  The whole function: the records found and the number of elements allocated. \<open>slots\<close> are the
  contents of the fresh array.
\<close>

definition parse_step ::
  "trace_format \<Rightarrow> replay_mode \<Rightarrow> (nat \<Rightarrow> trace_info) \<Rightarrow> nat \<Rightarrow> string \<Rightarrow> trace_info list \<Rightarrow> trace_info list res" where
  "parse_step fmt m slots lines l infos =
     bindR (guardR (length infos < lines) OutOfBounds) (\<lambda>_.
     bindR (strip_line l) (\<lambda>line.
     bindR (parse_line fmt m (slots (length infos)) line) (\<lambda>r.
     Inr (case r of None \<Rightarrow> infos | Some info \<Rightarrow> infos @ [info]))))"

definition parse_trace_info ::
  "trace_format \<Rightarrow> replay_mode \<Rightarrow> (nat \<Rightarrow> trace_info) \<Rightarrow> string \<Rightarrow> (trace_info list \<times> nat) res" where
  "parse_trace_info fmt m slots src =
     (let lines = length (read_lines src) in
      bindR (foldR (parse_step fmt m slots lines) (read_lines src) []) (\<lambda>infos. Inr (infos, lines)))"

end
