(* ===== verification/Parse_Correct.thy ===== *)
theory Parse_Correct
  imports Parse
begin

text \<open>
  Reading back a trace that was printed in one of the two formats, and what happens to a last
  line without a newline.
\<close>

subsection \<open>Lines\<close>

lemma fgets_line: "newline \<notin> set l \<Longrightarrow> length l < k \<Longrightarrow> fgets k (l @ newline # rest) = (l @ [newline], rest)"
proof (induction l arbitrary: k)
  case Nil
  then show ?case by (cases k) auto
next
  case (Cons c l)
  then show ?case by (cases k) auto
qed

lemma fgets_last: "newline \<notin> set l \<Longrightarrow> length l \<le> k \<Longrightarrow> fgets k l = (l, [])"
proof (induction l arbitrary: k)
  case Nil
  then show ?case by (cases k) auto
next
  case (Cons c l)
  then show ?case by (cases k) auto
qed

definition line_ok :: "string \<Rightarrow> bool" where
  "line_ok l \<longleftrightarrow> newline \<notin> set l \<and> CHR 0x00 \<notin> set l \<and> length l < 4095"

lemma read_lines_concat:
  "\<forall>l\<in>set ls. line_ok l \<Longrightarrow> read_lines (concat (map (\<lambda>l. l @ [newline]) ls) @ rest) =
     map (\<lambda>l. l @ [newline]) ls @ read_lines rest"
proof (induction ls)
  case (Cons l ls)
  then show ?case
    by (subst read_lines.simps) (simp add: fgets_line line_ok_def)
qed simp

lemma read_lines_Nil [simp]: "read_lines [] = []"
  by (subst read_lines.simps) simp

lemma read_lines_last: "line_ok l \<Longrightarrow> l \<noteq> [] \<Longrightarrow> read_lines l = [l]"
  by (subst read_lines.simps) (simp add: fgets_last line_ok_def)

lemma no_zero_string: "CHR 0x00 \<notin> set l \<Longrightarrow> takeWhile (\<lambda>c. c \<noteq> CHR 0x00) l = l"
  by (auto simp: takeWhile_eq_all_conv)

lemma strip_newline: "line_ok l \<Longrightarrow> strip_line (l @ [newline]) = Inr l"
  using no_zero_string [of "l @ [newline]"] by (simp add: strip_line_def line_ok_def)

lemma strip_last: "line_ok l \<Longrightarrow> l \<noteq> [] \<Longrightarrow> strip_line l = Inr (butlast l)"
  by (simp add: strip_line_def line_ok_def no_zero_string)

subsection \<open>Directives\<close>

lemma decimal_length: "n < 10 ^ k \<Longrightarrow> 0 < k \<Longrightarrow> length (decimal n) \<le> k"
proof (induction n arbitrary: k rule: decimal.induct)
  case (1 n)
  show ?case
  proof (cases "n < 10")
    case False
    then have "1 < k"
      using "1.prems" by (cases "k = 1") auto
    then obtain k' where k: "k = Suc k'" "0 < k'"
      by (cases k) auto
    then have "n div 10 < 10 ^ k'"
      using "1.prems" by (simp add: div_less_iff_less_mult mult.commute)
    then show ?thesis
      using "1.IH" [OF False _ k(2)] False k(1) by (subst decimal.simps) simp
  qed (use "1.prems" in \<open>subst decimal.simps, simp\<close>)
qed

definition starts_blank :: "string \<Rightarrow> bool" where
  "starts_blank s \<longleftrightarrow> (case s of [] \<Rightarrow> True | c # _ \<Rightarrow> is_space c)"

lemma blank_stop: "starts_blank rest \<Longrightarrow> rest = [] \<or> \<not> is_digit (hd rest)"
  using digit_not_space by (auto simp: starts_blank_def split: list.splits)

lemma blank_skip: "w \<noteq> [] \<Longrightarrow> \<not> is_space (hd w) \<Longrightarrow> dropWhile is_space (CHR '' '' # w @ rest) = w @ rest"
  by (cases w) (auto simp: is_space_def)

lemma sign_decimal: "scan_sign (decimal n @ rest) = (False, decimal n @ rest)"
proof -
  obtain c cs where d: "decimal n = c # cs"
    using decimal_nonempty [of n] by (cases "decimal n") auto
  have "is_digit c"
    using decimal_digits [of n] d by simp
  then show ?thesis
    by (auto simp: scan_sign_def d is_digit_def)
qed

lemma hd_decimal: "\<not> is_space (hd (decimal n))"
  using decimal_digits [of n] digit_not_space decimal_nonempty [of n] by (metis hd_in_set)

lemma skip_decimal: "dropWhile is_space (CHR '' '' # decimal n @ rest) = decimal n @ rest"
    "dropWhile is_space (decimal n @ rest) = decimal n @ rest"
  using blank_skip [OF decimal_nonempty hd_decimal] hd_decimal [of n]
  by (simp_all, cases "decimal n") auto

lemma scan_ulong_decimal:
  assumes "starts_blank rest"
  shows "scan_ulong (CHR '' '' # decimal (unat w) @ rest) = Inr (Some (w, rest))"
    and "scan_ulong (decimal (unat w) @ rest) = Inr (Some (w, rest))"
  using takeWhile_digits [OF decimal_digits blank_stop [OF assms], of "unat w"] unsigned_less [of w]
  unfolding scan_ulong_def skip_decimal sign_decimal by (simp_all add: Let_def)

lemma scan_int_decimal:
  assumes "starts_blank rest" and "n < 2 ^ 31"
  shows "scan_int (CHR '' '' # decimal n @ rest) = Inr (Some (int n, rest))"
  using takeWhile_digits [OF decimal_digits blank_stop [OF assms(1)], of n] assms(2)
  unfolding scan_int_def skip_decimal sign_decimal by (simp add: Let_def int_range_def)

definition word_ok :: "string \<Rightarrow> bool" where
  "word_ok w \<longleftrightarrow> w \<noteq> [] \<and> (\<forall>c\<in>set w. \<not> is_space c \<and> c \<noteq> CHR 0x00)"

lemma scan_str_word:
  assumes "word_ok w" and "length w < cap" and "starts_blank rest"
  shows "scan_str cap (CHR '' '' # w @ rest) = Inr (Some (w, rest))"
proof -
  have "dropWhile is_space (CHR '' '' # w @ rest) = w @ rest"
    using assms(1) by (intro blank_skip) (auto simp: word_ok_def)
  moreover have "takeWhile (\<lambda>c. \<not> is_space c) (w @ rest) = w" "dropWhile (\<lambda>c. \<not> is_space c) (w @ rest) = rest"
    using assms(1,3) by (auto simp: word_ok_def starts_blank_def takeWhile_append2 dropWhile_append2 split: list.splits)
  ultimately show ?thesis
    using assms(1,2) unfolding scan_str_def by (simp add: Let_def word_ok_def)
qed

lemma scan_int_value:
  "starts_blank rest \<Longrightarrow> 0 \<le> z \<Longrightarrow> z < 2 ^ 31 \<Longrightarrow> scan_int (CHR '' '' # decimal (nat z) @ rest) = Inr (Some (z, rest))"
  using scan_int_decimal [of rest "nat z"] by (simp add: nat_less_iff)

lemma scan_char_one: "\<not> is_space c \<Longrightarrow> scan_char (CHR '' '' # c # rest) = Inr (Some (c, rest))"
  by (simp add: scan_char_def is_space_def)

subsection \<open>Printed lines\<close>

text \<open>A line of a trace in each format, for a record and the name of a process.\<close>

definition fiu_line :: "string \<Rightarrow> trace_info \<Rightarrow> string" where
  "fiu_line pname info = decimal (unat (ts info)) @ CHR '' '' # decimal (unat (pid info)) @ CHR '' '' # pname @
     CHR '' '' # decimal (unat (lba info)) @ CHR '' '' # decimal (unat (blks info)) @ CHR '' '' # rw info #
     CHR '' '' # decimal (nat (major info)) @ CHR '' '' # decimal (nat (minor info)) @ CHR '' '' # md5 info"

definition hitsz_line :: "trace_info \<Rightarrow> string" where
  "hitsz_line info = decimal (unat (ts info)) @ CHR '' '' # decimal (unat (pid info)) @
     CHR '' '' # decimal (unat (lba info)) @ CHR '' '' # md5 info"

definition md5_word :: "trace_info \<Rightarrow> bool" where
  "md5_word info \<longleftrightarrow> word_ok (md5 info) \<and> length (md5 info) < 257"

definition printable :: "string \<Rightarrow> trace_info \<Rightarrow> bool" where
  "printable pname info \<longleftrightarrow> md5_word info \<and> word_ok pname \<and> length pname < 256 \<and>
     \<not> is_space (rw info) \<and> rw info \<noteq> CHR 0x00 \<and>
     0 \<le> major info \<and> major info < 2 ^ 31 \<and> 0 \<le> minor info \<and> minor info < 2 ^ 31"

lemma bindS_Some: "m s = Inr (Some (x, s')) \<Longrightarrow> bindS m f s = f x s'"
  by (simp add: bindS_def)

lemma starts_blank_simps [simp]: "starts_blank []" "starts_blank (CHR '' '' # s)"
  by (simp_all add: starts_blank_def is_space_def)

lemmas scan_simps = scan_ulong_decimal scan_int_value scan_str_word scan_str_word [where rest = "[]", simplified] scan_char_one

lemma scan_fiu_line:
  "printable pname info \<Longrightarrow> scan_fiu slot (fiu_line pname info) = Inr (Some (slot\<lparr>ts := ts info, pid := pid info,
     lba := lba info, blks := blks info, rw := rw info, major := major info, minor := minor info, md5 := md5 info\<rparr>, []))"
  by (simp add: scan_fiu_def fiu_line_def printable_def md5_word_def bindS_def returnS_def scan_simps)

lemma scan_hitsz_line:
  "md5_word info \<Longrightarrow> scan_hitsz slot (hitsz_line info) = Inr (Some (slot\<lparr>ts := ts info, pid := pid info,
     lba := lba info, md5 := md5 info\<rparr>, []))"
  by (simp add: scan_hitsz_def hitsz_line_def md5_word_def bindS_def returnS_def scan_simps)

lemma decimal_u64: "length (decimal (unat (w :: u64))) \<le> 20"
  using unsigned_less [where 'a = nat, of w] by (intro decimal_length) auto

lemma decimal_line: "newline \<notin> set (decimal n)" "CHR 0x00 \<notin> set (decimal n)"
  using decimal_digits [of n] by (auto simp: is_digit_def)

lemma word_line: "word_ok w \<Longrightarrow> newline \<notin> set w" "word_ok w \<Longrightarrow> CHR 0x00 \<notin> set w"
  by (auto simp: word_ok_def is_space_def)

lemma fiu_line_ok:
  assumes "printable pname info"
  shows "line_ok (fiu_line pname info)"
proof -
  have "length (decimal (nat (major info))) \<le> 10" "length (decimal (nat (minor info))) \<le> 10"
    using assms by (auto simp: printable_def intro!: decimal_length)
  then have "length (fiu_line pname info) < 4095"
    using decimal_u64 [of "ts info"] decimal_u64 [of "pid info"] decimal_u64 [of "lba info"] decimal_u64 [of "blks info"] assms
    by (simp add: fiu_line_def printable_def md5_word_def)
  then show ?thesis
    using assms word_line [of pname] word_line [of "md5 info"]
    by (auto simp: line_ok_def fiu_line_def printable_def md5_word_def decimal_line is_space_def)
qed

lemma hitsz_line_ok:
  assumes "md5_word info"
  shows "line_ok (hitsz_line info)"
  using decimal_u64 [of "ts info"] decimal_u64 [of "pid info"] decimal_u64 [of "lba info"] assms word_line [of "md5 info"]
  by (auto simp: line_ok_def hitsz_line_def md5_word_def decimal_line)

subsection \<open>Whole files\<close>

text \<open>What a file adds up to, given what each line adds.\<close>

definition collect :: "(trace_info \<Rightarrow> 'a \<Rightarrow> trace_info option) \<Rightarrow> (nat \<Rightarrow> trace_info) \<Rightarrow> 'a list \<Rightarrow> trace_info list \<Rightarrow> trace_info list" where
  "collect g slots = fold (\<lambda>r infos. case g (slots (length infos)) r of None \<Rightarrow> infos | Some info \<Rightarrow> infos @ [info])"

lemma length_collect: "length (collect g slots rs infos) \<le> length infos + length rs"
proof (induction rs arbitrary: infos)
  case (Cons r rs)
  show ?case
    using Cons [of "case g (slots (length infos)) r of None \<Rightarrow> infos | Some info \<Rightarrow> infos @ [info]"]
    by (auto simp: collect_def split: option.splits)
qed (simp add: collect_def)

lemma parse_steps:
  assumes "\<forall>r\<in>set rs. \<exists>line. strip_line (raw r) = Inr line \<and> (\<forall>slot. parse_line fmt m slot line = Inr (g slot r))"
    and "length infos + length rs \<le> lines"
  shows "foldR (parse_step fmt m slots lines) (map raw rs) infos = Inr (collect g slots rs infos)"
  using assms
proof (induction rs arbitrary: infos)
  case (Cons r rs)
  let ?infos = "case g (slots (length infos)) r of None \<Rightarrow> infos | Some info \<Rightarrow> infos @ [info]"
  have "parse_step fmt m slots lines (raw r) infos = Inr ?infos"
    using Cons.prems by (auto simp: parse_step_def)
  moreover have "length ?infos + length rs \<le> lines"
    using Cons.prems(2) by (simp split: option.splits)
  ultimately show ?case
    using Cons.IH [of ?infos] Cons.prems(1) by (simp add: collect_def)
qed (simp add: collect_def)

lemma collect_filter:
  "collect (\<lambda>_ r. if P r then Some (h r) else None) slots rs infos = infos @ map h (filter P rs)"
  by (induction rs arbitrary: infos) (auto simp: collect_def)

lemma collect_map:
  "collect (\<lambda>slot r. Some (h slot r)) slots rs infos =
     infos @ map (\<lambda>i. h (slots (length infos + i)) (rs ! i)) [0..<length rs]"
proof (induction rs arbitrary: infos)
  case (Cons r rs)
  have "[0..<length (r # rs)] = 0 # map Suc [0..<length rs]"
    by (simp add: upt_conv_Cons map_Suc_upt del: upt_Suc)
  then show ?case
    using Cons [of "infos @ [h (slots (length infos)) r]"] by (simp add: collect_def del: upt_Suc)
qed (simp add: collect_def)

lemma parse_fiu_line:
  "printable pname info \<Longrightarrow> parse_line REPLAY_FIU m slot (fiu_line pname info) =
     Inr (if m = REPLAY_READWRITE \<or> rw info = CHR ''W'' then Some (info\<lparr>ofs := push_bit 9 (lba info)\<rparr>) else None)"
  by (simp add: parse_line_def scan_fiu_line Let_def)

lemma parse_hitsz_line:
  "md5_word info \<Longrightarrow> parse_line REPLAY_HITSZ m slot (hitsz_line info) = Inr (Some (slot\<lparr>ts := ts info, pid := pid info,
     lba := lba info, md5 := md5 info, rw := CHR ''W'', blks := 8, ofs := push_bit 9 (lba info)\<rparr>))"
  by (simp add: parse_line_def scan_hitsz_line)

text \<open>A file of terminated lines, and possibly a last one that is not.\<close>

lemma parse_file:
  assumes "\<forall>r\<in>set rs. line_ok (line r) \<and> (\<forall>slot. parse_line fmt m slot (line r) = Inr (g slot r))"
    and "line_ok l" and "l \<noteq> []" and "\<forall>slot. parse_line fmt m slot (butlast l) = Inr (g' slot)"
  shows "parse_trace_info fmt m slots (concat (map (\<lambda>r. line r @ [newline]) rs)) =
      Inr (collect g slots rs [], length rs)" (is ?terminated)
    and "parse_trace_info fmt m slots (concat (map (\<lambda>r. line r @ [newline]) rs) @ l) =
      Inr (let infos = collect g slots rs [] in case g' (slots (length infos)) of None \<Rightarrow> infos | Some info \<Rightarrow> infos @ [info],
        Suc (length rs))" (is ?open)
proof -
  have split: "read_lines (concat (map (\<lambda>r. line r @ [newline]) rs) @ rest) =
      map (\<lambda>r. line r @ [newline]) rs @ read_lines rest" for rest
    using read_lines_concat [of "map line rs" rest] assms(1) by (simp add: comp_def)
  have steps: "foldR (parse_step fmt m slots lines) (map (\<lambda>r. line r @ [newline]) rs) [] = Inr (collect g slots rs [])"
    if "length rs \<le> lines" for lines
    using assms(1) that strip_newline by (intro parse_steps) auto
  show ?terminated
    using split [of "[]"] steps [of "length rs"] by (simp add: parse_trace_info_def)
  have "parse_step fmt m slots (Suc (length rs)) l (collect g slots rs []) =
      Inr (case g' (slots (length (collect g slots rs []))) of None \<Rightarrow> collect g slots rs [] | Some info \<Rightarrow> collect g slots rs [] @ [info])"
    using assms(2-4) length_collect [of g slots rs "[]"] by (simp add: parse_step_def strip_last)
  then show ?open
    using split [of l] steps [of "Suc (length rs)"] read_lines_last [OF assms(2,3)]
    by (simp add: parse_trace_info_def foldR_append Let_def)
qed

lemma fiu_line_butlast:
  "md5 info \<noteq> [] \<Longrightarrow> butlast (fiu_line pname info) = fiu_line pname (info\<lparr>md5 := butlast (md5 info)\<rparr>)"
  by (simp add: fiu_line_def butlast_append)

lemma printable_butlast:
  assumes "printable pname info" and "2 \<le> length (md5 info)"
  shows "printable pname (info\<lparr>md5 := butlast (md5 info)\<rparr>)"
proof -
  have "butlast (md5 info) \<noteq> []"
    using assms(2) by (cases "md5 info"; cases "tl (md5 info)") auto
  then have "word_ok (butlast (md5 info))"
    using assms(1) in_set_butlastD [of _ "md5 info"] unfolding printable_def md5_word_def word_ok_def by blast
  then show ?thesis
    using assms(1) by (auto simp: printable_def md5_word_def)
qed

text \<open>The scanners leave words that fit, and the records have what the parser promises.\<close>

definition parsed_ok :: "replay_mode \<Rightarrow> trace_info \<Rightarrow> bool" where
  "parsed_ok m info \<longleftrightarrow> ofs info = push_bit 9 (lba info) \<and> md5 info \<noteq> [] \<and> length (md5 info) < 257 \<and>
     (\<forall>c\<in>set (md5 info). \<not> is_space c) \<and> (m \<noteq> REPLAY_READWRITE \<longrightarrow> rw info = CHR ''W'')"

lemma bindS_cases: "bindS m f s = Inr (Some r) \<Longrightarrow> (\<And>x s'. m s = Inr (Some (x, s')) \<Longrightarrow> f x s' = Inr (Some r) \<Longrightarrow> thesis) \<Longrightarrow> thesis"
  by (auto simp: bindS_def bindR_eq_Inr split: option.splits)

lemma scan_str_fits: "scan_str cap s = Inr (Some (w, s')) \<Longrightarrow> w \<noteq> [] \<and> length w < cap \<and> (\<forall>c\<in>set w. \<not> is_space c)"
  by (auto simp: scan_str_def Let_def dest: set_takeWhileD split: if_splits)

lemma scan_fiu_md5:
  "scan_fiu slot line = Inr (Some (info, s)) \<Longrightarrow> md5 info \<noteq> [] \<and> length (md5 info) < 257 \<and> (\<forall>c\<in>set (md5 info). \<not> is_space c)"
  unfolding scan_fiu_def by (elim bindS_cases) (auto simp: returnS_def dest: scan_str_fits)

lemma scan_hitsz_md5:
  "scan_hitsz slot line = Inr (Some (info, s)) \<Longrightarrow> md5 info \<noteq> [] \<and> length (md5 info) < 257 \<and> (\<forall>c\<in>set (md5 info). \<not> is_space c)"
  unfolding scan_hitsz_def by (elim bindS_cases) (auto simp: returnS_def dest: scan_str_fits)

lemma parse_line_ok:
  assumes "parse_line fmt m slot line = Inr (Some info)"
  shows "parsed_ok m info"
proof (cases fmt)
  case REPLAY_FIU
  then obtain i s where "scan_fiu slot line = Inr (Some (i, s))" "info = i\<lparr>ofs := push_bit 9 (lba i)\<rparr>"
      "m = REPLAY_READWRITE \<or> rw i = CHR ''W''"
    using assms by (auto simp: parse_line_def bindR_eq_Inr Let_def split: option.splits if_splits)
  then show ?thesis
    using scan_fiu_md5 by (auto simp: parsed_ok_def)
next
  case REPLAY_HITSZ
  then obtain i s where "scan_hitsz slot line = Inr (Some (i, s))"
      "info = i\<lparr>rw := CHR ''W'', blks := 8, ofs := push_bit 9 (lba i)\<rparr>"
    using assms by (auto simp: parse_line_def bindR_eq_Inr split: option.splits)
  then show ?thesis
    using scan_hitsz_md5 by (auto simp: parsed_ok_def)
qed

lemma parse_records:
  assumes "foldR (parse_step fmt m slots lines) ls infos0 = Inr infos" and "\<forall>info\<in>set infos0. parsed_ok m info"
    and "length infos0 \<le> lines"
  shows "(\<forall>info\<in>set infos. parsed_ok m info) \<and> length infos \<le> lines"
  using assms
proof (induction ls arbitrary: infos0)
  case (Cons l ls)
  then obtain infos1 where s: "parse_step fmt m slots lines l infos0 = Inr infos1"
      and f: "foldR (parse_step fmt m slots lines) ls infos1 = Inr infos"
    by (auto simp: bindR_eq_Inr)
  have "(\<forall>info\<in>set infos1. parsed_ok m info) \<and> length infos1 \<le> lines"
    using s Cons.prems(2,3) parse_line_ok
    by (auto simp: parse_step_def bindR_eq_Inr guardR_def split: option.splits if_splits)
  then show ?case
    using Cons.IH [OF f] by blast
qed simp

lemma parse_fiu_file:
  assumes "\<forall>(pname, info)\<in>set rs. printable pname info"
  shows "parse_trace_info REPLAY_FIU m slots (concat (map (\<lambda>(pname, info). fiu_line pname info @ [newline]) rs)) =
      Inr (map (\<lambda>(pname, info). info\<lparr>ofs := push_bit 9 (lba info)\<rparr>)
        (filter (\<lambda>(pname, info). m = REPLAY_READWRITE \<or> rw info = CHR ''W'') rs), length rs)"
proof -
  have l: "line_ok ''x''"
    by (simp add: line_ok_def)
  have p: "printable (fst r) (snd r)" if "r \<in> set rs" for r
    using assms that by auto
  have empty: "\<forall>slot. parse_line REPLAY_FIU m slot (butlast ''x'') = Inr None"
    by (simp add: parse_line_def scan_fiu_def bindS_def scan_ulong_def scan_sign_def)
  show ?thesis
    using parse_file(1) [of rs "\<lambda>r. fiu_line (fst r) (snd r)" REPLAY_FIU m
        "\<lambda>_ r. if m = REPLAY_READWRITE \<or> rw (snd r) = CHR ''W'' then Some ((snd r)\<lparr>ofs := push_bit 9 (lba (snd r))\<rparr>) else None",
        OF _ l _ empty] p fiu_line_ok parse_fiu_line
    by (simp add: collect_filter case_prod_unfold)
qed

lemma parse_hitsz_file:
  assumes "\<forall>(pname, info)\<in>set rs. md5_word info"
  shows "parse_trace_info REPLAY_HITSZ m slots (concat (map (\<lambda>(pname, info). hitsz_line info @ [newline]) rs)) =
      Inr (map (\<lambda>i. let info = snd (rs ! i) in (slots i)\<lparr>ts := ts info, pid := pid info, lba := lba info,
        md5 := md5 info, rw := CHR ''W'', blks := 8, ofs := push_bit 9 (lba info)\<rparr>) [0..<length rs], length rs)"
proof -
  have l: "line_ok ''x''"
    by (simp add: line_ok_def)
  have p: "md5_word (snd r)" if "r \<in> set rs" for r
    using assms that by auto
  have empty: "\<forall>slot. parse_line REPLAY_HITSZ m slot (butlast ''x'') = Inr None"
    by (simp add: parse_line_def scan_hitsz_def bindS_def scan_ulong_def scan_sign_def)
  show ?thesis
    using parse_file(1) [of rs "\<lambda>r. hitsz_line (snd r)" REPLAY_HITSZ m
        "\<lambda>slot r. Some (slot\<lparr>ts := ts (snd r), pid := pid (snd r), lba := lba (snd r), md5 := md5 (snd r),
           rw := CHR ''W'', blks := 8, ofs := push_bit 9 (lba (snd r))\<rparr>)", OF _ l _ empty] p hitsz_line_ok parse_hitsz_line
    by (simp add: collect_map case_prod_unfold Let_def)
qed

lemma printable_sample: "printable ''sh'' (info_at t l)"
  by (auto simp: printable_def md5_word_def word_ok_def info_at_def is_space_def)

subsection \<open>Properties\<close>

text \<open>
  C18: Reading back a trace. A file in either format, one line for each record, is parsed to
  these records: in the FIU format all of them in read-write mode and the writes otherwise,
  in the HITSZ format all, as writes of 8 sectors. The offset in bytes is computed, and the
  array has an element for every line.
\<close>

theorem parse_roundtrip:
  assumes "\<forall>(pname, info)\<in>set rs. printable pname info"
  shows "parse_trace_info REPLAY_FIU m slots (concat (map (\<lambda>(pname, info). fiu_line pname info @ [newline]) rs)) =
      Inr (map (\<lambda>(pname, info). info\<lparr>ofs := push_bit 9 (lba info)\<rparr>)
        (filter (\<lambda>(pname, info). m = REPLAY_READWRITE \<or> rw info = CHR ''W'') rs), length rs) \<and>
    parse_trace_info REPLAY_HITSZ m slots (concat (map (\<lambda>(pname, info). hitsz_line info @ [newline]) rs)) =
      Inr (map (\<lambda>i. let info = snd (rs ! i) in (slots i)\<lparr>ts := ts info, pid := pid info, lba := lba info,
        md5 := md5 info, rw := CHR ''W'', blks := 8, ofs := push_bit 9 (lba info)\<rparr>) [0..<length rs], length rs)"
  using parse_fiu_file [OF assms] parse_hitsz_file [of rs] assms by (fastforce simp: printable_def)

theorem parse_roundtrip_witness:
  "parse_trace_info REPLAY_FIU REPLAY_WRITEONLY (\<lambda>_. info_at 0 0) (fiu_line ''sh'' (info_at 1 8) @ [newline]) =
     Inr ([info_at 1 8], 1)"
  using parse_roundtrip [of "[(''sh'', info_at 1 8)]" REPLAY_WRITEONLY "\<lambda>_. info_at 0 0"] printable_sample [of 1 8]
  by (simp add: info_at_def)

text \<open>
  C37: A last line without a newline loses its last character, since the parser cuts off the last
  character of every line, newline or not. A fingerprint of 32 characters is left with 31,
  for which \<^verbatim>\<open>fill_blk\<close> divides by zero.
\<close>

theorem parse_unterminated:
  assumes "\<forall>(pname, info)\<in>set rs. printable pname info" and "printable pname info" and "length (md5 info) = 32"
    and "rw info = CHR ''W''"
  shows "parse_trace_info REPLAY_FIU m slots
      (concat (map (\<lambda>(pname, info). fiu_line pname info @ [newline]) rs) @ fiu_line pname info) =
        Inr (map (\<lambda>(pname, info). info\<lparr>ofs := push_bit 9 (lba info)\<rparr>)
            (filter (\<lambda>(pname, info). m = REPLAY_READWRITE \<or> rw info = CHR ''W'') rs) @
          [info\<lparr>md5 := butlast (md5 info), ofs := push_bit 9 (lba info)\<rparr>], Suc (length rs)) \<and>
    fill_blk buf off (butlast (md5 info)) g = Inl DivByZero"
proof -
  let ?g = "\<lambda>_ r. if m = REPLAY_READWRITE \<or> rw (snd r) = CHR ''W'' then Some ((snd r)\<lparr>ofs := push_bit 9 (lba (snd r))\<rparr>) else None"
  let ?info = "info\<lparr>md5 := butlast (md5 info), ofs := push_bit 9 (lba info)\<rparr>"
  have p: "printable (fst r) (snd r)" if "r \<in> set rs" for r
    using assms(1) that by auto
  have ne: "fiu_line pname info \<noteq> []" "md5 info \<noteq> []"
    using assms(3) by (auto simp: fiu_line_def)
  have last: "\<forall>slot. parse_line REPLAY_FIU m slot (butlast (fiu_line pname info)) = Inr (Some ?info)"
    using parse_fiu_line [OF printable_butlast [OF assms(2)]] assms(3,4) fiu_line_butlast [OF ne(2)] by simp
  have "parse_trace_info REPLAY_FIU m slots
      (concat (map (\<lambda>(pname, info). fiu_line pname info @ [newline]) rs) @ fiu_line pname info) =
      Inr (collect ?g slots rs [] @ [?info], Suc (length rs))"
    using parse_file(2) [of rs "\<lambda>r. fiu_line (fst r) (snd r)" REPLAY_FIU m ?g, OF _ fiu_line_ok [OF assms(2)] ne(1) last, of slots]
      p fiu_line_ok parse_fiu_line by (simp add: case_prod_unfold Let_def)
  moreover have "fill_blk buf off (butlast (md5 info)) g = Inl DivByZero"
    using assms(3) by (simp add: fill_blk_def guardR_def)
  ultimately show ?thesis
    by (simp add: collect_filter case_prod_unfold)
qed

theorem parse_unterminated_witness:
  "\<exists>info. parse_trace_info REPLAY_FIU REPLAY_WRITEONLY (\<lambda>_. info_at 0 0) (fiu_line ''sh'' (info_at 1 8)) = Inr ([info], 1) \<and>
     length (md5 info) = 31"
  using parse_unterminated [of "[]" "''sh''" "info_at 1 8" REPLAY_WRITEONLY "\<lambda>_. info_at 0 0"] printable_sample [of 1 8]
  by (auto simp: info_at_def)

text \<open>
  C38: Whatever is in the file, if the parser returns then every record it has made has the byte
  offset of its address, a non-empty fingerprint without blanks that fits its array, and is a
  write unless the mode is read-write; and the records fit the array.
\<close>

theorem parse_records_ok:
  assumes "parse_trace_info fmt m slots src = Inr (infos, lines)"
  shows "(\<forall>info\<in>set infos. parsed_ok m info) \<and> length infos \<le> lines \<and> lines = length (read_lines src)"
proof -
  have "foldR (parse_step fmt m slots lines) (read_lines src) [] = Inr infos" "lines = length (read_lines src)"
    using assms by (auto simp: parse_trace_info_def Let_def bindR_eq_Inr)
  then show ?thesis
    using parse_records by fastforce
qed

theorem parse_records_ok_witness:
  "parsed_ok REPLAY_APPEND (info_at 1 8) \<and> length [info_at 1 8] \<le> length (read_lines (fiu_line ''sh'' (info_at 1 8) @ [newline]))"
proof -
  have "parse_trace_info REPLAY_FIU REPLAY_APPEND (\<lambda>_. info_at 0 0) (fiu_line ''sh'' (info_at 1 8) @ [newline]) = Inr ([info_at 1 8], 1)"
    using parse_fiu_file [of "[(''sh'', info_at 1 8)]" REPLAY_APPEND "\<lambda>_. info_at 0 0"] printable_sample [of 1 8]
    by (simp add: info_at_def)
  from parse_records_ok [OF this] show ?thesis
    by simp
qed

end
