(* ===== verification/Replay_Main.thy ===== *)
theory Replay_Main
  imports Replay_All Parse_Correct
begin

text \<open>
  \<^verbatim>\<open>main\<close> of \<^verbatim>\<open>replay.c\<close>: the options, the checks, and the way from the trace file to the
  parameters of the worker threads. The options are given as what the calls of \<^verbatim>\<open>getopt\<close>
  return, each with its argument; the files that can be read are a function of the path.
\<close>

subsection \<open>Time\<close>

record timespec =
  tv_sec :: int
  tv_nsec :: int

definition timespec_to_ns :: "timespec \<Rightarrow> u64" where
  "timespec_to_ns t = of_int (tv_sec t) * 1000000000 + of_int (tv_nsec t)"

definition get_ns_diff :: "u64 \<Rightarrow> u64 \<Rightarrow> u64" where
  "get_ns_diff start fin = fin - start"

lemma elapsed_ns:
  assumes "t1 = tv_sec a * 1000000000 + tv_nsec a" and "t2 = tv_sec b * 1000000000 + tv_nsec b"
    and "0 \<le> t2 - t1" and "t2 - t1 < 2 ^ 64"
  shows "uint (get_ns_diff (timespec_to_ns a) (timespec_to_ns b)) = t2 - t1"
proof -
  have "get_ns_diff (timespec_to_ns a) (timespec_to_ns b) = of_int (t2 - t1)"
    by (simp add: get_ns_diff_def timespec_to_ns_def assms(1,2))
  then show ?thesis
    using assms(3,4) by (simp add: unsigned_of_int take_bit_int_eq_self del: of_int_diff)
qed

subsection \<open>Options\<close>

record main_opts =
  o_filepath :: string
  o_dstpath :: string
  o_mode :: replay_mode
  o_gener :: rand_type
  o_format :: trace_format
  o_dump_read :: "string option"
  o_max_continuous :: u64
  o_threads :: int
  o_verbose :: bool

definition init_opts :: main_opts where
  "init_opts = \<lparr>o_filepath = [], o_dstpath = [], o_mode = REPLAY_WRITEONLY, o_gener = RANDOM_NULL, o_format = REPLAY_FIU,
     o_dump_read = None, o_max_continuous = 1, o_threads = 1, o_verbose = False\<rparr>"

text \<open>\<^verbatim>\<open>strcpy\<close> into an array of 256 characters, and the slash at the end of a directory.\<close>

definition copy_arg :: "string \<Rightarrow> string res" where
  "copy_arg s = (if length s < MAX_NAME_LEN then Inr s else Inl OutOfBounds)"

definition copy_dir :: "string \<Rightarrow> string res" where
  "copy_dir s = bindR (copy_arg s) (\<lambda>p.
     if p = [] then Inl OutOfBounds else if last p = CHR ''/'' then Inr p else copy_arg (p @ ''/''))"

definition atoi :: "string \<Rightarrow> int res" where
  "atoi s = (case scan_sign (dropWhile is_space s) of (neg, s') \<Rightarrow>
     let n = int (digits_val (takeWhile is_digit s')); v = (if neg then - n else n) in
     if int_range v then Inr v else Inl IntOverflow)"

text \<open>
  One round of the loop around \<^verbatim>\<open>getopt\<close>. With \<^verbatim>\<open>-v\<close> given earlier, \<^verbatim>\<open>-r\<close> prints a string
  that is not passed.
\<close>

definition main_option :: "char \<times> string \<Rightarrow> main_opts \<Rightarrow> main_opts res" where
  "main_option = (\<lambda>(opt, optarg) os.
     if opt = CHR ''f'' then bindR (copy_arg optarg) (\<lambda>p. Inr (os\<lparr>o_filepath := p\<rparr>))
     else if opt = CHR ''d'' then bindR (copy_dir optarg) (\<lambda>p. Inr (os\<lparr>o_dstpath := p\<rparr>))
     else if opt = CHR ''o'' then bindR (copy_arg optarg) (\<lambda>s.
       if s = ''w'' then Inr (os\<lparr>o_mode := REPLAY_WRITEONLY\<rparr>)
       else if s = ''rw'' then Inr (os\<lparr>o_mode := REPLAY_READWRITE\<rparr>)
       else if s = ''a'' then Inr (os\<lparr>o_mode := REPLAY_APPEND\<rparr>)
       else Inl (Exit (- 1)))
     else if opt = CHR ''g'' then bindR (copy_arg optarg) (\<lambda>s.
       if s = ''mt19937ar'' then Inr (os\<lparr>o_gener := RANDOM_MT19937AR\<rparr>)
       else if s = ''rand'' then Inr (os\<lparr>o_gener := RANDOM_STDLIB\<rparr>)
       else if s = ''lcg'' then Inr (os\<lparr>o_gener := RANDOM_LCG\<rparr>)
       else if s = ''null'' then Inr (os\<lparr>o_gener := RANDOM_NULL\<rparr>)
       else Inl (Exit (- 1)))
     else if opt = CHR ''c'' then bindR (atoi optarg) (\<lambda>n. Inr (os\<lparr>o_max_continuous := of_int n\<rparr>))
     else if opt = CHR ''t'' then bindR (atoi optarg) (\<lambda>n. Inr (os\<lparr>o_threads := n\<rparr>))
     else if opt = CHR ''v'' then Inr (os\<lparr>o_verbose := True\<rparr>)
     else if opt = CHR ''m'' then bindR (copy_arg optarg) (\<lambda>s.
       if s = ''fiu'' then Inr (os\<lparr>o_format := REPLAY_FIU\<rparr>)
       else if s = ''hitsz'' then Inr (os\<lparr>o_format := REPLAY_HITSZ\<rparr>)
       else Inl (Exit (- 1)))
     else if opt = CHR ''r'' then bindR (copy_dir optarg) (\<lambda>p.
       if o_verbose os then Inl Uninitialised else Inr (os\<lparr>o_dump_read := Some p\<rparr>))
     else Inl (Exit 1))"

definition opts_config :: "main_opts \<Rightarrow> replay_config" where
  "opts_config os = \<lparr>threads = nat (o_threads os), max_continuous_4K_blks = o_max_continuous os, rand_gener_type = o_gener os,
     cfg_mode = o_mode os, cfg_dstpath = o_dstpath os, dump_read_path = o_dump_read os, verbose = o_verbose os\<rparr>"

text \<open>The checks after the options; the result is the contents of the trace file.\<close>

abbreviation (input) MAX_THREADS :: int where "MAX_THREADS \<equiv> 512"

definition main_checks :: "(string \<Rightarrow> string option) \<Rightarrow> main_opts \<Rightarrow> string res" where
  "main_checks readable os =
     bindR (guardR (o_filepath os \<noteq> []) (Exit 1)) (\<lambda>_.
     bindR (guardR (o_dstpath os \<noteq> []) (Exit 1)) (\<lambda>_.
     case readable (o_filepath os) of None \<Rightarrow> Inl (Exit 1)
     | Some src \<Rightarrow> bindR (guardR (o_threads os \<le> MAX_THREADS) (Exit 1)) (\<lambda>_. Inr src)))"

text \<open>
  From the options to the worker threads. The array of parameters for a negative number of
  threads is larger than memory, so \<^verbatim>\<open>malloc\<close> returns the null pointer.
\<close>

definition replay_setup ::
  "(u32 \<Rightarrow> i32 \<times> u32) \<Rightarrow> mt19937ar_state \<Rightarrow> i32 \<Rightarrow> (nat \<Rightarrow> ptr) \<Rightarrow> (nat \<Rightarrow> nat) \<Rightarrow> ptr \<Rightarrow> (nat \<Rightarrow> trace_info) \<Rightarrow>
   (string \<Rightarrow> string option) \<Rightarrow> (char \<times> string) list \<Rightarrow>
   (replay_config \<times> trace_info list \<times> trace_replay_hint option list \<times> replay_param list) res" where
  "replay_setup rand_r junk junk_int waddr rnd base slots readable args =
     bindR (foldR main_option args init_opts) (\<lambda>os.
     bindR (main_checks readable os) (\<lambda>src.
     bindR (parse_trace_info (o_format os) (o_mode os) slots src) (\<lambda>(infos, lines).
     bindR (guardR (0 \<le> o_threads os) NullDeref) (\<lambda>_.
     let cfg = opts_config os in
     case hashmap_create empty_heap of (h, m) \<Rightarrow>
     bindR (build_trace_containers base infos (length infos) (h, m, [])) (\<lambda>st.
     bindR (assign_params_per_worker cfg rand_r junk junk_int waddr rnd base infos (length infos) st) (\<lambda>(hs, params).
     Inr (cfg, infos, hs, params)))))))"

subsection \<open>From the trace file to the files of the workers\<close>

text \<open>The writes of a trace, as the parser makes records of them.\<close>

definition trace_writes :: "(string \<times> trace_info) list \<Rightarrow> trace_info list" where
  "trace_writes rs = map (\<lambda>(pname, info). info\<lparr>ofs := push_bit 9 (lba info)\<rparr>) (filter (\<lambda>(pname, info). rw info = CHR ''W'') rs)"

text \<open>Options for a replay of writes from the given trace, with paths that leave room for file names.\<close>

definition write_replay ::
  "(string \<Rightarrow> string option) \<Rightarrow> (char \<times> string) list \<Rightarrow> main_opts \<Rightarrow> (string \<times> trace_info) list \<Rightarrow> bool" where
  "write_replay readable args os rs \<longleftrightarrow> foldR main_option args init_opts = Inr os \<and>
     o_mode os = REPLAY_WRITEONLY \<and> o_format os = REPLAY_FIU \<and> 0 < o_threads os \<and> o_threads os \<le> 512 \<and>
     o_filepath os \<noteq> [] \<and> o_dstpath os \<noteq> [] \<and> length (o_dstpath os) \<le> 240 \<and>
     (case o_dump_read os of None \<Rightarrow> True | Some d \<Rightarrow> length d \<le> 240) \<and> unat (o_max_continuous os) < 2 ^ 19 \<and>
     readable (o_filepath os) = Some (concat (map (\<lambda>(pname, info). fiu_line pname info @ [newline]) rs))"

definition writable_trace :: "(string \<times> trace_info) list \<Rightarrow> bool" where
  "writable_trace rs \<longleftrightarrow> (\<forall>(pname, info)\<in>set rs. printable pname info \<and>
     unat (lba info) < 2 ^ 52 \<and> 8 dvd unat (lba info) \<and> md5_ok (md5 info))"

lemma setup_unfold:
  assumes "write_replay readable args os rs" and "writable_trace rs"
  shows "replay_setup rand_r junk junk_int waddr rnd base slots readable args =
    bindR (bindR (case hashmap_create empty_heap of (h, m) \<Rightarrow>
        build_trace_containers base (trace_writes rs) (length (trace_writes rs)) (h, m, []))
      (assign_params_per_worker (opts_config os) rand_r junk junk_int waddr rnd base (trace_writes rs) (length (trace_writes rs))))
    (\<lambda>(hs, params). Inr (opts_config os, trace_writes rs, hs, params))"
proof -
  have "\<forall>(pname, info)\<in>set rs. printable pname info"
    using assms(2) by (auto simp: writable_trace_def)
  from parse_fiu_file [OF this, of REPLAY_WRITEONLY slots] show ?thesis
    using assms(1) by (simp add: replay_setup_def write_replay_def main_checks_def trace_writes_def Let_def split: prod.splits)
qed

lemma config_ok:
  assumes "write_replay readable args os rs"
  shows "paths_fit (opts_config os)" "0 < threads (opts_config os)" "cfg_mode (opts_config os) = REPLAY_WRITEONLY"
    "unat (max_continuous_4K_blks (opts_config os)) < 2 ^ 19"
  using assms by (auto simp: write_replay_def opts_config_def paths_fit_def split: option.splits)

lemma trace_aligned:
  assumes "writable_trace rs"
  shows "\<forall>i<length (trace_writes rs). aligned (trace_writes rs ! i)"
proof -
  have "aligned info" if "info \<in> set (trace_writes rs)" for info
    using that assms by (auto simp: trace_writes_def writable_trace_def aligned_def record_ok_def)
  then show ?thesis
    by simp
qed

subsection \<open>Properties\<close>


definition sample_args :: "(char \<times> string) list" where
  "sample_args = [(CHR ''f'', ''t''), (CHR ''d'', ''/mnt''), (CHR ''o'', ''w''), (CHR ''g'', ''lcg''), (CHR ''t'', ''1''), (CHR ''c'', ''256'')]"

definition sample_opts :: main_opts where
  "sample_opts = \<lparr>o_filepath = ''t'', o_dstpath = ''/mnt/'', o_mode = REPLAY_WRITEONLY, o_gener = RANDOM_LCG, o_format = REPLAY_FIU,
     o_dump_read = None, o_max_continuous = 256, o_threads = 1, o_verbose = False\<rparr>"

lemma sample_args_opts: "foldR main_option sample_args init_opts = Inr sample_opts"
  by (simp add: sample_args_def main_option_def init_opts_def sample_opts_def copy_arg_def copy_dir_def atoi_def scan_sign_def
      is_space_def is_digit_def digits_val_def digit_val_def int_range_def)


text \<open>
  C39: What the checks of \<^verbatim>\<open>main\<close> refuse and what they let through. Without a trace file or a
  destination, with a trace file that cannot be opened or with more than 512 threads, the
  program exits with 1. With no thread at all it divides by zero when it computes the share
  of each thread, and with a negative number it dereferences a null pointer.
\<close>

theorem replay_setup_errors:
  assumes "foldR main_option args init_opts = Inr os"
  shows "(o_filepath os = [] \<or> o_dstpath os = [] \<or> readable (o_filepath os) = None \<or> 512 < o_threads os \<longrightarrow>
      replay_setup rand_r junk junk_int waddr rnd base slots readable args = Inl (Exit 1)) \<and>
    (\<forall>src infos lines. main_checks readable os = Inr src \<and> parse_trace_info (o_format os) (o_mode os) slots src = Inr (infos, lines) \<longrightarrow>
      (o_threads os < 0 \<longrightarrow> replay_setup rand_r junk junk_int waddr rnd base slots readable args = Inl NullDeref) \<and>
      (o_threads os = 0 \<and> infos_fit base infos \<and> length infos \<le> 15 * 2 ^ 25 \<longrightarrow>
        replay_setup rand_r junk junk_int waddr rnd base slots readable args = Inl DivByZero))"
proof (intro conjI impI allI; (elim conjE)?)
  assume "o_filepath os = [] \<or> o_dstpath os = [] \<or> readable (o_filepath os) = None \<or> 512 < o_threads os"
  then have "main_checks readable os = Inl (Exit 1)"
    by (auto simp: main_checks_def guardR_def split: option.splits)
  then show "replay_setup rand_r junk junk_int waddr rnd base slots readable args = Inl (Exit 1)"
    by (simp add: replay_setup_def assms)
next
  fix src infos lines
  assume src: "main_checks readable os = Inr src" "parse_trace_info (o_format os) (o_mode os) slots src = Inr (infos, lines)"
  show "replay_setup rand_r junk junk_int waddr rnd base slots readable args = Inl NullDeref" if "o_threads os < 0"
    using src that by (simp add: replay_setup_def assms guardR_def)
  assume t: "o_threads os = 0" and fit: "infos_fit base infos" "length infos \<le> 15 * 2 ^ 25"
  obtain h m where hm: "hashmap_create empty_heap = (h, m)"
    by fastforce
  obtain st where "build_trace_containers base infos (length infos) (h, m, []) = Inr st"
    using build_ok [OF fit(1) le_refl fit(2)] hm by (auto elim!: okE)
  moreover have "assign_params_per_worker (opts_config os) rand_r junk junk_int waddr rnd base infos (length infos) st = Inl DivByZero"
    using t by (cases st) (simp add: assign_params_per_worker_def distribute_def opts_config_def guardR_def)
  ultimately show "replay_setup rand_r junk junk_int waddr rnd base slots readable args = Inl DivByZero"
    using src t hm by (simp add: replay_setup_def assms)
qed

theorem replay_setup_errors_witness:
  "replay_setup (\<lambda>s. (0, s)) mt_junk 0 (\<lambda>_. 64) (\<lambda>_. 7) 4096 (\<lambda>_. info_at 0 0) (\<lambda>_. None) sample_args = Inl (Exit 1)"
  using replay_setup_errors [OF sample_args_opts, of "\<lambda>_. None"] by simp

end
