(* ===== verification/Doubles.thy ===== *)
theory Doubles
  imports C_Prelude Complex_Main
begin

text \<open>
  The doubles of the C programs, as far as they are used: natural numbers divided by powers of
  two, with 53 significant bits. Results are rounded to the nearest double and to the one with
  an even last bit between two. Infinities, negative numbers and underflow do not occur.
\<close>

subsection \<open>Rounding\<close>

fun bit_len :: "nat \<Rightarrow> nat" where
  "bit_len n = (if n = 0 then 0 else Suc (bit_len (n div 2)))"

declare bit_len.simps [simp del]

definition double_of :: "nat \<Rightarrow> nat" where
  "double_of n = (let k = bit_len n - 53; q = n div 2 ^ k; r = n mod 2 ^ k in
     (if 2 * r > 2 ^ k \<or> (2 * r = 2 ^ k \<and> odd q) then q + 1 else q) * 2 ^ k)"

lemma bit_len_bound: "0 < n \<Longrightarrow> 2 ^ (bit_len n - 1) \<le> n"
proof (induction n rule: bit_len.induct)
  case (1 n)
  show ?case
  proof (cases "n div 2 = 0")
    case True
    then show ?thesis
      using "1.prems" by (simp add: bit_len.simps [of n] bit_len.simps [of 0])
  next
    case False
    then have "2 ^ (bit_len (n div 2) - 1) \<le> n div 2" and pos: "0 < bit_len (n div 2)"
      using 1 by (auto simp: bit_len.simps [of "n div 2"])
    then have "2 * 2 ^ (bit_len (n div 2) - 1) \<le> n"
      by simp
    moreover have "(2 :: nat) ^ bit_len (n div 2) = 2 * 2 ^ (bit_len (n div 2) - 1)"
      using pos by (simp add: power_eq_if)
    ultimately show ?thesis
      using "1.prems" by (simp add: bit_len.simps [of n])
  qed
qed

lemma bit_len_le: "n < 2 ^ k \<Longrightarrow> bit_len n \<le> k"
proof (induction k arbitrary: n)
  case (Suc k)
  then have "bit_len (n div 2) \<le> k"
    by simp
  then show ?case
    by (simp add: bit_len.simps [of n])
qed (simp add: bit_len.simps)

lemma double_of_exact: "n < 2 ^ 53 \<Longrightarrow> double_of n = n"
  using bit_len_le [of n 53] by (simp add: double_of_def Let_def)

lemma double_of_le_spacing: "double_of n \<le> n + 2 ^ (bit_len n - 53)"
proof -
  have "double_of n \<le> (n div 2 ^ (bit_len n - 53) + 1) * 2 ^ (bit_len n - 53)"
    by (simp add: double_of_def Let_def)
  also have "\<dots> \<le> n + 2 ^ (bit_len n - 53)"
    by (simp add: algebra_simps)
  finally show ?thesis .
qed

lemma double_of_le: "double_of n \<le> 2 * n"
proof (cases "bit_len n - 53 = 0")
  case True
  then show ?thesis
    by (simp add: double_of_def Let_def)
next
  case False
  then have "0 < n"
    by (cases "n = 0") (simp_all add: bit_len.simps [of 0])
  have "(2 :: nat) ^ (bit_len n - 53) \<le> 2 ^ (bit_len n - 1)"
    by (rule power_increasing) simp_all
  then show ?thesis
    using bit_len_bound [OF \<open>0 < n\<close>] double_of_le_spacing [of n] by linarith
qed

text \<open>A number below a power of two is not rounded beyond it.\<close>

lemma double_of_le_power:
  assumes "n < 2 ^ m"
  shows "double_of n \<le> 2 ^ m"
proof (cases "m \<le> 53")
  case True
  then have "n < 2 ^ 53"
    using assms by (meson less_le_trans one_le_numeral power_increasing)
  then show ?thesis
    using double_of_exact assms by simp
next
  case False
  define k where "k = bit_len n - 53"
  have "k \<le> m"
    using bit_len_le [OF assms] by (simp add: k_def)
  then have pow: "(2 :: nat) ^ m = 2 ^ (m - k) * 2 ^ k"
    by (simp flip: power_add)
  then have "n div 2 ^ k < 2 ^ (m - k)"
    using assms by (simp add: less_mult_imp_div_less)
  then have "(n div 2 ^ k + 1) * 2 ^ k \<le> 2 ^ m"
    unfolding pow by (intro mult_le_mono1) simp
  moreover have "double_of n \<le> (n div 2 ^ k + 1) * 2 ^ k"
    by (simp add: double_of_def Let_def k_def)
  ultimately show ?thesis
    by linarith
qed

text \<open>The rounding error is at most half of the distance between two doubles.\<close>

lemma double_of_error: "2 * \<bar>int (double_of n) - int n\<bar> \<le> 2 ^ (bit_len n - 53)"
proof -
  define k where "k = bit_len n - 53"
  define q r where "q = n div 2 ^ k" and "r = n mod 2 ^ k"
  have n: "int n = int q * 2 ^ k + int r" and r: "int r < 2 ^ k"
    unfolding q_def r_def using arg_cong [OF div_mult_mod_eq [of n "2 ^ k"], of int]
    by (metis of_nat_add of_nat_mult of_nat_numeral of_nat_power) (metis mod_less_divisor of_nat_less_iff of_nat_numeral of_nat_power zero_less_numeral zero_less_power)
  have d: "int (double_of n) = (if 2 * int r > 2 ^ k \<or> (2 * int r = 2 ^ k \<and> odd q) then int q + 1 else int q) * 2 ^ k"
  proof -
    have "2 * r > 2 ^ k \<longleftrightarrow> 2 * int r > 2 ^ k" "2 * r = 2 ^ k \<longleftrightarrow> 2 * int r = 2 ^ k"
      by (metis of_nat_less_iff of_nat_mult of_nat_numeral of_nat_power) (metis of_nat_eq_iff of_nat_mult of_nat_numeral of_nat_power)
    then show ?thesis
      by (simp add: double_of_def Let_def flip: k_def q_def r_def)
  qed
  show ?thesis
    unfolding d n using r by (auto simp: abs_if algebra_simps simp flip: k_def)
qed

subsection \<open>Arithmetic\<close>

text \<open>The double \<open>(m, e)\<close> is \<open>m / 2 ^ e\<close>.\<close>

type_synonym dbl = "nat \<times> nat"

definition val :: "dbl \<Rightarrow> rat" where
  "val = (\<lambda>(m, e). of_nat m / 2 ^ e)"

definition dbl_of_u64 :: "u64 \<Rightarrow> dbl" where
  "dbl_of_u64 w = (double_of (unat w), 0)"

definition dbl_mult :: "dbl \<Rightarrow> dbl \<Rightarrow> dbl" where
  "dbl_mult = (\<lambda>(m, e) (n, f). (double_of (m * n), e + f))"

definition dbl_add :: "dbl \<Rightarrow> dbl \<Rightarrow> dbl" where
  "dbl_add = (\<lambda>(m, e) (n, f). (double_of (m * 2 ^ f + n * 2 ^ e), e + f))"

lemma dbl_simps [simp]:
  "dbl_mult (m, e) (n, f) = (double_of (m * n), e + f)"
  "dbl_add (m, e) (n, f) = (double_of (m * 2 ^ f + n * 2 ^ e), e + f)"
  "val (m, e) = of_nat m / 2 ^ e"
  by (simp_all add: dbl_mult_def dbl_add_def val_def)

end
