(* ===== verification/Units.thy ===== *)
theory Units
  imports Doubles Parse_Correct
begin

text \<open>
  The filters \<^verbatim>\<open>get_sum\<close>, \<^verbatim>\<open>toG\<close>, \<^verbatim>\<open>to_nsec\<close> and \<^verbatim>\<open>to_MiB_s\<close>, from the text they read to the
  text they print. Numbers in the input are decimal fractions without sign and exponent,
  read to the nearest double.
\<close>

subsection \<open>Division and rounding\<close>

text \<open>
  The nearest double of a fraction: 55 bits or more of the quotient, and a last bit that tells
  whether there is a remainder, are rounded to 53 bits.
\<close>

definition dbl_ratio :: "nat \<Rightarrow> nat \<Rightarrow> dbl" where
  "dbl_ratio p q = (let k = bit_len q + 54; n = p * 2 ^ k div q; sticky = (if q dvd p * 2 ^ k then 0 else 1) in
     (double_of (2 * n + sticky), k + 1))"

definition dbl_div :: "dbl \<Rightarrow> dbl \<Rightarrow> dbl" where
  "dbl_div = (\<lambda>(m, e) (n, f). dbl_ratio (m * 2 ^ f) (n * 2 ^ e))"

text \<open>A fraction to the nearest integer, to the even one between two.\<close>

definition round_ratio :: "nat \<Rightarrow> nat \<Rightarrow> nat" where
  "round_ratio a d = (let q = a div d; r = a mod d in if 2 * r > d \<or> (2 * r = d \<and> odd q) then q + 1 else q)"

subsection \<open>Printing\<close>

definition padded :: "nat \<Rightarrow> nat \<Rightarrow> string" where
  "padded p n = replicate (p - length (decimal n)) (CHR ''0'') @ decimal n"

text \<open>The directive \<^verbatim>\<open>%.pf\<close>: \<open>p\<close> decimals of the exact value; \<^verbatim>\<open>%f\<close> prints six.\<close>

definition print_fixed :: "nat \<Rightarrow> dbl \<Rightarrow> string" where
  "print_fixed p = (\<lambda>(m, e). let q = round_ratio (m * 10 ^ p) (2 ^ e) in decimal (q div 10 ^ p) @ ''.'' @ padded p (q mod 10 ^ p))"

definition print_f :: "dbl \<Rightarrow> string" where
  "print_f = print_fixed 6"

text \<open>\<^verbatim>\<open>cout\<close>, that is \<^verbatim>\<open>%g\<close>: six significant digits, without the zeros at their end.\<close>

definition dec_exp :: "dbl \<Rightarrow> int" where
  "dec_exp = (\<lambda>(m, e). if 2 ^ e \<le> m then int (length (decimal (m div 2 ^ e))) - 1
     else - int (length (takeWhile (\<lambda>j. m * 10 ^ j < 2 ^ e) [0..<e + 1])))"

definition six_digits :: "dbl \<Rightarrow> nat \<times> int" where
  "six_digits = (\<lambda>(m, e). let x = dec_exp (m, e);
     s = (if x \<le> 5 then round_ratio (m * 10 ^ nat (5 - x)) (2 ^ e) else round_ratio m (2 ^ e * 10 ^ nat (x - 5))) in
     if s = 10 ^ 6 then (10 ^ 5, x + 1) else (s, x))"

definition strip_zeros :: "string \<Rightarrow> string" where
  "strip_zeros ds = rev (dropWhile (\<lambda>c. c = CHR ''0'') (rev ds))"

definition with_point :: "string \<Rightarrow> string \<Rightarrow> string" where
  "with_point ds fs = (if fs = [] then ds else ds @ ''.'' @ fs)"

definition print_g :: "dbl \<Rightarrow> string" where
  "print_g = (\<lambda>(m, e). if m = 0 then ''0'' else case six_digits (m, e) of (s, x) \<Rightarrow>
     let ds = decimal s in
     if x < -4 \<or> 6 \<le> x then with_point (take 1 ds) (strip_zeros (drop 1 ds)) @ ''e'' @ (if x < 0 then ''-'' else ''+'') @ padded 2 (nat \<bar>x\<bar>)
     else if x < 0 then with_point ''0'' (replicate (nat (- x) - 1) (CHR ''0'') @ strip_zeros ds)
     else with_point (take (nat x + 1) ds) (strip_zeros (drop (nat x + 1) ds)))"

subsection \<open>Reading\<close>

definition scan_double :: "string \<Rightarrow> (dbl \<times> string) option" where
  "scan_double s = (let s1 = dropWhile is_space s; ds = takeWhile is_digit s1; r = dropWhile is_digit s1;
     point = (r \<noteq> [] \<and> hd r = CHR ''.''); fs = (if point then takeWhile is_digit (tl r) else []) in
     if ds @ fs = [] then None
     else Some (dbl_ratio (digits_val (ds @ fs)) (10 ^ length fs), if point then dropWhile is_digit (tl r) else r))"

text \<open>
  \<^verbatim>\<open>scanf\<close> with \<^verbatim>\<open>%lf\<close>, and with \<^verbatim>\<open>%lf%c\<close>: the result, the rest of the input and the variables. Where
  no number begins the input stays where it is, after white space and a point.
\<close>

definition no_number :: "string \<Rightarrow> string" where
  "no_number s = (let s1 = dropWhile is_space s in if hd s1 = CHR ''.'' then tl s1 else s1)"

definition scanf_lf :: "string \<Rightarrow> dbl option \<Rightarrow> int \<times> string \<times> dbl option" where
  "scanf_lf s x = (if dropWhile is_space s = [] then (- 1, [], x)
     else case scan_double s of None \<Rightarrow> (0, no_number s, x) | Some (v, s') \<Rightarrow> (1, s', Some v))"

definition scanf_lf_c :: "string \<Rightarrow> dbl option \<Rightarrow> char option \<Rightarrow> int \<times> string \<times> dbl option \<times> char option" where
  "scanf_lf_c s x m = (if dropWhile is_space s = [] then (- 1, [], x, m)
     else case scan_double s of None \<Rightarrow> (0, no_number s, x, m)
     | Some (v, []) \<Rightarrow> (1, [], Some v, m)
     | Some (v, c # s') \<Rightarrow> (2, s', Some v, Some c))"

subsection \<open>The programs\<close>

text \<open>
  \<^verbatim>\<open>get_sum\<close> and \<^verbatim>\<open>toG\<close> go on as long as \<^verbatim>\<open>~scanf(...)\<close> is not 0, that is until the end of the input:
  also when a number or a unit was not read, with what the variables hold from before.
\<close>

partial_function (option) get_sum_loop :: "string \<Rightarrow> dbl option \<Rightarrow> dbl \<Rightarrow> dbl res option" where
  [code]: "get_sum_loop s x ans = (case scanf_lf s x of (n, s', x') \<Rightarrow>
     if n = - 1 then Some (Inr ans)
     else (case x' of None \<Rightarrow> Some (Inl Uninitialised) | Some v \<Rightarrow> get_sum_loop s' x' (dbl_add ans v)))"

definition get_sum :: "string \<Rightarrow> string res option" where
  "get_sum input = map_option (\<lambda>r. bindR r (\<lambda>ans. Inr (print_f ans))) (get_sum_loop input None (0, 0))"

partial_function (option) toG_loop :: "string \<Rightarrow> dbl option \<Rightarrow> char option \<Rightarrow> string \<Rightarrow> (int \<times> string) res option" where
  [code]: "toG_loop s x m out = (case scanf_lf_c s x m of (n, s', x', m') \<Rightarrow>
     if n = - 1 then Some (Inr (0, out))
     else (case x' of None \<Rightarrow> Some (Inl Uninitialised) | Some v \<Rightarrow>
       (case m' of None \<Rightarrow> Some (Inl Uninitialised) | Some c \<Rightarrow>
         if c \<notin> {CHR ''K'', CHR ''M'', CHR ''G''} then Some (Inr (1, out @ ''Unrecognized unit '' @ [c] @ ''!'' @ [newline]))
         else let v' = (if c = CHR ''K'' then dbl_div v (1000000, 0) else if c = CHR ''M'' then dbl_div v (1000, 0) else v) in
           toG_loop s' (Some v') m' (out @ print_f v' @ [newline]))))"

definition toG :: "string \<Rightarrow> (int \<times> string) res option" where
  "toG input = toG_loop input None None []"

text \<open>The number and the unit that \<^verbatim>\<open>cin\<close> reads; after a failure the unit stays empty.\<close>

definition cin_unit :: "string \<Rightarrow> dbl \<times> string" where
  "cin_unit s = (case scan_double s of None \<Rightarrow> ((0, 0), [])
     | Some (x, s') \<Rightarrow> (x, takeWhile (\<lambda>c. \<not> is_space c) (dropWhile is_space s')))"

text \<open>The exit status, the output and the message.\<close>

definition to_nsec :: "string \<Rightarrow> int \<times> string \<times> string" where
  "to_nsec input = (case cin_unit input of (x, unit) \<Rightarrow>
     if unit = ''(nsec)'' then (0, print_g x, [])
     else if unit = ''(usec)'' then (0, print_g (dbl_mult x (1000, 0)), [])
     else if unit = ''(msec)'' then (0, print_g (dbl_mult x (1000000, 0)), [])
     else (1, [], ''Unrecognized unit '' @ unit @ [newline]))"

definition to_MiB_s :: "string \<Rightarrow> int \<times> string \<times> string" where
  "to_MiB_s input = (case cin_unit input of (x, unit) \<Rightarrow>
     if unit = ''MiB/s'' then (0, print_g x, [])
     else if unit = ''GiB/s'' then (0, print_g (dbl_mult x (1024, 0)), [])
     else (1, [], ''Unrecognized unit '' @ unit @ [newline]))"

subsection \<open>The rounding error\<close>

lemma bit_len_upper: "n < 2 ^ bit_len n"
proof (induction n rule: bit_len.induct)
  case (1 n)
  then show ?case
    by (cases "n = 0") (auto simp: bit_len.simps [of n])
qed

lemma double_of_shifted:
  assumes "n < 2 ^ 53"
  shows "double_of (n * 2 ^ j) = n * 2 ^ j"
proof -
  define k where "k = bit_len (n * 2 ^ j) - 53"
  have "n * 2 ^ j < 2 ^ (53 + j)"
    using assms by (simp add: power_add)
  then have "k \<le> j"
    using bit_len_le by (fastforce simp: k_def)
  then have dvd: "2 ^ k dvd n * 2 ^ j"
    by (simp add: le_imp_power_dvd)
  then have "n * 2 ^ j mod 2 ^ k = 0"
    by simp
  then show ?thesis
    using dvd by (simp add: double_of_def Let_def flip: k_def)
qed

lemma double_of_relative:
  assumes "2 ^ 53 \<le> n"
  shows "\<bar>int (double_of n) - int n\<bar> * 2 ^ 53 \<le> int n"
proof -
  have "0 < n"
    using assms by (cases "n = 0") simp_all
  have "53 \<le> bit_len n"
  proof (rule ccontr)
    assume "\<not> 53 \<le> bit_len n"
    then have "(2 :: nat) ^ bit_len n \<le> 2 ^ 53"
      by (intro power_increasing) simp_all
    then show False
      using assms bit_len_upper [of n] by linarith
  qed
  then have b: "bit_len n - 1 = (bit_len n - 53) + 52"
    by simp
  have "(2 :: nat) ^ (bit_len n - 53) * 2 ^ 52 \<le> n"
    using bit_len_bound [OF \<open>0 < n\<close>] unfolding b power_add .
  then have "int (2 ^ (bit_len n - 53) * 2 ^ 52) \<le> int n"
    by (rule iffD2 [OF of_nat_le_iff])
  then show ?thesis
    using double_of_error [of n] by simp
qed

lemma sum_scaled:
  fixes a b c d K x :: int
  assumes "a \<le> b + c" and "b * K \<le> x" and "c \<le> d" and "0 \<le> K"
  shows "a * K \<le> x + d * K"
proof -
  have "a * K \<le> (b + d) * K"
    using assms by (intro mult_right_mono) simp_all
  then show ?thesis
    using assms(2) by (simp add: algebra_simps)
qed

lemma bound_halved:
  fixes a q t x :: int
  assumes "a * 2 ^ 53 \<le> x + q * 2 ^ 53" and "x \<le> t + q" and "q * 2 ^ 55 \<le> t" and "0 \<le> t"
  shows "a * 2 ^ 52 \<le> t"
  using assms by simp

lemma dbl_ratio_error:
  assumes "dbl_ratio p q = (m, e)" and "0 < q"
  shows "\<bar>int m * int q - int p * 2 ^ e\<bar> * 2 ^ 52 \<le> int p * 2 ^ e"
proof (cases "p = 0")
  case True
  then show ?thesis
    using assms double_of_exact [of 0] by (auto simp: dbl_ratio_def Let_def)
next
  case False
  define k where "k = bit_len q + 54"
  define n where "n = p * 2 ^ k div q"
  define N where "N = 2 * n + (if q dvd p * 2 ^ k then 0 else 1)"
  have me: "m = double_of N" "e = k + 1"
    using assms(1) by (simp_all add: dbl_ratio_def Let_def k_def n_def N_def)
  have "q * 2 ^ 54 \<le> 2 ^ bit_len q * 2 ^ 54"
    using bit_len_upper [of q] by (intro mult_le_mono1) simp
  also have "\<dots> \<le> p * 2 ^ k"
    using False by (simp add: k_def power_add)
  finally have q: "q * 2 ^ 54 \<le> p * 2 ^ k" .
  then have "2 ^ 54 \<le> n"
    using assms(2) by (simp add: n_def less_eq_div_iff_mult_less_eq mult.commute)
  then have "2 ^ 53 \<le> N"
    by (simp add: N_def)
  then have D: "\<bar>int m - int N\<bar> * 2 ^ 53 \<le> int N"
    using double_of_relative by (simp add: me)
  have N: "\<bar>int N * int q - int p * 2 ^ e\<bar> \<le> int q"
  proof (cases "q dvd p * 2 ^ k")
    case True
    then have "n * q = p * 2 ^ k"
      by (simp add: n_def)
    then have "N * q = p * 2 ^ e"
      using True by (simp add: N_def me algebra_simps)
    then have "int N * int q = int p * 2 ^ e"
      by (metis of_nat_mult of_nat_numeral of_nat_power)
    then show ?thesis
      by simp
  next
    case no_dvd: False
    have "n * q \<le> p * 2 ^ k" "p * 2 ^ k < (n + 1) * q"
      using assms(2) by (simp_all add: n_def dividend_less_div_times)
    then have "int (n * q) \<le> int (p * 2 ^ k)" "int (p * 2 ^ k) < int ((n + 1) * q)"
      by (simp_all only: of_nat_le_iff of_nat_less_iff)
    then have "int n * int q \<le> int p * 2 ^ k" "int p * 2 ^ k < (int n + 1) * int q"
      by (simp_all only: of_nat_mult of_nat_power of_nat_numeral of_nat_add of_nat_1)
    then show ?thesis
      using no_dvd by (simp add: N_def me algebra_simps)
  qed
  have "int (q * 2 ^ 54) \<le> int (p * 2 ^ k)"
    using q by (simp only: of_nat_le_iff)
  then have q': "int q * 2 ^ 54 \<le> int p * 2 ^ k"
    by (simp only: of_nat_mult of_nat_power of_nat_numeral)
  have "\<bar>int m * int q - int p * 2 ^ e\<bar> \<le> \<bar>int m * int q - int N * int q\<bar> + \<bar>int N * int q - int p * 2 ^ e\<bar>"
    by linarith
  moreover have "\<bar>int m * int q - int N * int q\<bar> = \<bar>int m - int N\<bar> * int q"
    by (simp add: abs_mult flip: left_diff_distrib)
  moreover have "(\<bar>int m - int N\<bar> * int q) * 2 ^ 53 \<le> int N * int q"
    using mult_right_mono [OF D, of "int q"] by (simp only: ac_simps)
  ultimately have "\<bar>int m * int q - int p * 2 ^ e\<bar> * 2 ^ 53 \<le> int N * int q + int q * 2 ^ 53"
    using sum_scaled [where c = "\<bar>int N * int q - int p * 2 ^ e\<bar>" and d = "int q" and K = "2 ^ 53" and a = "\<bar>int m * int q - int p * 2 ^ e\<bar>"] N by simp
  moreover have "int N * int q \<le> int p * 2 ^ e + int q"
    using N by linarith
  moreover have "int q * 2 ^ 55 \<le> int p * 2 ^ e"
    using q' by (simp add: me)
  ultimately show ?thesis
    by (rule bound_halved) simp
qed

lemma round_ratio_nearest:
  assumes "2 * \<bar>int a - int n * int d\<bar> < int d"
  shows "round_ratio a d = n"
proof -
  define q r where "q = a div d" and "r = a mod d"
  have d: "0 < d"
    using assms by (cases "d = 0") simp_all
  have a: "int a = int q * int d + int r" and r: "int r < int d"
    using d by (simp_all add: q_def r_def flip: of_nat_mult of_nat_add)
  have less: "2 * r \<noteq> d" "if 2 * r > d then n = q + 1 else n = q"
  proof -
    have e: "2 * \<bar>(int q - int n) * int d + int r\<bar> < int d"
      using assms by (simp add: a algebra_simps)
    have "int q - int n < 1" 
    proof (rule ccontr)
      assume "\<not> int q - int n < 1"
      then have "1 * int d \<le> (int q - int n) * int d"
        by (intro mult_right_mono) simp_all
      then show False
        using e by simp
    qed
    moreover have "- 2 < int q - int n"
    proof (rule ccontr)
      assume "\<not> - 2 < int q - int n"
      then have "(int q - int n) * int d \<le> - 2 * int d"
        by (intro mult_right_mono) simp_all
      then show False
        using e r by simp
    qed
    ultimately consider "int q = int n" | "int q = int n - 1"
      by linarith
    then have "2 * r \<noteq> d \<and> (if 2 * r > d then n = q + 1 else n = q)"
      using e r by cases auto
    then show "2 * r \<noteq> d" "if 2 * r > d then n = q + 1 else n = q"
      by simp_all
  qed
  then show ?thesis
    by (auto simp: round_ratio_def Let_def q_def [symmetric] r_def [symmetric] split: if_splits)
qed

subsection \<open>Numbers in the input\<close>

lemma scan_double_decimal:
  assumes "rest = [] \<or> \<not> is_digit (hd rest) \<and> hd rest \<noteq> CHR ''.''"
  shows "scan_double (decimal n @ rest) = Some (dbl_ratio n 1, rest)"
proof -
  have "rest = [] \<or> \<not> is_digit (hd rest)"
    using assms by blast
  note tw = takeWhile_digits [OF decimal_digits this, of n]
  show ?thesis
    using assms unfolding scan_double_def skip_decimal by (auto simp: tw Let_def)
qed

lemma dbl_ratio_1: "n < 2 ^ 53 \<Longrightarrow> dbl_ratio n 1 = (n * 2 ^ 56, 56)"
proof -
  assume "n < 2 ^ 53"
  have "bit_len 1 = 1"
    by code_simp
  then show ?thesis
    using double_of_shifted [OF \<open>n < 2 ^ 53\<close>, of 56] by (simp add: dbl_ratio_def Let_def mult.commute)
qed

lemma print_f_close:
  assumes "2 * \<bar>int m * 10 ^ 6 - int n * 2 ^ e\<bar> < 2 ^ e"
  shows "print_f (m, e) = decimal (n div 10 ^ 6) @ ''.'' @ padded 6 (n mod 10 ^ 6)"
proof -
  have "round_ratio (m * 10 ^ 6) (2 ^ e) = n"
    by (rule round_ratio_nearest) (use assms in simp)
  then show ?thesis
    by (simp add: print_f_def print_fixed_def Let_def)
qed

lemma print_f_natural: "print_f (n * 2 ^ j, j) = decimal n @ ''.000000''"
proof -
  have "print_f (n * 2 ^ j, j) = decimal (n * 10 ^ 6 div 10 ^ 6) @ ''.'' @ padded 6 (n * 10 ^ 6 mod 10 ^ 6)"
    by (rule print_f_close) simp
  also have "n * 10 ^ 6 mod 10 ^ 6 = (0 :: nat)"
    by simp
  also have "padded 6 0 = ''000000''"
    by code_simp
  finally show ?thesis
    by simp
qed

subsection \<open>Units\<close>

text \<open>How many of a unit make a G, and the quotient in units of \<open>10\<^sup>-\<^sup>6\<close> G.\<close>

fun per_G :: "char \<Rightarrow> nat" where
  "per_G u = (if u = CHR ''K'' then 1000000 else if u = CHR ''M'' then 1000 else 1)"

definition in_G :: "nat \<times> char \<Rightarrow> string" where
  "in_G = (\<lambda>(n, u). decimal (n div per_G u) @ ''.'' @ padded 6 (n mod per_G u * (10 ^ 6 div per_G u)))"

lemma print_quotient:
  assumes "n < 2 ^ 31" and "per * c = 10 ^ 6"
  shows "print_f (dbl_div (n * 2 ^ 56, 56) (per, 0)) = decimal (n div per) @ ''.'' @ padded 6 (n mod per * c)"
proof -
  obtain m e where me: "dbl_ratio (n * 2 ^ 56) (per * 2 ^ 56) = (m, e)"
    by fastforce
  have pos: "0 < per" "0 < c"
    using assms(2) by (cases per; simp; cases c; simp)+
  have "\<bar>int m * int (per * 2 ^ 56) - int (n * 2 ^ 56) * 2 ^ e\<bar> * 2 ^ 52 \<le> int (n * 2 ^ 56) * 2 ^ e"
    by (rule dbl_ratio_error [OF me]) (use pos in simp)
  then have "\<bar>2 ^ 56 * (int m * int per - int n * 2 ^ e)\<bar> * 2 ^ 52 \<le> 2 ^ 56 * (int n * 2 ^ e)"
    by (simp add: algebra_simps)
  then have err: "\<bar>int m * int per - int n * 2 ^ e\<bar> * 2 ^ 52 \<le> int n * 2 ^ e"
    unfolding abs_mult by simp
  have "int m * 10 ^ 6 - int (n * c) * 2 ^ e = (int m * int per - int n * 2 ^ e) * int c"
    using arg_cong [OF assms(2), of int] by (simp add: algebra_simps)
  then have "\<bar>int m * 10 ^ 6 - int (n * c) * 2 ^ e\<bar> * 2 ^ 52 = (\<bar>int m * int per - int n * 2 ^ e\<bar> * 2 ^ 52) * int c"
    by (simp add: abs_mult)
  also have "\<dots> \<le> (int n * 2 ^ e) * int c"
    using err by (intro mult_right_mono) simp_all
  also have "\<dots> = int (n * c) * 2 ^ e"
    by simp
  also have "\<dots> < 2 ^ 51 * 2 ^ e"
  proof -
    have "c \<le> 10 ^ 6"
      using assms(2) pos by (metis dvd_imp_le dvd_triv_right zero_less_numeral zero_less_power)
    then have "n * c < 2 ^ 31 * 2 ^ 20"
      using assms(1) pos by (intro mult_less_le_imp_less) simp_all
    then have "int (n * c) < int (2 ^ 51)"
      by (simp only: of_nat_less_iff) simp
    then have "int (n * c) < 2 ^ 51"
      by (simp only: of_nat_power of_nat_numeral)
    then show ?thesis
      by (rule mult_strict_right_mono) simp
  qed
  finally have close: "2 * \<bar>int m * 10 ^ 6 - int (n * c) * 2 ^ e\<bar> < 2 ^ e"
    by simp
  have "n * c div (per * c) = n div per" "n * c mod (per * c) = n mod per * c"
    using pos by (simp_all add: mod_mult_mult2)
  then have "n * c div 10 ^ 6 = n div per" "n * c mod 10 ^ 6 = n mod per * c"
    unfolding assms(2) .
  moreover have "dbl_div (n * 2 ^ 56, 56) (per, 0) = (m, e)"
    using me by (simp add: dbl_div_def)
  ultimately show ?thesis
    using print_f_close [OF close] by (simp only:)
qed

definition unit_lines :: "(nat \<times> char) list \<Rightarrow> string" where
  "unit_lines xs = concat (map (\<lambda>(n, u). decimal n @ [u, newline]) xs)"

lemma skip_newline: "dropWhile is_space (newline # s) = dropWhile is_space s"
  by (simp add: is_space_def)

lemma scan_double_newline: "scan_double (newline # s) = scan_double s"
  unfolding scan_double_def skip_newline ..

lemma scanf_lf_c_line:
  assumes "u \<in> {CHR ''K'', CHR ''M'', CHR ''G''}" and "n < 2 ^ 53"
  shows "scanf_lf_c (decimal n @ u # s) x m = (2, s, Some (n * 2 ^ 56, 56), Some u)"
    "scanf_lf_c (newline # decimal n @ u # s) x m = (2, s, Some (n * 2 ^ 56, 56), Some u)"
proof -
  have "u \<noteq> CHR ''.''" "\<not> is_digit u"
    using assms(1) by (auto simp: is_digit_def)
  then have "scan_double (decimal n @ u # s) = Some ((n * 2 ^ 56, 56), u # s)"
    using scan_double_decimal [of "u # s" n] unfolding dbl_ratio_1 [OF assms(2)] by simp
  then show "scanf_lf_c (decimal n @ u # s) x m = (2, s, Some (n * 2 ^ 56, 56), Some u)"
    "scanf_lf_c (newline # decimal n @ u # s) x m = (2, s, Some (n * 2 ^ 56, 56), Some u)"
    unfolding scanf_lf_c_def scan_double_newline skip_newline skip_decimal by simp_all
qed

lemma toG_line:
  assumes "u \<in> {CHR ''K'', CHR ''M'', CHR ''G''}" and "n < 2 ^ 31" and "w = [] \<or> w = [newline]"
  shows "\<exists>v. toG_loop (w @ decimal n @ u # s) x m out = toG_loop s (Some v) (Some u) (out @ in_G (n, u) @ [newline])"
proof -
  let ?v = "if u = CHR ''K'' then dbl_div (n * 2 ^ 56, 56) (1000000, 0)
    else if u = CHR ''M'' then dbl_div (n * 2 ^ 56, 56) (1000, 0) else (n * 2 ^ 56, 56)"
  have "padded 6 0 = ''000000''"
    by code_simp
  then have print: "print_f ?v = in_G (n, u)"
    using print_quotient [OF assms(2), of 1000000 1] print_quotient [OF assms(2), of 1000 1000] print_f_natural [of n 56] assms(1)
    by (auto simp: in_G_def)
  have "scanf_lf_c (w @ decimal n @ u # s) x m = (2, s, Some (n * 2 ^ 56, 56), Some u)"
    using assms(2,3) scanf_lf_c_line [OF assms(1), of n] by auto
  then have "toG_loop (w @ decimal n @ u # s) x m out = toG_loop s (Some ?v) (Some u) (out @ print_f ?v @ [newline])"
    using assms(1) by (auto simp: toG_loop.simps [of "w @ _"] Let_def)
  then show ?thesis
    unfolding print ..
qed

lemma toG_loop_lines:
  assumes "\<forall>(n, u)\<in>set xs. n < 2 ^ 31 \<and> u \<in> {CHR ''K'', CHR ''M'', CHR ''G''}"
  shows "toG_loop (newline # unit_lines xs) x m out = Some (Inr (0, out @ concat (map (\<lambda>l. in_G l @ [newline]) xs)))"
  using assms
proof (induction xs arbitrary: x m out)
  case Nil
  then show ?case
    by (simp add: unit_lines_def toG_loop.simps scanf_lf_c_def is_space_def)
next
  case (Cons l xs)
  obtain n u where l: "l = (n, u)"
    by fastforce
  have u: "u \<in> {CHR ''K'', CHR ''M'', CHR ''G''}" "n < 2 ^ 31"
    using Cons.prems l by auto
  obtain v where "toG_loop ([newline] @ decimal n @ u # newline # unit_lines xs) x m out =
      toG_loop (newline # unit_lines xs) (Some v) (Some u) (out @ in_G (n, u) @ [newline])"
    using toG_line [OF u, of "[newline]" "newline # unit_lines xs" x m out] by auto
  then show ?case
    using Cons.IH Cons.prems by (simp add: unit_lines_def l)
qed

text \<open>
  C26: \<^verbatim>\<open>toG\<close> converts without an error: for lines of whole numbers below \<open>2\<^sup>3\<^sup>1\<close> with one of its units it
  ends with 0 and prints exactly the number of G, all six decimals of it, although it computes with
  doubles that neither the quotients nor their decimals are exact in.
\<close>

theorem toG_exact:
  assumes "\<forall>(n, u)\<in>set xs. n < 2 ^ 31 \<and> u \<in> {CHR ''K'', CHR ''M'', CHR ''G''}"
  shows "toG (unit_lines xs) = Some (Inr (0, concat (map (\<lambda>l. in_G l @ [newline]) xs)))"
proof (cases xs)
  case Nil
  then show ?thesis
    by (simp add: toG_def unit_lines_def toG_loop.simps scanf_lf_c_def)
next
  case (Cons l ls)
  obtain n u where l: "l = (n, u)"
    by fastforce
  have u: "u \<in> {CHR ''K'', CHR ''M'', CHR ''G''}" "n < 2 ^ 31"
    using assms Cons l by auto
  show ?thesis
    using toG_line [OF u, of "[]" "newline # unit_lines ls" None None "[]"] toG_loop_lines [of ls] assms
    by (auto simp: Cons l toG_def unit_lines_def)
qed

lemma some_digits:
  "digit_char 0 = CHR ''0''" "digit_char 1 = CHR ''1''" "digit_char 2 = CHR ''2''" "digit_char 3 = CHR ''3''" "digit_char 5 = CHR ''5''"
  by code_simp+

lemma some_decimals:
  "decimal 0 = ''0''" "decimal 1500 = ''1500''" "decimal 23 = ''23''" "decimal 23000 = ''23000''"
  using some_digits
  by (simp_all add: decimal.simps [of 0] decimal.simps [of "Suc 0"] decimal.simps [of 15] decimal.simps [of 150] decimal.simps [of 1500]
    decimal.simps [of 2] decimal.simps [of 23] decimal.simps [of 230] decimal.simps [of 2300] decimal.simps [of 23000])

lemma two_zeros: "replicate 2 c = [c, c]"
  by (simp add: numeral_2_eq_2)

theorem toG_exact_witness:
  "toG ''1500K\<newline>23M\<newline>'' = Some (Inr (0, ''0.001500\<newline>0.023000\<newline>''))"
proof -
  let ?xs = "[(1500, CHR ''K''), (23, CHR ''M'')]"
  have e: "unit_lines ?xs = ''1500K\<newline>23M\<newline>''" "concat (map (\<lambda>l. in_G l @ [newline]) ?xs) = ''0.001500\<newline>0.023000\<newline>''"
    by (simp_all add: unit_lines_def in_G_def padded_def some_digits some_decimals two_zeros)
  have "toG (unit_lines ?xs) = Some (Inr (0, concat (map (\<lambda>l. in_G l @ [newline]) ?xs)))"
    by (rule toG_exact) simp
  then show ?thesis
    unfolding e .
qed

subsection \<open>Sums\<close>

definition number_lines :: "nat list \<Rightarrow> string" where
  "number_lines ns = concat (map (\<lambda>n. newline # decimal n) ns)"

lemma get_sum_loop_lines:
  assumes "sum_list ns + a < 2 ^ 53"
  shows "\<exists>j. get_sum_loop (number_lines ns) x (a * 2 ^ i, i) = Some (Inr ((sum_list ns + a) * 2 ^ j, j))"
  using assms
proof (induction ns arbitrary: x a i)
  case Nil
  then show ?case
    by (simp add: number_lines_def get_sum_loop.simps scanf_lf_def)
next
  case (Cons n ns)
  let ?rest = "number_lines ns"
  have rest: "?rest = [] \<or> \<not> is_digit (hd ?rest) \<and> hd ?rest \<noteq> CHR ''.''"
    by (cases ns) (simp_all add: number_lines_def is_digit_def)
  have lines: "number_lines (n # ns) = newline # decimal n @ ?rest"
    by (simp add: number_lines_def)
  have n: "n < 2 ^ 53" "a + n < 2 ^ 53"
    using Cons.prems by simp_all
  have "scanf_lf (number_lines (n # ns)) x = (1, ?rest, Some (n * 2 ^ 56, 56))"
    unfolding lines scanf_lf_def scan_double_newline skip_newline skip_decimal scan_double_decimal [OF rest] dbl_ratio_1 [OF n(1)] by simp
  moreover have "dbl_add (a * 2 ^ i, i) (n * 2 ^ 56, 56) = ((a + n) * 2 ^ (i + 56), i + 56)"
    using double_of_shifted [OF n(2), of "i + 56"] unfolding dbl_simps by (simp only: power_add) (simp only: algebra_simps)
  ultimately have "get_sum_loop (number_lines (n # ns)) x (a * 2 ^ i, i) =
      get_sum_loop ?rest (Some (n * 2 ^ 56, 56)) ((a + n) * 2 ^ (i + 56), i + 56)"
    by (simp add: get_sum_loop.simps [of "number_lines (n # ns)"])
  then show ?case
    using Cons.IH [of "a + n" "Some (n * 2 ^ 56, 56)" "i + 56"] Cons.prems by (simp add: ac_simps)
qed

text \<open>For whole numbers with a sum below \<open>2\<^sup>5\<^sup>3\<close> the sum is exact, in whatever order they come.\<close>

theorem get_sum_exact:
  assumes "sum_list ns < 2 ^ 53"
  shows "get_sum (number_lines ns) = Some (Inr (decimal (sum_list ns) @ ''.000000''))"
proof -
  have "sum_list ns + 0 < 2 ^ 53"
    using assms by simp
  from get_sum_loop_lines [OF this, of None 0] obtain j
    where "get_sum_loop (number_lines ns) None (0, 0) = Some (Inr (sum_list ns * 2 ^ j, j))"
    by auto
  then show ?thesis
    using print_f_natural by (simp add: get_sum_def)
qed

text \<open>
  A word where a number should be is not read and not noticed: before the first number the
  variable is not initialised, after one the loop adds it up for ever.
\<close>

definition no_number_start :: "char \<Rightarrow> bool" where
  "no_number_start c \<longleftrightarrow> \<not> is_space c \<and> \<not> is_digit c \<and> c \<noteq> CHR ''.''"

lemma scanf_lf_stuck: "no_number_start c \<Longrightarrow> scanf_lf (c # s) x = (0, c # s, x)"
  by (auto simp: no_number_start_def scanf_lf_def scan_double_def no_number_def Let_def)

lemma get_sum_loop_stuck:
  assumes "get_sum_loop s x ans = Some r"
  shows "s = c # s' \<longrightarrow> no_number_start c \<longrightarrow> x = None"
proof (rule get_sum_loop.raw_induct [where xa = "((s, x), ans)" and y = r, unfolded prod.case, OF _ assms])
  fix f :: "string \<Rightarrow> dbl option \<Rightarrow> dbl \<Rightarrow> dbl res option" and s x ans r
  assume IH: "\<And>s x ans r. f s x ans = Some r \<Longrightarrow> s = c # s' \<longrightarrow> no_number_start c \<longrightarrow> x = None"
    and body: "(case scanf_lf s x of (n, s', x') \<Rightarrow> if n = - 1 then Some (Inr ans)
      else (case x' of None \<Rightarrow> Some (Inl Uninitialised) | Some v \<Rightarrow> f s' x' (dbl_add ans v))) = Some r"
  show "s = c # s' \<longrightarrow> no_number_start c \<longrightarrow> x = None"
  proof (intro impI, rule ccontr)
    assume s: "s = c # s'" "no_number_start c" and "x \<noteq> None"
    then obtain v where v: "x = Some v"
      by blast
    then have "f (c # s') (Some v) (dbl_add ans v) = Some r"
      using body s by (simp add: scanf_lf_stuck)
    then show False
      using IH s(2) by blast
  qed
qed

theorem get_sum_word:
  assumes "no_number_start c"
  shows "get_sum (c # s) = Some (Inl Uninitialised)" "get_sum_loop (c # s) (Some v) ans = None"
  using get_sum_loop_stuck [of "c # s" "Some v" ans _ c s] assms
  by (auto simp: get_sum_def get_sum_loop.simps [of "c # s" None] scanf_lf_stuck) (metis not_Some_eq)

subsection \<open>Six significant digits\<close>

lemma decimal_shift: "0 < n \<Longrightarrow> decimal (n * 10 ^ k) = decimal n @ replicate k (CHR ''0'')"
proof (induction k)
  case (Suc k)
  then have "\<not> n * 10 ^ Suc k < 10"
    by simp
  then have "decimal (n * 10 ^ Suc k) = decimal (n * 10 ^ k) @ [digit_char 0]"
    by (subst decimal.simps) simp
  then show ?case
    using Suc some_digits(1) by (simp add: replicate_append_same)
qed simp

lemma decimal_bound: "n < 10 ^ length (decimal n)"
proof (induction n rule: decimal.induct)
  case (1 n)
  then show ?case
    by (cases "n < 10") (auto simp: decimal.simps [of n])
qed

lemma decimal_lower: "0 < n \<Longrightarrow> 10 ^ (length (decimal n) - 1) \<le> n"
proof (induction n rule: decimal.induct)
  case (1 n)
  show ?case
  proof (cases "n < 10")
    case False
    then have "10 ^ (length (decimal (n div 10)) - 1) \<le> n div 10"
      using 1 by simp
    moreover have "0 < length (decimal (n div 10))"
      by simp
    ultimately have "10 ^ length (decimal (n div 10)) \<le> n div 10 * 10"
      by (cases "length (decimal (n div 10))") simp_all
    then show ?thesis
      using False by (simp add: decimal.simps [of n])
  qed (use 1 in \<open>simp add: decimal.simps [of n]\<close>)
qed

lemma dec_exp_natural: "0 < n \<Longrightarrow> dec_exp (n * 2 ^ j, j) = int (length (decimal n)) - 1"
  by (simp add: dec_exp_def)

text \<open>A number of at most six digits is printed as it is.\<close>

lemma print_g_natural:
  assumes "n < 10 ^ 6"
  shows "print_g (n * 2 ^ j, j) = decimal n"
proof (cases "n = 0")
  case True
  then show ?thesis
    using some_decimals(1) by (simp add: print_g_def)
next
  case False
  define l where "l = length (decimal n)"
  have "10 ^ (l - 1) < (10 :: nat) ^ 6"
    using decimal_lower [of n] False assms by (simp add: l_def)
  then have l: "0 < l" "l \<le> 6"
    using power_less_imp_less_exp [of "10 :: nat" "l - 1" 6] by (simp_all add: l_def)
  have x: "dec_exp (n * 2 ^ j, j) = int l - 1"
    using dec_exp_natural False by (simp add: l_def)
  have round: "round_ratio (n * 2 ^ j * 10 ^ (6 - l)) (2 ^ j) = n * 10 ^ (6 - l)"
    by (rule round_ratio_nearest) simp
  have "n * 10 ^ (6 - l) < 10 ^ l * 10 ^ (6 - l)"
    using decimal_bound [of n] by (simp add: l_def)
  also have "\<dots> = 10 ^ 6"
    using l by (simp flip: power_add)
  finally have "n * 10 ^ (6 - l) \<noteq> 10 ^ 6"
    by simp
  moreover have "nat (5 - (int l - 1)) = 6 - l" "int l - 1 \<le> 5"
    using l by simp_all
  ultimately have six: "six_digits (n * 2 ^ j, j) = (n * 10 ^ (6 - l), int l - 1)"
    unfolding six_digits_def by (simp only: prod.case x Let_def round if_True if_False)
  have "nat (int l - 1) + 1 = l" "\<not> (int l - 1 < - 4 \<or> 6 \<le> int l - 1)" "\<not> int l - 1 < 0"
    using l by simp_all
  moreover have "strip_zeros (replicate (6 - l) (CHR ''0'')) = []"
    by (simp add: strip_zeros_def)
  ultimately show ?thesis
    using False decimal_shift [of n "6 - l"] six by (simp add: print_g_def Let_def with_point_def l_def [symmetric])
qed

text \<open>The times that \<^verbatim>\<open>to_nsec\<close> prints exactly, and two times with the same output.\<close>

theorem to_nsec_exact:
  assumes "(unit, f) \<in> {(''(nsec)'', 1), (''(usec)'', 1000), (''(msec)'', 1000000)}" and "n * f < 10 ^ 6"
  shows "to_nsec (decimal n @ CHR '' '' # unit) = (0, decimal (n * f), [])"
proof -
  have f: "0 < f"
    using assms(1) by auto
  then have "n \<le> n * f"
    by (cases f) simp_all
  from this assms(2) have "n < 10 ^ 6"
    by (rule le_less_trans)
  then have n: "n < 2 ^ 53"
    by simp
  have "\<not> is_digit (CHR '' '')"
    by (simp add: is_digit_def)
  then have "scan_double (decimal n @ CHR '' '' # unit) = Some ((n * 2 ^ 56, 56), CHR '' '' # unit)"
    using scan_double_decimal [of "CHR '' '' # unit" n] unfolding dbl_ratio_1 [OF n] by simp
  then have "cin_unit (decimal n @ CHR '' '' # unit) = ((n * 2 ^ 56, 56), unit)"
    using assms(1) by (auto simp: cin_unit_def is_space_def)
  moreover have "dbl_mult (n * 2 ^ 56, 56) (f, 0) = (n * f * 2 ^ 56, 56)"
  proof -
    have "n * f < 2 ^ 53"
      using assms(2) by simp
    from double_of_shifted [OF this, of 56] show ?thesis
      unfolding dbl_simps by (simp only: ac_simps add_0 add_0_right)
  qed
  ultimately show ?thesis
    using assms(1) print_g_natural [OF assms(2), of 56] by (auto simp: to_nsec_def)
qed

text \<open>Of seven digits the last one is lost.\<close>

lemma length_decimal:
  assumes "10 ^ k \<le> n" and "n < 10 ^ Suc k"
  shows "length (decimal n) = Suc k"
proof (rule antisym)
  have "0 < n"
    using assms(1) by (cases "n = 0") simp_all
  have "(10 :: nat) ^ k < 10 ^ length (decimal n)"
    using assms(1) decimal_bound [of n] by (rule le_less_trans)
  then show "Suc k \<le> length (decimal n)"
    using power_less_imp_less_exp [of "10 :: nat" k] by simp
  have "(10 :: nat) ^ (length (decimal n) - 1) < 10 ^ Suc k"
    using decimal_lower [OF \<open>0 < n\<close>] assms(2) by (rule le_less_trans)
  then show "length (decimal n) \<le> Suc k"
    using power_less_imp_less_exp [of "10 :: nat" _ "Suc k"] by fastforce
qed

lemma print_g_seven:
  assumes "1234565 < n" and "n < 1234575"
  shows "print_g (n * 2 ^ j, j) = ''1.23457e+06''"
proof -
  have "length (decimal n) = Suc 6"
    using assms by (intro length_decimal) simp_all
  then have x: "dec_exp (n * 2 ^ j, j) = 6"
    using assms dec_exp_natural [of n j] by simp
  have "int (n * 2 ^ j) - int 123457 * int (2 ^ j * 10) = (int n - 1234570) * 2 ^ j"
    by (simp add: algebra_simps)
  moreover have "\<bar>int n - 1234570\<bar> * 2 < 10"
    using assms by (simp add: abs_if)
  then have "(\<bar>int n - 1234570\<bar> * 2) * 2 ^ j < 10 * 2 ^ j"
    by (rule mult_strict_right_mono) simp
  ultimately have "round_ratio (n * 2 ^ j) (2 ^ j * 10) = 123457"
    by (intro round_ratio_nearest) (simp add: abs_mult)
  then have six: "six_digits (n * 2 ^ j, j) = (123457, 6)"
    by (simp add: six_digits_def x)
  have "digit_char 4 = CHR ''4''" "digit_char 7 = CHR ''7''" "digit_char 6 = CHR ''6''"
    by code_simp+
  then have "decimal 123457 = ''123457''" "decimal 6 = ''6''"
    using some_digits by (simp_all add: decimal.simps [of 123457] decimal.simps [of 12345] decimal.simps [of 1234] decimal.simps [of 123]
      decimal.simps [of 12] decimal.simps [of "Suc 0"] decimal.simps [of 6])
  then show ?thesis
    using assms(1) by (simp add: print_g_def six strip_zeros_def with_point_def padded_def)
qed

theorem to_nsec_loses_digits:
  assumes "1234565 < n" and "n < 1234575"
  shows "to_nsec (decimal n @ '' (nsec)'') = (0, ''1.23457e+06'', [])"
proof -
  have "dbl_ratio n 1 = (n * 2 ^ 56, 56)"
    by (rule dbl_ratio_1) (use assms in simp)
  moreover have "\<not> is_digit (CHR '' '')"
    by (simp add: is_digit_def)
  ultimately have "scan_double (decimal n @ '' (nsec)'') = Some ((n * 2 ^ 56, 56), '' (nsec)'')"
    using scan_double_decimal [of "'' (nsec)''" n] by simp
  then have "cin_unit (decimal n @ '' (nsec)'') = ((n * 2 ^ 56, 56), ''(nsec)'')"
    by (simp add: cin_unit_def is_space_def)
  then show ?thesis
    using print_g_seven [OF assms, of 56] by (simp add: to_nsec_def)
qed

end
