(* ===== verification/Replay_End.thy ===== *)
theory Replay_End
  imports Replay_Main Units
begin

text \<open>
  The end of \<^verbatim>\<open>main\<close> of \<^verbatim>\<open>replay.c\<close>: everything that was allocated is freed, and the report. The
  blocks of memory are named by what they hold; which of them are allocated is a set.
\<close>

subsection \<open>Blocks of memory\<close>

datatype block =
    Trace_file | Infos | Params | Hints | Tids | Map_struct | Map_buckets
  | Tc nat | Tc_map nat | Buf nat | Gener nat | Gener_ctx nat

definition free_block :: "block \<Rightarrow> block set \<Rightarrow> block set res" where
  "free_block b alive = (if b \<in> alive then Inr (alive - {b}) else Inl UseAfterFree)"

text \<open>The pointers of \<^verbatim>\<open>replay_param_t\<close>, null or not.\<close>

record worker_ptrs =
  has_tc :: bool
  has_buf :: bool
  has_gener :: bool
  has_ctx :: bool

subsection \<open>What is allocated\<close>

text \<open>The containers of all workers are created first, then the buffers and generators one worker after the other.\<close>

definition alloc_containers :: "nat \<Rightarrow> block set \<Rightarrow> block set" where
  "alloc_containers n alive = fold (\<lambda>i l. insert (Tc_map i) (insert (Tc i) l)) [0..<n] alive"

definition alloc_gener :: "rand_type \<Rightarrow> nat \<Rightarrow> block set \<Rightarrow> block set" where
  "alloc_gener g i alive = (let live1 = insert (Gener i) alive in
     case g of RANDOM_NULL \<Rightarrow> live1 | _ \<Rightarrow> insert (Gener_ctx i) live1)"

definition alloc_workers :: "nat \<Rightarrow> rand_type \<Rightarrow> block set \<Rightarrow> block set" where
  "alloc_workers n g alive = fold (\<lambda>i l. alloc_gener g i (insert (Buf i) l)) [0..<n] (alloc_containers n alive)"

definition worker_ptrs_of :: "rand_type \<Rightarrow> worker_ptrs" where
  "worker_ptrs_of g = \<lparr>has_tc = True, has_buf = True, has_gener = True, has_ctx = (g \<noteq> RANDOM_NULL)\<rparr>"

definition main_allocs :: "nat \<Rightarrow> rand_type \<Rightarrow> block set" where
  "main_allocs n g = insert Tids (alloc_workers n g {Trace_file, Infos, Map_struct, Map_buckets, Params, Hints})"

subsection \<open>Freeing\<close>

definition free_worker :: "(nat \<Rightarrow> worker_ptrs) \<Rightarrow> nat \<Rightarrow> block set \<Rightarrow> block set res" where
  "free_worker params i alive =
     bindR (guardR (Params \<in> alive) UseAfterFree) (\<lambda>_.
     bindR (if has_gener (params i) then
        bindR (if has_ctx (params i) then free_block (Gener_ctx i) alive else Inr alive) (free_block (Gener i))
      else Inr alive) (\<lambda>l1.
     bindR (if has_buf (params i) then free_block (Buf i) l1 else Inr l1) (\<lambda>l2.
     if has_tc (params i) then bindR (free_block (Tc_map i) l2) (free_block (Tc i)) else Inr l2)))"

definition main_free :: "nat \<Rightarrow> (nat \<Rightarrow> worker_ptrs) \<Rightarrow> block set \<Rightarrow> block set res" where
  "main_free n params alive =
     bindR (free_block Tids alive) (\<lambda>l1.
     bindR (free_block Infos l1) (\<lambda>l2.
     bindR (free_block Hints l2) (\<lambda>l3.
     bindR (foldR (free_worker params) [0..<n] l3) (\<lambda>l4.
     bindR (free_block Map_buckets l4) (\<lambda>l5.
     bindR (free_block Map_struct l5) (\<lambda>l6.
     bindR (free_block Params l6) (free_block Trace_file)))))))"

subsection \<open>The report\<close>

abbreviation (input) BLK_SIZE :: u64 where "BLK_SIZE \<equiv> 4096"

definition size_in_MiB :: "u64 \<Rightarrow> nat" where
  "size_in_MiB valid_lines = unat (valid_lines * BLK_SIZE div 1024 div 1024)"

text \<open>A bandwidth over no time at all is an infinity, or not a number.\<close>

definition bandwidth :: "nat \<Rightarrow> u64 \<Rightarrow> string" where
  "bandwidth mib time_usage =
     (if time_usage = 0 then (if mib = 0 then ''-nan'' else ''inf'')
      else print_fixed 2 (dbl_div (double_of mib, 0)
        (dbl_div (dbl_div (dbl_div (dbl_of_u64 time_usage) (1000, 0)) (1000, 0)) (1000, 0))))"

definition main_report :: "u64 \<Rightarrow> u64 \<Rightarrow> string" where
  "main_report valid_lines time_usage =
     ''Replay time: '' @ print_fixed 2 (dbl_div (dbl_div (dbl_of_u64 time_usage) (1000, 0)) (1000, 0)) @ '' ms, Size: '' @
     decimal (size_in_MiB valid_lines) @ '' MiB, Bandwidth: '' @ bandwidth (size_in_MiB valid_lines) time_usage @ '' MiB/s'' @ [newline]"

subsection \<open>Properties\<close>

definition worker_blocks :: "rand_type \<Rightarrow> nat \<Rightarrow> block set" where
  "worker_blocks g i = {Tc i, Tc_map i, Buf i, Gener i} \<union> (if g = RANDOM_NULL then {} else {Gener_ctx i})"

lemma alloc_workers_blocks: "alloc_workers n g alive = alive \<union> (\<Union>i<n. worker_blocks g i)"
proof -
  have tc: "alloc_containers n l = l \<union> (\<Union>i<n. {Tc i, Tc_map i})" for l
    unfolding alloc_containers_def by (induction n) (auto simp: lessThan_Suc)
  have rest: "fold (\<lambda>i l. alloc_gener g i (insert (Buf i) l)) [0..<n] l =
      l \<union> (\<Union>i<n. {Buf i, Gener i} \<union> (if g = RANDOM_NULL then {} else {Gener_ctx i}))" for l
    by (induction n) (auto simp: lessThan_Suc alloc_gener_def Let_def split: rand_type.splits)
  show ?thesis
    by (auto simp: alloc_workers_def tc rest worker_blocks_def)
qed

lemma free_worker_ok:
  assumes "Params \<in> alive" and "worker_blocks g i \<subseteq> alive"
  shows "free_worker (\<lambda>_. worker_ptrs_of g) i alive = Inr (alive - worker_blocks g i)"
  using assms by (cases "g = RANDOM_NULL") (auto simp: free_worker_def worker_ptrs_of_def free_block_def worker_blocks_def guardR_def)

lemma free_workers_ok:
  assumes "Params \<in> alive" and "(\<Union>i<n. worker_blocks g i) \<subseteq> alive"
  shows "foldR (free_worker (\<lambda>_. worker_ptrs_of g)) [0..<n] alive = Inr (alive - (\<Union>i<n. worker_blocks g i))"
  using assms
proof (induction n)
  case (Suc n)
  let ?l = "alive - (\<Union>i<n. worker_blocks g i)"
  have "worker_blocks g n \<subseteq> ?l" "Params \<in> ?l"
    using Suc.prems by (auto simp: worker_blocks_def split: if_splits)
  then have "free_worker (\<lambda>_. worker_ptrs_of g) n ?l = Inr (?l - worker_blocks g n)"
    by (intro free_worker_ok)
  moreover have "?l - worker_blocks g n = alive - (\<Union>i<Suc n. worker_blocks g i)"
    by (auto simp: lessThan_Suc)
  ultimately show ?case
    using Suc by (simp add: foldR_append lessThan_Suc)
qed simp

text \<open>Everything is freed exactly once, whatever the number of threads and the generator.\<close>

theorem main_frees_all: "main_free n (\<lambda>_. worker_ptrs_of g) (main_allocs n g) = Inr {}"
proof -
  let ?w = "\<Union>i<n. worker_blocks g i"
  have no: "b \<notin> ?w" if "b \<in> {Trace_file, Infos, Params, Hints, Tids, Map_struct, Map_buckets}" for b
    using that by (auto simp: worker_blocks_def split: if_splits)
  let ?l = "{Trace_file, Map_struct, Map_buckets, Params} \<union> ?w"
  have "main_allocs n g - {Tids} - {Infos} - {Hints} = ?l"
    using no by (auto simp: main_allocs_def alloc_workers_blocks)
  moreover have "?l - ?w = {Trace_file, Map_struct, Map_buckets, Params}"
    using no by auto
  moreover have "foldR (free_worker (\<lambda>_. worker_ptrs_of g)) [0..<n] ?l = Inr (?l - ?w)"
    by (rule free_workers_ok) auto
  moreover have "{Tids, Infos, Hints} \<subseteq> main_allocs n g"
    by (auto simp: main_allocs_def alloc_workers_blocks)
  ultimately show ?thesis
    by (auto simp: main_free_def free_block_def)
qed

text \<open>The size in the report, rounded down, and the bandwidth of a short trace.\<close>

theorem size_reported:
  assumes "n < 2 ^ 52"
  shows "size_in_MiB (of_nat n) = n div 256"
proof -
  have "of_nat n * 4096 = (of_nat (n * 4096) :: u64)"
    by simp
  moreover have "unat (of_nat (n * 4096) :: u64) = n * 4096"
    using assms take_bit_nat_eq_self [of "n * 4096" 64] by (simp add: unsigned_of_nat del: of_nat_mult)
  ultimately have "unat (of_nat n * 4096 :: u64) = n * 4096"
    by (simp only:)
  then have "size_in_MiB (of_nat n) = n * 4096 div 1024 div 1024"
    unfolding size_in_MiB_def unat_div_distrib by simp
  then show ?thesis
    by (simp add: div_mult2_eq [symmetric])
qed

theorem short_trace_no_bandwidth:
  assumes "n < 256" and "time \<noteq> 0"
  shows "bandwidth (size_in_MiB (of_nat n)) time = ''0.00''"
proof -
  have "size_in_MiB (of_nat n) = 0"
    using size_reported [of n] assms(1) by simp
  moreover have "dbl_div (double_of 0, 0) d = (0, snd (dbl_div (double_of 0, 0) d))" for d
    using double_of_exact [of 0] by (cases d) (simp add: dbl_div_def dbl_ratio_def Let_def)
  moreover have "print_fixed 2 (0, e) = ''0.00''" for e
    using some_decimals(1) two_zeros by (simp add: print_fixed_def round_ratio_def padded_def)
  ultimately show ?thesis
    using assms(2) by (simp add: bandwidth_def) metis
qed

end
