(* ===== verification/Mt_Reals.thy ===== *)
theory Mt_Reals
  imports Doubles Mt19937ar
begin

text \<open>
  The floating-point outputs of \<^verbatim>\<open>mt19937ar.c\<close>, rounded as doubles are, and the intervals that the
  comments of the code give for them.
\<close>

text \<open>The constant \<^verbatim>\<open>1.0/4294967295.0\<close>; it is the multiple of \<open>1 / 2 ^ 84\<close> that is nearest to the quotient.\<close>

definition inv_max :: dbl where "inv_max = (2 ^ 32 + 1, 64)"

lemma inv_max_nearest: "\<bar>val inv_max - 1 / 4294967295\<bar> \<le> \<bar>of_nat m / 2 ^ 84 - 1 / 4294967295\<bar>"
proof (cases "m \<le> 4503599628419072")
  case True
  then have "(of_nat m :: rat) \<le> of_nat 4503599628419072"
    by (rule of_nat_mono)
  then show ?thesis
    by (simp add: inv_max_def abs_if field_simps)
next
  case False
  then have "4503599628419073 \<le> m"
    by simp
  then have "of_nat 4503599628419073 \<le> (of_nat m :: rat)"
    by (rule of_nat_mono)
  then show ?thesis
    by (simp add: inv_max_def abs_if field_simps)
qed

definition genrand_real1 :: "mt19937ar_state \<Rightarrow> dbl \<times> mt19937ar_state" where
  "genrand_real1 st = (case genrand_int32 st of (y, st') \<Rightarrow> (dbl_mult (dbl_of_u64 y) inv_max, st'))"

definition genrand_real2 :: "mt19937ar_state \<Rightarrow> dbl \<times> mt19937ar_state" where
  "genrand_real2 st = (case genrand_int32 st of (y, st') \<Rightarrow> (dbl_mult (dbl_of_u64 y) (1, 32), st'))"

definition genrand_real3 :: "mt19937ar_state \<Rightarrow> dbl \<times> mt19937ar_state" where
  "genrand_real3 st = (case genrand_int32 st of (y, st') \<Rightarrow> (dbl_mult (dbl_add (dbl_of_u64 y) (1, 1)) (1, 32), st'))"

definition genrand_res53 :: "mt19937ar_state \<Rightarrow> dbl \<times> mt19937ar_state" where
  "genrand_res53 st = (case genrand_int32 st of (y, st') \<Rightarrow> case genrand_int32 st' of (z, st'') \<Rightarrow>
     let a = drop_bit 5 y; b = drop_bit 6 z in
     (dbl_mult (dbl_add (dbl_mult (dbl_of_u64 a) (67108864, 0)) (dbl_of_u64 b)) (1, 53), st''))"

lemma word32_unat: "word32 y \<longleftrightarrow> unat y < 4294967296"
  by (simp add: word32_def word_less_nat_alt)

lemma dbl_of_word32: "word32 y \<Longrightarrow> dbl_of_u64 y = (unat y, 0)"
  by (simp add: dbl_of_u64_def word32_unat double_of_exact)

lemma genrand_int32_word32:
  assumes "mt_ok st"
  obtains y st' where "genrand_int32 st = (y, st')" "word32 y" "mt_ok st'"
  using mt_ok_genrand [OF assms] by (cases "genrand_int32_r st") (auto simp: genrand_int32_eq_r)

text \<open>The rounded product of \<^verbatim>\<open>genrand_real1\<close> is 1 for the largest output only.\<close>

lemma real1_bounds:
  assumes "n < 4294967296"
  shows "double_of (n * (2 ^ 32 + 1)) \<le> 2 ^ 64" "double_of (n * (2 ^ 32 + 1)) = 2 ^ 64 \<longleftrightarrow> n = 2 ^ 32 - 1"
proof -
  have "n * (2 ^ 32 + 1) \<le> (2 ^ 32 - 1) * (2 ^ 32 + 1)"
    using assms by (intro mult_le_mono1) simp
  then have less: "n * (2 ^ 32 + 1) < 2 ^ 64"
    by simp
  then show "double_of (n * (2 ^ 32 + 1)) \<le> 2 ^ 64"
    by (rule double_of_le_power)
  show "double_of (n * (2 ^ 32 + 1)) = 2 ^ 64 \<longleftrightarrow> n = 2 ^ 32 - 1"
  proof (cases "n = 2 ^ 32 - 1")
    case True
    have "double_of ((2 ^ 32 - 1) * (2 ^ 32 + 1)) = 2 ^ 64"
      by (simp add: double_of_def bit_len.simps)
    then show ?thesis
      using True by simp
  next
    case False
    then have "n \<le> 2 ^ 32 - 2"
      using assms by simp
    then have "n * (2 ^ 32 + 1) \<le> (2 ^ 32 - 2) * (2 ^ 32 + 1)"
      by (rule mult_le_mono1)
    moreover have "(2 :: nat) ^ (bit_len (n * (2 ^ 32 + 1)) - 53) \<le> 2 ^ 11"
      using bit_len_le [OF less] by (intro power_increasing) simp_all
    ultimately show ?thesis
      using double_of_le_spacing [of "n * (2 ^ 32 + 1)"] False by simp
  qed
qed

text \<open>
  C29: The floating-point outputs are in the intervals that the code gives for them, with the rounding
  of doubles: \<^verbatim>\<open>genrand_real1\<close> in [0,1], where 1 is reached by the largest 32-bit output alone;
  \<^verbatim>\<open>genrand_real2\<close> in [0,1) and \<^verbatim>\<open>genrand_real3\<close> in (0,1), both exact. They draw one number each and
  keep the state well formed.
\<close>

theorem genrand_reals_bounds:
  assumes "mt_ok st"
  shows "case genrand_int32 st of (y, st') \<Rightarrow> mt_ok st' \<and>
    (\<exists>d. genrand_real1 st = (d, st') \<and> 0 \<le> val d \<and> val d \<le> 1 \<and> (val d = 1 \<longleftrightarrow> y = 0xffffffff)) \<and>
    (\<exists>d. genrand_real2 st = (d, st') \<and> 0 \<le> val d \<and> val d < 1 \<and> val d = of_nat (unat y) / 2 ^ 32) \<and>
    (\<exists>d. genrand_real3 st = (d, st') \<and> 0 < val d \<and> val d < 1 \<and> val d = (of_nat (unat y) + 1 / 2) / 2 ^ 32)"
proof -
  obtain y st' where g: "genrand_int32 st = (y, st')" "word32 y" "mt_ok st'"
    by (rule genrand_int32_word32 [OF assms])
  define n where "n = unat y"
  have n: "n < 4294967296"
    using g(2) by (simp add: word32_unat n_def)
  note d = dbl_of_word32 [OF g(2), folded n_def]
  have max: "y = 0xffffffff \<longleftrightarrow> n = 2 ^ 32 - 1"
    by (simp add: word_unat_eq_iff n_def)
  have r1: "genrand_real1 st = ((double_of (n * (2 ^ 32 + 1)), 64), st')"
    by (simp add: genrand_real1_def g d inv_max_def)
  have r2: "genrand_real2 st = ((n, 32), st')"
    using n by (simp add: genrand_real2_def g d double_of_exact)
  have r3: "genrand_real3 st = ((n * 2 + 1, 33), st')"
    using n by (simp add: genrand_real3_def g d double_of_exact)
  have "(of_nat (double_of (n * (2 ^ 32 + 1))) :: rat) \<le> of_nat (2 ^ 64)"
    using real1_bounds(1) [OF n] by (rule of_nat_mono)
  moreover have "(of_nat (double_of (n * (2 ^ 32 + 1))) :: rat) = of_nat (2 ^ 64) \<longleftrightarrow> n = 2 ^ 32 - 1"
    unfolding of_nat_eq_iff by (rule real1_bounds(2) [OF n])
  moreover have "(of_nat n :: rat) \<le> of_nat 4294967295"
    using n by (intro of_nat_mono) simp
  moreover have "0 \<le> (of_nat n :: rat)"
    by (rule of_nat_0_le_iff)
  ultimately show ?thesis
    unfolding g(1) prod.case r1 r2 r3 max n_def [symmetric] using g(3) by (simp add: field_simps)
qed

lemma static_ok: "mt_ok mt_static_init"
  by (simp add: mt_static_init_def mt_ok_def word32_def)

theorem genrand_reals_bounds_witness:
  "\<exists>d st'. genrand_real1 mt_static_init = (d, st') \<and> 0 \<le> val d \<and> val d \<le> 1 \<and> mt_ok st'"
  using genrand_reals_bounds [OF static_ok] by (auto split: prod.splits)

text \<open>
  \<^verbatim>\<open>genrand_res53\<close> has a resolution of 53 bits and no rounding takes place: from two successive
  outputs it takes the upper 27 and 26 bits, and its value is the number of these 53 bits divided by
  \<open>2 ^ 53\<close>, below 1.
\<close>

theorem genrand_res53_exact:
  assumes "mt_ok st" and "genrand_int32 st = (y, st')" and "genrand_int32 st' = (z, st'')"
  shows "\<exists>d. genrand_res53 st = (d, st'') \<and> mt_ok st'' \<and> val d = of_nat (unat y div 32 * 2 ^ 26 + unat z div 64) / 2 ^ 53 \<and>
    unat y div 32 < 2 ^ 27 \<and> unat z div 64 < 2 ^ 26 \<and> 0 \<le> val d \<and> val d < 1"
proof -
  have y: "word32 y" "mt_ok st'" and z: "word32 z" "mt_ok st''"
    using mt_ok_genrand [OF assms(1)] mt_ok_genrand [of st' z st''] assms(2,3) by (auto simp: genrand_int32_eq_r)
  define a b where "a = unat y div 32" and "b = unat z div 64"
  have ab: "a < 2 ^ 27" "b < 2 ^ 26"
    using y(1) z(1) by (auto simp: word32_unat a_def b_def)
  have un: "unat (drop_bit 5 y) = a" "unat (drop_bit 6 z) = b"
    unfolding unat_drop_bit_eq by (simp_all add: drop_bit_eq_div a_def b_def)
  have small: "a * 67108864 + b < 2 ^ 53"
    using ab by simp
  then have "genrand_res53 st = ((a * 67108864 + b, 53), st'')"
    using ab by (simp add: genrand_res53_def assms(2,3) Let_def dbl_of_u64_def un double_of_exact)
  moreover have "(of_nat (a * 67108864 + b) :: rat) < of_nat (2 ^ 53)"
    using small by (rule of_nat_less_iff [THEN iffD2])
  ultimately show ?thesis
    using ab z(2) by (intro exI [of _ "(a * 67108864 + b, 53)"]) (simp add: field_simps flip: a_def b_def)
qed

theorem genrand_res53_exact_witness:
  "\<exists>d st''. genrand_res53 mt_static_init = (d, st'') \<and> 0 \<le> val d \<and> val d < 1 \<and> mt_ok st''"
proof -
  obtain y st' z st'' where "genrand_int32 mt_static_init = (y, st')" "genrand_int32 st' = (z, st'')"
    by fastforce
  then show ?thesis
    using genrand_res53_exact [OF static_ok] by blast
qed

end
