(* ===== verification/Page_Writer.thy ===== *)
theory Page_Writer
  imports Posix_File Trace_Build
begin

text \<open>
  Files of numbered pages, as \<^verbatim>\<open>aging_system.c\<close> and \<^verbatim>\<open>write_1G.c\<close> write them: every page of 4096
  bytes is filled with one 64-bit number, and the numbers count up, so that no two pages have
  the same contents and a deduplicating file system finds nothing to share.
\<close>

subsection \<open>Filling pages\<close>

abbreviation (input) PAGE_SIZE :: nat where "PAGE_SIZE \<equiv> 4096"

text \<open>\<^verbatim>\<open>fill_page\<close> on the page at \<open>off\<close> of a buffer: 512 stores of 8 bytes.\<close>

definition fill_page :: "u8 list \<Rightarrow> nat \<Rightarrow> u64 \<Rightarrow> u8 list res" where
  "fill_page buf off v = foldR (\<lambda>j buf. write_bytes buf (off + j) (le_bytes64 v)) (count_by 8 PAGE_SIZE) buf"

text \<open>The loop over the pages of a buffer; the number of the next page is returned too.\<close>

definition fill_pages :: "nat \<Rightarrow> u8 list \<times> u64 \<Rightarrow> (u8 list \<times> u64) res" where
  "fill_pages block_size = foldR (\<lambda>j (buf, v). bindR (fill_page buf j v) (\<lambda>buf'. Inr (buf', v + 1))) (count_by PAGE_SIZE block_size)"

subsection \<open>Writing blocks\<close>

text \<open>\<^verbatim>\<open>write\<close> at the position of the file descriptor.\<close>

definition sys_write :: "nat option \<Rightarrow> os_file \<Rightarrow> nat \<Rightarrow> u8 list \<Rightarrow> int \<times> os_file" where
  "sys_write r f pos d = (case r of None \<Rightarrow> (- 1, f)
     | Some k \<Rightarrow> (int (min k (length d)), file_write f pos (take (min k (length d)) d)))"

text \<open>
  The loop that writes \<open>num\<close> blocks. The result of \<^verbatim>\<open>write\<close> is cut down to \<^verbatim>\<open>int\<close>; a negative one
  ends the program with \<^verbatim>\<open>exit(1)\<close>, one that is not the size of the block with a return of 1.
\<close>

record page_writer =
  pw_file :: os_file
  pw_pos :: nat
  pw_buf :: "u8 list"
  pw_next :: u64

definition write_step :: "(nat \<Rightarrow> nat option) \<Rightarrow> nat \<Rightarrow> nat \<Rightarrow> page_writer \<Rightarrow> page_writer res" where
  "write_step io block_size i st =
     bindR (fill_pages block_size (pw_buf st, pw_next st)) (\<lambda>(buf, v).
     case sys_write (io i) (pw_file st) (pw_pos st) (take block_size buf) of (n, f) \<Rightarrow>
     let ret = sint (of_int n :: i32) in
     bindR (guardR (0 \<le> ret) (Exit 1)) (\<lambda>_.
     bindR (guardR ((of_int ret :: u64) = of_nat block_size) (Exit 1)) (\<lambda>_.
     Inr \<lparr>pw_file = f, pw_pos = pw_pos st + nat n, pw_buf = buf, pw_next = v\<rparr>)))"

definition write_blocks :: "(nat \<Rightarrow> nat option) \<Rightarrow> nat \<Rightarrow> nat \<Rightarrow> page_writer \<Rightarrow> page_writer res" where
  "write_blocks io block_size num = foldR (write_step io block_size) [0..<num]"

subsection \<open>Correctness\<close>

definition page_data :: "u64 \<Rightarrow> u8 list" where
  "page_data v = concat (replicate 512 (le_bytes64 v))"

lemma length_page_data [simp]: "length (page_data v) = 4096"
  by (simp add: page_data_def length_concat_const sum_list_replicate length_concat)

text \<open>\<open>n\<close> pages with the numbers from \<open>v\<close> on.\<close>

definition pages_data :: "u64 \<Rightarrow> nat \<Rightarrow> u8 list" where
  "pages_data v n = concat (map (\<lambda>k. page_data (v + of_nat k)) [0..<n])"

lemma length_pages_data [simp]: "length (pages_data v n) = n * 4096"
  using length_concat_const [of "[0..<n]" "\<lambda>k. page_data (v + of_nat k)" 4096] by (simp add: pages_data_def)

lemma pages_data_add: "pages_data v (m + n) = pages_data v m @ pages_data (v + of_nat m) n"
proof -
  have "[0..<m + n] = [0..<m] @ map (\<lambda>k. k + m) [0..<n]"
    using map_add_upt [of m n] upt_add_eq_append [of 0 m n] by (simp add: add.commute)
  then show ?thesis
    by (simp add: pages_data_def comp_def ac_simps)
qed

lemma fill_page_ok:
  assumes "off + 4096 \<le> length buf"
  shows "fill_page buf off v = Inr (put_bytes buf off (page_data v))"
proof -
  have "ok (foldR (\<lambda>i (buf, s). bindR (write_bytes buf (off + i * 8) (le_bytes64 v)) (\<lambda>buf'. Inr (buf', s))) [0..<512] (buf, ()))
      (\<lambda>(buf', s'). buf' = put_bytes buf off (concat (map (\<lambda>_. le_bytes64 v) [0..<512])) \<and> True)"
  proof (rule write_pieces [where k = 8 and I = "\<lambda>_ _. True"])
    fix i :: nat and buf :: "u8 list" and s
    assume i: "i < 512" "off + 512 * 8 \<le> length buf"
    then have "i * 8 + 8 \<le> 512 * 8"
      by simp
    then show "ok (case (buf, s) of (buf, s) \<Rightarrow> bindR (write_bytes buf (off + i * 8) (le_bytes64 v)) (\<lambda>buf'. Inr (buf', s)))
        (\<lambda>(buf', s'). buf' = put_bytes buf (off + i * 8) (le_bytes64 v) \<and> True)"
      using i by simp
  qed (use assms in auto)
  moreover have "foldR (\<lambda>i (buf, s). bindR (write_bytes buf (off + i * 8) (le_bytes64 v)) (\<lambda>buf'. Inr (buf', s))) xs (buf, ()) =
      bindR (foldR (\<lambda>i buf. write_bytes buf (off + i * 8) (le_bytes64 v)) xs buf) (\<lambda>buf'. Inr (buf', ()))" for xs
  proof (induction xs arbitrary: buf)
    case (Cons x xs)
    then show ?case
      by (cases "write_bytes buf (off + x * 8) (le_bytes64 v)") simp_all
  qed simp
  moreover have "count_by 8 4096 = map (\<lambda>k. k * 8) [0..<512]"
    using count_by_mult [of 8 512] by simp
  ultimately show ?thesis
    by (auto simp: fill_page_def foldR_map ok_def bindR_eq_Inr page_data_def map_replicate_const)
qed

lemma fill_pages_ok:
  assumes "n * 4096 \<le> length buf"
  shows "fill_pages (n * 4096) (buf, v) = Inr (put_bytes buf 0 (pages_data v n), v + of_nat n)"
proof -
  have "ok (foldR (\<lambda>i (buf, v). bindR (fill_page buf (i * 4096) v) (\<lambda>buf'. Inr (buf', v + 1))) [0..<n] (buf, v))
      (\<lambda>(buf', v'). buf' = put_bytes buf 0 (concat (map (\<lambda>k. page_data (v + of_nat k)) [0..<n])) \<and> v' = v + of_nat n)"
  proof (rule write_pieces [where k = 4096 and I = "\<lambda>i v'. v' = v + of_nat i"])
    fix i :: nat and buf :: "u8 list" and v'
    assume i: "i < n" "v' = v + of_nat i" "0 + n * 4096 \<le> length buf"
    have "i * 4096 + 4096 \<le> n * 4096"
      using i(1) by simp
    then show "ok (case (buf, v') of (buf, v) \<Rightarrow> bindR (fill_page buf (i * 4096) v) (\<lambda>buf'. Inr (buf', v + 1)))
        (\<lambda>(buf', s'). buf' = put_bytes buf (0 + i * 4096) (page_data (v + of_nat i)) \<and> s' = v + of_nat (Suc i))"
      using i fill_page_ok [of "i * 4096" buf v'] by simp
  qed (use assms in auto)
  then show ?thesis
    by (auto simp: fill_pages_def count_by_mult foldR_map ok_def pages_data_def)
qed

lemma int_ret:
  assumes "- 1 \<le> n" and "n < 2 ^ 31"
  shows "sint (of_int n :: i32) = n"
  using assms by (simp add: signed_of_int signed_take_bit_int_eq_self)

lemma ret_is_size:
  assumes "0 \<le> n" and "n \<le> int b" and "b < 2 ^ 31"
  shows "(of_int n :: u64) = of_nat b \<longleftrightarrow> n = int b"
proof -
  have "(of_int n :: u64) = of_nat b \<longleftrightarrow> n mod 2 ^ 64 = int b mod 2 ^ 64"
    using word_of_int_eq_iff [where 'a = 64, of n "int b"] by (simp add: take_bit_eq_mod)
  then show ?thesis
    using assms by simp
qed

lemma write_step_ok:
  assumes buf: "length (pw_buf st) = n * 4096" and small: "n * 4096 < 2 ^ 31"
  shows "res_or_exit (\<exists>k\<ge>n * 4096. io i = Some k) (write_step io (n * 4096) i st)
    (\<lambda>st'. pw_file st' = file_write (pw_file st) (pw_pos st) (pages_data (pw_next st) n) \<and>
      pw_pos st' = pw_pos st + n * 4096 \<and> length (pw_buf st') = n * 4096 \<and> pw_next st' = pw_next st + of_nat n)"
proof -
  let ?d = "pages_data (pw_next st) n"
  have put: "put_bytes (pw_buf st) 0 ?d = ?d"
    using buf by (simp add: put_bytes_def)
  obtain m f where w: "sys_write (io i) (pw_file st) (pw_pos st) ?d = (m, f)"
    by fastforce
  then have m: "- 1 \<le> m" "m \<le> int (n * 4096)"
    by (auto simp: sys_write_def split: option.splits)
  have r: "sint (of_int m :: i32) = m"
    using m small by (intro int_ret) auto
  have fin: "f = file_write (pw_file st) (pw_pos st) ?d" if "m = int (n * 4096)"
    using w that by (auto simp: sys_write_def min_def split: option.splits if_splits)
  have full: "m = int (n * 4096)" if "\<exists>k\<ge>n * 4096. io i = Some k"
    using w that by (auto simp: sys_write_def min_def)
  have le: "n * 4096 \<le> length (pw_buf st)" and tk: "take (n * 4096) ?d = ?d"
    using buf by simp_all
  have ws: "write_step io (n * 4096) i st = bindR (guardR (0 \<le> m) (Exit 1)) (\<lambda>_.
      bindR (guardR ((of_int m :: u64) = of_nat (n * 4096)) (Exit 1)) (\<lambda>_.
      Inr \<lparr>pw_file = f, pw_pos = pw_pos st + nat m, pw_buf = ?d, pw_next = pw_next st + of_nat n\<rparr>))"
    unfolding write_step_def fill_pages_ok [OF le] bindR.simps prod.case put tk w Let_def r ..
  show ?thesis
  proof (cases "m = int (n * 4096)")
    case True
    then have "0 \<le> m" "(of_int m :: u64) = of_nat (n * 4096)"
      by simp_all
    then show ?thesis
      unfolding ws using fin [OF True] True by simp
  next
    case False
    then have "\<not> (0 \<le> m \<and> (of_int m :: u64) = of_nat (n * 4096))"
      using ret_is_size [OF _ m(2) small] by blast
    then show ?thesis
      unfolding ws using full False by (auto simp: guardR_def)
  qed
qed

lemma write_blocks_ok:
  assumes buf: "length (pw_buf st) = n * 4096" and small: "n * 4096 < 2 ^ 31"
  shows "res_or_exit (\<forall>i<num. \<exists>k\<ge>n * 4096. io i = Some k) (write_blocks io (n * 4096) num st)
    (\<lambda>st'. pw_file st' = file_write (pw_file st) (pw_pos st) (pages_data (pw_next st) (num * n)) \<and>
      pw_pos st' = pw_pos st + num * n * 4096 \<and> length (pw_buf st') = n * 4096 \<and> pw_next st' = pw_next st + of_nat (num * n))"
  unfolding write_blocks_def
proof (induction num)
  case (Suc num)
  let ?P = "\<lambda>num st'. pw_file st' = file_write (pw_file st) (pw_pos st) (pages_data (pw_next st) (num * n)) \<and>
      pw_pos st' = pw_pos st + num * n * 4096 \<and> length (pw_buf st') = n * 4096 \<and> pw_next st' = pw_next st + of_nat (num * n)"
  have data: "pages_data (pw_next st) (Suc num * n) =
      pages_data (pw_next st) (num * n) @ pages_data (pw_next st + of_nat (num * n)) n"
    using pages_data_add [of "pw_next st" "num * n" n] by (simp add: add.commute)
  have "res_or_exit (\<forall>i<Suc num. \<exists>k\<ge>n * 4096. io i = Some k) (foldR (write_step io (n * 4096)) [0..<num] st) (?P num)"
    using Suc.IH by (rule roe_weaken) auto
  moreover have "res_or_exit (\<forall>i<Suc num. \<exists>k\<ge>n * 4096. io i = Some k) (foldR (write_step io (n * 4096)) [num] st') (?P (Suc num))"
    if st': "?P num st'" for st'
  proof -
    have len: "length (pw_buf st') = n * 4096"
      using st' by simp
    have "res_or_exit (\<forall>i<Suc num. \<exists>k\<ge>n * 4096. io i = Some k) (write_step io (n * 4096) num st') (?P (Suc num))"
    proof (rule roe_weaken [OF roe_mono [OF write_step_ok [OF len small, of io num]]])
      fix s assume s: "pw_file s = file_write (pw_file st') (pw_pos st') (pages_data (pw_next st') n) \<and>
        pw_pos s = pw_pos st' + n * 4096 \<and> length (pw_buf s) = n * 4096 \<and> pw_next s = pw_next st' + of_nat n"
      then show "?P (Suc num) s"
        unfolding data using st' file_write_append [of "pw_file st" "pw_pos st" "pages_data (pw_next st) (num * n)"
            "pages_data (pw_next st + of_nat (num * n)) n"]
        by (simp add: algebra_simps)
    qed auto
    then show ?thesis
      by (cases "write_step io (n * 4096) num st'") auto
  qed
  ultimately show ?case
    by (auto simp: foldR_append intro: roe_bindR)
qed (use buf in \<open>simp add: pages_data_def\<close>)

text \<open>What is in page \<open>k\<close> of such a file, and that different numbers make different pages.\<close>

lemma pages_data_nth:
  "k < n \<Longrightarrow> take 4096 (drop (k * 4096) (pages_data v n)) = page_data (v + of_nat k)"
proof -
  assume "k < n"
  then have "n = k + Suc (n - Suc k)"
    by simp
  then have "pages_data v n = pages_data v k @ pages_data (v + of_nat k) (1 + (n - Suc k))"
    using pages_data_add [of v k "Suc (n - Suc k)"] by simp
  moreover have "pages_data w 1 = page_data w" for w
    by (simp add: pages_data_def)
  ultimately have "pages_data v n = pages_data v k @ page_data (v + of_nat k) @ pages_data (v + of_nat k + of_nat 1) (n - Suc k)"
    using pages_data_add [of "v + of_nat k" 1 "n - Suc k"] by metis
  then show ?thesis
    by simp
qed

lemma page_data_inj: "page_data v = page_data w \<longleftrightarrow> v = w"
proof
  assume "page_data v = page_data w"
  then have "take 8 (page_data v) = take 8 (page_data w)"
    by simp
  moreover have "take 8 (page_data v) = le_bytes64 v" for v
    unfolding page_data_def replicate_Suc [of 511, simplified] by simp
  ultimately have "le_bytes64 v = le_bytes64 w"
    by simp
  then show "v = w"
    by simp
qed simp

end
