(* ===== verification/Aging.thy ===== *)
theory Aging
  imports Page_Writer Replay_Main
begin

text \<open>
  \<^verbatim>\<open>aging_system.c\<close> and \<^verbatim>\<open>write_1G.c\<close>: the first fills a file with numbered pages, punches holes into
  random pages of it and fills the free space with a second file; the second writes one
  gibibyte of numbered pages.
\<close>

subsection \<open>Options of \<^verbatim>\<open>aging_system\<close>\<close>

text \<open>Variables that no option sets stay uninitialised (\<open>None\<close>).\<close>

record aging_opts =
  a_path :: string
  a_dirlen :: nat
  a_size :: "u64 option"
  a_hole :: "int option"
  a_phase :: "int option"
  a_block :: u64

definition aging_init :: aging_opts where
  "aging_init = \<lparr>a_path = [], a_dirlen = 0, a_size = None, a_hole = None, a_phase = None, a_block = 0\<rparr>"

definition atol :: "string \<Rightarrow> int res" where
  "atol s = (case scan_sign (dropWhile is_space s) of (neg, s') \<Rightarrow>
     let n = int (digits_val (takeWhile is_digit s')); v = (if neg then - n else n) in
     if - (2 ^ 63) \<le> v \<and> v < 2 ^ 63 then Inr v else Inl IntOverflow)"

definition copy_path :: "string \<Rightarrow> string res" where
  "copy_path s = (if length s < 128 then Inr s else Inl OutOfBounds)"

definition aging_option :: "char \<times> string \<Rightarrow> aging_opts \<Rightarrow> aging_opts res" where
  "aging_option = (\<lambda>(opt, optarg) os.
     if opt = CHR ''d'' then
       let dirlen = length optarg in
       bindR (copy_path optarg) (\<lambda>p. Inr (os\<lparr>a_path := p,
         a_dirlen := if 1 < dirlen \<and> last optarg = CHR ''/'' then dirlen - 1 else dirlen\<rparr>))
     else if opt = CHR ''s'' then bindR (atol optarg) (\<lambda>n. Inr (os\<lparr>a_size := Some (of_int n)\<rparr>))
     else if opt = CHR ''o'' then bindR (atoi optarg) (\<lambda>n. Inr (os\<lparr>a_hole := Some n\<rparr>))
     else if opt = CHR ''p'' then bindR (atoi optarg) (\<lambda>n. Inr (os\<lparr>a_phase := Some n\<rparr>))
     else if opt = CHR ''b'' then bindR (atol optarg) (\<lambda>n. Inr (os\<lparr>a_block := of_int n\<rparr>))
     else Inl (Exit 1))"

definition aging_file :: "aging_opts \<Rightarrow> string \<Rightarrow> string res" where
  "aging_file os name = copy_path (take (a_dirlen os) (a_path os) @ name)"

definition initialised :: "'a option \<Rightarrow> 'a res" where
  "initialised x = (case x of None \<Rightarrow> Inl Uninitialised | Some v \<Rightarrow> Inr v)"

subsection \<open>Phases\<close>

record aging_state =
  ag_files :: "string \<Rightarrow> os_file option"
  ag_buf :: "u8 list"
  ag_rng :: mt19937ar_state

text \<open>What the system does with the calls: whether files open, and the writes and punches.\<close>

record aging_env =
  ae_opens :: "string \<Rightarrow> bool"
  ae_write1 :: "nat \<Rightarrow> nat option"
  ae_write3 :: "nat \<Rightarrow> nat option"
  ae_punch :: "nat \<Rightarrow> bool"

text \<open>Filling a file from its beginning, in phases 1 and 3.\<close>

definition fill_file ::
  "aging_env \<Rightarrow> (nat \<Rightarrow> nat option) \<Rightarrow> string \<Rightarrow> nat \<Rightarrow> nat \<Rightarrow> u64 \<Rightarrow> aging_state \<Rightarrow> aging_state res" where
  "fill_file env io path block_size num v st =
     bindR (guardR (ae_opens env path) (Exit 1)) (\<lambda>_.
     bindR (write_blocks io block_size num
       \<lparr>pw_file = (case ag_files st path of None \<Rightarrow> empty_file | Some f \<Rightarrow> f), pw_pos = 0, pw_buf = ag_buf st, pw_next = v\<rparr>) (\<lambda>pw.
     Inr (st\<lparr>ag_files := (ag_files st)(path := Some (pw_file pw)), ag_buf := pw_buf pw\<rparr>)))"

text \<open>
  The loop of phase 2. It may not end, so it is given a number of draws it may make; \<open>Diverges\<close>
  stands for more. \<^verbatim>\<open>records\<close> marks the pages that have been chosen.
\<close>

record punch_state =
  holes :: nat
  records :: "bool list"
  pfile :: os_file
  prng :: mt19937ar_state
  punches :: nat

definition file_punch :: "os_file \<Rightarrow> nat \<Rightarrow> nat \<Rightarrow> os_file" where
  "file_punch f off n = f\<lparr>fbyte := (\<lambda>i. if off \<le> i \<and> i < off + n then 0 else fbyte f i)\<rparr>"

fun punch_loop :: "nat \<Rightarrow> (nat \<Rightarrow> bool) \<Rightarrow> nat \<Rightarrow> punch_state \<Rightarrow> punch_state res" where
  "punch_loop 0 punched npages st = (if holes st = 0 then Inr st else Inl Diverges)"
| "punch_loop (Suc n) punched npages st =
     (if holes st = 0 then Inr st
      else bindR (guardR (npages \<noteq> 0) DivByZero) (\<lambda>_.
        case genrand_int32 (prng st) of (r, rng) \<Rightarrow>
        let pos = unat r mod npages in
        bindR (array_get (records st) pos) (\<lambda>taken.
        punch_loop n punched npages (if taken then st\<lparr>prng := rng\<rparr>
          else \<lparr>holes = holes st - 1, records = (records st)[pos := True],
            pfile = (if punched (punches st) then file_punch (pfile st) (pos * 4096) 4096 else pfile st),
            prng = rng, punches = punches st + 1\<rparr>))))"

text \<open>Phase 2; \<open>hole_percent\<close> is read after the file has been opened.\<close>

definition punch_holes :: "nat \<Rightarrow> aging_env \<Rightarrow> string \<Rightarrow> u64 \<Rightarrow> int option \<Rightarrow> aging_state \<Rightarrow> aging_state res" where
  "punch_holes fuel env path total_4K_blks hole_percent st =
     (case ag_files st path of
        None \<Rightarrow> Inl (Exit 1)
      | Some f \<Rightarrow> bindR (guardR (ae_opens env path) (Exit 1)) (\<lambda>_.
          bindR (initialised hole_percent) (\<lambda>percent.
          let hole_num = total_4K_blks * of_int percent div 100 in
          bindR (punch_loop fuel (ae_punch env) (unat total_4K_blks) \<lparr>holes = unat hole_num,
            records = replicate (unat total_4K_blks) False, pfile = f, prng = ag_rng st, punches = 0\<rparr>) (\<lambda>ps.
          Inr (st\<lparr>ag_files := (ag_files st)(path := Some (pfile ps)), ag_rng := prng ps\<rparr>)))))"

abbreviation (input) MAGIC_RAND :: int where "MAGIC_RAND \<equiv> 2333"

text \<open>\<^verbatim>\<open>main\<close>; \<open>junk\<close> is what is in fresh memory.\<close>

definition aging_main ::
  "nat \<Rightarrow> aging_env \<Rightarrow> (nat \<Rightarrow> u8) \<Rightarrow> (string \<Rightarrow> os_file option) \<Rightarrow> (char \<times> string) list \<Rightarrow> aging_state res" where
  "aging_main fuel env junk fs args =
     bindR (foldR aging_option args aging_init) (\<lambda>os.
     let block_size = (if a_block os = 0 then 2 * 1024 * 1024 else a_block os) in
     bindR (initialised (a_size os)) (\<lambda>gib.
     let size = gib * (1024 * 1024 * 1024); total_4K_blks = size div 4096 in
     bindR (initialised (a_phase os)) (\<lambda>phase.
     bindR (guardR (int_range (MAGIC_RAND + phase)) IntOverflow) (\<lambda>_.
     let st0 = \<lparr>ag_files = fs, ag_buf = map junk [0..<unat block_size],
                ag_rng = init_genrand mt_static_init (of_int (MAGIC_RAND + phase))\<rparr> in
     bindR (if phase = 1 \<or> phase = 4 then
         bindR (aging_file os ''/file1'') (\<lambda>path.
         fill_file env (ae_write1 env) path (unat block_size) (unat (size div block_size)) total_4K_blks st0)
       else Inr st0) (\<lambda>st1.
     bindR (if phase = 2 \<or> phase = 4 then
         bindR (aging_file os ''/file1'') (\<lambda>path.
         punch_holes fuel env path total_4K_blks (a_hole os) st1)
       else Inr st1) (\<lambda>st2.
     if phase = 3 \<or> phase = 4 then
         bindR (aging_file os ''/file2'') (\<lambda>path.
         bindR (initialised (a_hole os)) (\<lambda>hole_percent.
         fill_file env (ae_write3 env) path (unat block_size)
           (unat (size div block_size * of_int hole_percent div 100)) (3 * total_4K_blks) st2))
       else Inr st2))))))"

subsection \<open>\<^verbatim>\<open>write_1G\<close>\<close>

abbreviation (input) SIZE_1G :: nat where "SIZE_1G \<equiv> 1024 * 1024 * 1024"
abbreviation (input) STEP_2M :: nat where "STEP_2M \<equiv> 2 * 1024 * 1024"

text \<open>
  The argument is both the end of the file name and the number of the gibibyte; the
  multiplication is done in \<^verbatim>\<open>int\<close>.
\<close>

definition write_1G ::
  "(nat \<Rightarrow> nat option) \<Rightarrow> (string \<Rightarrow> bool) \<Rightarrow> (string \<Rightarrow> os_file option) \<Rightarrow> string list \<Rightarrow> (string \<times> os_file) res" where
  "write_1G io creatable fs args = (case args of
     [arg] \<Rightarrow>
       let fname = ''/mnt/pmem0/test'' @ arg in
       bindR (guardR (length fname < 100) OutOfBounds) (\<lambda>_.
       bindR (guardR (fs fname = None) (Exit 1)) (\<lambda>_.
       bindR (guardR (creatable fname) (Exit 1)) (\<lambda>_.
       bindR (atoi arg) (\<lambda>n.
       let v = n * int (SIZE_1G div PAGE_SIZE) in
       bindR (guardR (int_range v) IntOverflow) (\<lambda>_.
       bindR (write_blocks io STEP_2M (SIZE_1G div STEP_2M)
         \<lparr>pw_file = empty_file, pw_pos = 0, pw_buf = replicate STEP_2M 0, pw_next = of_int v\<rparr>) (\<lambda>pw.
       Inr (fname, pw_file pw)))))))
   | _ \<Rightarrow> Inl (Exit 1))"

end
