(* ===== verification/Rw_Interference.thy ===== *)
theory Rw_Interference
  imports Aging Doubles
begin

text \<open>
  \<^verbatim>\<open>rw_interference.cpp\<close>: threads that write blocks a file system has already seen (readers, as
  the file system only looks them up) run against threads that write new blocks. A first stage
  writes the blocks the readers repeat. Every block holds one 64-bit number, its magic.
\<close>

subsection \<open>Tasks\<close>

record rw_task =
  start_magic :: u64
  num_blocks :: u64
  progress :: u64
  task_id :: u32
  dup :: bool

abbreviation (input) MO_READ_LAT :: int where "MO_READ_LAT \<equiv> 1"
abbreviation (input) MO_WRITE_LAT :: int where "MO_WRITE_LAT \<equiv> 2"

text \<open>
  \<^verbatim>\<open>total_num_blocks * (1.0 / 4.0)\<close> as the machine computes it: the number becomes a double with
  53 significant bits (\<open>double_of\<close>), the product with a quarter is exact, and the result is
  truncated.
\<close>

definition predefined_part :: "u64 \<Rightarrow> u64" where
  "predefined_part n = of_nat (double_of (unat n) div 4)"

definition make_task :: "u64 \<Rightarrow> u64 \<Rightarrow> bool \<Rightarrow> u32 \<Rightarrow> rw_task" where
  "make_task start n d i = \<lparr>start_magic = start, num_blocks = n, progress = 0, task_id = i, dup = d\<rparr>"

text \<open>One of the two loops of \<^verbatim>\<open>make_tasks\<close>.\<close>

definition task_loop :: "u32 \<Rightarrow> u64 \<Rightarrow> bool \<Rightarrow> u32 \<Rightarrow> u64 \<times> rw_task list \<Rightarrow> u64 \<times> rw_task list" where
  "task_loop num nblks d base = fold (\<lambda>i (magic, ts).
     (magic + nblks, ts @ [make_task magic nblks d (of_nat i + base)])) [0..<unat num]"

text \<open>\<^verbatim>\<open>make_tasks\<close>; \<^verbatim>\<open>malloc\<close> succeeds. The number of tasks is an \<^verbatim>\<open>unsigned int\<close>, so it wraps.\<close>

definition make_tasks :: "u32 \<Rightarrow> u32 \<Rightarrow> u64 \<Rightarrow> int \<Rightarrow> int \<times> rw_task list" where
  "make_tasks reader_num writer_num total_num_blocks measurement_object = (
     let num_tasks = reader_num + writer_num in
     if num_tasks = 0 then (- 1, [])
     else
       let (total_reader_num_blocks, total_writer_num_blocks) =
         (if reader_num = 0 then (0, total_num_blocks)
          else if writer_num = 0 then (total_num_blocks, 0)
          else let part = predefined_part total_num_blocks in
            if measurement_object = MO_READ_LAT then (part, total_num_blocks - part) else (total_num_blocks - part, part));
         reader_num_blocks = (if reader_num = 0 then 0 else total_reader_num_blocks div ucast reader_num);
         writer_num_blocks = (if writer_num = 0 then 0 else total_writer_num_blocks div ucast writer_num);
         (_, readers) = task_loop reader_num reader_num_blocks True 0 (0, []);
         (_, tasks) = task_loop writer_num writer_num_blocks False reader_num (total_num_blocks, readers) in
       (0, tasks))"

subsection \<open>Writing a file\<close>

text \<open>
  What the system does for one file: whether it can be opened, how its writes end, and what is in
  the fresh buffer. The buffer is filled word by word; bytes after the last whole word keep
  what they held.
\<close>

record rw_io =
  io_open :: bool
  io_write :: "nat \<Rightarrow> nat option"
  io_junk :: "nat \<Rightarrow> u8"

definition block_data :: "rw_io \<Rightarrow> nat \<Rightarrow> u64 \<Rightarrow> u8 list" where
  "block_data io granularity magic = concat (replicate (granularity div 8) (le_bytes64 magic)) @
     map (io_junk io) [8 * (granularity div 8)..<granularity]"

record file_writer =
  fw_file :: os_file
  fw_pos :: nat
  fw_progress :: nat

text \<open>One round of the loop of \<^verbatim>\<open>make_file\<close>; \<open>None\<close> for a failing write. A short write is accepted.\<close>

definition make_file_round :: "rw_io \<Rightarrow> nat \<Rightarrow> u64 \<Rightarrow> nat \<Rightarrow> file_writer \<Rightarrow> file_writer option" where
  "make_file_round io granularity magic block st =
     (case sys_write (io_write io block) (fw_file st) (fw_pos st) (block_data io granularity (magic + of_nat block)) of (ret, f) \<Rightarrow>
      if ret < 0 then None else Some \<lparr>fw_file = f, fw_pos = fw_pos st + nat ret, fw_progress = block + 1\<rparr>)"

fun make_file_loop :: "rw_io \<Rightarrow> nat \<Rightarrow> u64 \<Rightarrow> nat list \<Rightarrow> file_writer \<Rightarrow> int \<times> file_writer" where
  "make_file_loop io granularity magic [] st = (0, st)"
| "make_file_loop io granularity magic (b # bs) st = (case make_file_round io granularity magic b st of
     None \<Rightarrow> (- 1, st) | Some st' \<Rightarrow> make_file_loop io granularity magic bs st')"

definition file_start :: "os_file option \<Rightarrow> file_writer" where
  "file_start f = \<lparr>fw_file = (case f of None \<Rightarrow> empty_file | Some f \<Rightarrow> f), fw_pos = 0, fw_progress = 0\<rparr>"

definition make_file :: "rw_io \<Rightarrow> nat \<Rightarrow> u64 \<Rightarrow> nat \<Rightarrow> os_file option \<Rightarrow> int \<times> os_file option" where
  "make_file io num magic granularity f = (
     if io_open io then (case make_file_loop io granularity magic [0..<num] (file_start f) of (ret, st) \<Rightarrow> (ret, Some (fw_file st)))
     else (- 1, f))"

type_synonym file_system = "string \<Rightarrow> os_file option"

text \<open>\<^verbatim>\<open>sprintf\<close> into an array of 128 characters.\<close>

definition task_path :: "string \<Rightarrow> string \<Rightarrow> nat \<Rightarrow> string res" where
  "task_path dirpath infix i = copy_path (dirpath @ ''/'' @ infix @ decimal i)"

text \<open>\<^verbatim>\<open>prepare_workload\<close>: one file per task, the magics counting up from 0. Failures are not noticed.\<close>

definition prepare_step :: "(string \<Rightarrow> rw_io) \<Rightarrow> string \<Rightarrow> nat \<Rightarrow> rw_task list \<Rightarrow> nat \<Rightarrow> u64 \<times> file_system \<Rightarrow> (u64 \<times> file_system) res" where
  "prepare_step io dirpath granularity tasks i = (\<lambda>(magic, fs).
     bindR (array_get tasks i) (\<lambda>task.
     bindR (task_path dirpath ''pre-'' i) (\<lambda>path.
     case make_file (io path) (unat (num_blocks task)) magic granularity (fs path) of (_, f) \<Rightarrow>
     Inr (magic + num_blocks task, fs(path := f)))))"

definition prepare_workload :: "(string \<Rightarrow> rw_io) \<Rightarrow> string \<Rightarrow> nat \<Rightarrow> rw_task list \<Rightarrow> file_system \<Rightarrow> file_system res" where
  "prepare_workload io dirpath granularity tasks fs =
     bindR (foldR (prepare_step io dirpath granularity tasks) [0..<length tasks] (0, fs)) (\<lambda>(_, fs'). Inr fs')"

subsection \<open>The threads\<close>

text \<open>
  A thread is created, reads its parameters, writes its blocks and ends. \<^verbatim>\<open>main\<close> creates the
  threads, joins those it measures, cancels the others, adds up the progress of the measured
  ones and frees the parameters.
\<close>

datatype rw_thread = Not_created | Created | Writing_file string nat file_writer | Ended

datatype rw_main = Creating nat | Joining nat | Cancelling nat | Finished u64

record rw_system =
  rw_tasks :: "rw_task list"
  rw_threads :: "rw_thread list"
  rw_cancelled :: "nat set"
  rw_main :: rw_main
  rw_files :: file_system

definition num_readers :: "rw_task list \<Rightarrow> nat" where
  "num_readers tasks = length (filter dup tasks)"

text \<open>The tasks that are joined and those that are cancelled, as ranges of indices.\<close>

definition joined :: "int \<Rightarrow> rw_task list \<Rightarrow> nat list" where
  "joined mo tasks = (if mo = MO_READ_LAT then [0..<num_readers tasks]
     else if mo = MO_WRITE_LAT then [num_readers tasks..<length tasks] else [])"

definition cancelled :: "int \<Rightarrow> rw_task list \<Rightarrow> nat list" where
  "cancelled mo tasks = (if mo = MO_READ_LAT then [num_readers tasks..<length tasks]
     else if mo = MO_WRITE_LAT then [0..<num_readers tasks] else [])"

definition run_start :: "rw_task list \<Rightarrow> file_system \<Rightarrow> rw_system" where
  "run_start tasks fs = \<lparr>rw_tasks = tasks, rw_threads = replicate (length tasks) Not_created, rw_cancelled = {},
     rw_main = Creating 0, rw_files = fs\<rparr>"

text \<open>A step of \<^verbatim>\<open>run\<close> in the main thread; \<open>None\<close> while it waits in \<^verbatim>\<open>pthread_join\<close> or has returned.\<close>

definition run_step :: "int \<Rightarrow> rw_system \<Rightarrow> rw_system option" where
  "run_step mo s = (let tasks = rw_tasks s in case rw_main s of
     Creating i \<Rightarrow> Some (if i < length tasks then s\<lparr>rw_threads := (rw_threads s)[i := Created], rw_main := Creating (i + 1)\<rparr>
       else s\<lparr>rw_main := Joining 0\<rparr>)
   | Joining k \<Rightarrow> (if k < length (joined mo tasks) then
         (if rw_threads s ! (joined mo tasks ! k) = Ended then Some (s\<lparr>rw_main := Joining (k + 1)\<rparr>) else None)
       else Some (s\<lparr>rw_main := Cancelling 0\<rparr>))
   | Cancelling k \<Rightarrow> Some (if k < length (cancelled mo tasks) then
         s\<lparr>rw_cancelled := insert (cancelled mo tasks ! k) (rw_cancelled s), rw_main := Cancelling (k + 1)\<rparr>
       else s\<lparr>rw_main := Finished (\<Sum>i\<leftarrow>joined mo tasks. progress (tasks ! i))\<rparr>)
   | Finished n \<Rightarrow> None)"

text \<open>
  A step of \<^verbatim>\<open>dedup_or_write_task\<close> in thread \<open>t\<close>. \<open>stop\<close> says whether a cancelled thread ends at this
  call, which it may do at every system call. The parameters are gone once \<^verbatim>\<open>run\<close> has returned.
\<close>

definition task_step :: "(string \<Rightarrow> rw_io) \<Rightarrow> string \<Rightarrow> nat \<Rightarrow> bool \<Rightarrow> nat \<Rightarrow> rw_system \<Rightarrow> rw_system res" where
  "task_step io dirpath granularity stop t s = (let task = rw_tasks s ! t in case rw_threads s ! t of
     Created \<Rightarrow>
       bindR (guardR (\<forall>n. rw_main s \<noteq> Finished n) UseAfterFree) (\<lambda>_.
       bindR (task_path dirpath '''' (unat (task_id task))) (\<lambda>path.
       Inr (if stop \<or> \<not> io_open (io path) then s\<lparr>rw_threads := (rw_threads s)[t := Ended]\<rparr>
         else let st = file_start (rw_files s path) in
           s\<lparr>rw_threads := (rw_threads s)[t := Writing_file path 0 st], rw_files := (rw_files s)(path := Some (fw_file st))\<rparr>)))
   | Writing_file path b st \<Rightarrow> Inr (
       if stop \<or> \<not> b < unat (num_blocks task) then s\<lparr>rw_threads := (rw_threads s)[t := Ended]\<rparr>
       else case make_file_round (io path) granularity (start_magic task) b st of
         None \<Rightarrow> s\<lparr>rw_threads := (rw_threads s)[t := Ended]\<rparr>
       | Some st' \<Rightarrow> s\<lparr>rw_threads := (rw_threads s)[t := Writing_file path (b + 1) st'],
           rw_tasks := (rw_tasks s)[t := task\<lparr>progress := of_nat (fw_progress st')\<rparr>],
           rw_files := (rw_files s)(path := Some (fw_file st'))\<rparr>)
   | _ \<Rightarrow> Inr s)"

inductive rw_step :: "(string \<Rightarrow> rw_io) \<Rightarrow> string \<Rightarrow> nat \<Rightarrow> int \<Rightarrow> rw_system res \<Rightarrow> rw_system res \<Rightarrow> bool"
  for io dirpath granularity mo where
  main: "run_step mo s = Some s' \<Longrightarrow> rw_step io dirpath granularity mo (Inr s) (Inr s')"
| task: "t < length (rw_threads s) \<Longrightarrow> rw_threads s ! t \<notin> {Not_created, Ended} \<Longrightarrow> stop \<longrightarrow> t \<in> rw_cancelled s \<Longrightarrow>
    rw_step io dirpath granularity mo (Inr s) (task_step io dirpath granularity stop t s)"

inductive_cases rw_stepE: "rw_step io dirpath granularity mo r r'"

inductive rw_run :: "(string \<Rightarrow> rw_io) \<Rightarrow> string \<Rightarrow> nat \<Rightarrow> int \<Rightarrow> rw_system res \<Rightarrow> rw_system res \<Rightarrow> bool"
  for io dirpath granularity mo r0 where
  start: "rw_run io dirpath granularity mo r0 r0"
| more: "rw_run io dirpath granularity mo r0 r \<Longrightarrow> rw_step io dirpath granularity mo r r' \<Longrightarrow> rw_run io dirpath granularity mo r0 r'"

subsection \<open>Options\<close>

record rw_opts =
  o_dir :: string
  o_granularity :: "u64 option"
  o_readers :: "u32 option"
  o_writers :: "u32 option"
  o_total :: "u64 option"
  o_stage :: int
  o_measure :: int

definition rw_init :: rw_opts where
  "rw_init = \<lparr>o_dir = [], o_granularity = None, o_readers = None, o_writers = None, o_total = None, o_stage = 0, o_measure = MO_READ_LAT\<rparr>"

text \<open>An empty name of a directory makes the program look at the byte before the array.\<close>

definition rw_option :: "char \<times> string \<Rightarrow> rw_opts \<Rightarrow> rw_opts res" where
  "rw_option = (\<lambda>(opt, optarg) os.
     if opt = CHR ''d'' then
       bindR (copy_path optarg) (\<lambda>p.
       bindR (guardR (p \<noteq> []) OutOfBounds) (\<lambda>_.
       Inr (os\<lparr>o_dir := if last p = CHR ''/'' then butlast p else p\<rparr>)))
     else if opt = CHR ''g'' then bindR (atol optarg) (\<lambda>n. Inr (os\<lparr>o_granularity := Some (of_int n)\<rparr>))
     else if opt = CHR ''r'' then bindR (atoi optarg) (\<lambda>n. Inr (os\<lparr>o_readers := Some (of_int n)\<rparr>))
     else if opt = CHR ''w'' then bindR (atoi optarg) (\<lambda>n. Inr (os\<lparr>o_writers := Some (of_int n)\<rparr>))
     else if opt = CHR ''a'' then bindR (atol optarg) (\<lambda>n. Inr (os\<lparr>o_total := Some (of_int n)\<rparr>))
     else if opt = CHR ''s'' then bindR (atoi optarg) (\<lambda>n. Inr (os\<lparr>o_stage := n\<rparr>))
     else if opt = CHR ''m'' then bindR (atoi optarg) (\<lambda>n. Inr (os\<lparr>o_measure := n\<rparr>))
     else Inl (Exit 1))"

text \<open>
  \<^verbatim>\<open>main\<close> up to the start of the threads: the files after the first stage and, if the second
  stage is asked for, the state it starts from. The result of \<^verbatim>\<open>make_tasks\<close> is not looked at.
\<close>

definition rw_setup :: "(string \<Rightarrow> rw_io) \<Rightarrow> (char \<times> string) list \<Rightarrow> file_system \<Rightarrow> (file_system \<times> rw_system option) res" where
  "rw_setup io args fs = bindR (foldR rw_option args rw_init) (\<lambda>os.
     bindR (initialised (o_total os)) (\<lambda>total_io.
     bindR (initialised (o_granularity os)) (\<lambda>granularity.
     bindR (guardR (granularity \<noteq> 0) DivByZero) (\<lambda>_.
     let total_num_blocks = total_io * 1024 * 1024 * 1024 div granularity in
     bindR (initialised (o_readers os)) (\<lambda>reader_num.
     bindR (initialised (o_writers os)) (\<lambda>writer_num.
     let (_, tasks) = make_tasks reader_num writer_num total_num_blocks (o_measure os) in
     bindR (if o_stage os = 0 \<or> o_stage os = 1 then prepare_workload io (o_dir os) (unat granularity) tasks fs else Inr fs) (\<lambda>fs'.
     Inr (fs', if o_stage os = 0 \<or> o_stage os = 2 then Some (run_start tasks fs') else None))))))))"

end
