(* ===== verification/Aging_Correct.thy ===== *)
theory Aging_Correct
  imports Aging
begin

text \<open>
  The pages of the two files are pairwise different, and the holes are punched into exactly
  the requested number of pages, provided the generator hits as many pages at all.
\<close>

subsection \<open>Pages of a file\<close>

definition file_page :: "os_file \<Rightarrow> nat \<Rightarrow> u8 list" where
  "file_page f k = map (fbyte f) [k * 4096..<k * 4096 + 4096]"

lemma file_page_written:
  assumes "k < n"
  shows "file_page (file_write f 0 (pages_data v n)) k = page_data (v + of_nat k)"
proof -
  let ?d = "pages_data v n"
  have le: "k * 4096 + 4096 \<le> n * 4096"
    using assms by simp
  have "fbyte (file_write f 0 ?d) i = ?d ! i" if "i \<in> set [k * 4096..<k * 4096 + 4096]" for i
    using that le by (simp add: fbyte_write)
  then have "file_page (file_write f 0 ?d) k = map ((!) ?d) [k * 4096..<k * 4096 + 4096]"
    unfolding file_page_def by (rule map_cong [OF refl])
  also have "\<dots> = take 4096 (drop (k * 4096) ?d)"
    using le by (intro nth_equalityI) (simp_all add: nth_append)
  finally show ?thesis
    using pages_data_nth [OF assms] by simp
qed

lemma fill_file_ok:
  assumes "block_size = n * 4096" and "block_size < 2 ^ 31" and "length (ag_buf st) = block_size"
  shows "res_or_exit (ae_opens env path \<and> (\<forall>i<num. \<exists>k\<ge>block_size. io i = Some k)) (fill_file env io path block_size num v st)
    (\<lambda>st'. (\<exists>f. ag_files st' path = Some f \<and> (\<forall>k<num * n. file_page f k = page_data (v + of_nat k))) \<and>
      (\<forall>p. p \<noteq> path \<longrightarrow> ag_files st' p = ag_files st p) \<and> length (ag_buf st') = block_size \<and> ag_rng st' = ag_rng st)"
proof (cases "ae_opens env path")
  case True
  let ?pw = "\<lparr>pw_file = (case ag_files st path of None \<Rightarrow> empty_file | Some f \<Rightarrow> f), pw_pos = 0, pw_buf = ag_buf st, pw_next = v\<rparr>"
  have "res_or_exit (ae_opens env path \<and> (\<forall>i<num. \<exists>k\<ge>block_size. io i = Some k)) (write_blocks io block_size num ?pw)
      (\<lambda>pw. pw_file pw = file_write (pw_file ?pw) 0 (pages_data v (num * n)) \<and> length (pw_buf pw) = block_size)"
    unfolding assms(1) by (rule roe_weaken [OF roe_mono [OF write_blocks_ok [of ?pw n num io]]]) (use assms in auto)
  then show ?thesis
    unfolding fill_file_def using True
    by (auto simp: file_page_written intro!: roe_bindR)
qed (simp add: fill_file_def guardR_def)

subsection \<open>Punching holes\<close>

text \<open>The pages that the next \<open>n\<close> draws hit.\<close>

fun positions :: "nat \<Rightarrow> nat \<Rightarrow> mt19937ar_state \<Rightarrow> nat list" where
  "positions 0 npages st = []"
| "positions (Suc n) npages st = (case genrand_int32 st of (r, st') \<Rightarrow> (unat r mod npages) # positions n npages st')"

definition marked :: "bool list \<Rightarrow> nat set" where
  "marked rs = {i. i < length rs \<and> rs ! i}"

lemma marked_finite [simp]: "finite (marked rs)"
  by (simp add: marked_def)

lemma marked_update: "pos < length rs \<Longrightarrow> marked (rs[pos := True]) = insert pos (marked rs)"
  by (auto simp: marked_def nth_list_update)

text \<open>The file after all pages of \<open>P\<close> have been punched.\<close>

definition punched_file :: "nat set \<Rightarrow> os_file \<Rightarrow> os_file" where
  "punched_file P f = f\<lparr>fbyte := (\<lambda>i. if i div 4096 \<in> P then 0 else fbyte f i)\<rparr>"

lemma file_punch_page: "file_punch f (pos * 4096) 4096 = punched_file {pos} f"
proof -
  have "(pos * 4096 \<le> i \<and> i < pos * 4096 + 4096) = (i div 4096 = pos)" for i
    by linarith
  then show ?thesis
    by (simp add: file_punch_def punched_file_def)
qed

lemma punched_file_insert: "punched_file P (punched_file {pos} f) = punched_file (insert pos P) f"
  by (auto simp: punched_file_def fun_eq_iff intro!: os_file.equality)

lemma punched_file_empty [simp]: "punched_file {} f = f"
  by (simp add: punched_file_def)

lemma punch_loop_exact:
  assumes "0 < npages" and "length (records st) = npages" and "\<forall>i. punched i"
  shows "(if holes st \<le> card (set (positions n npages (prng st)) - marked (records st))
    then \<exists>st' P. punch_loop n punched npages st = Inr st' \<and> card P = holes st \<and> P \<inter> marked (records st) = {} \<and>
      P \<subseteq> set (positions n npages (prng st)) \<and> marked (records st') = marked (records st) \<union> P \<and>
      pfile st' = punched_file P (pfile st)
    else punch_loop n punched npages st = Inl Diverges)"
  using assms(2)
proof (induction n arbitrary: st)
  case 0
  then show ?case
    by (auto intro!: exI [of _ "{}"])
next
  case (Suc n)
  obtain r rng where r: "genrand_int32 (prng st) = (r, rng)"
    by fastforce
  let ?pos = "unat r mod npages"
  have pos: "?pos < length (records st)"
    using assms(1) Suc.prems by simp
  show ?case
  proof (cases "holes st = 0")
    case True
    then show ?thesis
      by (auto intro!: exI [of _ "{}"])
  next
    case h: False
    show ?thesis
    proof (cases "?pos \<in> marked (records st)")
      case True
      then have set: "set (positions (Suc n) npages (prng st)) - marked (records st) = set (positions n npages rng) - marked (records st)"
        by (auto simp: r)
      have step: "punch_loop (Suc n) punched npages st = punch_loop n punched npages (st\<lparr>prng := rng\<rparr>)"
        using h pos assms(1) True by (simp add: r marked_def)
      have sub: "set (positions n npages rng) \<subseteq> set (positions (Suc n) npages (prng st))"
        by (auto simp: r)
      note IH = Suc.IH [of "st\<lparr>prng := rng\<rparr>"]
      show ?thesis
      proof (cases "holes st \<le> card (set (positions n npages rng) - marked (records st))")
        case True
        then show ?thesis
          unfolding set step using IH Suc.prems sub by (simp del: punch_loop.simps positions.simps) blast
      next
        case False
        then show ?thesis
          unfolding set step using IH Suc.prems by simp
      qed
    next
      case False
      let ?st = "\<lparr>holes = holes st - 1, records = (records st)[?pos := True], pfile = punched_file {?pos} (pfile st),
            prng = rng, punches = punches st + 1\<rparr>"
      have m: "marked (records ?st) = insert ?pos (marked (records st))"
        using marked_update [OF pos] by simp
      have step: "punch_loop (Suc n) punched npages st = punch_loop n punched npages ?st"
        using h pos assms(1,3) False by (simp add: r marked_def file_punch_page Let_def)
      have "set (positions (Suc n) npages (prng st)) - marked (records st) =
          insert ?pos (set (positions n npages rng) - marked (records ?st))"
        using False m by (auto simp: r)
      then have card: "card (set (positions (Suc n) npages (prng st)) - marked (records st)) =
          Suc (card (set (positions n npages rng) - marked (records ?st)))"
        using m by simp
      show ?thesis
      proof (cases "holes ?st \<le> card (set (positions n npages rng) - marked (records ?st))")
        case True
        then obtain st' P where st': "punch_loop n punched npages ?st = Inr st'" "card P = holes st - 1"
            "P \<inter> marked (records ?st) = {}" "P \<subseteq> set (positions n npages rng)"
            "marked (records st') = marked (records ?st) \<union> P" "pfile st' = punched_file P (punched_file {?pos} (pfile st))"
          using Suc.IH [of ?st] Suc.prems by auto
        have "finite P"
          using st'(4) finite_subset by blast
        moreover have "?pos \<notin> P"
          using st'(3) m by auto
        ultimately have "card (insert ?pos P) = holes st"
          using st'(2) h by simp
        moreover have "holes st \<le> card (set (positions (Suc n) npages (prng st)) - marked (records st))"
          using True card by simp
        ultimately show ?thesis
          unfolding step using st' m False punched_file_insert [of P ?pos]
          by (simp del: punch_loop.simps positions.simps) (rule exI [of _ "insert ?pos P"], auto simp: r)
      next
        case no: False
        then have "punch_loop (Suc n) punched npages st = Inl Diverges"
          using Suc.IH [of ?st] Suc.prems step by simp
        moreover have "\<not> holes st \<le> card (set (positions (Suc n) npages (prng st)) - marked (records st))"
          using no card by simp
        ultimately show ?thesis
          by simp
      qed
    qed
  qed
qed

lemma positions_bound: "0 < npages \<Longrightarrow> set (positions n npages st) \<subseteq> {..<npages}"
  by (induction n arbitrary: st) (auto split: prod.splits)

lemma marked_fresh [simp]: "marked (replicate n False) = {}"
  by (auto simp: marked_def)

text \<open>The loop of phase 2 from its start, for a draw limit \<open>n\<close>.\<close>

lemma punch_from_start:
  assumes "0 < npages" and "\<forall>i. punched i"
  shows "(if h \<le> card (set (positions n npages rng))
    then \<exists>st' P. punch_loop n punched npages \<lparr>holes = h, records = replicate npages False, pfile = f, prng = rng, punches = k\<rparr> = Inr st' \<and>
      card P = h \<and> P \<subseteq> set (positions n npages rng) \<and> marked (records st') = P \<and> pfile st' = punched_file P f
    else punch_loop n punched npages \<lparr>holes = h, records = replicate npages False, pfile = f, prng = rng, punches = k\<rparr> = Inl Diverges)"
  using punch_loop_exact [OF assms(1) _ assms(2), where n = n and
      st = "\<lparr>holes = h, records = replicate npages False, pfile = f, prng = rng, punches = k\<rparr>"]
  by (simp cong: if_cong)

lemma file_page_punched: "file_page (punched_file P f) k = (if k \<in> P then replicate 4096 0 else file_page f k)"
proof -
  have "i div 4096 = k" if "i \<in> set [k * 4096..<k * 4096 + 4096]" for i
    using that by auto
  then have "file_page (punched_file P f) k = map (\<lambda>i. if k \<in> P then 0 else fbyte f i) [k * 4096..<k * 4096 + 4096]"
    unfolding file_page_def punched_file_def by (intro map_cong) auto
  also have "\<dots> = (if k \<in> P then replicate 4096 0 else file_page f k)"
    by (simp add: file_page_def map_replicate_const)
  finally show ?thesis .
qed

subsection \<open>The whole program\<close>

text \<open>Options for all phases, with sizes that fit: \<open>G\<close> gibibytes, blocks of \<open>n\<close> pages, \<open>H\<close> per cent.\<close>

definition all_phases :: "aging_opts \<Rightarrow> nat \<Rightarrow> nat \<Rightarrow> nat \<Rightarrow> bool" where
  "all_phases os G n H \<longleftrightarrow> a_size os = Some (of_nat G) \<and> a_hole os = Some (int H) \<and> a_phase os = Some 4 \<and>
     a_block os = of_nat (n * 4096) \<and> 0 < G \<and> G < 2 ^ 30 \<and> 0 < n \<and> n * 4096 < 2 ^ 31 \<and> H \<le> 100 \<and> a_dirlen os \<le> 121"

definition aging_env_good :: "aging_env \<Rightarrow> nat \<Rightarrow> bool" where
  "aging_env_good env block_size \<longleftrightarrow> (\<forall>p. ae_opens env p) \<and> (\<forall>i. ae_punch env i) \<and>
     (\<forall>i. \<exists>k\<ge>block_size. ae_write1 env i = Some k) \<and> (\<forall>i. \<exists>k\<ge>block_size. ae_write3 env i = Some k)"

lemma aging_file_ok:
  "a_dirlen os \<le> 121 \<Longrightarrow> length name = 6 \<Longrightarrow> aging_file os name = Inr (take (a_dirlen os) (a_path os) @ name)"
  by (simp add: aging_file_def copy_path_def)

lemma unat_of_small: "a < 2 ^ 64 \<Longrightarrow> unat (of_nat a :: u64) = a"
  by (simp add: unat_of_nat)

lemma aging_sizes:
  assumes "all_phases os G n H"
  shows "unat (a_block os) = n * 4096" "a_block os \<noteq> 0"
    "(of_nat G * (1024 * 1024 * 1024)) div 4096 = (of_nat (G * 2 ^ 18) :: u64)"
    "unat ((of_nat G * (1024 * 1024 * 1024)) div a_block os) = G * 2 ^ 30 div (n * 4096)"
    "unat (((of_nat G * (1024 * 1024 * 1024)) div 4096) * of_int (int H) div 100 :: u64) = G * 2 ^ 18 * H div 100"
    "unat ((of_nat G * (1024 * 1024 * 1024)) div a_block os * of_int (int H) div 100) = G * 2 ^ 30 div (n * 4096) * H div 100"
proof -
  have o: "a_block os = of_nat (n * 4096)" "G < 2 ^ 30" "0 < n" "n * 4096 < 2 ^ 31" "H \<le> 100"
    using assms by (auto simp: all_phases_def)
  show b: "unat (a_block os) = n * 4096"
    unfolding o(1) by (rule unat_of_small) (use o(4) in simp)
  then show "a_block os \<noteq> 0"
    using o(3) by auto
  have s: "(of_nat G * (1024 * 1024 * 1024) :: u64) = of_nat (G * 2 ^ 30)"
    by simp
  have us: "unat (of_nat (G * 2 ^ 30) :: u64) = G * 2 ^ 30"
    by (rule unat_of_small) (use o(2) in simp)
  have c: "unat (4096 :: u64) = 4096" "unat (100 :: u64) = 100"
    by simp_all
  have d: "unat (of_nat (G * 2 ^ 30) div 4096 :: u64) = G * 2 ^ 18"
    unfolding unat_div us c by simp
  then have "unat (of_nat (G * 2 ^ 30) div 4096 :: u64) = unat (of_nat (G * 2 ^ 18) :: u64)"
    using unat_of_small [of "G * 2 ^ 18"] o(2) by simp
  then show "(of_nat G * (1024 * 1024 * 1024)) div 4096 = (of_nat (G * 2 ^ 18) :: u64)"
    unfolding s by (rule unsigned_word_eqI)
  show cnt: "unat ((of_nat G * (1024 * 1024 * 1024)) div a_block os) = G * 2 ^ 30 div (n * 4096)"
    unfolding s unat_div us b ..
  have mult: "unat (w * of_int (int H) div 100) = unat w * H div 100" if "unat w \<le> 2 ^ 48" for w :: u64
  proof -
    have "unat w * H \<le> 2 ^ 48 * 100"
      using that o(5) by (intro mult_le_mono) auto
    then have "unat (w * of_nat H) = unat w * H"
      using o(5) by (simp add: unat_word_ariths unat_of_small)
    then show ?thesis
      by (simp add: unat_div)
  qed
  show "unat (((of_nat G * (1024 * 1024 * 1024)) div 4096) * of_int (int H) div 100 :: u64) = G * 2 ^ 18 * H div 100"
    unfolding s using mult [of "of_nat (G * 2 ^ 30) div 4096"] d o(2) by simp
  have "G * 2 ^ 30 div (n * 4096) \<le> G * 2 ^ 30 div 4096"
    using o(3) by (intro div_le_mono2) auto
  also have "\<dots> \<le> 2 ^ 48"
    using o(2) by simp
  finally have "unat ((of_nat G * (1024 * 1024 * 1024)) div a_block os) \<le> 2 ^ 48"
    unfolding cnt .
  from mult [OF this] show "unat ((of_nat G * (1024 * 1024 * 1024)) div a_block os * of_int (int H) div 100) =
      G * 2 ^ 30 div (n * 4096) * H div 100"
    unfolding cnt .
qed

lemma block_pages_le:
  fixes G n :: nat
  shows "G * 2 ^ 30 div (n * 4096) * n \<le> G * 2 ^ 18"
  using div_times_less_eq_dividend [of "262144 * G" n] by (simp add: mult.commute)

lemma page_number_inj:
  assumes "a < 2 ^ 64" and "b < 2 ^ 64"
  shows "page_data (of_nat a) = page_data (of_nat b) \<longleftrightarrow> a = b"
  using unat_of_small [OF assms(1)] unat_of_small [OF assms(2)] page_data_inj by metis

lemma aging_fill:
  assumes "aging_env_good env (n * 4096)" and "n * 4096 < 2 ^ 31" and "length (ag_buf st) = n * 4096"
    and "io = ae_write1 env \<or> io = ae_write3 env"
  shows "\<exists>st' f. fill_file env io path (n * 4096) num v st = Inr st' \<and> ag_files st' path = Some f \<and>
    (\<forall>k<num * n. file_page f k = page_data (v + of_nat k)) \<and> (\<forall>p. p \<noteq> path \<longrightarrow> ag_files st' p = ag_files st p) \<and>
    length (ag_buf st') = n * 4096 \<and> ag_rng st' = ag_rng st"
proof -
  have "ae_opens env path \<and> (\<forall>i<num. \<exists>k\<ge>n * 4096. io i = Some k)"
    using assms(1,4) by (auto simp: aging_env_good_def)
  then show ?thesis
    using fill_file_ok [OF refl assms(2,3), of env path num io v] by (auto simp: res_or_exit_def split: sum.splits)
qed

text \<open>The state after phase 1, the result of phase 2 and the state after phase 3.\<close>

lemma aging_main_unfold:
  assumes "foldR aging_option args aging_init = Inr os" and "all_phases os G n H"
  defines "dir \<equiv> take (a_dirlen os) (a_path os)"
  defines "num \<equiv> G * 2 ^ 30 div (n * 4096)"
  shows "aging_main fuel env junk fs args =
    bindR (fill_file env (ae_write1 env) (dir @ ''/file1'') (n * 4096) num (of_nat (G * 2 ^ 18))
      \<lparr>ag_files = fs, ag_buf = map junk [0..<n * 4096], ag_rng = init_genrand mt_static_init 2337\<rparr>) (\<lambda>st1.
    bindR (punch_holes fuel env (dir @ ''/file1'') (of_nat (G * 2 ^ 18)) (Some (int H)) st1) (\<lambda>st2.
    fill_file env (ae_write3 env) (dir @ ''/file2'') (n * 4096) (num * H div 100) (3 * of_nat (G * 2 ^ 18)) st2))"
proof -
  note sizes = aging_sizes [OF assms(2)]
  have o: "a_size os = Some (of_nat G)" "a_hole os = Some (int H)" "a_phase os = Some 4" "a_dirlen os \<le> 121"
    using assms(2) by (auto simp: all_phases_def)
  have f: "aging_file os ''/file1'' = Inr (dir @ ''/file1'')" "aging_file os ''/file2'' = Inr (dir @ ''/file2'')"
    unfolding dir_def using o(4) by (simp_all add: aging_file_ok)
  show ?thesis
    unfolding aging_main_def assms(1) bindR.simps o(1-3) initialised_def option.case Let_def f num_def
    using sizes by (simp add: int_range_def del: of_nat_mult cong: if_cong)
qed

lemma aging_distinct:
  assumes "\<forall>k<a. file_page f1 k = (if k \<in> P then replicate 4096 0 else page_data (of_nat (T + k)))"
    and "\<forall>k<b. file_page f2 k = page_data (of_nat (3 * T + k))" and "a \<le> T" and "b \<le> T" and "T < 2 ^ 48"
  shows "inj_on (file_page f1) ({..<a} - P)" "inj_on (file_page f2) {..<b}"
    "file_page f1 ` ({..<a} - P) \<inter> file_page f2 ` {..<b} = {}"
proof -
  have num: "page_data (of_nat x) = page_data (of_nat y) \<longleftrightarrow> x = y" if "x < 4 * T" "y < 4 * T" for x y
    using that assms(5) by (intro page_number_inj) auto
  show "inj_on (file_page f1) ({..<a} - P)"
    using assms(1,3) num by (auto simp: inj_on_def simp del: of_nat_add)
  show "inj_on (file_page f2) {..<b}"
    using assms(2,4) num by (auto simp: inj_on_def simp del: of_nat_add)
  show "file_page f1 ` ({..<a} - P) \<inter> file_page f2 ` {..<b} = {}"
    using assms(1-4) num by (fastforce simp del: of_nat_add)
qed

subsection \<open>Properties\<close>

lemma aging_punch:
  assumes "all_phases os G n H" and "aging_env_good env B" and "ag_files st p = Some f" and "ag_rng st = rng" and "T = G * 2 ^ 18"
  shows "if T * H div 100 \<le> card (set (positions fuel T rng))
    then \<exists>P r. P \<subseteq> {..<T} \<and> card P = T * H div 100 \<and> punch_holes fuel env p (of_nat T) (Some (int H)) st =
      Inr (st\<lparr>ag_files := (ag_files st)(p := Some (punched_file P f)), ag_rng := r\<rparr>)
    else punch_holes fuel env p (of_nat T) (Some (int H)) st = Inl Diverges"
proof -
  have T: "unat (of_nat T :: u64) = T" "0 < T"
    using assms(1) by (auto simp: assms(5) all_phases_def simp del: of_nat_mult intro!: unat_of_small)
  have h: "unat ((of_nat T :: u64) * of_nat H div 100) = T * H div 100"
    using aging_sizes(5) [OF assms(1)] unfolding aging_sizes(3) [OF assms(1)] of_int_of_nat_eq assms(5) .
  have open1: "ae_opens env q" "\<forall>i. ae_punch env i" for q
    using assms(2) by (auto simp: aging_env_good_def)
  note punch = punch_from_start [OF T(2) open1(2), where n = fuel and h = "T * H div 100" and rng = rng and f = f and k = 0]
  show ?thesis
  proof (split if_split, intro conjI impI)
    assume enough: "T * H div 100 \<le> card (set (positions fuel T rng))"
    then obtain ps P where P: "punch_loop fuel (ae_punch env) T \<lparr>holes = T * H div 100, records = replicate T False, pfile = f,
        prng = rng, punches = 0\<rparr> = Inr ps" "card P = T * H div 100" "P \<subseteq> set (positions fuel T rng)" "pfile ps = punched_file P f"
      using punch [unfolded if_P [OF enough]] by blast
    have "punch_holes fuel env p (of_nat T) (Some (int H)) st =
        Inr (st\<lparr>ag_files := (ag_files st)(p := Some (punched_file P f)), ag_rng := prng ps\<rparr>)"
      using assms(3,4) P(1,4) open1 by (simp add: punch_holes_def initialised_def h T(1))
    then show "\<exists>P r. P \<subseteq> {..<T} \<and> card P = T * H div 100 \<and> punch_holes fuel env p (of_nat T) (Some (int H)) st =
        Inr (st\<lparr>ag_files := (ag_files st)(p := Some (punched_file P f)), ag_rng := r\<rparr>)"
      using P(2,3) positions_bound [OF T(2)] by blast
  next
    assume few: "\<not> T * H div 100 \<le> card (set (positions fuel T rng))"
    show "punch_holes fuel env p (of_nat T) (Some (int H)) st = Inl Diverges"
      using punch [unfolded if_not_P [OF few]] assms(3,4) open1 by (simp add: punch_holes_def initialised_def h T(1))
  qed
qed

text \<open>
  C12: All phases of \<^verbatim>\<open>aging_system\<close> on a system where no call fails. If the draws allowed hit as many
  different pages as holes are asked for, the program returns: exactly that many pages of the
  first file are holes, the others and all pages of the second file hold different numbers, so
  no two of them have the same contents. Otherwise the loop of phase 2 is still running.
\<close>

theorem aging_all_phases:
  assumes "foldR aging_option args aging_init = Inr os" and "all_phases os G n H" and "aging_env_good env (n * 4096)"
  shows "let T = G * 2 ^ 18; num = G * 2 ^ 30 div (n * 4096); dir = take (a_dirlen os) (a_path os) in
    if T * H div 100 \<le> card (set (positions fuel T (init_genrand mt_static_init 2337)))
    then \<exists>st P f1 f2. aging_main fuel env junk fs args = Inr st \<and> P \<subseteq> {..<T} \<and> card P = T * H div 100 \<and>
      ag_files st (dir @ ''/file1'') = Some f1 \<and> ag_files st (dir @ ''/file2'') = Some f2 \<and>
      (\<forall>k<num * n. file_page f1 k = (if k \<in> P then replicate 4096 0 else page_data (of_nat (T + k)))) \<and>
      (\<forall>k<num * H div 100 * n. file_page f2 k = page_data (of_nat (3 * T + k))) \<and>
      inj_on (file_page f1) ({..<num * n} - P) \<and> inj_on (file_page f2) {..<num * H div 100 * n} \<and>
      file_page f1 ` ({..<num * n} - P) \<inter> file_page f2 ` {..<num * H div 100 * n} = {}
    else aging_main fuel env junk fs args = Inl Diverges"
proof -
  define T where "T = G * 2 ^ 18"
  define num where "num = G * 2 ^ 30 div (n * 4096)"
  define rng where "rng = init_genrand mt_static_init 2337"
  define st0 where "st0 = \<lparr>ag_files = fs, ag_buf = map junk [0..<n * 4096], ag_rng = rng\<rparr>"
  let ?dir = "take (a_dirlen os) (a_path os)"
  have st0: "length (ag_buf st0) = n * 4096" "ag_rng st0 = rng"
    by (simp_all add: st0_def)
  have o: "0 < G" "G < 2 ^ 30" "n * 4096 < 2 ^ 31" "H \<le> 100"
    using assms(2) by (auto simp: all_phases_def)
  have T: "T < 2 ^ 48"
    using o by (auto simp: T_def)
  have numn: "num * n \<le> T"
    unfolding num_def T_def by (rule block_pages_le)
  have "num * H div 100 \<le> num"
    using o(4) div_le_mono [of "num * H" "num * 100" 100] by simp
  then have fill: "num * H div 100 * n \<le> T"
    using numn mult_le_mono1 le_trans by blast
  note unf = aging_main_unfold [OF assms(1,2), where fuel = fuel and env = env and junk = junk and fs = fs,
      folded T_def num_def rng_def, folded st0_def]
  obtain st1 f where st1: "fill_file env (ae_write1 env) (?dir @ ''/file1'') (n * 4096) num (of_nat T) st0 = Inr st1"
      "ag_files st1 (?dir @ ''/file1'') = Some f" "\<forall>k<num * n. file_page f k = page_data (of_nat T + of_nat k)"
      "length (ag_buf st1) = n * 4096" "ag_rng st1 = rng"
    using aging_fill [OF assms(3) o(3) st0(1) disjI1 [OF refl], of "?dir @ ''/file1''" num "of_nat T"] unfolding st0(2) by blast
  note punch = aging_punch [OF assms(2,3) st1(2,5) T_def, of fuel]
  show ?thesis
    unfolding Let_def T_def [symmetric] num_def [symmetric] rng_def [symmetric]
  proof (split if_split, intro conjI impI)
    assume enough: "T * H div 100 \<le> card (set (positions fuel T rng))"
    then obtain P r where P: "P \<subseteq> {..<T}" "card P = T * H div 100" "punch_holes fuel env (?dir @ ''/file1'') (of_nat T) (Some (int H)) st1 =
        Inr (st1\<lparr>ag_files := (ag_files st1)(?dir @ ''/file1'' := Some (punched_file P f)), ag_rng := r\<rparr>)"
      using punch by (simp only: if_True) blast
    let ?st2 = "st1\<lparr>ag_files := (ag_files st1)(?dir @ ''/file1'' := Some (punched_file P f)), ag_rng := r\<rparr>"
    have len2: "length (ag_buf ?st2) = n * 4096"
      using st1(4) by simp
    obtain st3 f2 where st3: "fill_file env (ae_write3 env) (?dir @ ''/file2'') (n * 4096) (num * H div 100) (3 * of_nat T) ?st2 = Inr st3"
        "ag_files st3 (?dir @ ''/file2'') = Some f2" "\<forall>k<num * H div 100 * n. file_page f2 k = page_data (3 * of_nat T + of_nat k)"
        "\<forall>p. p \<noteq> ?dir @ ''/file2'' \<longrightarrow> ag_files st3 p = ag_files ?st2 p"
      using aging_fill [OF assms(3) o(3) len2 disjI2 [OF refl], of "?dir @ ''/file2''" "num * H div 100" "3 * of_nat T"] by blast
    have main: "aging_main fuel env junk fs args = Inr st3"
      unfolding unf st1(1) bindR.simps P(3) st3(1) ..
    have f1: "ag_files st3 (?dir @ ''/file1'') = Some (punched_file P f)"
      using st3(4) by simp
    have pages1: "\<forall>k<num * n. file_page (punched_file P f) k = (if k \<in> P then replicate 4096 0 else page_data (of_nat (T + k)))"
      using st1(3) by (simp add: file_page_punched)
    have pages2: "\<forall>k<num * H div 100 * n. file_page f2 k = page_data (of_nat (3 * T + k))"
      using st3(3) by simp
    show "\<exists>st P f1 f2. aging_main fuel env junk fs args = Inr st \<and> P \<subseteq> {..<T} \<and> card P = T * H div 100 \<and>
      ag_files st (?dir @ ''/file1'') = Some f1 \<and> ag_files st (?dir @ ''/file2'') = Some f2 \<and>
      (\<forall>k<num * n. file_page f1 k = (if k \<in> P then replicate 4096 0 else page_data (of_nat (T + k)))) \<and>
      (\<forall>k<num * H div 100 * n. file_page f2 k = page_data (of_nat (3 * T + k))) \<and>
      inj_on (file_page f1) ({..<num * n} - P) \<and> inj_on (file_page f2) {..<num * H div 100 * n} \<and>
      file_page f1 ` ({..<num * n} - P) \<inter> file_page f2 ` {..<num * H div 100 * n} = {}"
      using main P(1,2) f1 st3(2) pages1 pages2 aging_distinct [OF pages1 pages2 numn fill T] by blast
  next
    assume few: "\<not> T * H div 100 \<le> card (set (positions fuel T rng))"
    show "aging_main fuel env junk fs args = Inl Diverges"
      unfolding unf st1(1) bindR.simps using punch [unfolded if_not_P [OF few]] by simp
  qed
qed

definition demo_args :: "(char \<times> string) list" where
  "demo_args = [(CHR ''d'', ''/mnt/pmem0/''), (CHR ''s'', ''1''), (CHR ''o'', ''0''), (CHR ''p'', ''4''), (CHR ''b'', ''4096'')]"

definition demo_opts :: aging_opts where
  "demo_opts = \<lparr>a_path = ''/mnt/pmem0/'', a_dirlen = 10, a_size = Some 1, a_hole = Some 0, a_phase = Some 4, a_block = 4096\<rparr>"

definition demo_env :: aging_env where
  "demo_env = \<lparr>ae_opens = (\<lambda>_. True), ae_write1 = (\<lambda>_. Some 4096), ae_write3 = (\<lambda>_. Some 4096), ae_punch = (\<lambda>_. True)\<rparr>"

lemma demo_args_ok: "foldR aging_option demo_args aging_init = Inr demo_opts"
  by code_simp

lemma demo_all_phases: "all_phases demo_opts 1 1 0"
  by (simp add: all_phases_def demo_opts_def)

lemma demo_env_ok: "aging_env_good demo_env (1 * 4096)"
  by (simp add: aging_env_good_def demo_env_def)

theorem aging_all_phases_witness:
  "\<exists>st f. aging_main 0 demo_env (\<lambda>_. 0) (\<lambda>_. None) demo_args = Inr st \<and> ag_files st ''/mnt/pmem0/file1'' = Some f \<and>
    (\<forall>k<2 ^ 18. file_page f k = page_data (of_nat (2 ^ 18 + k)))"
proof -
  have num: "1 * 2 ^ 30 div (1 * 4096) = (2 ^ 18 :: nat)"
    by simp
  have dir: "take (a_dirlen demo_opts) (a_path demo_opts) = ''/mnt/pmem0''"
    by (simp add: demo_opts_def)
  show ?thesis
    using aging_all_phases [OF demo_args_ok demo_all_phases demo_env_ok, where fuel = 0 and junk = "\<lambda>_. 0" and fs = "\<lambda>_. None",
        unfolded Let_def num dir]
    by (auto simp: card_eq_0_iff dest: finite_subset)
qed

text \<open>The draws decide alone whether the loop of phase 2 ends, whatever the calls return.\<close>

lemma punch_loop_ends_eq:
  "0 < npages \<Longrightarrow> length (records st) = npages \<Longrightarrow> (\<exists>st'. punch_loop n p npages st = Inr st') \<longleftrightarrow>
    (\<exists>st'. punch_loop n q npages (st\<lparr>pfile := f\<rparr>) = Inr st')"
proof (induction n arbitrary: st f)
  case (Suc n)
  obtain r rng where r: "genrand_int32 (prng st) = (r, rng)"
    by fastforce
  let ?pos = "unat r mod npages"
  have pos: "?pos < length (records st)"
    using Suc.prems by simp
  show ?case
  proof (cases "holes st = 0 \<or> records st ! ?pos")
    case True
    have swap: "st\<lparr>prng := rng, pfile := f\<rparr> = st\<lparr>pfile := f, prng := rng\<rparr>"
      by (cases st) simp
    show ?thesis
      using Suc.IH [of "st\<lparr>prng := rng\<rparr>" f, unfolded swap] Suc.prems pos True by (auto simp: r)
  next
    case False
    define st1 where "st1 = \<lparr>holes = holes st - 1, records = (records st)[?pos := True],
      pfile = (if p (punches st) then file_punch (pfile st) (?pos * 4096) 4096 else pfile st), prng = rng, punches = punches st + 1\<rparr>"
    have "punch_loop (Suc n) p npages st = punch_loop n p npages st1"
      using False pos Suc.prems by (simp add: r st1_def Let_def)
    moreover have "punch_loop (Suc n) q npages (st\<lparr>pfile := f\<rparr>) = punch_loop n q npages
        (st1\<lparr>pfile := if q (punches st) then file_punch f (?pos * 4096) 4096 else f\<rparr>)"
      using False pos Suc.prems by (simp add: r st1_def Let_def)
    ultimately show ?thesis
      using Suc.IH [of st1] Suc.prems by (simp add: st1_def)
  qed
qed simp

lemma punch_loop_result:
  "0 < npages \<Longrightarrow> length (records st) = npages \<Longrightarrow>
    (\<exists>st'. punch_loop n p npages st = Inr st') \<or> punch_loop n p npages st = Inl Diverges"
  by (induction n arbitrary: st) (auto simp: Let_def split: prod.splits)

lemma punch_loop_ends:
  assumes "0 < npages"
  shows "(\<exists>st'. punch_loop n p npages \<lparr>holes = h, records = replicate npages False, pfile = f, prng = rng, punches = k\<rparr> = Inr st') \<longleftrightarrow>
    h \<le> card (set (positions n npages rng))"
  using punch_loop_ends_eq [OF assms, of "\<lparr>holes = h, records = replicate npages False, pfile = f, prng = rng, punches = k\<rparr>" n p "\<lambda>_. True" f]
    punch_from_start [OF assms, of "\<lambda>_. True" h n rng f k] by (auto split: if_splits)

text \<open>
  C16: Phase 2 of \<^verbatim>\<open>aging_system\<close> ends within a number of draws if and only if these draws hit as many
  different pages as holes are asked for, also when the calls that punch holes fail. When
  more holes are asked for than there are pages it never ends.
\<close>

theorem punch_holes_ends_iff:
  assumes "0 < npages" and "ae_opens env path" and "ag_files st path = Some f"
  shows "let h = unat (npages * of_int percent div 100) in
    ((\<exists>st'. punch_holes tries env path npages (Some percent) st = Inr st') \<longleftrightarrow>
       h \<le> card (set (positions tries (unat npages) (ag_rng st)))) \<and>
    (unat npages < h \<longrightarrow> punch_holes tries env path npages (Some percent) st = Inl Diverges)"
proof -
  define n where "n = unat npages"
  define h where "h = unat (npages * of_int percent div 100)"
  have n: "0 < n"
    using assms(1) by (simp add: n_def unat_gt_0 word_neq_0_conv)
  let ?ps = "\<lparr>holes = h, records = replicate n False, pfile = f, prng = ag_rng st, punches = 0\<rparr>"
  have eq: "punch_holes tries env path npages (Some percent) st = bindR (punch_loop tries (ae_punch env) n ?ps) (\<lambda>ps.
      Inr (st\<lparr>ag_files := (ag_files st)(path := Some (pfile ps)), ag_rng := prng ps\<rparr>))"
    using assms(2,3) by (simp add: punch_holes_def initialised_def n_def h_def)
  have "card (set (positions tries n (ag_rng st))) \<le> n"
    using card_mono [OF _ positions_bound [OF n]] by fastforce
  moreover have "(\<exists>st'. punch_loop tries (ae_punch env) n ?ps = Inr st') \<or> punch_loop tries (ae_punch env) n ?ps = Inl Diverges"
    using punch_loop_result [of n ?ps tries "ae_punch env"] n by auto
  ultimately show ?thesis
    unfolding eq h_def [symmetric] n_def [symmetric] Let_def
    using punch_loop_ends [OF n, of tries "ae_punch env" h f "ag_rng st" 0] by (auto simp: bindR_eq_Inr)
qed

definition demo_state :: aging_state where
  "demo_state = \<lparr>ag_files = (\<lambda>_. Some empty_file), ag_buf = [], ag_rng = mt_static_init\<rparr>"

theorem punch_holes_ends_iff_witness:
  "punch_holes 1000 demo_env ''/mnt/pmem0/file1'' 4 (Some 125) demo_state = Inl Diverges \<and>
   (\<exists>st'. punch_holes 1 demo_env ''/mnt/pmem0/file1'' 4 (Some 25) demo_state = Inr st')"
proof -
  have "ae_opens demo_env ''/mnt/pmem0/file1''" "ag_files demo_state ''/mnt/pmem0/file1'' = Some empty_file"
    by (simp_all add: demo_env_def demo_state_def)
  then show ?thesis
    using punch_holes_ends_iff [of 4 demo_env "''/mnt/pmem0/file1''" demo_state empty_file 125 1000]
      punch_holes_ends_iff [of 4 demo_env "''/mnt/pmem0/file1''" demo_state empty_file 25 1]
    by (simp add: split_beta)
qed

subsection \<open>\<^verbatim>\<open>write_1G\<close>\<close>

lemma u64_of_int_inj:
  assumes "- (2 ^ 31) \<le> x" "x < 2 ^ 32" "- (2 ^ 31) \<le> y" "y < 2 ^ 32"
  shows "(of_int x :: u64) = of_int y \<longleftrightarrow> x = y"
proof -
  have "(of_int x :: u64) = of_int y \<longleftrightarrow> x mod 2 ^ 64 = y mod 2 ^ 64"
    using word_of_int_eq_iff [where 'a = 64, of x y] by (simp add: take_bit_eq_mod)
  also have "\<dots> \<longleftrightarrow> x = y"
  proof
    assume "x mod 2 ^ 64 = y mod 2 ^ 64"
    then have dvd: "2 ^ 64 dvd x - y"
      by (simp add: mod_eq_dvd_iff)
    show "x = y"
      using dvd_imp_le_int [OF _ dvd] assms by (cases "x = y") auto
  qed simp
  finally show ?thesis .
qed

lemma write_1G_ok:
  assumes "atoi arg = Inr n" and "int_range (n * 2 ^ 18)" and "length arg < 85"
  shows "res_or_exit (fs (''/mnt/pmem0/test'' @ arg) = None \<and> creatable (''/mnt/pmem0/test'' @ arg) \<and> (\<forall>i<512. \<exists>k\<ge>2 ^ 21. io i = Some k))
    (write_1G io creatable fs [arg])
    (\<lambda>(p, f). p = ''/mnt/pmem0/test'' @ arg \<and> (\<forall>k<2 ^ 18. file_page f k = page_data (of_int (n * 2 ^ 18 + int k))))"
proof -
  let ?pw = "\<lparr>pw_file = empty_file, pw_pos = 0, pw_buf = replicate 2097152 0, pw_next = of_int (n * 262144)\<rparr>"
  have w: "res_or_exit (\<forall>i<512. \<exists>k\<ge>2097152. io i = Some k) (write_blocks io 2097152 512 ?pw)
      (\<lambda>pw. pw_file pw = file_write empty_file 0 (pages_data (of_int (n * 262144)) 262144))"
    using write_blocks_ok [of ?pw 512 512 io] by (auto intro: roe_mono)
  have page: "file_page (file_write empty_file 0 (pages_data (of_int (n * 262144)) 262144)) k = page_data (of_int (n * 262144 + int k))"
    if "k < 262144" for k
    using file_page_written [OF that] by simp
  show ?thesis
    using assms unfolding write_1G_def
    by (cases "fs (''/mnt/pmem0/test'' @ arg) = None"; cases "creatable (''/mnt/pmem0/test'' @ arg)")
      (auto simp: guardR_False Let_def page simp del: of_int_mult of_int_add intro!: roe_bindR [OF roe_weaken [OF w]])
qed

lemma write_1G_result:
  assumes "write_1G io creatable fs [arg] = Inr (p, f)" and "atoi arg = Inr n"
  shows "int_range (n * 2 ^ 18)" "\<forall>k<2 ^ 18. file_page f k = page_data (of_int (n * 2 ^ 18 + int k))"
proof -
  show r: "int_range (n * 2 ^ 18)"
    using assms by (auto simp: write_1G_def bindR_eq_Inr Let_def guardR_def split: if_splits)
  have "length arg < 85"
    using assms(1) by (auto simp: write_1G_def bindR_eq_Inr Let_def guardR_def split: if_splits)
  then show "\<forall>k<2 ^ 18. file_page f k = page_data (of_int (n * 2 ^ 18 + int k))"
    using write_1G_ok [OF assms(2) r, of fs creatable io] assms(1) by simp
qed

text \<open>
  Two runs of \<^verbatim>\<open>write_1G\<close> with different numbers that both return write files none of whose
  pages have the same contents: neither two pages of one file nor pages of the two files.
\<close>

theorem write_1G_pages_distinct:
  assumes "write_1G io fs_ok fs [arg] = Inr (p, f)" and "write_1G io' fs_ok' fs' [arg'] = Inr (p', f')"
    and "atoi arg = Inr n" and "atoi arg' = Inr n'" and "n \<noteq> n'"
  shows "inj_on (file_page f) {..<2 ^ 18} \<and> inj_on (file_page f') {..<2 ^ 18} \<and>
    file_page f ` {..<2 ^ 18} \<inter> file_page f' ` {..<2 ^ 18} = {}"
proof -
  note F = write_1G_result [OF assms(1,3)] and F' = write_1G_result [OF assms(2,4)]
  have num: "page_data (of_int x) = page_data (of_int y) \<longleftrightarrow> x = y"
    if "- (2 ^ 31) \<le> x" "x < 2 ^ 32" "- (2 ^ 31) \<le> y" "y < 2 ^ 32" for x y
    unfolding page_data_inj using that by (rule u64_of_int_inj)
  have r: "- (2 ^ 31) \<le> m * 2 ^ 18 + int k \<and> m * 2 ^ 18 + int k < 2 ^ 32" if "int_range (m * 2 ^ 18)" "k < 2 ^ 18" for m k
    using that by (auto simp: int_range_def)
  have "(m * 2 ^ 18 + int k) div 2 ^ 18 = m \<and> (m * 2 ^ 18 + int k) mod 2 ^ 18 = int k" if "k < 2 ^ 18" for m k
    using that by simp
  then have "m * 2 ^ 18 + int k = m' * 2 ^ 18 + int k' \<longleftrightarrow> m = m' \<and> k = k'" if "k < 2 ^ 18" "k' < 2 ^ 18" for m m' k k'
    using that by (metis of_nat_eq_iff)
  then have eq: "page_data (of_int (m * 2 ^ 18 + int k)) = page_data (of_int (m' * 2 ^ 18 + int k')) \<longleftrightarrow> m = m' \<and> k = k'"
    if "int_range (m * 2 ^ 18)" "int_range (m' * 2 ^ 18)" "k < 2 ^ 18" "k' < 2 ^ 18" for m m' k k'
    using num r [OF that(1,3)] r [OF that(2,4)] that(3,4) by (simp del: of_int_mult of_int_add)
  show ?thesis
  proof (intro conjI)
    show "inj_on (file_page f) {..<2 ^ 18}"
      using F(2) eq [OF F(1) F(1)] by (simp add: inj_on_def del: of_int_mult of_int_add)
    show "inj_on (file_page f') {..<2 ^ 18}"
      using F'(2) eq [OF F'(1) F'(1)] by (simp add: inj_on_def del: of_int_mult of_int_add)
    show "file_page f ` {..<2 ^ 18} \<inter> file_page f' ` {..<2 ^ 18} = {}"
      using F(2) F'(2) eq [OF F(1) F'(1)] assms(5) by (fastforce simp del: of_int_mult of_int_add)
  qed
qed

theorem write_1G_pages_distinct_witness:
  "\<exists>f f'. write_1G (\<lambda>_. Some (2 ^ 21)) (\<lambda>_. True) (\<lambda>_. None) [''3''] = Inr (''/mnt/pmem0/test3'', f) \<and>
    write_1G (\<lambda>_. Some (2 ^ 21)) (\<lambda>_. True) (\<lambda>_. None) [''4''] = Inr (''/mnt/pmem0/test4'', f') \<and>
    file_page f ` {..<2 ^ 18} \<inter> file_page f' ` {..<2 ^ 18} = {}"
proof -
  have a: "atoi ''3'' = Inr 3" "atoi ''4'' = Inr 4"
    by code_simp+
  obtain f where f: "write_1G (\<lambda>_. Some (2 ^ 21)) (\<lambda>_. True) (\<lambda>_. None) [''3''] = Inr (''/mnt/pmem0/test3'', f)"
    using write_1G_ok [OF a(1), of "\<lambda>_. None" "\<lambda>_. True" "\<lambda>_. Some (2 ^ 21)"]
    by (auto simp: int_range_def res_or_exit_def split: sum.splits)
  obtain f' where f': "write_1G (\<lambda>_. Some (2 ^ 21)) (\<lambda>_. True) (\<lambda>_. None) [''4''] = Inr (''/mnt/pmem0/test4'', f')"
    using write_1G_ok [OF a(2), of "\<lambda>_. None" "\<lambda>_. True" "\<lambda>_. Some (2 ^ 21)"]
    by (auto simp: int_range_def res_or_exit_def split: sum.splits)
  show ?thesis
    using write_1G_pages_distinct [OF f f' a] f f' by simp
qed

end
