(* ===== verification/Rw_Correct.thy ===== *)
theory Rw_Correct
  imports Rw_Interference Aging_Correct
begin

text \<open>
  What the tasks of \<^verbatim>\<open>rw_interference\<close> write: the readers repeat what the first stage has written, the
  writers write blocks that nobody else writes; and what the program reports about them.
\<close>

subsection \<open>The share of a quarter\<close>

lemma predefined_part_unat: "unat (predefined_part n) = double_of (unat n) div 4"
proof -
  have "unat n < 2 ^ LENGTH(64)"
    by (rule unsigned_less)
  then have "double_of (unat n) div 4 < 2 ^ 64"
    using double_of_le [of "unat n"] by simp
  then show ?thesis
    by (simp add: predefined_part_def unat_of_nat)
qed

lemma predefined_part_le: "predefined_part n \<le> n"
  using double_of_le [of "unat n"] by (simp add: word_le_nat_alt predefined_part_unat)

subsection \<open>The tasks\<close>

lemma task_loop_eq:
  "task_loop num n d b (m, xs) =
    (m + of_nat (unat num) * n, xs @ map (\<lambda>i. make_task (m + of_nat i * n) n d (of_nat i + b)) [0..<unat num])"
proof -
  have "fold (\<lambda>i (magic, ts). (magic + n, ts @ [make_task magic n d (of_nat i + b)])) [0..<k] (m, xs) =
    (m + of_nat k * n, xs @ map (\<lambda>i. make_task (m + of_nat i * n) n d (of_nat i + b)) [0..<k])" for k
    by (induction k) (simp_all add: algebra_simps)
  then show ?thesis
    by (simp add: task_loop_def)
qed

text \<open>\<open>R\<close> tasks of \<open>rb\<close> blocks that start at 0 and \<open>W\<close> tasks of \<open>wb\<close> blocks that start at \<open>all\<close>.\<close>

definition task_layout :: "nat \<Rightarrow> nat \<Rightarrow> u64 \<Rightarrow> u64 \<Rightarrow> u64 \<Rightarrow> rw_task list" where
  "task_layout R W all rb wb = map (\<lambda>i. make_task (of_nat i * rb) rb True (of_nat i)) [0..<R] @
     map (\<lambda>i. make_task (all + of_nat i * wb) wb False (of_nat i + of_nat R)) [0..<W]"

lemma div_parts:
  "unat r * unat ((part :: u64) div ucast (r :: u32)) \<le> unat part"
proof -
  have "unat (ucast r :: u64) = unat r"
  proof -
    have "unat r < 2 ^ LENGTH(32)"
      by (rule unsigned_less)
    then have "unat r < 2 ^ 64"
      by simp
    then show ?thesis
      by (simp add: unsigned_ucast_eq take_bit_nat_eq_self_iff)
  qed
  then have "unat (part div ucast r) = unat part div unat r"
    by (simp add: unat_div)
  then show ?thesis
    by simp
qed

lemma make_tasks_layout:
  assumes "reader_num + writer_num \<noteq> 0"
  obtains rb wb where "make_tasks reader_num writer_num all mo = (0, task_layout (unat reader_num) (unat writer_num) all rb wb)"
    "unat reader_num * unat rb + unat writer_num * unat wb \<le> unat all"
proof -
  define part where "part = predefined_part all"
  have part: "unat part \<le> unat all" "unat (all - part) = unat all - unat part"
    using predefined_part_le [of all] by (auto simp: part_def word_le_nat_alt unat_sub)
  define tr tw where "tr = (if reader_num = 0 then 0 else if writer_num = 0 then all
      else if mo = 1 then part else all - part)"
    and "tw = (if reader_num = 0 then all else if writer_num = 0 then 0
      else if mo = 1 then all - part else part)"
  define rb wb where "rb = (if reader_num = 0 then 0 else tr div ucast reader_num)"
    and "wb = (if writer_num = 0 then 0 else tw div ucast writer_num)"
  have sum: "unat tr + unat tw \<le> unat all"
    using part by (auto simp: tr_def tw_def)
  have r: "unat reader_num * unat rb \<le> unat tr"
    using div_parts [of reader_num tr] by (auto simp: rb_def word_gt_0)
  have w: "unat writer_num * unat wb \<le> unat tw"
    using div_parts [of writer_num tw] by (auto simp: wb_def word_gt_0)
  have "make_tasks reader_num writer_num all mo = (0, task_layout (unat reader_num) (unat writer_num) all rb wb)"
    using assms by (simp add: make_tasks_def task_loop_eq task_layout_def Let_def rb_def wb_def tr_def tw_def part_def)
  then show thesis
    using that sum r w by simp
qed

subsection \<open>Contents of the files\<close>

definition file_block :: "nat \<Rightarrow> os_file \<Rightarrow> nat \<Rightarrow> u8 list" where
  "file_block g f b = map (fbyte f) [b * g..<b * g + g]"

lemma length_words: "length (concat (replicate n (le_bytes64 v))) = 8 * n"
  by (induction n) simp_all

lemma length_block_data [simp]: "length (block_data io g v) = g"
  by (simp add: block_data_def length_words)

lemma block_data_word:
  assumes "8 \<le> g"
  shows "take 8 (block_data io g v) = le_bytes64 v"
proof -
  obtain n where "g div 8 = Suc n"
    using assms by (cases "g div 8") auto
  then show ?thesis
    by (simp add: block_data_def)
qed

lemma block_data_inj: "8 \<le> g \<Longrightarrow> block_data io g v = block_data io' g v' \<Longrightarrow> v = v'"
  using block_data_word [of g io v] block_data_word [of g io' v'] by simp

lemma concat_block:
  assumes "\<And>k. k < n \<Longrightarrow> length (h k) = g" and "b < n"
  shows "take g (drop (b * g) (concat (map h [0..<n]))) = h b"
proof -
  have "[0..<n] = [0..<b] @ b # [Suc b..<n]"
    using assms(2) upt_add_eq_append [of 0 b "n - b"] by (simp add: upt_conv_Cons)
  moreover have "length (concat (map h [0..<m])) = m * g" if "m \<le> n" for m
    using that by (induction m) (simp_all add: assms(1))
  ultimately show ?thesis
    using assms(2) by (simp add: assms(1))
qed

lemma file_block_write:
  assumes "length d = n * g" and "b < n"
  shows "file_block g (file_write f 0 d) b = take g (drop (b * g) d)"
proof -
  have le: "b * g + g \<le> n * g"
    using assms(2) mult_le_mono1 [of "Suc b" n g] by simp
  then have "b * g \<le> length d"
    unfolding assms(1) by (rule add_leD1)
  then show ?thesis
    unfolding file_block_def using le assms(1) by (intro nth_equalityI) (simp_all add: fbyte_write)
qed

definition complete_io :: "nat \<Rightarrow> rw_io \<Rightarrow> bool" where
  "complete_io g io \<longleftrightarrow> io_open io \<and> (\<forall>b. \<exists>k\<ge>g. io_write io b = Some k)"

lemma make_file_loop_complete:
  assumes "complete_io g io"
  shows "make_file_loop io g m [0..<n] (file_start f) = (0, \<lparr>fw_file = file_write (fw_file (file_start f)) 0
      (concat (map (\<lambda>b. block_data io g (m + of_nat b)) [0..<n])), fw_pos = n * g, fw_progress = n\<rparr>)"
proof -
  have append: "make_file_loop io g m (xs @ [b]) st = (case make_file_loop io g m xs st of (r, st') \<Rightarrow>
      if r = 0 then make_file_loop io g m [b] st' else (r, st'))" for xs b st
    by (induction xs arbitrary: st) (auto split: option.splits)
  show ?thesis
  proof (induction n)
    case (Suc n)
    let ?h = "\<lambda>b. block_data io g (m + of_nat b)"
    have len: "length (concat (map ?h [0..<n])) = n * g"
      by (induction n) simp_all
    obtain k where k: "io_write io n = Some k" "g \<le> k"
      using assms by (auto simp: complete_io_def)
    then have "sys_write (io_write io n) f' (n * g) (?h n) = (int g, file_write f' (n * g) (?h n))" for f'
      by (simp add: sys_write_def)
    then show ?case
      using Suc append [of "[0..<n]" n "file_start f"] file_write_append [of "fw_file (file_start f)" 0 "concat (map ?h [0..<n])" "?h n"]
      by (simp add: make_file_round_def len add.commute del: make_file_loop.simps) (simp add: make_file_round_def)
  qed (simp add: file_start_def)
qed

lemma make_file_complete:
  assumes "complete_io g io"
  obtains f' where "make_file io n m g f = (0, Some f')" "\<And>b. b < n \<Longrightarrow> file_block g f' b = block_data io g (m + of_nat b)"
proof -
  let ?d = "concat (map (\<lambda>b. block_data io g (m + of_nat b)) [0..<n])"
  let ?f = "file_write (fw_file (file_start f)) 0 ?d"
  have len: "length ?d = n * g"
    by (induction n) simp_all
  have "file_block g ?f b = block_data io g (m + of_nat b)" if "b < n" for b
    unfolding file_block_write [OF len that] by (rule concat_block [OF _ that]) simp
  moreover have "make_file io n m g f = (0, Some ?f)"
    using make_file_loop_complete [OF assms] assms by (simp add: make_file_def complete_io_def)
  ultimately show thesis
    using that by blast
qed

definition prep_magic :: "rw_task list \<Rightarrow> nat \<Rightarrow> u64" where
  "prep_magic tasks i = (\<Sum>k<i. num_blocks (tasks ! k))"

text \<open>The first stage writes the file of task \<open>i\<close> with the magics from \<open>prep_magic tasks i\<close> on.\<close>

lemma task_path_Inr: "task_path dir s i = Inr p \<longleftrightarrow> p = dir @ ''/'' @ s @ decimal i \<and> length p < 128"
  by (auto simp: task_path_def copy_path_def)

lemma prepare_workload_ok:
  assumes "prepare_workload io dir g tasks fs = Inr fs'" and "\<forall>p. complete_io g (io p)" and "i < length tasks"
  obtains f where "fs' (dir @ ''/pre-'' @ decimal i) = Some f"
    "\<And>b. b < unat (num_blocks (tasks ! i)) \<Longrightarrow> file_block g f b = block_data (io (dir @ ''/pre-'' @ decimal i)) g (prep_magic tasks i + of_nat b)"
proof -
  let ?path = "\<lambda>i. dir @ ''/pre-'' @ decimal i"
  let ?I = "\<lambda>n s. fst s = prep_magic tasks n \<and> (\<forall>i<n. \<exists>f. snd s (?path i) = Some f \<and>
    (\<forall>b<unat (num_blocks (tasks ! i)). file_block g f b = block_data (io (?path i)) g (prep_magic tasks i + of_nat b)))"
  have "foldR (prepare_step io dir g tasks) [0..<n] (0, fs) = Inr s \<Longrightarrow> n \<le> length tasks \<Longrightarrow> ?I n s" for n s
  proof (induction n arbitrary: s)
    case (Suc n)
    obtain s0 where s0: "foldR (prepare_step io dir g tasks) [0..<n] (0, fs) = Inr s0" "prepare_step io dir g tasks n s0 = Inr s"
      using Suc.prems(1) by (auto simp: foldR_append bindR_eq_Inr)
    have IH: "?I n s0"
      using Suc.IH [OF s0(1)] Suc.prems(2) by simp
    have "complete_io g (io (?path n))"
      using assms(2) by blast
    then obtain f' where f': "make_file (io (?path n)) (unat (num_blocks (tasks ! n))) (fst s0) g (snd s0 (?path n)) = (0, Some f')"
        "\<And>b. b < unat (num_blocks (tasks ! n)) \<Longrightarrow> file_block g f' b = block_data (io (?path n)) g (fst s0 + of_nat b)"
      by (rule make_file_complete [where n = "unat (num_blocks (tasks ! n))" and m = "fst s0" and f = "snd s0 (?path n)"]) blast
    have s: "s = (fst s0 + num_blocks (tasks ! n), (snd s0)(?path n := Some f'))"
      using s0(2) Suc.prems(2) f'(1) by (auto simp: prepare_step_def split_beta bindR_eq_Inr task_path_Inr)
    show ?case
      using IH f'(2) by (auto simp: s prep_magic_def less_Suc_eq)
  qed (simp add: prep_magic_def)
  then have "?I (length tasks) (0 + prep_magic tasks (length tasks), fs')"
    using assms(1) by (force simp: prepare_workload_def bindR_eq_Inr)
  then show thesis
    using assms(3) that by auto
qed

subsection \<open>Repeated and new blocks\<close>

lemma length_layout: "length (task_layout R W all rb wb) = R + W"
  by (simp add: task_layout_def)

lemma layout_nth:
  "i < R \<Longrightarrow> task_layout R W all rb wb ! i = make_task (of_nat i * rb) rb True (of_nat i)"
  "j < W \<Longrightarrow> task_layout R W all rb wb ! (R + j) = make_task (all + of_nat j * wb) wb False (of_nat j + of_nat R)"
  by (simp_all add: task_layout_def nth_append)

lemma layout_prep:
  "i \<le> R \<Longrightarrow> prep_magic (task_layout R W all rb wb) i = of_nat i * rb"
  "j \<le> W \<Longrightarrow> prep_magic (task_layout R W all rb wb) (R + j) = of_nat R * rb + of_nat j * wb"
proof -
  show r: "prep_magic (task_layout R W all rb wb) i = of_nat i * rb" if "i \<le> R" for i
    using that by (induction i) (simp_all add: prep_magic_def layout_nth make_task_def algebra_simps)
  show "j \<le> W \<Longrightarrow> prep_magic (task_layout R W all rb wb) (R + j) = of_nat R * rb + of_nat j * wb"
  proof (induction j)
    case 0
    then show ?case
      using r [of R] by simp
  next
    case (Suc j)
    then show ?case
      by (simp add: prep_magic_def layout_nth make_task_def algebra_simps)
  qed
qed

text \<open>Where the blocks of the tasks are, as numbers: prepared ones below the total, new ones above.\<close>

lemma prep_numbers:
  assumes "R * unat rb + W * unat wb \<le> unat all" and "i < R + W" and "b < unat (num_blocks (task_layout R W all rb wb ! i))"
  obtains k where "prep_magic (task_layout R W all rb wb) i + of_nat b = of_nat k" "k < unat all"
proof (cases "i < R")
  case True
  have "i * unat rb + unat rb \<le> R * unat rb"
    using True mult_le_mono1 [of "Suc i" R "unat rb"] by simp
  moreover have "b < unat rb"
    using assms(3) True by (simp add: layout_nth make_task_def)
  ultimately show thesis
    using that [of "i * unat rb + b"] assms(1) True by (simp add: layout_prep)
next
  case False
  then obtain j where j: "i = R + j" "j < W"
    using assms(2) by (intro that [of "i - R"]) auto
  have "j * unat wb + unat wb \<le> W * unat wb"
    using j(2) mult_le_mono1 [of "Suc j" W "unat wb"] by simp
  moreover have "b < unat wb"
    using assms(3) j by (simp add: layout_nth make_task_def)
  ultimately show thesis
    using that [of "R * unat rb + j * unat wb + b"] assms(1) j by (simp add: layout_prep)
qed

lemma fresh_numbers:
  assumes "R * unat rb + W * unat wb \<le> unat all" and "j < W" and "b < unat wb"
  shows "start_magic (task_layout R W all rb wb ! (R + j)) + of_nat b = of_nat (unat all + j * unat wb + b)"
    "unat all + j * unat wb + b < 2 * unat all"
proof -
  have "j * unat wb + unat wb \<le> W * unat wb"
    using assms(2) mult_le_mono1 [of "Suc j" W "unat wb"] by simp
  then show "unat all + j * unat wb + b < 2 * unat all"
    using assms(1,3) by linarith
  show "start_magic (task_layout R W all rb wb ! (R + j)) + of_nat b = of_nat (unat all + j * unat wb + b)"
    using assms(2) by (simp add: layout_nth make_task_def)
qed

lemma of_nat_u64: "a < 2 ^ 64 \<Longrightarrow> b < 2 ^ 64 \<Longrightarrow> (of_nat a :: u64) = of_nat b \<longleftrightarrow> a = b"
  by (metis unat_of_small)

lemma block_number: 
  fixes w j j' b b' :: nat
  assumes "j * w + b = j' * w + b'" "b < w" "b' < w"
  shows "j = j' \<and> b = b'"
proof -
  have "(j * w + b) div w = j" "(j' * w + b') div w = j'"
    using assms(2,3) by simp_all
  then show ?thesis
    using assms(1) by simp
qed

lemma layout_writer:
  assumes "j < R + W" "\<not> dup (task_layout R W all rb wb ! j)"
  obtains k where "j = R + k" "k < W" "num_blocks (task_layout R W all rb wb ! j) = wb"
proof (cases "j < R")
  case False
  then show thesis
    using that [of "j - R"] layout_nth(2) [of "j - R" W R all rb wb] assms(1) by (simp add: make_task_def)
qed (use assms(2) in \<open>simp add: layout_nth make_task_def\<close>)

lemma layout_reader:
  assumes "i < R + W" "dup (task_layout R W all rb wb ! i)"
  shows "start_magic (task_layout R W all rb wb ! i) = prep_magic (task_layout R W all rb wb) i"
proof (cases "i < R")
  case False
  then show ?thesis
    using layout_nth(2) [of "i - R" W R all rb wb] assms by (simp add: make_task_def)
qed (simp add: layout_nth layout_prep make_task_def)

lemma new_magic:
  assumes fit: "R * unat rb + W * unat wb \<le> unat all" and small: "2 * unat all < 2 ^ 64"
    and j: "j < R + W" "\<not> dup (task_layout R W all rb wb ! j)" "c < unat (num_blocks (task_layout R W all rb wb ! j))"
  obtains k where "j = R + k" "c < unat wb" "unat all + k * unat wb + c < 2 ^ 64"
    "start_magic (task_layout R W all rb wb ! j) + of_nat c = of_nat (unat all + k * unat wb + c)"
proof -
  obtain k where k: "j = R + k" "k < W" "num_blocks (task_layout R W all rb wb ! j) = wb"
    by (rule layout_writer [OF j(1,2)])
  have c: "c < unat wb"
    using j(3) k(3) by simp
  show thesis
    using that [OF k(1) c] fresh_numbers [OF fit k(2) c] small k(1) by simp
qed

text \<open>New magics are neither among the prepared ones nor among those of other tasks.\<close>

lemma new_magic_apart:
  assumes fit: "R * unat rb + W * unat wb \<le> unat all" and small: "2 * unat all < 2 ^ 64" and tasks: "tasks = task_layout R W all rb wb"
    and i: "i < R + W" "b < unat (num_blocks (tasks ! i))"
    and j: "j < R + W" "\<not> dup (tasks ! j)" "c < unat (num_blocks (tasks ! j))"
  shows "prep_magic tasks i + of_nat b \<noteq> start_magic (tasks ! j) + of_nat c"
    "(i, b) \<noteq> (j, c) \<Longrightarrow> start_magic (tasks ! i) + of_nat b \<noteq> start_magic (tasks ! j) + of_nat c"
proof -
  obtain l where l: "j = R + l" "c < unat wb" "unat all + l * unat wb + c < 2 ^ 64"
      "start_magic (tasks ! j) + of_nat c = of_nat (unat all + l * unat wb + c)"
    by (rule new_magic [OF fit small j [unfolded tasks]]) (simp add: tasks)
  obtain k where k: "prep_magic tasks i + of_nat b = of_nat k" "k < unat all"
    by (rule prep_numbers [OF fit i [unfolded tasks]]) (simp add: tasks)
  show pre: "prep_magic tasks i + of_nat b \<noteq> start_magic (tasks ! j) + of_nat c"
    unfolding k(1) l(4) using of_nat_u64 [of k "unat all + l * unat wb + c"] k(2) l(3) by simp
  show "start_magic (tasks ! i) + of_nat b \<noteq> start_magic (tasks ! j) + of_nat c" if "(i, b) \<noteq> (j, c)"
  proof (cases "dup (tasks ! i)")
    case True
    then show ?thesis
      using pre layout_reader [OF i(1), of all rb wb] by (simp add: tasks)
  next
    case False
    obtain m where m: "i = R + m" "b < unat wb" "unat all + m * unat wb + b < 2 ^ 64"
        "start_magic (tasks ! i) + of_nat b = of_nat (unat all + m * unat wb + b)"
      by (rule new_magic [OF fit small i(1) _ i(2) [unfolded tasks]]) (use False in \<open>simp_all add: tasks\<close>)
    have "unat all + m * unat wb + b \<noteq> unat all + l * unat wb + c"
      using block_number [of m "unat wb" b l c] m(1,2) l(1,2) that by auto
    then show ?thesis
      unfolding m(4) l(4) using of_nat_u64 [of "unat all + m * unat wb + b" "unat all + l * unat wb + c"] m(3) l(3) by blast
  qed
qed

text \<open>
  C14: After the first stage the blocks of the second one are what they are meant to be. A reader
  writes the blocks that the file the first stage made for its task holds; every block that a
  writer writes differs from all blocks of the first stage and of all other tasks. This holds
  for all numbers of readers and writers and all divisions of the blocks between them, if
  twice the number of blocks fits in 64 bits and no write falls short.
\<close>

theorem rw_blocks_repeated_or_new:
  assumes "reader_num + writer_num \<noteq> 0" and "make_tasks reader_num writer_num all mo = (ret, tasks)"
    and "2 * unat all < 2 ^ 64" and "8 \<le> g"
    and "prepare_workload io dir g tasks fs = Inr fs'" and "\<forall>p. complete_io g (io p)"
  shows "\<forall>i<length tasks. \<exists>f. fs' (dir @ ''/pre-'' @ decimal i) = Some f \<and>
    (dup (tasks ! i) \<longrightarrow> (\<forall>b<unat (num_blocks (tasks ! i)).
       take (8 * (g div 8)) (file_block g f b) = take (8 * (g div 8)) (block_data io' g (start_magic (tasks ! i) + of_nat b)))) \<and>
    (\<forall>j<length tasks. \<not> dup (tasks ! j) \<longrightarrow> (\<forall>b<unat (num_blocks (tasks ! i)). \<forall>c<unat (num_blocks (tasks ! j)).
       file_block g f b \<noteq> block_data io' g (start_magic (tasks ! j) + of_nat c))) \<and>
    (\<forall>j<length tasks. \<not> dup (tasks ! j) \<longrightarrow> (\<forall>b<unat (num_blocks (tasks ! i)). \<forall>c<unat (num_blocks (tasks ! j)).
       (i, b) \<noteq> (j, c) \<longrightarrow> block_data io' g (start_magic (tasks ! i) + of_nat b) \<noteq> block_data io' g (start_magic (tasks ! j) + of_nat c)))"
proof (intro allI impI)
  fix i assume i: "i < length tasks"
  obtain rb wb where tasks: "tasks = task_layout (unat reader_num) (unat writer_num) all rb wb"
      and fit: "unat reader_num * unat rb + unat writer_num * unat wb \<le> unat all"
    by (rule make_tasks_layout [OF assms(1), of all mo]) (use assms(2) in simp)
  note len = length_layout [of "unat reader_num" "unat writer_num" all rb wb, folded tasks]
  note apart = new_magic_apart [OF fit assms(3) tasks, folded len, OF i]
  have same: "start_magic (tasks ! i) = prep_magic tasks i" if "dup (tasks ! i)"
    using layout_reader [of i "unat reader_num" "unat writer_num" all rb wb] that i by (simp add: tasks len [unfolded tasks])
  obtain f where f: "fs' (dir @ ''/pre-'' @ decimal i) = Some f"
    "\<And>b. b < unat (num_blocks (tasks ! i)) \<Longrightarrow> file_block g f b = block_data (io (dir @ ''/pre-'' @ decimal i)) g (prep_magic tasks i + of_nat b)"
    using prepare_workload_ok [OF assms(5,6) i] by blast
  have words: "take (8 * (g div 8)) (block_data x g v) = concat (replicate (g div 8) (le_bytes64 v))" for x v
    by (simp add: block_data_def length_words)
  have ne: "v \<noteq> v' \<Longrightarrow> block_data x g v \<noteq> block_data x' g v'" for x x' v v'
    using block_data_inj [OF assms(4)] by blast
  show "\<exists>f. fs' (dir @ ''/pre-'' @ decimal i) = Some f \<and>
    (dup (tasks ! i) \<longrightarrow> (\<forall>b<unat (num_blocks (tasks ! i)).
       take (8 * (g div 8)) (file_block g f b) = take (8 * (g div 8)) (block_data io' g (start_magic (tasks ! i) + of_nat b)))) \<and>
    (\<forall>j<length tasks. \<not> dup (tasks ! j) \<longrightarrow> (\<forall>b<unat (num_blocks (tasks ! i)). \<forall>c<unat (num_blocks (tasks ! j)).
       file_block g f b \<noteq> block_data io' g (start_magic (tasks ! j) + of_nat c))) \<and>
    (\<forall>j<length tasks. \<not> dup (tasks ! j) \<longrightarrow> (\<forall>b<unat (num_blocks (tasks ! i)). \<forall>c<unat (num_blocks (tasks ! j)).
       (i, b) \<noteq> (j, c) \<longrightarrow> block_data io' g (start_magic (tasks ! i) + of_nat b) \<noteq> block_data io' g (start_magic (tasks ! j) + of_nat c)))"
    by (intro exI [of _ f] conjI allI impI f(1)) (simp_all add: f(2) same words, (intro ne apart; simp)+)
qed

definition demo_io :: rw_io where
  "demo_io = \<lparr>io_open = True, io_write = (\<lambda>_. Some 8), io_junk = (\<lambda>_. 0)\<rparr>"

lemma demo_tasks: "make_tasks 1 1 8 1 = (0, [make_task 0 2 True 0, make_task 8 6 False 1])"
  by code_simp

theorem rw_blocks_repeated_or_new_witness:
  "\<exists>fs' f. prepare_workload (\<lambda>_. demo_io) ''/m'' 8 [make_task 0 2 True 0, make_task 8 6 False 1] (\<lambda>_. None) = Inr fs' \<and>
    fs' ''/m/pre-0'' = Some f \<and> (\<forall>b<2. file_block 8 f b = block_data demo_io 8 (of_nat b)) \<and>
    (\<forall>b<2. \<forall>c<6. file_block 8 f b \<noteq> block_data demo_io 8 (8 + of_nat c))"
proof -
  have dec: "decimal 0 = ''0''" "decimal (Suc 0) = ''1''"
    by code_simp+
  obtain fs' where run: "prepare_workload (\<lambda>_. demo_io) ''/m'' 8 [make_task 0 2 True 0, make_task 8 6 False 1] (\<lambda>_. None) = Inr fs'"
    by (simp add: prepare_workload_def prepare_step_def split_beta task_path_def copy_path_def dec)
  have "\<forall>p::string. complete_io 8 demo_io"
    by (simp add: complete_io_def demo_io_def)
  from rw_blocks_repeated_or_new [OF _ demo_tasks _ _ run this, of demo_io, THEN spec, of 0]
  obtain f where f: "fs' ''/m/pre-0'' = Some f" "\<forall>b<2. take 8 (file_block 8 f b) = take 8 (block_data demo_io 8 (of_nat b))"
      "\<forall>j<Suc (Suc 0). \<not> dup ([make_task 0 2 True 0, make_task 8 6 False 1] ! j) \<longrightarrow> (\<forall>b<2. \<forall>c<unat (num_blocks ([make_task 0 2 True 0, make_task 8 6 False 1] ! j)).
         file_block 8 f b \<noteq> block_data demo_io 8 (start_magic ([make_task 0 2 True 0, make_task 8 6 False 1] ! j) + of_nat c))"
    by (auto simp: make_task_def dec)
  have "take 8 (block_data demo_io 8 v) = block_data demo_io 8 v" "take 8 (file_block 8 f b) = file_block 8 f b" for v f b
    by (simp_all add: file_block_def)
  then show ?thesis
    using run f(1,2) spec [OF f(3), of 1] by (auto simp: make_task_def)
qed

end
