(* ===== verification/Rw_Run.thy ===== *)
theory Rw_Run
  imports Rw_Correct
begin

text \<open>
  The second stage of \<^verbatim>\<open>rw_interference\<close> under all schedules: what it reports, and that the
  parameters of the threads are freed too early.
\<close>

abbreviation static :: "rw_task \<Rightarrow> rw_task" where
  "static t \<equiv> t\<lparr>progress := 0\<rparr>"

definition thread_ok :: "nat set \<Rightarrow> nat \<Rightarrow> rw_task \<Rightarrow> rw_thread \<Rightarrow> bool" where
  "thread_ok stopped i task th = (case th of
     Writing_file path b st \<Rightarrow> b \<le> unat (num_blocks task) \<and> progress task = of_nat b
   | Ended \<Rightarrow> i \<in> stopped \<or> progress task = num_blocks task
   | _ \<Rightarrow> progress task = 0)"

lemma thread_ok_simps [simp]:
  "thread_ok stopped i task Not_created \<longleftrightarrow> progress task = 0"
  "thread_ok stopped i task Created \<longleftrightarrow> progress task = 0"
  "thread_ok stopped i task Ended \<longleftrightarrow> i \<in> stopped \<or> progress task = num_blocks task"
  "thread_ok stopped i task (Writing_file path b st) \<longleftrightarrow> b \<le> unat (num_blocks task) \<and> progress task = of_nat b"
  by (simp_all add: thread_ok_def)

definition main_ok :: "int \<Rightarrow> rw_task list \<Rightarrow> rw_system \<Rightarrow> bool" where
  "main_ok mo tasks s = (case rw_main s of
     Creating i \<Rightarrow> \<forall>l<length tasks. i \<le> l \<longrightarrow> rw_threads s ! l = Not_created
   | Joining k \<Rightarrow> k \<le> length (joined mo tasks) \<and> (\<forall>l<k. rw_threads s ! (joined mo tasks ! l) = Ended)
   | Cancelling k \<Rightarrow> \<forall>i\<in>set (joined mo tasks). rw_threads s ! i = Ended
   | Finished n \<Rightarrow> n = (\<Sum>i\<leftarrow>joined mo tasks. num_blocks (tasks ! i)))"

definition rw_inv :: "int \<Rightarrow> rw_task list \<Rightarrow> rw_system \<Rightarrow> bool" where
  "rw_inv mo tasks s \<longleftrightarrow> map static (rw_tasks s) = map static tasks \<and> length (rw_threads s) = length tasks \<and>
     (\<forall>i<length tasks. thread_ok (set (cancelled mo tasks)) i (rw_tasks s ! i) (rw_threads s ! i)) \<and>
     rw_cancelled s \<subseteq> set (cancelled mo tasks) \<and> main_ok mo tasks s"

lemma static_fields:
  assumes "map static xs = map static ys"
  shows "length xs = length ys" "i < length ys \<Longrightarrow> num_blocks (xs ! i) = num_blocks (ys ! i)" "num_readers xs = num_readers ys"
    "joined mo xs = joined mo ys" "cancelled mo xs = cancelled mo ys"
proof -
  show len: "length xs = length ys"
    using assms map_eq_imp_length_eq by blast
  have eq: "static (xs ! i) = static (ys ! i)" if "i < length ys" for i
    using assms that len by (metis nth_map)
  show "num_blocks (xs ! i) = num_blocks (ys ! i)" if "i < length ys"
    using arg_cong [OF eq [OF that], of num_blocks] by simp
  have "map dup xs = map dup ys"
    using arg_cong [OF assms, of "map dup"] by (simp add: comp_def)
  then show n: "num_readers xs = num_readers ys"
  proof -
    have "length (filter dup zs) = length (filter id (map dup zs))" for zs :: "rw_task list"
      by (simp add: filter_map comp_def)
    from this [of xs] this [of ys] show ?thesis
      by (simp only: num_readers_def \<open>map dup xs = map dup ys\<close>)
  qed
  show "joined mo xs = joined mo ys" "cancelled mo xs = cancelled mo ys"
    by (simp_all add: joined_def cancelled_def n len)
qed

lemma num_readers_le: "num_readers tasks \<le> length tasks"
  by (simp add: num_readers_def)

lemma joined_not_cancelled: "i \<in> set (joined mo tasks) \<Longrightarrow> i \<notin> set (cancelled mo tasks) \<and> i < length tasks"
  using num_readers_le [of tasks] by (auto simp: joined_def cancelled_def split: if_splits)

lemma run_step_inv:
  assumes inv: "rw_inv mo tasks s" and step: "run_step mo s = Some s'"
  shows "rw_inv mo tasks s'"
proof -
  note st = static_fields [OF conjunct1 [OF inv [unfolded rw_inv_def]]]
  have th: "\<And>i. i < length tasks \<Longrightarrow> thread_ok (set (cancelled mo tasks)) i (rw_tasks s ! i) (rw_threads s ! i)"
    and len: "length (rw_threads s) = length tasks" and canc: "rw_cancelled s \<subseteq> set (cancelled mo tasks)" and m: "main_ok mo tasks s"
    using inv by (auto simp: rw_inv_def)
  show ?thesis
  proof (cases "rw_main s")
    case (Creating i)
    show ?thesis
    proof (cases "i < length tasks")
      case True
      have s': "s' = s\<lparr>rw_threads := (rw_threads s)[i := Created], rw_main := Creating (i + 1)\<rparr>"
        using step Creating True by (simp add: run_step_def Let_def st)
      have "rw_threads s ! i = Not_created"
        using m Creating True by (simp add: main_ok_def)
      then have "thread_ok (set (cancelled mo tasks)) j (rw_tasks s ! j) ((rw_threads s)[i := Created] ! j)" if "j < length tasks" for j
        using th [OF that] len that by (cases "j = i") simp_all
      then show ?thesis
        using inv m Creating len by (simp add: s' rw_inv_def main_ok_def)
    next
      case False
      then have s': "s' = s\<lparr>rw_main := Joining 0\<rparr>"
        using step Creating by (simp add: run_step_def Let_def st)
      show ?thesis
        using inv by (simp add: s' rw_inv_def main_ok_def)
    qed
  next
    case (Joining k)
    then show ?thesis
      using step inv m by (auto simp: run_step_def Let_def st rw_inv_def main_ok_def less_Suc_eq in_set_conv_nth split: if_splits)
  next
    case (Cancelling k)
    show ?thesis
    proof (cases "k < length (cancelled mo tasks)")
      case True
      then show ?thesis
        using step inv m Cancelling by (auto simp: run_step_def Let_def st rw_inv_def main_ok_def)
    next
      case False
      have "progress (rw_tasks s ! i) = num_blocks (tasks ! i)" if "i \<in> set (joined mo tasks)" for i
        using th [of i] m Cancelling joined_not_cancelled [OF that] that st(2) [of i] by (auto simp: thread_ok_def main_ok_def)
      then have "(\<Sum>i\<leftarrow>joined mo tasks. progress (rw_tasks s ! i)) = (\<Sum>i\<leftarrow>joined mo tasks. num_blocks (tasks ! i))"
        by (metis (no_types, lifting) map_eq_conv)
      then show ?thesis
        using False step inv Cancelling by (auto simp: run_step_def Let_def st rw_inv_def main_ok_def)
    qed
  next
    case (Finished n)
    then show ?thesis
      using step by (simp add: run_step_def Let_def)
  qed
qed

definition never_fails :: "(string \<Rightarrow> rw_io) \<Rightarrow> bool" where
  "never_fails io \<longleftrightarrow> (\<forall>p. io_open (io p) \<and> (\<forall>b. io_write (io p) b \<noteq> None))"

lemma round_ok:
  assumes "never_fails io"
  obtains st' where "make_file_round (io p) g m b st = Some st'" "fw_progress st' = b + 1"
proof -
  obtain k where "io_write (io p) b = Some k"
    using assms by (auto simp: never_fails_def)
  then show thesis
    using that by (simp add: make_file_round_def sys_write_def)
qed

lemma same_task:
  fixes s :: rw_system
  assumes "s' = s\<lparr>rw_threads := (rw_threads s)[t := th'], rw_files := F\<rparr>" and "thread_ok stopped t (rw_tasks s ! t) th'"
  shows "\<exists>task' th' fs'. s' = s\<lparr>rw_threads := (rw_threads s)[t := th'], rw_tasks := (rw_tasks s)[t := task'], rw_files := fs'\<rparr> \<and>
    static task' = static (rw_tasks s ! t) \<and> thread_ok stopped t task' th'"
  using assms by (intro exI [of _ "rw_tasks s ! t"] exI [of _ th'] exI [of _ F]) simp

text \<open>What a step of a thread changes.\<close>

lemma task_step_change:
  assumes ok: "never_fails io" and step: "task_step io dir g stop t s = Inr s'"
    and th: "thread_ok stopped t (rw_tasks s ! t) (rw_threads s ! t)"
    and live: "rw_threads s ! t \<notin> {Not_created, Ended}" and stop: "stop \<longrightarrow> t \<in> stopped"
  shows "\<exists>task' th' fs'. s' = s\<lparr>rw_threads := (rw_threads s)[t := th'], rw_tasks := (rw_tasks s)[t := task'], rw_files := fs'\<rparr> \<and>
    static task' = static (rw_tasks s ! t) \<and> thread_ok stopped t task' th'"
proof (cases "rw_threads s ! t")
  case Created
  obtain path where "task_path dir '''' (unat (task_id (rw_tasks s ! t))) = Inr path"
    using step Created by (auto simp: task_step_def bindR_eq_Inr Let_def)
  then have p: "s' = (if stop then s\<lparr>rw_threads := (rw_threads s)[t := Ended]\<rparr>
      else s\<lparr>rw_threads := (rw_threads s)[t := Writing_file path 0 (file_start (rw_files s path))],
        rw_files := (rw_files s)(path := Some (fw_file (file_start (rw_files s path))))\<rparr>)"
    using step Created ok by (auto simp: task_step_def bindR_eq_Inr never_fails_def Let_def)
  show ?thesis
  proof (cases stop)
    case True
    then show ?thesis
      using p stop by (intro same_task [where th' = Ended and F = "rw_files s"]) simp_all
  next
    case False
    have "s' = s\<lparr>rw_threads := (rw_threads s)[t := Writing_file path 0 (file_start (rw_files s path))],
        rw_files := (rw_files s)(path := Some (fw_file (file_start (rw_files s path))))\<rparr>"
      using p False by simp
    then show ?thesis
      by (rule same_task) (use th Created in simp)
  qed
next
  case (Writing_file path b st)
  obtain st' where st': "make_file_round (io path) g (start_magic (rw_tasks s ! t)) b st = Some st'" "fw_progress st' = b + 1"
    by (rule round_ok [OF ok])
  show ?thesis
  proof (cases "stop \<or> \<not> b < unat (num_blocks (rw_tasks s ! t))")
    case True
    then have "s' = s\<lparr>rw_threads := (rw_threads s)[t := Ended]\<rparr>"
      using step Writing_file by (auto simp: task_step_def Let_def)
    moreover have "thread_ok stopped t (rw_tasks s ! t) Ended"
      using th Writing_file True stop by auto
    ultimately show ?thesis
      by (intro same_task [where th' = Ended and F = "rw_files s"]) simp_all
  next
    case False
    let ?task = "(rw_tasks s ! t)\<lparr>progress := of_nat (b + 1)\<rparr>"
    have "s' = s\<lparr>rw_threads := (rw_threads s)[t := Writing_file path (b + 1) st'], rw_tasks := (rw_tasks s)[t := ?task],
        rw_files := (rw_files s)(path := Some (fw_file st'))\<rparr>"
      using step Writing_file False st' by (simp add: task_step_def Let_def)
    moreover have "thread_ok stopped t ?task (Writing_file path (b + 1) st')"
      using False by simp
    ultimately show ?thesis
      by (intro exI [of _ ?task] exI [of _ "Writing_file path (b + 1) st'"] exI conjI) simp_all
  qed
qed (use live in auto)

lemma task_step_inv:
  assumes inv: "rw_inv mo tasks s" and ok: "never_fails io" and t: "t < length (rw_threads s)" "rw_threads s ! t \<notin> {Not_created, Ended}"
    and stop: "stop \<longrightarrow> t \<in> rw_cancelled s" and step: "task_step io dir g stop t s = Inr s'"
  shows "rw_inv mo tasks s'"
proof -
  have th: "\<And>i. i < length tasks \<Longrightarrow> thread_ok (set (cancelled mo tasks)) i (rw_tasks s ! i) (rw_threads s ! i)"
    and len: "length (rw_threads s) = length tasks" and canc: "rw_cancelled s \<subseteq> set (cancelled mo tasks)" and m: "main_ok mo tasks s"
    and static: "map static (rw_tasks s) = map static tasks"
    using inv by (auto simp: rw_inv_def)
  have tt: "t < length tasks" and tl: "t < length (rw_tasks s)"
    using t(1) len static_fields(1) [OF static] by simp_all
  obtain task' th' fs' where s': "s' = s\<lparr>rw_threads := (rw_threads s)[t := th'], rw_tasks := (rw_tasks s)[t := task'], rw_files := fs'\<rparr>"
      and task': "static task' = static (rw_tasks s ! t)" and th': "thread_ok (set (cancelled mo tasks)) t task' th'"
    using task_step_change [OF ok step th [OF tt]] stop canc t(2) by blast
  have "map static ((rw_tasks s)[t := task']) = map static tasks"
  proof -
    have "(map static (rw_tasks s))[t := static (rw_tasks s ! t)] = map static (rw_tasks s)"
      using tl by (metis list_update_id nth_map)
    then show ?thesis
      by (simp only: map_update task' static)
  qed
  moreover have "thread_ok (set (cancelled mo tasks)) j ((rw_tasks s)[t := task'] ! j) ((rw_threads s)[t := th'] ! j)" if "j < length tasks" for j
    using th [OF that] th' t(1) tl by (cases "j = t") simp_all
  moreover have "main_ok mo tasks s'"
  proof -
    have "(rw_threads s)[t := th'] ! j = rw_threads s ! j" if "rw_threads s ! j = Ended \<or> rw_threads s ! j = Not_created" for j
      using that t(2) by (cases "j = t") auto
    then show ?thesis
      using m by (auto simp: main_ok_def s' split: rw_main.splits)
  qed
  ultimately show ?thesis
    using len canc by (simp add: s' rw_inv_def)
qed

lemma rw_start_inv:
  "\<forall>t\<in>set tasks. progress t = 0 \<Longrightarrow> rw_inv mo tasks (run_start tasks fs)"
  by (simp add: rw_inv_def run_start_def main_ok_def)

lemma rw_run_inv:
  assumes "rw_run io dir g mo r0 r" and "r0 = Inr (run_start tasks fs)" and "r = Inr s" and "never_fails io" and "\<forall>t\<in>set tasks. progress t = 0"
  shows "rw_inv mo tasks s"
  using assms
proof (induction arbitrary: s rule: rw_run.induct)
  case start
  then show ?case
    using rw_start_inv by auto
next
  case (more r r')
  from more.hyps(2) show ?case
  proof cases
    case (main s0 s1)
    then have "rw_inv mo tasks s0" and "s = s1"
      using more.IH [OF more.prems(1) _ more.prems(3,4)] more.prems(2) by simp_all
    then show ?thesis
      using main by (auto intro: run_step_inv)
  next
    case (task t s0 stop)
    then have "rw_inv mo tasks s0"
      using more.IH [OF more.prems(1) _ more.prems(3,4)] by simp
    moreover have "task_step io dir g stop t s0 = Inr s"
      using task(2) more.prems(2) by simp
    ultimately show ?thesis
      using task_step_inv [OF _ more.prems(3) task(3,4) task(5)] by blast
  qed
qed


lemma rw_run_main: "rw_run io d g mo r0 (Inr s) \<Longrightarrow> run_step mo s = Some s' \<Longrightarrow> rw_run io d g mo r0 (Inr s')"
  by (rule rw_run.more [OF _ rw_step.main])

lemma rw_run_task:
  "rw_run io d g mo r0 (Inr s) \<Longrightarrow> t < length (rw_threads s) \<Longrightarrow> rw_threads s ! t \<notin> {Not_created, Ended} \<Longrightarrow>
     task_step io d g False t s = r \<Longrightarrow> rw_run io d g mo r0 r"
  using rw_run.more [OF _ rw_step.task [where stop = False]] by blast

text \<open>A run along a schedule that names the main thread (\<open>None\<close>) or a thread that is not cancelled.\<close>

fun rw_exec :: "(string \<Rightarrow> rw_io) \<Rightarrow> string \<Rightarrow> nat \<Rightarrow> int \<Rightarrow> nat option list \<Rightarrow> rw_system \<Rightarrow> rw_system option" where
  "rw_exec io d g mo [] s = Some s"
| "rw_exec io d g mo (None # xs) s = (case run_step mo s of None \<Rightarrow> None | Some s' \<Rightarrow> rw_exec io d g mo xs s')"
| "rw_exec io d g mo (Some t # xs) s = (if t < length (rw_threads s) \<and> rw_threads s ! t \<notin> {Not_created, Ended}
     then case task_step io d g False t s of Inl e \<Rightarrow> None | Inr s' \<Rightarrow> rw_exec io d g mo xs s' else None)"

lemma rw_exec_run: "rw_exec io d g mo xs s = Some s' \<Longrightarrow> rw_run io d g mo r0 (Inr s) \<Longrightarrow> rw_run io d g mo r0 (Inr s')"
  by (induction io d g mo xs s rule: rw_exec.induct)
    (auto split: option.splits sum.splits if_splits intro: rw_run_main rw_run_task)


subsection \<open>Parameters that are freed too early\<close>

lemma run_creates:
  "k \<le> length tasks \<Longrightarrow> rw_run io d g mo (Inr (run_start tasks fs))
     (Inr ((run_start tasks fs)\<lparr>rw_threads := replicate k Created @ replicate (length tasks - k) Not_created, rw_main := Creating k\<rparr>))"
proof (induction k)
  case (Suc k)
  then have len: "length tasks - k = Suc (length tasks - Suc k)"
    by simp
  show ?case
    by (rule rw_run_main [OF Suc.IH])
      (use Suc.prems in \<open>simp_all add: run_step_def run_start_def len list_update_append replicate_app_Cons_same\<close>)
next
  case 0
  have "run_start tasks fs = (run_start tasks fs)\<lparr>rw_threads := replicate 0 Created @ replicate (length tasks - 0) Not_created, rw_main := Creating 0\<rparr>"
    by (simp add: run_start_def)
  then show ?case
    using rw_run.start [of io d g mo "Inr (run_start tasks fs)"] by simp
qed

lemma run_cancels:
  assumes "joined mo tasks = []" and "k \<le> length (cancelled mo tasks)"
  shows "\<exists>C. rw_run io d g mo (Inr (run_start tasks fs))
     (Inr ((run_start tasks fs)\<lparr>rw_threads := replicate (length tasks) Created, rw_cancelled := C, rw_main := Cancelling k\<rparr>))"
  using assms(2)
proof (induction k)
  case (Suc k)
  then obtain C where "rw_run io d g mo (Inr (run_start tasks fs))
     (Inr ((run_start tasks fs)\<lparr>rw_threads := replicate (length tasks) Created, rw_cancelled := C, rw_main := Cancelling k\<rparr>))"
    by (auto dest: Suc_leD)
  from rw_run_main [OF this] show ?case
    using Suc.prems by (intro exI [of _ "insert (cancelled mo tasks ! k) C"]) (simp add: run_step_def run_start_def)
next
  case 0
  let ?s = "(run_start tasks fs)\<lparr>rw_threads := replicate (length tasks) Created\<rparr>"
  have "rw_run io d g mo (Inr (run_start tasks fs)) (Inr (?s\<lparr>rw_main := Creating (length tasks)\<rparr>))"
    using run_creates [of "length tasks" tasks io d g mo fs] by simp
  then have "rw_run io d g mo (Inr (run_start tasks fs)) (Inr (?s\<lparr>rw_main := Joining 0\<rparr>))"
    by (rule rw_run_main) (simp add: run_step_def run_start_def)
  then have "rw_run io d g mo (Inr (run_start tasks fs)) (Inr (?s\<lparr>rw_main := Cancelling 0\<rparr>))"
    by (rule rw_run_main) (simp add: run_step_def run_start_def assms(1))
  then show ?case
    by (intro exI [of _ "{}"]) (simp add: run_start_def)
qed

text \<open>
  When no task is measured, that is for a measured kind without tasks or for an unknown measured
  object, \<^verbatim>\<open>run\<close> waits for no thread: it frees the parameters, and a thread that starts later
  reads them.
\<close>

theorem run_frees_parameters_early:
  assumes "joined mo tasks = []" and "tasks \<noteq> []"
  shows "rw_run io dirpath granularity mo (Inr (run_start tasks fs)) (Inl UseAfterFree)"
proof -
  let ?s = "\<lambda>C m. (run_start tasks fs)\<lparr>rw_threads := replicate (length tasks) Created, rw_cancelled := C, rw_main := m\<rparr>"
  obtain C where "rw_run io dirpath granularity mo (Inr (run_start tasks fs)) (Inr (?s C (Cancelling (length (cancelled mo tasks)))))"
    using run_cancels [OF assms(1)] by blast
  then have "rw_run io dirpath granularity mo (Inr (run_start tasks fs)) (Inr (?s C (Finished 0)))"
    by (rule rw_run_main) (simp add: run_step_def run_start_def assms(1))
  then show ?thesis
    by (rule rw_run_task [where t = 0]) (use assms(2) in \<open>simp_all add: task_step_def run_start_def guardR_def\<close>)
qed

theorem run_frees_parameters_early_witness:
  "rw_run io ''/m'' 4096 1 (Inr (run_start [make_task 0 3 False 0] fs)) (Inl UseAfterFree)"
  by (rule run_frees_parameters_early) (simp_all add: joined_def num_readers_def make_task_def)

end
