(* ===== verification/Rw_Returns.thy ===== *)
theory Rw_Returns
  imports Rw_Run
begin

text \<open>
  The second stage of \<^verbatim>\<open>rw_interference\<close> comes to its end, whether or not writes fail: every step
  lowers a bound on the steps that are left, and the main thread can always go on to its end.
\<close>

subsection \<open>The steps that are left\<close>

definition thread_left :: "rw_task \<Rightarrow> rw_thread \<Rightarrow> nat" where
  "thread_left task th = (case th of Writing_file path b st \<Rightarrow> unat (num_blocks task) - b + 1 | Ended \<Rightarrow> 0 | _ \<Rightarrow> unat (num_blocks task) + 2)"

definition main_left :: "int \<Rightarrow> rw_system \<Rightarrow> nat" where
  "main_left mo s = (let n = length (rw_tasks s); j = length (joined mo (rw_tasks s)); c = length (cancelled mo (rw_tasks s)) in
     case rw_main s of Creating i \<Rightarrow> (n - i) + j + c + 3 | Joining k \<Rightarrow> (j - k) + c + 2 | Cancelling k \<Rightarrow> (c - k) + 1 | Finished _ \<Rightarrow> 0)"

definition rw_left :: "int \<Rightarrow> rw_system \<Rightarrow> nat" where
  "rw_left mo s = main_left mo s + (\<Sum>t<length (rw_threads s). thread_left (rw_tasks s ! t) (rw_threads s ! t))"

definition rw_shape :: "rw_task list \<Rightarrow> rw_system \<Rightarrow> bool" where
  "rw_shape tasks s \<longleftrightarrow> map static (rw_tasks s) = map static tasks \<and> length (rw_threads s) = length tasks \<and>
     (case rw_main s of Creating i \<Rightarrow> \<forall>l<length tasks. i \<le> l \<longrightarrow> rw_threads s ! l = Not_created
      | _ \<Rightarrow> Not_created \<notin> set (rw_threads s)) \<and>
     (\<forall>i. rw_main s = Creating i \<longrightarrow> (\<forall>l<length tasks. l < i \<longrightarrow> rw_threads s ! l \<noteq> Not_created))"

lemma sum_update_less:
  fixes f :: "nat \<Rightarrow> nat"
  assumes "t < n" and "g t < f t" and "\<And>u. u < n \<Longrightarrow> u \<noteq> t \<Longrightarrow> g u = f u"
  shows "(\<Sum>u<n. g u) < (\<Sum>u<n. f u)"
proof (rule sum_strict_mono_ex1)
  show "\<forall>u\<in>{..<n}. g u \<le> f u"
    using assms by (metis lessThan_iff less_imp_le order_refl)
qed (use assms in auto)

text \<open>What a step of a thread changes.\<close>

lemma task_step_shape:
  assumes "task_step io d g stop t s = Inr s'" and "rw_threads s ! t \<notin> {Not_created, Ended}"
  obtains task' th' fs' where "s' = s\<lparr>rw_threads := (rw_threads s)[t := th'], rw_tasks := (rw_tasks s)[t := task'], rw_files := fs'\<rparr>"
    "static task' = static (rw_tasks s ! t)" "th' \<noteq> Not_created" "thread_left task' th' < thread_left (rw_tasks s ! t) (rw_threads s ! t)"
proof -
  let ?task = "rw_tasks s ! t"
  note goal = that
  have same: thesis if "s' = s\<lparr>rw_threads := (rw_threads s)[t := th'], rw_files := fs'\<rparr>" "th' \<noteq> Not_created"
      "thread_left ?task th' < thread_left ?task (rw_threads s ! t)" for th' fs'
    by (rule goal [where th' = th' and task' = ?task and fs' = fs']) (use that in simp_all)
  have ended: thesis if "s' = s\<lparr>rw_threads := (rw_threads s)[t := Ended]\<rparr>"
    by (rule same [where th' = Ended and fs' = "rw_files s"]) (use that assms(2) in \<open>auto simp: thread_left_def split: rw_thread.splits\<close>)
  show thesis
  proof (cases "rw_threads s ! t")
    case Created
    obtain path where "s' = (if stop \<or> \<not> io_open (io path) then s\<lparr>rw_threads := (rw_threads s)[t := Ended]\<rparr>
        else let st = file_start (rw_files s path) in
          s\<lparr>rw_threads := (rw_threads s)[t := Writing_file path 0 st], rw_files := (rw_files s)(path := Some (fw_file st))\<rparr>)"
      using assms(1) Created by (auto simp: task_step_def bindR_eq_Inr Let_def)
    then show thesis
      using ended same [where th' = "Writing_file path 0 (file_start (rw_files s path))"] Created
      by (auto simp: Let_def thread_left_def split: if_splits)
  next
    case (Writing_file path b st)
    show thesis
    proof (cases "stop \<or> \<not> b < unat (num_blocks ?task)")
      case True
      then show thesis
        using ended assms(1) Writing_file by (auto simp: task_step_def Let_def)
    next
      case False
      show thesis
      proof (cases "make_file_round (io path) g (start_magic ?task) b st")
        case None
        then show thesis
          using ended assms(1) Writing_file False by (auto simp: task_step_def Let_def)
      next
        case (Some st')
        then have s': "s' = s\<lparr>rw_threads := (rw_threads s)[t := Writing_file path (b + 1) st'],
           rw_tasks := (rw_tasks s)[t := ?task\<lparr>progress := of_nat (fw_progress st')\<rparr>],
           rw_files := (rw_files s)(path := Some (fw_file st'))\<rparr>"
          using assms(1) Writing_file False by (simp add: task_step_def Let_def)
        show thesis
          by (rule that [OF s']) (use Writing_file False in \<open>simp_all add: thread_left_def diff_less_mono2\<close>)
      qed
    qed
  qed (use assms(2) in auto)
qed

lemma task_step_left:
  assumes shape: "rw_shape tasks s" and step: "task_step io d g stop t s = Inr s'"
    and t: "t < length (rw_threads s)" "rw_threads s ! t \<notin> {Not_created, Ended}"
  shows "rw_shape tasks s' \<and> rw_left mo s' < rw_left mo s"
proof -
  have static: "map static (rw_tasks s) = map static tasks" and len: "length (rw_threads s) = length tasks"
    using shape by (auto simp: rw_shape_def)
  have tl: "t < length (rw_tasks s)"
    using t(1) len static_fields(1) [OF static] by simp
  obtain task' th' fs' where s': "s' = s\<lparr>rw_threads := (rw_threads s)[t := th'], rw_tasks := (rw_tasks s)[t := task'], rw_files := fs'\<rparr>"
    and r: "static task' = static (rw_tasks s ! t)" "th' \<noteq> Not_created" "thread_left task' th' < thread_left (rw_tasks s ! t) (rw_threads s ! t)"
    by (rule task_step_shape [OF step t(2)])
  have "(map static (rw_tasks s))[t := static (rw_tasks s ! t)] = map static (rw_tasks s)"
    using tl by (metis list_update_id nth_map)
  then have static': "map static (rw_tasks s') = map static (rw_tasks s)"
    by (simp add: s' map_update r(1))
  have "rw_shape tasks s'"
    using shape r(2) t set_update_subset_insert [of "rw_threads s" t th'] static static' unfolding rw_shape_def
    by (auto simp: s' nth_list_update split: rw_main.splits)
  moreover have "main_left mo s' = main_left mo s"
    using static_fields [OF static'] by (simp add: main_left_def Let_def s')
  moreover have "(\<Sum>u<length (rw_threads s). thread_left (rw_tasks s' ! u) (rw_threads s' ! u)) <
      (\<Sum>u<length (rw_threads s). thread_left (rw_tasks s ! u) (rw_threads s ! u))"
    by (rule sum_update_less [OF t(1)]) (use r(3) t(1) tl in \<open>simp_all add: s'\<close>)
  ultimately show ?thesis
    by (simp add: rw_left_def s')
qed

lemma rw_leftI:
  assumes "rw_threads s' = tl'" "rw_tasks s' = rw_tasks s" "length tl' = length (rw_threads s)"
    and "\<And>t. t < length (rw_threads s) \<Longrightarrow> thread_left (rw_tasks s ! t) (tl' ! t) = thread_left (rw_tasks s ! t) (rw_threads s ! t)"
    and "main_left mo s' < main_left mo s"
  shows "rw_left mo s' < rw_left mo s"
  using assms by (simp add: rw_left_def)

lemma run_step_left:
  assumes shape: "rw_shape tasks s" and step: "run_step mo s = Some s'"
  shows "rw_shape tasks s' \<and> rw_left mo s' < rw_left mo s"
proof (cases "rw_main s")
  case (Creating i)
  have len: "length (rw_threads s) = length tasks" "length (rw_tasks s) = length tasks"
    and new: "\<And>l. l < length tasks \<Longrightarrow> i \<le> l \<Longrightarrow> rw_threads s ! l = Not_created"
    and old: "\<And>l. l < length tasks \<Longrightarrow> l < i \<Longrightarrow> rw_threads s ! l \<noteq> Not_created"
    using shape Creating static_fields(1) [of "rw_tasks s" tasks] by (simp_all add: rw_shape_def)
  show ?thesis
  proof (cases "i < length tasks")
    case True
    then have s': "s' = s\<lparr>rw_threads := (rw_threads s)[i := Created], rw_main := Creating (i + 1)\<rparr>"
      using step Creating len by (simp add: run_step_def Let_def)
    have "(rw_threads s)[i := Created] ! l = Not_created" if "l < length tasks" "Suc i \<le> l" for l
      using new [of l] that by simp
    moreover have "(rw_threads s)[i := Created] ! l \<noteq> Not_created" if "l < length tasks" "l < Suc i" for l
      using old [of l] that len by (cases "l = i") simp_all
    ultimately have "rw_shape tasks s'"
      using shape len by (simp add: s' rw_shape_def)
    moreover have "rw_left mo s' < rw_left mo s"
      by (rule rw_leftI [where tl' = "(rw_threads s)[i := Created]"])
        (use True new [of i] len Creating in \<open>auto simp: s' main_left_def Let_def nth_list_update thread_left_def\<close>)
    ultimately show ?thesis
      by simp
  next
    case False
    then have s': "s' = s\<lparr>rw_main := Joining 0\<rparr>"
      using step Creating len by (simp add: run_step_def Let_def)
    have "Not_created \<notin> set (rw_threads s)"
      using old False len by (metis in_set_conv_nth le_trans not_le_imp_less order_less_le_trans)
    then have "rw_shape tasks s'"
      using shape by (simp add: s' rw_shape_def)
    moreover have "rw_left mo s' < rw_left mo s"
      by (rule rw_leftI [where tl' = "rw_threads s"]) (use Creating in \<open>simp_all add: s' main_left_def Let_def\<close>)
    ultimately show ?thesis
      by simp
  qed
qed (use shape step in \<open>auto simp: run_step_def Let_def rw_shape_def rw_left_def main_left_def split: if_splits\<close>)

lemma rw_shape_start: "rw_shape tasks (run_start tasks fs)"
  by (simp add: rw_shape_def run_start_def)

lemma rw_step_left:
  assumes "rw_step io d g mo (Inr s) (Inr s')" and "rw_shape tasks s"
  shows "rw_shape tasks s' \<and> rw_left mo s' < rw_left mo s"
  using assms(1)
proof cases
  case main
  then show ?thesis
    using run_step_left assms(2) by simp
next
  case (task t stop)
  then show ?thesis
    using task_step_left [OF assms(2), of io d g stop t s'] by simp
qed

lemma no_step_from_error: "\<not> rw_step io d g mo (Inl e) r"
  by (auto elim: rw_stepE)

lemma rw_run_shape:
  assumes "rw_run io d g mo (Inr (run_start tasks fs)) r" and "r = Inr s"
  shows "rw_shape tasks s"
  using assms
proof (induction arbitrary: s rule: rw_run.induct)
  case start
  then show ?case
    using rw_shape_start by auto
next
  case (more r r')
  then obtain s0 where "r = Inr s0"
    using no_step_from_error by (cases r) auto
  then show ?case
    using more rw_step_left by blast
qed

subsection \<open>There is always a next step\<close>

definition task_paths_fit :: "string \<Rightarrow> rw_task list \<Rightarrow> bool" where
  "task_paths_fit dirpath tasks \<longleftrightarrow> (\<forall>t\<in>set tasks. \<exists>p. task_path dirpath '''' (unat (task_id t)) = Inr p)"

lemma rw_progress:
  assumes shape: "rw_shape tasks s" and fit: "task_paths_fit d tasks" and main: "\<And>n. rw_main s \<noteq> Finished n"
  obtains s' where "rw_step io d g mo (Inr s) (Inr s')"
proof (cases "run_step mo s")
  case (Some s')
  then show thesis
    using that rw_step.main by blast
next
  case None
  have static: "map static (rw_tasks s) = map static tasks"
    using shape by (simp add: rw_shape_def)
  obtain k where k: "rw_main s = Joining k" "k < length (joined mo (rw_tasks s))" "rw_threads s ! (joined mo (rw_tasks s) ! k) \<noteq> Ended"
    using None main by (auto simp: run_step_def Let_def split: rw_main.splits if_splits)
  define t where "t = joined mo (rw_tasks s) ! k"
  have t: "t < length tasks"
    using joined_not_cancelled [of t mo "rw_tasks s"] k(2) static_fields(1) [OF static] by (auto simp: t_def)
  have len: "length (rw_threads s) = length tasks" and new: "Not_created \<notin> set (rw_threads s)"
    using shape k(1) by (simp_all add: rw_shape_def)
  have "rw_threads s ! t \<noteq> Not_created"
    using t len new by (metis nth_mem)
  then have live: "t < length (rw_threads s)" "rw_threads s ! t \<notin> {Not_created, Ended}"
    using t len k(3) by (simp_all add: t_def [symmetric])
  have eq: "static (rw_tasks s ! t) = static (tasks ! t)"
    using static t static_fields(1) [OF static] by (metis nth_map)
  have "task_id (rw_tasks s ! t) = task_id (tasks ! t)"
    using arg_cong [OF eq, of task_id] by simp
  then obtain p where p: "task_path d '''' (unat (task_id (rw_tasks s ! t))) = Inr p"
    using fit nth_mem [OF t] unfolding task_paths_fit_def by metis
  obtain s' where "task_step io d g False t s = Inr s'"
    using p main live(2) by (cases "rw_threads s ! t") (auto simp: task_step_def guardR_def Let_def)
  then show thesis
    using that rw_step.task [of t s False io d g mo] live by simp
qed

lemma rw_reaches_end:
  assumes "rw_shape tasks s" and "task_paths_fit d tasks"
  shows "\<exists>s' n. (rw_step io d g mo)\<^sup>*\<^sup>* (Inr s) (Inr s') \<and> rw_main s' = Finished n"
  using assms(1)
proof (induction "rw_left mo s" arbitrary: s rule: less_induct)
  case less
  show ?case
  proof (cases "\<exists>n. rw_main s = Finished n")
    case False
    then obtain s1 where s1: "rw_step io d g mo (Inr s) (Inr s1)"
      using rw_progress [OF less.prems assms(2)] by blast
    then show ?thesis
      using less.hyps rw_step_left [OF s1 less.prems] by (meson converse_rtranclp_into_rtranclp)
  qed blast
qed

lemma rw_no_infinite_run:
  assumes "rw_shape tasks s"
  shows "\<nexists>f. f 0 = s \<and> (\<forall>i. rw_step io d g mo (Inr (f i)) (Inr (f (Suc i))))"
proof
  assume "\<exists>f. f 0 = s \<and> (\<forall>i. rw_step io d g mo (Inr (f i)) (Inr (f (Suc i))))"
  then obtain f where f: "f 0 = s" "\<And>i. rw_step io d g mo (Inr (f i)) (Inr (f (Suc i)))"
    by blast
  have "rw_shape tasks (f i) \<and> rw_left mo (f i) + i \<le> rw_left mo s" for i
  proof (induction i)
    case (Suc i)
    then show ?case
      using rw_step_left [OF f(2) [of i]] by fastforce
  qed (use f(1) assms in simp)
  from this [of "Suc (rw_left mo s)"] show False
    by simp
qed

text \<open>
  C25: The second stage of \<^verbatim>\<open>rw_interference\<close> returns. From every state that a schedule can lead to
  there is a continuation in which the main thread ends, and no schedule goes on for ever:
  \<^verbatim>\<open>run\<close> cannot wait for a thread that never ends. This holds also when files cannot
  be opened and when writes fail.
\<close>

theorem run_returns:
  assumes "rw_run io dirpath granularity mo (Inr (run_start tasks fs)) (Inr s)" and "task_paths_fit dirpath tasks"
  shows "(\<exists>s' n. (rw_step io dirpath granularity mo)\<^sup>*\<^sup>* (Inr s) (Inr s') \<and> rw_main s' = Finished n) \<and>
    (\<nexists>f. f 0 = s \<and> (\<forall>i. rw_step io dirpath granularity mo (Inr (f i)) (Inr (f (Suc i)))))"
  using rw_reaches_end [OF rw_run_shape [OF assms(1) refl] assms(2)] rw_no_infinite_run [OF rw_run_shape [OF assms(1) refl]] by blast

theorem run_returns_witness:
  "\<exists>s n. (rw_step (\<lambda>_. demo_io) ''/m'' 8 1)\<^sup>*\<^sup>* (Inr (run_start [make_task 0 2 True 0] (\<lambda>_. None))) (Inr s) \<and> rw_main s = Finished n"
proof -
  have "decimal 0 = ''0''"
    by code_simp
  then have "task_paths_fit ''/m'' [make_task 0 2 True 0]"
    by (simp add: task_paths_fit_def make_task_def task_path_def copy_path_def)
  then show ?thesis
    using run_returns [where dirpath = "''/m''", OF rw_run.start] by blast
qed

end
