(* ===== verification/Shuffle_Write.thy ===== *)
theory Shuffle_Write
  imports Rw_Correct
begin

text \<open>
  \<^verbatim>\<open>shuffle_and_write.cpp\<close>: reads the blocks of a file and writes them in a random order into a second
  one. \<^verbatim>\<open>std::random_shuffle\<close> is a parameter that permutes its list. The theorems say when the new
  file holds the same blocks, and what it holds when the file is shorter than a block.
\<close>

subsection \<open>The program\<close>

record shuffle_opts =
  sw_filepath :: string
  sw_granularity :: "int option"

definition shuffle_init :: shuffle_opts where
  "shuffle_init = \<lparr>sw_filepath = [], sw_granularity = None\<rparr>"

definition shuffle_option :: "char \<times> string \<Rightarrow> shuffle_opts \<Rightarrow> shuffle_opts res" where
  "shuffle_option = (\<lambda>(opt, optarg) os.
     if opt = CHR ''f'' then bindR (copy_path optarg) (\<lambda>p. Inr (os\<lparr>sw_filepath := p\<rparr>))
     else if opt = CHR ''g'' then bindR (atol optarg) (\<lambda>n. Inr (os\<lparr>sw_granularity := Some n\<rparr>))
     else Inl (Exit 1))"

text \<open>What the system does: whether the two files open, and how reads and writes end.\<close>

record shuffle_env =
  sw_open_in :: bool
  sw_open_out :: bool
  sw_read :: "nat \<Rightarrow> nat option"
  sw_write :: "nat \<Rightarrow> nat option"

text \<open>\<^verbatim>\<open>read\<close> at a position; nothing is read only at the end of the file.\<close>

definition sys_read :: "nat option \<Rightarrow> os_file \<Rightarrow> nat \<Rightarrow> nat \<Rightarrow> u8 list" where
  "sys_read r f pos n = (case r of None \<Rightarrow> []
     | Some k \<Rightarrow> let avail = file_read f pos n in take (max 1 (min k n)) avail)"

text \<open>The loop that reads block \<open>i\<close> to its place in the buffer. Results of \<^verbatim>\<open>read\<close> are not looked at.\<close>

definition read_block :: "shuffle_env \<Rightarrow> os_file \<Rightarrow> nat \<Rightarrow> nat \<Rightarrow> u8 list \<times> nat \<Rightarrow> (u8 list \<times> nat) res" where
  "read_block env f g i = (\<lambda>(buf, pos).
     let d = (if sw_open_in env then sys_read (sw_read env i) f pos g else []) in
     bindR (write_bytes buf (i * g) d) (\<lambda>buf'. Inr (buf', pos + length d)))"

text \<open>The loop that writes the blocks in the order of \<^verbatim>\<open>map\<close>. Results of \<^verbatim>\<open>write\<close> are not looked at.\<close>

definition write_block :: "shuffle_env \<Rightarrow> u8 list \<Rightarrow> nat list \<Rightarrow> nat \<Rightarrow> nat \<Rightarrow> os_file \<times> nat \<Rightarrow> (os_file \<times> nat) res" where
  "write_block env buf order g i = (\<lambda>(f, pos).
     bindR (array_get order i) (\<lambda>b.
     bindR (guardR (b * g + g \<le> length buf) OutOfBounds) (\<lambda>_.
     case sys_write (sw_write env i) f pos (take g (drop (b * g) buf)) of (ret, f') \<Rightarrow> Inr (f', pos + nat ret))))"

text \<open>
  \<^verbatim>\<open>main\<close>; \<open>junk\<close> is what is in fresh memory. Negative sizes make \<^verbatim>\<open>malloc\<close> fail; otherwise it
  succeeds. The counters of the loops are of type \<^verbatim>\<open>int\<close>.
\<close>

definition shuffle_main ::
  "(nat list \<Rightarrow> nat list) \<Rightarrow> shuffle_env \<Rightarrow> (nat \<Rightarrow> u8) \<Rightarrow> (char \<times> string) list \<Rightarrow> file_system \<Rightarrow> file_system res" where
  "shuffle_main shuffle env junk args fs =
     bindR (foldR shuffle_option args shuffle_init) (\<lambda>os.
     case fs (sw_filepath os) of
       None \<Rightarrow> Inl (Exit 1)
     | Some f \<Rightarrow>
         bindR (initialised (sw_granularity os)) (\<lambda>granularity.
         bindR (guardR (granularity \<noteq> 0) DivByZero) (\<lambda>_.
         bindR (guardR (0 < granularity) (Exit 1)) (\<lambda>_.
         let g = nat granularity; num_blocks = (if flen f div g = 0 then 1 else flen f div g) in
         bindR (guardR (num_blocks < 2 ^ 31) IntOverflow) (\<lambda>_.
         let order = shuffle [0..<num_blocks] in
         bindR (copy_path (sw_filepath os @ ''-shuffled'')) (\<lambda>shuffled_path.
         bindR (foldR (read_block env f g) [0..<num_blocks] (map junk [0..<g * num_blocks], 0)) (\<lambda>(buf, _).
         if sw_open_out env then
           bindR (foldR (write_block env buf order g) [0..<num_blocks] (empty_file, 0)) (\<lambda>(out, _).
           Inr (fs(shuffled_path := Some out)))
         else Inr fs)))))))"

subsection \<open>What is in the buffer\<close>

definition all_read :: "nat \<Rightarrow> shuffle_env \<Rightarrow> bool" where
  "all_read g env \<longleftrightarrow> sw_open_in env \<and> (\<forall>i. \<exists>k\<ge>g. sw_read env i = Some k)"

definition all_written :: "nat \<Rightarrow> shuffle_env \<Rightarrow> bool" where
  "all_written g env \<longleftrightarrow> sw_open_out env \<and> (\<forall>i. \<exists>k\<ge>g. sw_write env i = Some k)"

definition buf_after :: "os_file \<Rightarrow> (nat \<Rightarrow> u8) \<Rightarrow> nat \<Rightarrow> nat \<Rightarrow> u8 list" where
  "buf_after f junk n i = map (\<lambda>j. if j < flen f \<and> j < i then fbyte f j else junk j) [0..<n]"

lemma sys_read_all: "g \<le> k \<Longrightarrow> 0 < g \<Longrightarrow> sys_read (Some k) f pos g = file_read f pos g"
  by (simp add: sys_read_def Let_def file_read_def min_def max_def) arith

lemma put_buf_after:
  assumes "i + g \<le> n"
  shows "put_bytes (buf_after f junk n i) i (file_read f (min i (flen f)) g) = buf_after f junk n (i + g)"
proof (cases "i < flen f")
  case True
  let ?d = "file_read f i g"
  have len: "length ?d = min g (flen f - i)"
    by (simp add: file_read_def)
  have nth: "?d ! j = fbyte f (i + j)" if "j < length ?d" for j
    using that unfolding file_read_def by (subst nth_map) (simp_all add: nth_upt less_diff_conv add.commute)
  have "put_bytes (buf_after f junk n i) i ?d ! j = buf_after f junk n (i + g) ! j" if "j < n" for j
    using that assms nth [of "j - i"] len True
    by (auto simp: put_bytes_def nth_append buf_after_def not_less)
  moreover have "length (put_bytes (buf_after f junk n i) i ?d) = n" "length (buf_after f junk n (i + g)) = n"
    using assms len by (simp_all add: buf_after_def)
  ultimately show ?thesis
    using True by (intro nth_equalityI) (simp_all add: min_def)
next
  case False
  then show ?thesis
    using assms by (auto simp: buf_after_def file_read_def min_def)
qed

lemma read_blocks:
  assumes "all_read g env" and "0 < g" and "m \<le> n"
  shows "foldR (read_block env f g) [0..<m] (map junk [0..<g * n], 0) = Inr (buf_after f junk (n * g) (m * g), min (m * g) (flen f))"
  using assms(3)
proof (induction m)
  case (Suc m)
  obtain k where "sw_read env m = Some k" "g \<le> k"
    using assms(1) by (auto simp: all_read_def)
  then have d: "sys_read (sw_read env m) f (min (m * g) (flen f)) g = file_read f (min (m * g) (flen f)) g"
    using assms(2) by (simp add: sys_read_all)
  have "m * g + g \<le> n * g"
    using Suc.prems mult_le_mono1 [of "Suc m" n g] by simp
  then show ?case
    using Suc d assms(1) put_buf_after [of "m * g" g "n * g" f junk]
    by (simp add: foldR_append read_block_def Let_def all_read_def write_bytes_ok buf_after_def file_read_def add.commute)
qed (simp add: buf_after_def mult.commute)

lemma flen_write_start: "flen (file_write empty_file 0 d) = length d"
  by (simp add: file_write_def empty_file_def)

lemma block_of_list:
  assumes "b < n"
  shows "take g (drop (b * g) (map h [0..<n * g])) = map h [b * g..<b * g + g]"
proof -
  have "b * g + g \<le> n * g"
    using assms mult_le_mono1 [of "Suc b" n g] by simp
  then show ?thesis
    by (simp add: take_map drop_map)
qed

lemma write_blocks_order:
  assumes "all_written g env" and "length order = n" and "\<forall>b\<in>set order. b < n" and "length buf = n * g" and "m \<le> n"
  shows "foldR (write_block env buf order g) [0..<m] (empty_file, 0) =
    Inr (file_write empty_file 0 (concat (map (\<lambda>i. take g (drop (order ! i * g) buf)) [0..<m])), m * g)"
  using assms(5)
proof (induction m)
  case (Suc m)
  let ?d = "\<lambda>i. take g (drop (order ! i * g) buf)"
  have fits: "order ! i * g + g \<le> n * g" if "i < n" for i
    using assms(2,3) that nth_mem [of i order] mult_le_mono1 [of "Suc (order ! i)" n g] by (simp add: Suc_leI add.commute)
  then have len: "length (?d i) = g" if "i < n" for i
    using that assms(4) by (metis add_le_imp_le_diff add.commute length_drop length_take min.absorb2)
  have "length (concat (map ?d [0..<m])) = m * g"
    using len Suc.prems by (induction m) simp_all
  moreover obtain k where k: "sw_write env m = Some k" "g \<le> k"
    using assms(1) by (auto simp: all_written_def)
  then have "sys_write (sw_write env m) f' pos (?d m) = (int g, file_write f' pos (?d m))" for f' pos
    using len [of m] Suc.prems by (simp add: sys_write_def)
  ultimately show ?case
    using Suc fits [of m] assms(2,4) file_write_append [of empty_file 0 "concat (map ?d [0..<m])" "?d m"]
    by (simp add: foldR_append write_block_def add.commute)
qed simp

text \<open>The run of the program in terms of the buffer.\<close>

lemma shuffle_main_result:
  assumes opts: "foldR shuffle_option args shuffle_init = Inr os" and f: "fs (sw_filepath os) = Some f"
    and g: "sw_granularity os = Some (int g)" "0 < g" and path: "length (sw_filepath os) < 119"
    and n: "n = (if flen f div g = 0 then 1 else flen f div g)" "n < 2 ^ 31"
    and perm: "mset (shuffle [0..<n]) = mset [0..<n]" and env: "all_read g env" "all_written g env"
  obtains out where "shuffle_main shuffle env junk args fs = Inr (fs(sw_filepath os @ ''-shuffled'' := Some out))"
    "flen out = n * g" "\<And>i. i < n \<Longrightarrow> shuffle [0..<n] ! i < n"
    "\<And>i. i < n \<Longrightarrow> file_block g out i =
       map (\<lambda>j. if j < flen f then fbyte f j else junk j) [shuffle [0..<n] ! i * g..<shuffle [0..<n] ! i * g + g]"
proof -
  let ?order = "shuffle [0..<n]"
  let ?buf = "buf_after f junk (n * g) (n * g)"
  let ?d = "\<lambda>i. take g (drop (?order ! i * g) ?buf)"
  let ?out = "file_write empty_file 0 (concat (map ?d [0..<n]))"
  have len: "length ?order = n" and set: "set ?order = {0..<n}"
    using mset_eq_length [OF perm] mset_eq_setD [OF perm] by simp_all
  then have ord: "?order ! i < n" if "i < n" for i
    using that nth_mem [of i ?order] by auto
  have buf: "?buf = map (\<lambda>j. if j < flen f then fbyte f j else junk j) [0..<n * g]"
    by (simp add: buf_after_def)
  have d: "?d i = map (\<lambda>j. if j < flen f then fbyte f j else junk j) [?order ! i * g..<?order ! i * g + g]" if "i < n" for i
    unfolding buf by (rule block_of_list [OF ord [OF that]])
  have n0: "0 < n"
    using n(1) by (simp split: if_splits)
  have dlen: "length (concat (map ?d [0..<m])) = m * g" if "m \<le> n" for m
    using that d by (induction m) simp_all
  have flen: "flen ?out = n * g"
    using flen_write_start [of "concat (map ?d [0..<n])"] dlen [OF order_refl] by simp
  have blocks: "file_block g ?out i = ?d i" if "i < n" for i
    using file_block_write [OF dlen [OF order_refl] that, of empty_file]
      concat_block [of n ?d g i] d that by simp
  obtain buf p q where bufs: "buf = ?buf"
      and rd: "foldR (read_block env f g) [0..<n] (map junk [0..<g * n], 0) = Inr (buf, p)"
      and wr: "foldR (write_block env buf ?order g) [0..<n] (empty_file, 0) = Inr (?out, q)"
    using read_blocks [OF env(1) g(2) order_refl [of n], where f = f and junk = junk]
      write_blocks_order [OF env(2) len _ _ order_refl, where buf = ?buf] set by (simp add: buf)
  have go: "initialised (Some (int g)) = Inr (int g)" "copy_path (sw_filepath os @ ''-shuffled'') = Inr (sw_filepath os @ ''-shuffled'')"
    using path by (simp_all add: initialised_def copy_path_def)
  have out: "sw_open_out env"
    using env(2) by (simp add: all_written_def)
  have "shuffle_main shuffle env junk args fs = Inr (fs(sw_filepath os @ ''-shuffled'' := Some ?out))"
    unfolding shuffle_main_def opts bindR.simps f option.case g(1) go Let_def nat_int n(1) [symmetric] rd prod.case wr
    using g(2) n(2) out by simp
  then show thesis
    using that flen ord blocks d by simp
qed

subsection \<open>Correctness\<close>

text \<open>
  C22: The program writes a second file with the same blocks in another order, provided that the
  file is at least one block long, its path fits and all calls are carried out: the new file is
  a whole number of blocks long, and the multiset of its blocks is that of the blocks of the
  file. Bytes after the last whole block are left out.
\<close>

theorem shuffle_permutes_blocks:
  assumes "foldR shuffle_option args shuffle_init = Inr os" and "fs (sw_filepath os) = Some f"
    and "sw_granularity os = Some (int g)" and "0 < g" and "g \<le> flen f" and "flen f div g < 2 ^ 31"
    and "length (sw_filepath os) < 119" and "\<forall>xs. mset (shuffle xs) = mset xs" and "all_read g env" and "all_written g env"
  shows "\<exists>out. shuffle_main shuffle env junk args fs = Inr (fs(sw_filepath os @ ''-shuffled'' := Some out)) \<and>
    flen out = flen f div g * g \<and>
    mset (map (file_block g out) [0..<flen f div g]) = mset (map (file_block g f) [0..<flen f div g])"
proof -
  define n where "n = flen f div g"
  have "n \<noteq> 0"
    using assms(4,5) by (simp add: n_def div_eq_0_iff)
  then have n: "n = (if flen f div g = 0 then 1 else flen f div g)" and small: "n < 2 ^ 31"
    using assms(6) by (simp_all add: n_def)
  have perm: "mset (shuffle [0..<n]) = mset [0..<n]"
    using assms(8) by blast
  obtain out where run: "shuffle_main shuffle env junk args fs = Inr (fs(sw_filepath os @ ''-shuffled'' := Some out))"
    and len: "flen out = n * g" and ord: "\<And>i. i < n \<Longrightarrow> shuffle [0..<n] ! i < n"
    and blk: "\<And>i. i < n \<Longrightarrow> file_block g out i =
       map (\<lambda>j. if j < flen f then fbyte f j else junk j) [shuffle [0..<n] ! i * g..<shuffle [0..<n] ! i * g + g]"
    by (rule shuffle_main_result [where shuffle = shuffle and junk = junk and n = n and fs = fs and os = os and f = f, OF assms(1-4,7) n small perm assms(9,10)]) blast
  have "file_block g out i = file_block g f (shuffle [0..<n] ! i)" if "i < n" for i
  proof -
    have "shuffle [0..<n] ! i * g + g \<le> n * g"
      using mult_le_mono1 [of "Suc (shuffle [0..<n] ! i)" n g] ord [OF that] by (simp add: Suc_leI add.commute)
    also have "n * g \<le> flen f"
      by (simp add: n_def)
    finally show ?thesis
      using blk [OF that] by (simp add: file_block_def)
  qed
  then have "map (file_block g out) [0..<n] = map (file_block g f) (shuffle [0..<n])"
    using mset_eq_length [OF perm] by (intro nth_equalityI) simp_all
  then have "mset (map (file_block g out) [0..<n]) = mset (map (file_block g f) [0..<n])"
    using perm by (simp only: mset_map)
  then show ?thesis
    using run len by (intro exI [of _ out]) (simp add: n_def)
qed

definition demo_shuffle_env :: shuffle_env where
  "demo_shuffle_env = \<lparr>sw_open_in = True, sw_open_out = True, sw_read = (\<lambda>_. Some 8), sw_write = (\<lambda>_. Some 8)\<rparr>"

lemma demo_shuffle_env: "all_read 8 demo_shuffle_env" "all_written 8 demo_shuffle_env"
  by (simp_all add: all_read_def all_written_def demo_shuffle_env_def)

lemma demo_shuffle_opts:
  "foldR shuffle_option [(CHR ''f'', ''/m/a''), (CHR ''g'', ''8'')] shuffle_init = Inr \<lparr>sw_filepath = ''/m/a'', sw_granularity = Some 8\<rparr>"
  by code_simp

theorem shuffle_permutes_blocks_witness:
  "\<exists>out. shuffle_main rev demo_shuffle_env (\<lambda>_. 0) [(CHR ''f'', ''/m/a''), (CHR ''g'', ''8'')]
      (\<lambda>_. Some \<lparr>flen = 20, fbyte = of_nat\<rparr>) = Inr ((\<lambda>_. Some \<lparr>flen = 20, fbyte = of_nat\<rparr>)(''/m/a-shuffled'' := Some out)) \<and>
    flen out = 16 \<and> mset (map (file_block 8 out) [0..<2]) = {#map of_nat [0..<8], map of_nat [8..<16]#}"
proof -
  let ?f = "\<lparr>flen = 20, fbyte = of_nat\<rparr>"
  let ?os = "\<lparr>sw_filepath = ''/m/a'', sw_granularity = Some 8\<rparr>"
  have "map (file_block 8 ?f) [0..<2] = [map of_nat [0..<8], map of_nat [8..<16]]"
    by (simp add: file_block_def upt_rec [of 0] upt_rec [of "Suc 0"])
  then have blocks: "mset (map (file_block 8 ?f) [0..<2]) = {#map of_nat [0..<8], map of_nat [8..<16]#}"
    by simp
  have pre: "(\<lambda>_. Some ?f) (sw_filepath ?os) = Some ?f" "sw_granularity ?os = Some (int 8)" "(0 :: nat) < 8" "8 \<le> flen ?f"
      "flen ?f div 8 < 2 ^ 31" "length (sw_filepath ?os) < 119" "\<forall>xs. mset (rev xs) = mset xs"
    by simp_all
  have "sw_filepath ?os @ ''-shuffled'' = ''/m/a-shuffled''" "flen ?f div 8 = 2"
    by simp_all
  then show ?thesis
    using shuffle_permutes_blocks [where os = ?os and fs = "\<lambda>_. Some ?f" and f = ?f, OF demo_shuffle_opts pre demo_shuffle_env, of "\<lambda>_. 0"]
    unfolding blocks [symmetric] by (simp only:) simp
qed

text \<open>
  A file that is shorter than one block, even an empty one, counts as one block, and the new file
  gets a whole block: the bytes of the file and then what happened to be in the fresh buffer.
\<close>

theorem shuffle_short_file:
  assumes "foldR shuffle_option args shuffle_init = Inr os" and "fs (sw_filepath os) = Some f"
    and "sw_granularity os = Some (int g)" and "flen f < g"
    and "length (sw_filepath os) < 119" and "\<forall>xs. mset (shuffle xs) = mset xs" and "all_read g env" and "all_written g env"
  shows "\<exists>out. shuffle_main shuffle env junk args fs = Inr (fs(sw_filepath os @ ''-shuffled'' := Some out)) \<and>
    flen out = g \<and> file_read out 0 g = file_read f 0 (flen f) @ map junk [flen f..<g]"
proof -
  have n: "1 = (if flen f div g = 0 then 1 else flen f div g)" and g: "0 < g"
    using assms(4) by simp_all
  have perm: "mset (shuffle [0..<1]) = mset [0..<1]"
    using assms(6) by blast
  obtain out where run: "shuffle_main shuffle env junk args fs = Inr (fs(sw_filepath os @ ''-shuffled'' := Some out))"
    and len: "flen out = 1 * g" and ord: "\<And>i. i < 1 \<Longrightarrow> shuffle [0..<1] ! i < 1"
    and blk: "\<And>i. i < 1 \<Longrightarrow> file_block g out i =
       map (\<lambda>j. if j < flen f then fbyte f j else junk j) [shuffle [0..<1] ! i * g..<shuffle [0..<1] ! i * g + g]"
    by (rule shuffle_main_result [where shuffle = shuffle and junk = junk and n = 1 and fs = fs and os = os and f = f, OF assms(1-3) g assms(5) n _ perm assms(7,8)]) auto
  have "[0..<g] = [0..<flen f] @ [flen f..<g]"
    using assms(4) upt_add_eq_append [of 0 "flen f" "g - flen f"] by simp
  then have "file_block g out 0 = map (fbyte f) [0..<flen f] @ map junk [flen f..<g]"
    using blk [of 0] ord [of 0] by simp
  then show ?thesis
    using run len by (intro exI [of _ out]) (simp add: file_read_def file_block_def)
qed

theorem shuffle_short_file_witness:
  "\<exists>out. shuffle_main rev demo_shuffle_env (\<lambda>_. 7) [(CHR ''f'', ''/m/a''), (CHR ''g'', ''8'')]
      (\<lambda>_. Some empty_file) = Inr ((\<lambda>_. Some empty_file)(''/m/a-shuffled'' := Some out)) \<and> flen out = 8"
proof -
  let ?os = "\<lparr>sw_filepath = ''/m/a'', sw_granularity = Some 8\<rparr>"
  have pre: "(\<lambda>_. Some empty_file) (sw_filepath ?os) = Some empty_file" "sw_granularity ?os = Some (int 8)" "flen empty_file < 8"
      "length (sw_filepath ?os) < 119" "\<forall>xs. mset (rev xs) = mset xs"
    by (simp_all add: empty_file_def)
  show ?thesis
    using shuffle_short_file [where os = ?os and fs = "\<lambda>_. Some empty_file" and f = empty_file, OF demo_shuffle_opts pre demo_shuffle_env, of "\<lambda>_. 7"]
    by auto
qed

end
