(* ===== verification/Small_Tools.thy ===== *)
theory Small_Tools
  imports Page_Writer Mt19937ar Replay_Main
begin

text \<open>
  \<^verbatim>\<open>exhaust_nvmm.c\<close>, which writes blocks of random numbers until the device is full, and
  \<^verbatim>\<open>create_files.c\<close>, which creates many empty files.
\<close>

subsection \<open>\<^verbatim>\<open>exhaust_nvmm\<close>\<close>

abbreviation (input) STEP :: nat where "STEP \<equiv> 4096"

text \<open>\<^verbatim>\<open>fill_buf\<close>: the buffer as 1024 words.\<close>

definition fill_buf :: "u32 list \<times> mt19937ar_state \<Rightarrow> u32 list \<times> mt19937ar_state" where
  "fill_buf = fold (\<lambda>i (buf, rng). case genrand_int32 rng of (r, rng') \<Rightarrow> (buf[i := ucast r], rng')) [0..<STEP div 4]"

record exhaust_state =
  ex_file :: os_file
  ex_pos :: nat
  ex_cnt :: nat
  ex_buf :: "u32 list"
  ex_rng :: mt19937ar_state

text \<open>
  The loop, up to the first write that is not of a whole block; its result is returned too. The
  loop ends only if the device does not take all blocks, so the number of rounds is bounded
  by an argument, and \<open>Diverges\<close> stands for more rounds.
\<close>

fun exhaust_loop :: "nat \<Rightarrow> (nat \<Rightarrow> nat option) \<Rightarrow> exhaust_state \<Rightarrow> (exhaust_state \<times> int) res" where
  "exhaust_loop 0 io st = Inl Diverges"
| "exhaust_loop (Suc n) io st = (case fill_buf (ex_buf st, ex_rng st) of (buf, rng) \<Rightarrow>
     case sys_write (io (ex_cnt st)) (ex_file st) (ex_pos st) (concat (map le_bytes32 buf)) of (ret, f) \<Rightarrow>
     let st' = st\<lparr>ex_file := f, ex_pos := ex_pos st + nat ret, ex_buf := buf, ex_rng := rng\<rparr> in
     if ret = int STEP then exhaust_loop n io (st'\<lparr>ex_cnt := ex_cnt st + 1\<rparr>) else Inr (st', ret))"

text \<open>
  \<^verbatim>\<open>main\<close>: the file, the number of blocks and the last result of \<^verbatim>\<open>write\<close>; nothing if the file is
  there already. \<open>opens\<close> says whether the file can be opened or created.
\<close>

definition exhaust_main :: "nat \<Rightarrow> (nat \<Rightarrow> nat option) \<Rightarrow> bool \<Rightarrow> os_file option \<Rightarrow> (os_file \<times> nat \<times> int) option res" where
  "exhaust_main fuel io opens file0 = (
     if file0 \<noteq> None \<and> opens then Inr None
     else bindR (guardR opens (Exit 1)) (\<lambda>_.
       bindR (exhaust_loop fuel io \<lparr>ex_file = empty_file, ex_pos = 0, ex_cnt = 0, ex_buf = replicate (STEP div 4) 0,
         ex_rng = init_genrand mt_static_init 2333\<rparr>) (\<lambda>(st, ret).
       Inr (Some (ex_file st, ex_cnt st, ret)))))"

text \<open>The bytes of \<open>n\<close> numbers of the reference sequence with seed 2333, from the first output on.\<close>

definition random_bytes :: "nat \<Rightarrow> u8 list" where
  "random_bytes n = concat (map (\<lambda>j. le_bytes32 (ref_temper (mt_ref 2333 (MT_N + j)))) [0..<n])"

lemma length_words32: "length (concat (map le_bytes32 ws)) = 4 * length ws"
  by (induction ws) simp_all

lemma length_random_bytes [simp]: "length (random_bytes n) = 4 * n"
  by (induction n) (simp_all add: random_bytes_def)

lemma ucast_up_down: "(ucast (ucast (x :: u32) :: u64) :: u32) = x"
  by (rule bit_word_eqI) (auto simp: bit_simps)

lemma fill_buf_ref:
  assumes "mt_pos s n rng" and "length buf = STEP div 4"
  obtains rng' where "fill_buf (buf, rng) = (map (\<lambda>j. ref_temper (mt_ref s (n + j))) [0..<STEP div 4], rng')" "mt_pos s (n + STEP div 4) rng'"
proof -
  let ?f = "\<lambda>i (buf, rng). case genrand_int32 rng of (r, rng') \<Rightarrow> (buf[i := ucast r :: u32], rng')"
  let ?g = "\<lambda>j. ref_temper (mt_ref s (n + j))"
  have "\<exists>rng'. fold ?f [0..<m] (buf, rng) = (map ?g [0..<m] @ drop m buf, rng') \<and> mt_pos s (n + m) rng'" if "m \<le> length buf" for m
    using that
  proof (induction m)
    case (Suc m)
    then obtain rng1 where IH: "fold ?f [0..<m] (buf, rng) = (map ?g [0..<m] @ drop m buf, rng1)" "mt_pos s (n + m) rng1"
      by auto
    obtain rng2 where g: "genrand_int32 rng1 = (ucast (?g m), rng2)" "mt_pos s (n + m + 1) rng2"
      using genrand_int32_r_step [OF IH(2)] by (auto simp: genrand_int32_eq_r)
    have "(map ?g [0..<m] @ drop m buf)[m := ?g m] = map ?g [0..<Suc m] @ drop (Suc m) buf"
      using Suc.prems by (simp add: list_update_append Cons_nth_drop_Suc [symmetric, of m buf])
    then show ?case
      using IH(1) g by (simp add: ucast_up_down)
  qed (use assms(1) in simp)
  from this [of "STEP div 4"] show thesis
    using assms(2) that by (auto simp: fill_buf_def)
qed

lemma random_bytes_add:
  "random_bytes (m + n) = random_bytes m @ concat (map (\<lambda>j. le_bytes32 (ref_temper (mt_ref 2333 (MT_N + m + j)))) [0..<n])"
proof -
  have "[0..<m + n] = [0..<m] @ map (\<lambda>k. k + m) [0..<n]"
    using map_add_upt [of m n] upt_add_eq_append [of 0 m n] by (simp add: add.commute)
  then show ?thesis
    by (simp add: random_bytes_def comp_def ac_simps)
qed

text \<open>The state after \<open>n\<close> whole blocks.\<close>

definition exhaust_inv :: "nat \<Rightarrow> exhaust_state \<Rightarrow> bool" where
  "exhaust_inv n st \<longleftrightarrow> ex_file st = file_write empty_file 0 (random_bytes (1024 * n)) \<and> ex_pos st = 4096 * n \<and> ex_cnt st = n \<and>
     length (ex_buf st) = 1024 \<and> mt_pos 2333 (MT_N + 1024 * n) (ex_rng st)"

lemma exhaust_round:
  assumes "exhaust_inv n st"
  obtains d buf rng where "fill_buf (ex_buf st, ex_rng st) = (buf, rng)" "concat (map le_bytes32 buf) = d" "length d = 4096"
    "random_bytes (1024 * Suc n) = random_bytes (1024 * n) @ d" "length buf = 1024" "mt_pos 2333 (MT_N + 1024 * Suc n) rng"
proof -
  have inv: "mt_pos 2333 (MT_N + 1024 * n) (ex_rng st)" "length (ex_buf st) = STEP div 4"
    using assms by (simp_all add: exhaust_inv_def)
  obtain rng where r: "fill_buf (ex_buf st, ex_rng st) =
      (map (\<lambda>j. ref_temper (mt_ref 2333 (MT_N + 1024 * n + j))) [0..<STEP div 4], rng)" "mt_pos 2333 (MT_N + 1024 * n + STEP div 4) rng"
    by (rule fill_buf_ref [OF inv])
  let ?d = "concat (map le_bytes32 (map (\<lambda>j. ref_temper (mt_ref 2333 (MT_N + 1024 * n + j))) [0..<STEP div 4]))"
  have app: "random_bytes (1024 * Suc n) = random_bytes (1024 * n) @ ?d"
    using random_bytes_add [of "1024 * n" 1024] by (simp add: comp_def algebra_simps)
  have "length ?d = 4096"
    by (simp only: length_words32 length_map length_upt) simp
  then show thesis
    using that [OF r(1) refl _ app] r(2) by (simp add: algebra_simps)
qed

lemma exhaust_loop_full:
  assumes "exhaust_inv n st" and "io n = Some k" and "4096 \<le> k"
  obtains st' where "exhaust_loop (Suc m) io st = exhaust_loop m io st'" "exhaust_inv (Suc n) st'"
proof -
  obtain d buf rng where r: "fill_buf (ex_buf st, ex_rng st) = (buf, rng)" "concat (map le_bytes32 buf) = d" "length d = 4096"
    "random_bytes (1024 * Suc n) = random_bytes (1024 * n) @ d" "length buf = 1024" "mt_pos 2333 (MT_N + 1024 * Suc n) rng"
    by (rule exhaust_round [OF assms(1)])
  show thesis
    using that assms r file_write_append [of empty_file 0 "random_bytes (1024 * n)" d]
    by (simp add: exhaust_inv_def sys_write_def Let_def)
qed

lemma exhaust_loop_ends:
  assumes "exhaust_inv n st" and "\<forall>k. io n = Some k \<longrightarrow> k < 4096"
  shows "\<exists>st'. exhaust_loop (Suc m) io st = Inr (st', case io n of None \<Rightarrow> - 1 | Some k \<Rightarrow> int k) \<and> ex_cnt st' = n \<and>
    ex_file st' = file_write empty_file 0 (take (4096 * n + (case io n of None \<Rightarrow> 0 | Some k \<Rightarrow> k)) (random_bytes (1024 * Suc n)))"
proof -
  obtain d buf rng where r: "fill_buf (ex_buf st, ex_rng st) = (buf, rng)" "concat (map le_bytes32 buf) = d" "length d = 4096"
    "random_bytes (1024 * Suc n) = random_bytes (1024 * n) @ d" "length buf = 1024" "mt_pos 2333 (MT_N + 1024 * Suc n) rng"
    by (rule exhaust_round [OF assms(1)])
  show ?thesis
    unfolding r(4) using assms r(1-3) file_write_append [of empty_file 0 "random_bytes (1024 * n)"]
    by (auto simp: exhaust_inv_def sys_write_def Let_def split: option.split)
qed

lemma exhaust_start: "exhaust_inv 0 \<lparr>ex_file = empty_file, ex_pos = 0, ex_cnt = 0, ex_buf = replicate (STEP div 4) 0,
    ex_rng = init_genrand mt_static_init 2333\<rparr>"
  using mt_pos_init [of mt_static_init 2333] by (simp add: exhaust_inv_def random_bytes_def init_genrand_eq_r mt_static_init_def)

lemma exhaust_loop_run:
  assumes "exhaust_inv n st"
  shows "exhaust_loop m io st = Inl Diverges \<longleftrightarrow> (\<forall>i<m. \<exists>k\<ge>4096. io (n + i) = Some k)"
    "(\<forall>i<j. \<exists>k\<ge>4096. io (n + i) = Some k) \<Longrightarrow> \<forall>k. io (n + j) = Some k \<longrightarrow> k < 4096 \<Longrightarrow> j < m \<Longrightarrow>
     \<exists>st'. exhaust_loop m io st = Inr (st', case io (n + j) of None \<Rightarrow> - 1 | Some k \<Rightarrow> int k) \<and> ex_cnt st' = n + j \<and>
       ex_file st' = file_write empty_file 0 (take (4096 * (n + j) + (case io (n + j) of None \<Rightarrow> 0 | Some k \<Rightarrow> k)) (random_bytes (1024 * Suc (n + j))))"
proof -
  show "exhaust_loop m io st = Inl Diverges \<longleftrightarrow> (\<forall>i<m. \<exists>k\<ge>4096. io (n + i) = Some k)"
    using assms
  proof (induction m arbitrary: n st)
    case (Suc m)
    show ?case
    proof (cases "\<exists>k\<ge>4096. io n = Some k")
      case True
      then obtain k st' where "exhaust_loop (Suc m) io st = exhaust_loop m io st'" "exhaust_inv (Suc n) st'"
        using exhaust_loop_full [OF Suc.prems] by metis
      then show ?thesis
        using Suc.IH [of "Suc n" st'] True by (auto simp: less_Suc_eq_0_disj simp del: exhaust_loop.simps)
    next
      case False
      then have "\<forall>k. io n = Some k \<longrightarrow> k < 4096"
        using not_less by blast
      then obtain st' where "exhaust_loop (Suc m) io st = Inr st'"
        using exhaust_loop_ends [where io = io, OF Suc.prems, of m] by blast
      moreover have "\<not> (\<forall>i<Suc m. \<exists>k\<ge>4096. io (n + i) = Some k)"
        using False by (metis add.right_neutral zero_less_Suc)
      ultimately show ?thesis
        by (simp del: exhaust_loop.simps)
    qed
  qed simp
  show "\<exists>st'. exhaust_loop m io st = Inr (st', case io (n + j) of None \<Rightarrow> - 1 | Some k \<Rightarrow> int k) \<and> ex_cnt st' = n + j \<and>
       ex_file st' = file_write empty_file 0 (take (4096 * (n + j) + (case io (n + j) of None \<Rightarrow> 0 | Some k \<Rightarrow> k)) (random_bytes (1024 * Suc (n + j))))"
    if "\<forall>i<j. \<exists>k\<ge>4096. io (n + i) = Some k" and "\<forall>k. io (n + j) = Some k \<longrightarrow> k < 4096" and "j < m"
    using assms that
  proof (induction j arbitrary: n st m)
    case 0
    then show ?case
      using exhaust_loop_ends [of n st io "m - 1"] by (simp del: exhaust_loop.simps)
  next
    case (Suc j)
    obtain k where "io n = Some k" "4096 \<le> k"
      using Suc.prems(2) by fastforce
    then obtain st' where "exhaust_loop (Suc (m - 1)) io st = exhaust_loop (m - 1) io st'" "exhaust_inv (Suc n) st'"
      by (rule exhaust_loop_full [OF Suc.prems(1)])
    moreover have "\<forall>i<j. \<exists>k\<ge>4096. io (Suc n + i) = Some k"
      using Suc.prems(2) by (metis Suc_less_eq add_Suc_shift)
    ultimately show ?case
      using Suc.IH [of "Suc n" st' "m - 1"] Suc.prems(3,4) by (simp del: exhaust_loop.simps)
  qed
qed

text \<open>
  C23: \<^verbatim>\<open>exhaust_nvmm\<close> returns exactly if the device does not take all blocks. It then reports the number
  of whole blocks that were written and the result of the last write, and the file holds as
  many bytes of the pseudo-random sequence with seed 2333 as the device took.
\<close>

theorem exhaust_until_full:
  "(exhaust_main fuel io True None = Inl Diverges \<longleftrightarrow> (\<forall>i<fuel. \<exists>k\<ge>4096. io i = Some k)) \<and>
   (\<forall>j<fuel. (\<forall>i<j. \<exists>k\<ge>4096. io i = Some k) \<and> (\<forall>k. io j = Some k \<longrightarrow> k < 4096) \<longrightarrow>
      exhaust_main fuel io True None = Inr (Some (file_write empty_file 0
          (take (4096 * j + (case io j of None \<Rightarrow> 0 | Some k \<Rightarrow> k)) (random_bytes (1024 * Suc j))), j,
        case io j of None \<Rightarrow> - 1 | Some k \<Rightarrow> int k)))"
proof (intro conjI allI impI; (elim conjE)?)
  note run = exhaust_loop_run [OF exhaust_start, of _ io, simplified]
  show "exhaust_main fuel io True None = Inl Diverges \<longleftrightarrow> (\<forall>i<fuel. \<exists>k\<ge>4096. io i = Some k)"
    using run(1) [of fuel] by (auto simp: exhaust_main_def elim!: bindR.elims)
  show "exhaust_main fuel io True None = Inr (Some (file_write empty_file 0
          (take (4096 * j + (case io j of None \<Rightarrow> 0 | Some k \<Rightarrow> k)) (random_bytes (1024 * Suc j))), j, case io j of None \<Rightarrow> - 1 | Some k \<Rightarrow> int k))"
    if "j < fuel" "\<forall>i<j. \<exists>k\<ge>4096. io i = Some k" "\<forall>k. io j = Some k \<longrightarrow> k < 4096" for j
    using run(2) [OF that(2,3,1)] by (auto simp: exhaust_main_def)
qed

theorem exhaust_until_full_witness:
  "exhaust_main 3 (\<lambda>i. if i = 2 then None else Some 4096) True None =
    Inr (Some (file_write empty_file 0 (take 8192 (random_bytes 3072)), 2, - 1))"
  using exhaust_until_full [of 3 "\<lambda>i. if i = 2 then None else Some 4096", THEN conjunct2, THEN spec, of 2] by simp

subsection \<open>\<^verbatim>\<open>create_files\<close>\<close>

text \<open>
  The loop over the numbers of the files; the name is built in an array of 1000 characters. A
  failure ends the program, with the result 0. \<open>creats\<close> and \<open>closes\<close> say which calls succeed.
\<close>

fun create_loop :: "(nat \<Rightarrow> bool) \<Rightarrow> (nat \<Rightarrow> bool) \<Rightarrow> string \<Rightarrow> nat list \<Rightarrow> (string \<Rightarrow> os_file option) \<Rightarrow> (string \<Rightarrow> os_file option) res" where
  "create_loop creats closes base [] fs = Inr fs"
| "create_loop creats closes base (i # is) fs =
     bindR (guardR (length (base @ decimal i) < 1000) OutOfBounds) (\<lambda>_.
     if \<not> creats i then Inr fs
     else let fs' = fs(base @ decimal i := Some empty_file) in
       if closes i then create_loop creats closes base is fs' else Inr fs')"

definition create_files :: "(nat \<Rightarrow> bool) \<Rightarrow> (nat \<Rightarrow> bool) \<Rightarrow> string list \<Rightarrow> (string \<Rightarrow> os_file option) \<Rightarrow> (string \<Rightarrow> os_file option) res" where
  "create_files creats closes args fs = (case args of
     [base, num] \<Rightarrow>
       bindR (guardR (length base < 1000) OutOfBounds) (\<lambda>_.
       bindR (atoi num) (\<lambda>n.
       create_loop creats closes base [0..<nat n] fs))
   | _ \<Rightarrow> Inr fs)"

definition created :: "string \<Rightarrow> nat \<Rightarrow> (string \<Rightarrow> os_file option) \<Rightarrow> string \<Rightarrow> os_file option" where
  "created base n fs p = (if \<exists>i<n. p = base @ decimal i then Some empty_file else fs p)"

lemma create_loop_run:
  assumes "\<forall>i<k. creats i \<and> closes i" and "\<forall>i<n. length base + length (decimal i) < 1000"
    and "k < n \<longrightarrow> \<not> creats k" and "m \<le> k" and "k \<le> n"
  shows "create_loop creats closes base [m..<n] (created base m fs) = Inr (created base k fs)"
  using assms(4,5)
proof (induction "k - m" arbitrary: m)
  case 0
  then show ?case
    using assms(2,3) by (cases "k < n") (simp_all add: upt_conv_Cons)
next
  case (Suc j)
  have "(created base m fs)(base @ decimal m := Some empty_file) = created base (Suc m) fs"
    by (auto simp: created_def less_Suc_eq fun_eq_iff)
  then show ?case
    using Suc.hyps(1) [of "Suc m"] Suc.hyps(2) Suc.prems assms(1,2) by (simp add: upt_conv_Cons Let_def)
qed

text \<open>
  \<^verbatim>\<open>create_files\<close> makes the files that it can make up to the first failure, \<open>k\<close> of them with
  different names, each empty even if it existed, and leaves all other files alone. It stops
  there without an error.
\<close>

theorem create_files_prefix:
  assumes "atoi num = Inr n" and "\<forall>i<nat n. length base + length (decimal i) < 1000"
    and "\<forall>i<k. creats i \<and> closes i" and "k \<le> nat n" and "k < nat n \<longrightarrow> \<not> creats k" and "length base < 1000"
  shows "\<exists>fs'. create_files creats closes [base, num] fs = Inr fs' \<and> card {base @ decimal i | i. i < k} = k \<and>
    (\<forall>p. fs' p = (if p \<in> {base @ decimal i | i. i < k} then Some empty_file else fs p))"
proof -
  have "{base @ decimal i | i. i < k} = (\<lambda>i. base @ decimal i) ` {..<k}"
    by auto
  moreover have "inj_on (\<lambda>i. base @ decimal i) {..<k}"
    by (simp add: inj_on_def)
  ultimately have "card {base @ decimal i | i. i < k} = k"
    by (simp add: card_image)
  moreover have start: "created base 0 fs = fs"
    by (auto simp: created_def)
  have "create_files creats closes [base, num] fs = Inr (created base k fs)"
    using create_loop_run [OF assms(3,2,5) _ assms(4), of 0 fs] assms(1,6) start by (simp add: create_files_def)
  ultimately show ?thesis
    by (auto simp: created_def)
qed

theorem create_files_prefix_witness:
  "\<exists>fs'. create_files (\<lambda>i. i < 2) (\<lambda>_. True) [''/m/f'', ''3''] (\<lambda>_. None) = Inr fs' \<and> fs' ''/m/f1'' = Some empty_file \<and> fs' ''/m/f2'' = None"
proof -
  have dec: "decimal 0 = ''0''" "decimal 1 = ''1''" "decimal 2 = ''2''" and num: "atoi ''3'' = Inr 3"
    by code_simp+
  have "\<forall>i<nat 3. length ''/m/f'' + length (decimal i) < 1000"
  proof (intro allI impI)
    fix i :: nat
    assume "i < nat 3"
    then have "i = 0 \<or> i = 1 \<or> i = 2"
      by auto
    then show "length ''/m/f'' + length (decimal i) < 1000"
      using dec by (elim disjE) simp_all
  qed
  from create_files_prefix [OF num this, of 2 "\<lambda>i. i < 2" "\<lambda>_. True" "\<lambda>_. None"]
  obtain fs' where "create_files (\<lambda>i. i < 2) (\<lambda>_. True) [''/m/f'', ''3''] (\<lambda>_. None) = Inr fs'"
      "\<forall>p. fs' p = (if p \<in> {''/m/f'' @ decimal i | i. i < 2} then Some empty_file else None)"
    by auto
  moreover have "''/m/f1'' = ''/m/f'' @ decimal 1" "''/m/f2'' = ''/m/f'' @ decimal 2"
    by (simp_all only: dec) simp_all
  ultimately show ?thesis
    by (auto simp del: One_nat_def)
qed

end
