(* ===== verification/Copy_Threads.thy ===== *)
theory Copy_Threads
  imports Posix_File
begin

text \<open>
  The copying threads of \<^verbatim>\<open>mcp/src/main.cpp\<close>: \<^verbatim>\<open>cp_func\<close> with its loop over \<^verbatim>\<open>read\<close> and \<^verbatim>\<open>writen\<close>, one
  system call a step, and the threads that run it side by side. Descriptors refer to files
  (\<^verbatim>\<open>inodes\<close>) and keep their own position, so two descriptors of one file are possible.
\<close>

subsection \<open>Descriptors\<close>

record descriptor =
  d_inode :: nat
  d_pos :: nat

record copy_fs =
  inodes :: "nat \<Rightarrow> os_file"
  fds :: "int \<Rightarrow> descriptor option"

text \<open>\<^verbatim>\<open>read\<close>: nothing is transferred only at the end of the file or into an empty buffer.\<close>

definition fd_read :: "nat option \<Rightarrow> int \<Rightarrow> nat \<Rightarrow> copy_fs \<Rightarrow> int \<times> u8 list \<times> copy_fs" where
  "fd_read r fd n fs = (case (r, fds fs fd) of
     (Some k, Some d) \<Rightarrow>
       let avail = file_read (inodes fs (d_inode d)) (d_pos d) n;
           data = (if avail = [] then [] else take (max 1 k) avail) in
       (int (length data), data, fs\<lparr>fds := (fds fs)(fd := Some (d\<lparr>d_pos := d_pos d + length data\<rparr>))\<rparr>)
   | _ \<Rightarrow> (- 1, [], fs))"

definition fd_write :: "nat option \<Rightarrow> int \<Rightarrow> u8 list \<Rightarrow> copy_fs \<Rightarrow> int \<times> copy_fs" where
  "fd_write r fd buf fs = (case (r, fds fs fd) of
     (Some k, Some d) \<Rightarrow>
       let data = take k buf; i = d_inode d in
       (int (length data), fs\<lparr>inodes := (inodes fs)(i := file_write (inodes fs i) (d_pos d) data),
          fds := (fds fs)(fd := Some (d\<lparr>d_pos := d_pos d + length data\<rparr>))\<rparr>)
   | _ \<Rightarrow> (- 1, fs))"

text \<open>A failing \<^verbatim>\<open>close\<close> leaves the descriptor as it is; the program ends then anyway.\<close>

definition fd_close :: "nat option \<Rightarrow> int \<Rightarrow> copy_fs \<Rightarrow> int \<times> copy_fs" where
  "fd_close r fd fs = (if r = None \<or> fds fs fd = None then (- 1, fs) else (0, fs\<lparr>fds := (fds fs)(fd := None)\<rparr>))"

subsection \<open>One thread\<close>

text \<open>
  Where a thread is: before \<^verbatim>\<open>malloc\<close>, before \<^verbatim>\<open>read\<close>, in \<^verbatim>\<open>writen\<close> with the bytes that are left
  to write, before closing the source and before closing the destination of its first job.
\<close>

datatype copy_point = Starting | Reading | Writing "u8 list" | Closing_src | Closing_dst

record copier =
  todo :: "(int \<times> int) list"
  point :: copy_point

text \<open>One round of the loop of \<^verbatim>\<open>writen\<close>; the loop ends when nothing is left.\<close>

definition writen_round :: "nat option \<Rightarrow> int \<Rightarrow> u8 list \<Rightarrow> copy_fs \<Rightarrow> (u8 list \<times> copy_fs) res" where
  "writen_round r fd buf fs = (case fd_write r fd buf fs of (ret, fs') \<Rightarrow>
     bindR (guardR (ret \<noteq> - 1) (Exit 1)) (\<lambda>_. Inr (drop (nat ret) buf, fs')))"

text \<open>\<^verbatim>\<open>cp_func\<close>: \<open>r\<close> is what the system makes of the call of this step, \<open>buf_len\<close> the size of the buffer.\<close>

definition cp_func_step :: "nat option \<Rightarrow> nat \<Rightarrow> copier \<times> copy_fs \<Rightarrow> (copier \<times> copy_fs) res" where
  "cp_func_step r buf_len = (\<lambda>(c, fs).
     case (point c, todo c) of
       (Starting, _) \<Rightarrow> bindR (guardR (r \<noteq> None) (Exit 1)) (\<lambda>_. Inr (c\<lparr>point := Reading\<rparr>, fs))
     | (_, []) \<Rightarrow> Inr (c, fs)
     | (Reading, (src_fd, dst_fd) # _) \<Rightarrow>
         (case fd_read r src_fd buf_len fs of (ret, data, fs') \<Rightarrow>
          bindR (guardR (\<not> ret < 0) (Exit 1)) (\<lambda>_.
          Inr (c\<lparr>point := (if ret = 0 then Closing_src else Writing data)\<rparr>, fs')))
     | (Writing buf, (src_fd, dst_fd) # _) \<Rightarrow>
         bindR (writen_round r dst_fd buf fs) (\<lambda>(buf', fs').
         Inr (c\<lparr>point := (if buf' = [] then Reading else Writing buf')\<rparr>, fs'))
     | (Closing_src, (src_fd, dst_fd) # _) \<Rightarrow>
         (case fd_close r src_fd fs of (ret, fs') \<Rightarrow>
          bindR (guardR (ret \<noteq> - 1) (Exit 1)) (\<lambda>_. Inr (c\<lparr>point := Closing_dst\<rparr>, fs')))
     | (Closing_dst, (src_fd, dst_fd) # rest) \<Rightarrow>
         (case fd_close r dst_fd fs of (ret, fs') \<Rightarrow>
          bindR (guardR (ret \<noteq> - 1) (Exit 1)) (\<lambda>_. Inr (\<lparr>todo = rest, point = Reading\<rparr>, fs'))))"

definition copier_ended :: "copier \<Rightarrow> bool" where
  "copier_ended c \<longleftrightarrow> todo c = [] \<and> point c \<noteq> Starting"

subsection \<open>All threads\<close>

record copy_system =
  cs_copiers :: "copier list"
  cs_fs :: copy_fs

definition copy_start :: "(int \<times> int) list list \<Rightarrow> copy_fs \<Rightarrow> copy_system" where
  "copy_start jobs fs = \<lparr>cs_copiers = map (\<lambda>js. \<lparr>todo = js, point = Starting\<rparr>) jobs, cs_fs = fs\<rparr>"

definition copy_system_step :: "nat option \<Rightarrow> nat \<Rightarrow> nat \<Rightarrow> copy_system \<Rightarrow> copy_system res" where
  "copy_system_step r buf_len t s =
     bindR (cp_func_step r buf_len (cs_copiers s ! t, cs_fs s)) (\<lambda>(c, fs').
     Inr \<lparr>cs_copiers = (cs_copiers s)[t := c], cs_fs = fs'\<rparr>)"

text \<open>
  A step of some thread with some outcome; \<^verbatim>\<open>exit\<close> ends all threads. A write that transfers
  nothing would be repeated for ever; \<open>stall\<close> says whether such outcomes are allowed.
\<close>

inductive copy_step :: "bool \<Rightarrow> nat \<Rightarrow> copy_system res \<Rightarrow> copy_system res \<Rightarrow> bool" for stall buf_len where
  step: "t < length (cs_copiers s) \<Longrightarrow> \<not> copier_ended (cs_copiers s ! t) \<Longrightarrow> stall \<or> r \<noteq> Some 0 \<Longrightarrow>
    copy_step stall buf_len (Inr s) (copy_system_step r buf_len t s)"

inductive_cases copy_stepE: "copy_step stall buf_len r r'"
inductive_simps copy_step_Inl [simp]: "copy_step stall buf_len (Inl e) r'"

definition copied :: "copy_system \<Rightarrow> bool" where
  "copied s \<longleftrightarrow> (\<forall>c\<in>set (cs_copiers s). copier_ended c)"

subsection \<open>Contents of files\<close>

definition contents :: "os_file \<Rightarrow> u8 list" where
  "contents f = map (fbyte f) [0..<flen f]"

lemma length_contents [simp]: "length (contents f) = flen f"
  by (simp add: contents_def)

lemma file_read_contents: "file_read f p n = take n (drop p (contents f))"
  by (rule nth_equalityI) (auto simp: file_read_def contents_def less_diff_conv add.commute)

lemma contents_append: "contents (file_write f (flen f) d) = contents f @ d"
  by (rule nth_equalityI) (auto simp: contents_def nth_append file_write_def)

lemma fd_read_Inr:
  assumes "fds fs fd = Some d" and "r = Some k"
  obtains data where "fd_read r fd n fs = (int (length data), data, fs\<lparr>fds := (fds fs)(fd := Some (d\<lparr>d_pos := d_pos d + length data\<rparr>))\<rparr>)"
    "data = take (length data) (drop (d_pos d) (contents (inodes fs (d_inode d))))"
    "data = [] \<longleftrightarrow> n = 0 \<or> flen (inodes fs (d_inode d)) \<le> d_pos d" "length data \<le> n"
proof -
  let ?avail = "file_read (inodes fs (d_inode d)) (d_pos d) n"
  let ?data = "if ?avail = [] then [] else take (max 1 k) ?avail"
  show thesis
    by (rule that [of ?data])
      (use assms in \<open>auto simp: fd_read_def Let_def file_read_contents min_def\<close>)
qed

end
