(* ===== verification/Job_Queue.thy ===== *)
theory Job_Queue
  imports C_Prelude "HOL-Library.Product_Lexorder"
begin

text \<open>
  How \<^verbatim>\<open>mcp/src/main.cpp\<close> divides the files it has to copy among its threads: the files in order of
  decreasing size, each to the thread that has the fewest bytes to copy so far, which a
  priority queue of pairs of a load and the number of a thread delivers.
\<close>

subsection \<open>Priority queues\<close>

text \<open>The interface of a queue whose top is the least element.\<close>

locale min_queue =
  fixes new :: 'q
    and push :: "'a::linorder \<Rightarrow> 'q \<Rightarrow> 'q"
    and top :: "'q \<Rightarrow> 'a res"
    and pop :: "'q \<Rightarrow> 'q"
    and inv :: "'q \<Rightarrow> bool"
    and elems :: "'q \<Rightarrow> 'a multiset"
  assumes new_ok: "inv new" "elems new = {#}"
    and push_ok: "inv q \<Longrightarrow> inv (push x q)" "inv q \<Longrightarrow> elems (push x q) = add_mset x (elems q)"
    and top_ok: "inv q \<Longrightarrow> elems q \<noteq> {#} \<Longrightarrow> ok (top q) (\<lambda>x. x \<in># elems q \<and> (\<forall>y\<in>#elems q. x \<le> y))"
    and pop_ok: "inv q \<Longrightarrow> top q = Inr x \<Longrightarrow> inv (pop q)"
      "inv q \<Longrightarrow> top q = Inr x \<Longrightarrow> elems (pop q) = elems q - {#x#}"
begin

lemma push_all: "inv q \<Longrightarrow> inv (fold push xs q) \<and> elems (fold push xs q) = mset xs + elems q"
  by (induction xs arbitrary: q) (simp_all add: push_ok)

text \<open>Taking the top and putting it back changed.\<close>

lemma replace_top:
  assumes "inv q" and "elems q = add_mset m M"
  obtains x where "top q = Inr x" "x \<in># elems q" "\<And>y. y \<in># elems q \<Longrightarrow> x \<le> y"
    "\<And>y. inv (push y (pop q))" "\<And>y. elems (push y (pop q)) = add_mset y (elems q - {#x#})"
proof -
  obtain x where x: "top q = Inr x" "x \<in># elems q" "\<And>y. y \<in># elems q \<Longrightarrow> x \<le> y"
    using top_ok [OF assms(1)] assms(2) by (auto simp: ok_def)
  show thesis
    by (rule that [OF x]) (use x(1) assms(1) push_ok pop_ok in auto)
qed

end

text \<open>
  \<^verbatim>\<open>priority_queue<pair<size_t, int>, \<dots>, greater<\<dots>>>\<close> as a list in ascending order. The order of
  the pairs is lexicographic. Reading the top of an empty queue is undefined.
\<close>

type_synonym load_queue = "(u64 \<times> int) list"

definition pq_push :: "u64 \<times> int \<Rightarrow> load_queue \<Rightarrow> load_queue" where
  "pq_push = insort"

definition pq_top :: "load_queue \<Rightarrow> (u64 \<times> int) res" where
  "pq_top q = (case q of [] \<Rightarrow> Inl OutOfBounds | x # _ \<Rightarrow> Inr x)"

definition pq_pop :: "load_queue \<Rightarrow> load_queue" where
  "pq_pop = tl"

interpretation pq: min_queue "[]" pq_push pq_top pq_pop sorted mset
proof unfold_locales
  fix q :: load_queue and x
  show "sorted q \<Longrightarrow> sorted (pq_push x q)" "mset (pq_push x q) = add_mset x (mset q)"
    by (simp_all add: pq_push_def sorted_insort)
  show "sorted q \<Longrightarrow> mset q \<noteq> {#} \<Longrightarrow> ok (pq_top q) (\<lambda>x. x \<in># mset q \<and> (\<forall>y\<in>#mset q. x \<le> y))"
    by (cases q) (auto simp: pq_top_def)
  show "sorted q \<Longrightarrow> pq_top q = Inr x \<Longrightarrow> sorted (pq_pop q)"
    "pq_top q = Inr x \<Longrightarrow> mset (pq_pop q) = mset q - {#x#}"
    by (auto simp: pq_top_def pq_pop_def split: list.splits)
qed simp_all

subsection \<open>Assigning the files\<close>

record file_work =
  fw_size :: u64
  fw_src :: int
  fw_dst :: int

text \<open>\<^verbatim>\<open>operator <\<close>: larger files come first.\<close>

definition file_work_less :: "file_work \<Rightarrow> file_work \<Rightarrow> bool" where
  "file_work_less w rhs \<longleftrightarrow> fw_size rhs < fw_size w"

text \<open>
  What \<^verbatim>\<open>std::sort\<close> promises for an order: a permutation in which no element is less than an
  earlier one. The order of equal elements is left open.
\<close>

definition std_sort :: "('a \<Rightarrow> 'a \<Rightarrow> bool) \<Rightarrow> ('a list \<Rightarrow> 'a list) \<Rightarrow> bool" where
  "std_sort lt srt \<longleftrightarrow> (\<forall>xs. mset (srt xs) = mset xs \<and> sorted_wrt (\<lambda>x y. \<not> lt y x) (srt xs))"

type_synonym job = "int \<times> int"

definition assign_work :: "file_work \<Rightarrow> load_queue \<times> job list list \<Rightarrow> (load_queue \<times> job list list) res" where
  "assign_work work = (\<lambda>(pq, jobs).
     bindR (pq_top pq) (\<lambda>data.
     let pq1 = pq_pop pq; data1 = (fst data + fw_size work, snd data); t = nat (snd data1) in
     bindR (array_get jobs t) (\<lambda>js.
     bindR (array_set jobs t (js @ [(fw_src work, fw_dst work)])) (\<lambda>jobs1.
     Inr (pq_push data1 pq1, jobs1)))))"

text \<open>A vector of a negative length is a vector of a huge length, which throws.\<close>

definition assign_jobs :: "(file_work list \<Rightarrow> file_work list) \<Rightarrow> int \<Rightarrow> file_work list \<Rightarrow> (load_queue \<times> job list list) res" where
  "assign_jobs srt thread_num files =
     (let files1 = srt files; pq = fold (\<lambda>i. pq_push (0, i)) [0..thread_num - 1] [] in
      bindR (guardR (0 \<le> thread_num) Uncaught) (\<lambda>_.
      foldR assign_work files1 (pq, replicate (nat thread_num) [])))"

text \<open>The loop that prints the loads and empties the queue.\<close>

function report_loads :: "load_queue \<Rightarrow> (int \<times> u64) list res" where
  "report_loads pq =
     (if pq = [] then Inr []
      else bindR (pq_top pq) (\<lambda>data.
        bindR (report_loads (pq_pop pq)) (\<lambda>out. Inr ((snd data, fst data) # out))))"
  by auto

termination report_loads
  by (relation "measure length") (auto simp: pq_pop_def)

declare report_loads.simps [simp del]

end
