(* ===== verification/Cp_Dir.thy ===== *)
theory Cp_Dir
  imports Copy_Threads Job_Queue
begin

text \<open>
  The traversal of \<^verbatim>\<open>mcp/src/main.cpp\<close>: \<^verbatim>\<open>cp_dir\<close> walks through the source directory, makes the
  directories and symbolic links of the destination, opens every regular file on both sides
  and collects the pairs of descriptors. No file is closed before its data is copied.
\<close>

subsection \<open>Source and destination\<close>

text \<open>
  The source as \<^verbatim>\<open>readdir\<close> delivers it: the entries of a directory, with their type and what is
  behind their name. \<open>Other_node\<close> stands for types the program ignores, also \<^verbatim>\<open>DT_UNKNOWN\<close>.
\<close>

datatype src_node =
    Reg_node u32 nat
  | Link_node string
  | Dir_node u32 "(string \<times> src_node) list"
  | Other_node

datatype dst_node = DFile u32 nat | DLink string | DDir u32

text \<open>
  What the system decides: which calls fail, by their number; the number of a new descriptor,
  from the open ones; where a symbolic link of the destination leads; what is in fresh
  stack memory. \<open>e_links\<close> bounds the rounds of the loop over \<^verbatim>\<open>readlink\<close>.
\<close>

record walk_env =
  e_fails :: "nat \<Rightarrow> bool"
  e_new_fd :: "int list \<Rightarrow> int"
  e_follow :: "string list \<Rightarrow> string list option"
  e_junk :: "nat \<Rightarrow> nat \<Rightarrow> char"
  e_links :: nat

text \<open>
  \<open>w_open\<close> holds all open descriptors, \<open>w_dirs\<close> the destination directories among them,
  \<open>w_tree\<close> the destination, \<open>w_ino\<close> the number of the next new file.
\<close>

record walk =
  w_fs :: copy_fs
  w_open :: "int list"
  w_dirs :: "int \<Rightarrow> string list option"
  w_tree :: "string list \<Rightarrow> dst_node option"
  w_ino :: nat
  w_files :: "file_work list"
  w_calls :: nat

text \<open>A call whose failure ends the program.\<close>

definition checked :: "walk_env \<Rightarrow> walk \<Rightarrow> walk res" where
  "checked env w = bindR (guardR (\<not> e_fails env (w_calls w)) (Exit 1)) (\<lambda>_. Inr (w\<lparr>w_calls := w_calls w + 1\<rparr>))"

definition close_fd :: "walk_env \<Rightarrow> int \<Rightarrow> walk \<Rightarrow> walk res" where
  "close_fd env fd w = bindR (checked env w) (\<lambda>w1.
     bindR (guardR (fd \<in> set (w_open w1)) (Exit 1)) (\<lambda>_.
     Inr (w1\<lparr>w_open := removeAll fd (w_open w1), w_dirs := (w_dirs w1)(fd := None)\<rparr>)))"

definition resolve :: "walk_env \<Rightarrow> (string list \<Rightarrow> dst_node option) \<Rightarrow> string list \<Rightarrow> string list option" where
  "resolve env tree p = (case tree p of Some (DLink _) \<Rightarrow> e_follow env p | _ \<Rightarrow> Some p)"

subsection \<open>Regular files\<close>

definition open_src :: "walk_env \<Rightarrow> nat \<Rightarrow> walk \<Rightarrow> (int \<times> walk) res" where
  "open_src env ino w = bindR (checked env w) (\<lambda>w1.
     let fd = e_new_fd env (w_open w1) in
     Inr (fd, w1\<lparr>w_open := fd # w_open w1, w_fs := (w_fs w1)\<lparr>fds := (fds (w_fs w1))(fd := Some \<lparr>d_inode = ino, d_pos = 0\<rparr>)\<rparr>\<rparr>))"

text \<open>\<^verbatim>\<open>openat\<close> with \<^verbatim>\<open>O_CREAT | O_TRUNC | O_WRONLY\<close>; the program does not check its result.\<close>

definition openat_dst :: "walk_env \<Rightarrow> int \<Rightarrow> string \<Rightarrow> u32 \<Rightarrow> walk \<Rightarrow> int \<times> walk" where
  "openat_dst env dir_fd name mode w = (
     let w1 = w\<lparr>w_calls := w_calls w + 1\<rparr>; fd = e_new_fd env (w_open w);
         opened = (\<lambda>i tree ino. (fd, w1\<lparr>w_open := fd # w_open w, w_tree := tree, w_ino := ino, w_fs :=
           \<lparr>inodes = (inodes (w_fs w))(i := empty_file), fds = (fds (w_fs w))(fd := Some \<lparr>d_inode = i, d_pos = 0\<rparr>)\<rparr>\<rparr>)) in
     if e_fails env (w_calls w) then (- 1, w1)
     else case w_dirs w dir_fd of None \<Rightarrow> (- 1, w1)
     | Some p \<Rightarrow> (case resolve env (w_tree w) (p @ [name]) of None \<Rightarrow> (- 1, w1)
       | Some q \<Rightarrow> (case w_tree w q of
           None \<Rightarrow> opened (w_ino w) ((w_tree w)(q := Some (DFile mode (w_ino w)))) (w_ino w + 1)
         | Some (DFile _ i) \<Rightarrow> opened i (w_tree w) (w_ino w)
         | Some _ \<Rightarrow> (- 1, w1))))"

definition handle_regular_file :: "walk_env \<Rightarrow> int \<Rightarrow> string \<Rightarrow> u32 \<Rightarrow> nat \<Rightarrow> walk \<Rightarrow> walk res" where
  "handle_regular_file env dst_dir_fd name mode ino w =
     bindR (open_src env ino w) (\<lambda>(src_fd, w1).
     bindR (checked env w1) (\<lambda>w2.
     let size = flen (inodes (w_fs w2) ino) in
     case openat_dst env dst_dir_fd name mode w2 of (dst_fd, w3) \<Rightarrow>
     Inr (w3\<lparr>w_files := w_files w3 @ [\<lparr>fw_size = of_nat size, fw_src = src_fd, fw_dst = dst_fd\<rparr>]\<rparr>)))"

subsection \<open>Symbolic links\<close>

definition symlinkat :: "walk_env \<Rightarrow> string \<Rightarrow> int \<Rightarrow> string \<Rightarrow> walk \<Rightarrow> walk res" where
  "symlinkat env target dst_fd name w = bindR (checked env w) (\<lambda>w1.
     case w_dirs w1 dst_fd of None \<Rightarrow> Inl (Exit 1)
     | Some p \<Rightarrow> bindR (guardR (target \<noteq> [] \<and> w_tree w1 (p @ [name]) = None) (Exit 1)) (\<lambda>_.
         Inr (w1\<lparr>w_tree := (w_tree w1)(p @ [name] := Some (DLink target))\<rparr>)))"

abbreviation (input) LINK_LEN :: nat where "LINK_LEN \<equiv> 256"

text \<open>The string at the beginning of a buffer; without a null character the end of the buffer is passed.\<close>

definition c_string :: "string \<Rightarrow> string res" where
  "c_string buf = (if CHR 0x00 \<in> set buf then Inr (takeWhile (\<lambda>c. c \<noteq> CHR 0x00) buf) else Inl OutOfBounds)"

text \<open>The loop for long targets: every round reads the link from its beginning.\<close>

fun readlink_loop :: "walk_env \<Rightarrow> nat \<Rightarrow> string \<Rightarrow> string \<Rightarrow> walk \<Rightarrow> (string \<times> walk) res" where
  "readlink_loop env 0 link target_str w = Inl Diverges"
| "readlink_loop env (Suc n) link target_str w = bindR (checked env w) (\<lambda>w1.
     let target = take LINK_LEN link; target_str1 = target_str @ target in
     if length target = LINK_LEN then readlink_loop env n link target_str1 w1 else Inr (target_str1, w1))"

definition handle_symbolic_link :: "walk_env \<Rightarrow> int \<Rightarrow> string \<Rightarrow> string \<Rightarrow> walk \<Rightarrow> walk res" where
  "handle_symbolic_link env dst_fd name link w =
     (let junk = e_junk env (w_calls w) in
      bindR (checked env w) (\<lambda>w1.
      let ret = min (length link) LINK_LEN; buf = take LINK_LEN link @ map junk [ret..<LINK_LEN] in
      if ret < LINK_LEN then bindR (c_string buf) (\<lambda>target. symlinkat env target dst_fd name w1)
      else bindR (readlink_loop env (e_links env) link buf w1) (\<lambda>(target_str, w2).
        symlinkat env target_str dst_fd name w2)))"

subsection \<open>Directories\<close>

text \<open>\<^verbatim>\<open>mkdirat\<close>: an existing name is accepted, whatever it stands for.\<close>

definition mkdirat :: "walk_env \<Rightarrow> int \<Rightarrow> string \<Rightarrow> u32 \<Rightarrow> walk \<Rightarrow> walk res" where
  "mkdirat env dst_fd name mode w = bindR (checked env w) (\<lambda>w1.
     case w_dirs w1 dst_fd of None \<Rightarrow> Inl (Exit 1)
     | Some p \<Rightarrow> Inr (if w_tree w1 (p @ [name]) = None then w1\<lparr>w_tree := (w_tree w1)(p @ [name] := Some (DDir mode))\<rparr> else w1))"

text \<open>\<^verbatim>\<open>openat\<close> with \<^verbatim>\<open>O_DIRECTORY\<close>.\<close>

definition openat_dir :: "walk_env \<Rightarrow> int \<Rightarrow> string \<Rightarrow> walk \<Rightarrow> int \<times> walk" where
  "openat_dir env dst_fd name w = (
     let w1 = w\<lparr>w_calls := w_calls w + 1\<rparr>; fd = e_new_fd env (w_open w) in
     if e_fails env (w_calls w) then (- 1, w1)
     else case w_dirs w dst_fd of None \<Rightarrow> (- 1, w1)
     | Some p \<Rightarrow> (case resolve env (w_tree w) (p @ [name]) of None \<Rightarrow> (- 1, w1)
       | Some q \<Rightarrow> (case w_tree w q of
           Some (DDir _) \<Rightarrow> (fd, w1\<lparr>w_open := fd # w_open w, w_dirs := (w_dirs w)(fd := Some q)\<rparr>)
         | _ \<Rightarrow> (- 1, w1))))"

text \<open>
  Opening the source directory: a failure is noticed by \<^verbatim>\<open>fstat\<close>. The check after the \<^verbatim>\<open>openat\<close> of
  the destination looks at the descriptor of the parent directory.
\<close>

definition enter_dir :: "walk_env \<Rightarrow> int \<Rightarrow> string \<Rightarrow> u32 \<Rightarrow> walk \<Rightarrow> ((int \<times> int) \<times> walk) res" where
  "enter_dir env dst_fd name mode w =
     (let ok1 = (\<not> e_fails env (w_calls w)); src_fd2 = (if ok1 then e_new_fd env (w_open w) else - 1);
          w1 = w\<lparr>w_calls := w_calls w + 1, w_open := (if ok1 then [src_fd2] else []) @ w_open w\<rparr> in
      bindR (checked env w1) (\<lambda>w2.
      bindR (guardR (src_fd2 \<noteq> - 1) (Exit 1)) (\<lambda>_.
      bindR (mkdirat env dst_fd name mode w2) (\<lambda>w3.
      case openat_dir env dst_fd name w3 of (dst_fd2, w4) \<Rightarrow>
      bindR (guardR (dst_fd \<noteq> - 1) (Exit 1)) (\<lambda>_.
      bindR (checked env w4) (\<lambda>w5.
      bindR (checked env w5) (\<lambda>w6.
      Inr ((src_fd2, dst_fd2), w6))))))))"

definition leave_dir :: "walk_env \<Rightarrow> int \<Rightarrow> int \<Rightarrow> walk \<Rightarrow> walk res" where
  "leave_dir env src_fd2 dst_fd2 w =
     bindR (checked env w) (\<lambda>w1. bindR (close_fd env src_fd2 w1) (\<lambda>w2. close_fd env dst_fd2 w2))"

text \<open>
  \<^verbatim>\<open>cp_dir\<close>. The working directory is the one that is read, so a name means the entry itself. The
  end of the entries is where \<^verbatim>\<open>readdir\<close> returns null, at the end of the directory or by an
  error, which the program does not tell apart.
\<close>

fun cp_dir :: "walk_env \<Rightarrow> int \<Rightarrow> (string \<times> src_node) list \<Rightarrow> walk \<Rightarrow> walk res" where
  "cp_dir env dst_fd [] w = Inr w"
| "cp_dir env dst_fd ((name, node) # es) w =
     bindR (if name = ''.'' \<or> name = ''..'' then Inr w
       else (case node of
         Reg_node mode ino \<Rightarrow> handle_regular_file env dst_fd name mode ino w
       | Link_node link \<Rightarrow> handle_symbolic_link env dst_fd name link w
       | Dir_node mode entries \<Rightarrow>
           bindR (enter_dir env dst_fd name mode w) (\<lambda>((src_fd2, dst_fd2), w1).
           bindR (cp_dir env dst_fd2 entries w1) (\<lambda>w2.
           leave_dir env src_fd2 dst_fd2 w2))
       | Other_node \<Rightarrow> Inr w)) (cp_dir env dst_fd es)"

end
