(* ===== verification/Mcp_Main.thy ===== *)
theory Mcp_Main
  imports Cp_Dir Replay_Main
begin

text \<open>
  \<^verbatim>\<open>main\<close> of \<^verbatim>\<open>mcp/src/main.cpp\<close>: the arguments, the directories, the traversal, the assignment of the
  files to the threads and the start of the copying threads.
\<close>

text \<open>\<^verbatim>\<open>basename\<close> of POSIX.\<close>

definition basename :: "string \<Rightarrow> string" where
  "basename path = (let s = dropWhile (\<lambda>c. c = CHR ''/'') (rev path) in
     if path = [] then ''.'' else if s = [] then ''/'' else rev (takeWhile (\<lambda>c. c \<noteq> CHR ''/'') s))"

text \<open>\<^verbatim>\<open>open\<close> of the destination with \<^verbatim>\<open>O_DIRECTORY\<close>, and whether a failure means that it does not exist.\<close>

definition open_root :: "walk_env \<Rightarrow> string list \<Rightarrow> walk \<Rightarrow> int \<times> walk" where
  "open_root env dst_root w = (
     let w1 = w\<lparr>w_calls := w_calls w + 1\<rparr>; fd = e_new_fd env (w_open w) in
     if e_fails env (w_calls w) then (- 1, w1)
     else case resolve env (w_tree w) dst_root of None \<Rightarrow> (- 1, w1)
     | Some q \<Rightarrow> (case w_tree w q of
         Some (DDir _) \<Rightarrow> (fd, w1\<lparr>w_open := fd # w_open w, w_dirs := (w_dirs w)(fd := Some q)\<rparr>)
       | _ \<Rightarrow> (- 1, w1)))"

definition root_missing :: "walk_env \<Rightarrow> string list \<Rightarrow> walk \<Rightarrow> bool" where
  "root_missing env dst_root w \<longleftrightarrow> \<not> e_fails env (w_calls w) \<and>
     (case resolve env (w_tree w) dst_root of None \<Rightarrow> True | Some q \<Rightarrow> w_tree w q = None)"

text \<open>
  Finding the directory to copy to: a new directory with the name of the destination, or, if
  the destination exists, the directory with the name of the source in it.
\<close>

definition open_destination :: "walk_env \<Rightarrow> string list \<Rightarrow> string \<Rightarrow> u32 \<Rightarrow> walk \<Rightarrow> (int \<times> walk) res" where
  "open_destination env dst_root src_path mode w = (case open_root env dst_root w of (dst_fd, w1) \<Rightarrow>
     if dst_fd = - 1 then
       bindR (guardR (root_missing env dst_root w) (Exit 1)) (\<lambda>_.
       bindR (checked env w1) (\<lambda>w2.
       bindR (guardR (w_tree w2 dst_root = None) (Exit 1)) (\<lambda>_.
       case open_root env dst_root (w2\<lparr>w_tree := (w_tree w2)(dst_root := Some (DDir mode))\<rparr>) of (dst_fd1, w3) \<Rightarrow>
       bindR (guardR (dst_fd1 \<noteq> - 1) (Exit 1)) (\<lambda>_. Inr (dst_fd1, w3)))))
     else
       let name = basename src_path in
       bindR (mkdirat env dst_fd name mode w1) (\<lambda>w2.
       case openat_dir env dst_fd name w2 of (dst_fd1, w3) \<Rightarrow>
       bindR (guardR (dst_fd1 \<noteq> - 1) (Exit 1)) (\<lambda>_. Inr (dst_fd1, w3))))"

text \<open>
  \<^verbatim>\<open>main\<close> up to the start of the threads. The result holds the loads that are reported, the size
  of the buffers and the state the threads start from.
\<close>

record mcp_start =
  m_walk :: walk
  m_loads :: "(int \<times> u64) list"
  m_buf_len :: nat
  m_jobs :: "job list list"

definition mcp_setup ::
  "walk_env \<Rightarrow> (file_work list \<Rightarrow> file_work list) \<Rightarrow> src_node option \<Rightarrow> string list \<Rightarrow> string list \<Rightarrow> walk \<Rightarrow> mcp_start res" where
  "mcp_setup env srt source dst_root args w = (case args of
     src_path # dst_path # num_arg # opts \<Rightarrow>
       bindR (atoi num_arg) (\<lambda>thread_num.
       bindR (case opts of [] \<Rightarrow> Inr 4096 | buf_bytes # _ \<Rightarrow> bindR (atoi buf_bytes) (\<lambda>n. Inr (of_int n :: u64))) (\<lambda>buf_len.
       case source of
         Some (Dir_node mode entries) \<Rightarrow>
           let src_fd = e_new_fd env (w_open w) in
           bindR (checked env w) (\<lambda>w1.
           bindR (checked env (w1\<lparr>w_open := src_fd # w_open w1\<rparr>)) (\<lambda>w2.
           bindR (open_destination env dst_root src_path mode w2) (\<lambda>(dst_fd, w3).
           bindR (checked env w3) (\<lambda>w4.
           bindR (checked env w4) (\<lambda>w5.
           bindR (cp_dir env dst_fd entries (w5\<lparr>w_files := []\<rparr>)) (\<lambda>w6.
           bindR (close_fd env src_fd w6) (\<lambda>w7.
           bindR (close_fd env dst_fd w7) (\<lambda>w8.
           bindR (assign_jobs srt thread_num (w_files w8)) (\<lambda>(pq, jobs).
           bindR (report_loads pq) (\<lambda>loads.
           Inr \<lparr>m_walk = w8, m_loads = loads, m_buf_len = unat buf_len, m_jobs = jobs\<rparr>))))))))))
       | _ \<Rightarrow> Inl (Exit 1)))
   | _ \<Rightarrow> Inl (Exit 0))"

definition mcp_threads :: "mcp_start \<Rightarrow> copy_system" where
  "mcp_threads m = copy_start (m_jobs m) (w_fs (m_walk m))"

end
