(* ===== verification/Copy_Correct.thy ===== *)
theory Copy_Correct
  imports Copy_Threads
begin

text \<open>
  Correctness of the copying threads: for all interleavings and all short reads and writes, the
  destinations end up with the contents of the sources, every schedule in which writes
  transfer something ends, and the program gives up exactly when a call fails.
\<close>

subsection \<open>Jobs that do not disturb each other\<close>

definition src_ino :: "copy_fs \<Rightarrow> int \<times> int \<Rightarrow> nat" where
  "src_ino fs job = d_inode (the (fds fs (fst job)))"

definition dst_ino :: "copy_fs \<Rightarrow> int \<times> int \<Rightarrow> nat" where
  "dst_ino fs job = d_inode (the (fds fs (snd job)))"

definition apart :: "copy_fs \<Rightarrow> int \<times> int \<Rightarrow> int \<times> int \<Rightarrow> bool" where
  "apart fs x y \<longleftrightarrow> {fst x, snd x} \<inter> {fst y, snd y} = {} \<and> dst_ino fs x \<noteq> dst_ino fs y"

text \<open>
  All descriptors are different and at the start of their files, the destinations are
  different empty files, and no destination is a source.
\<close>

definition good_jobs :: "copy_fs \<Rightarrow> (int \<times> int) list \<Rightarrow> bool" where
  "good_jobs fs js \<longleftrightarrow> distinct js \<and> (\<forall>x\<in>set js. \<forall>y\<in>set js. x \<noteq> y \<longrightarrow> apart fs x y) \<and>
     (\<forall>x\<in>set js. \<forall>y\<in>set js. src_ino fs x \<noteq> dst_ino fs y) \<and>
     (\<forall>x\<in>set js. fst x \<noteq> snd x \<and> fds fs (fst x) = Some \<lparr>d_inode = src_ino fs x, d_pos = 0\<rparr> \<and>
        fds fs (snd x) = Some \<lparr>d_inode = dst_ino fs x, d_pos = 0\<rparr> \<and> flen (inodes fs (dst_ino fs x)) = 0)"

subsection \<open>The state of one job\<close>

definition job_fresh :: "copy_fs \<Rightarrow> copy_fs \<Rightarrow> int \<times> int \<Rightarrow> bool" where
  "job_fresh fs0 fs x \<longleftrightarrow> fds fs (fst x) = Some \<lparr>d_inode = src_ino fs0 x, d_pos = 0\<rparr> \<and>
     fds fs (snd x) = Some \<lparr>d_inode = dst_ino fs0 x, d_pos = 0\<rparr> \<and> flen (inodes fs (dst_ino fs0 x)) = 0"

abbreviation src_bytes :: "copy_fs \<Rightarrow> int \<times> int \<Rightarrow> u8 list" where
  "src_bytes fs0 x \<equiv> contents (inodes fs0 (src_ino fs0 x))"

abbreviation dst_bytes :: "copy_fs \<Rightarrow> copy_fs \<Rightarrow> int \<times> int \<Rightarrow> u8 list" where
  "dst_bytes fs0 fs x \<equiv> contents (inodes fs (dst_ino fs0 x))"

definition job_finished :: "copy_fs \<Rightarrow> copy_fs \<Rightarrow> int \<times> int \<Rightarrow> bool" where
  "job_finished fs0 fs x \<longleftrightarrow> fds fs (fst x) = None \<and> fds fs (snd x) = None \<and> dst_bytes fs0 fs x = src_bytes fs0 x"

text \<open>A job on the way, by the point its thread is at; what is written is what was read, in order.\<close>

fun job_on_way :: "copy_fs \<Rightarrow> copy_fs \<Rightarrow> copy_point \<Rightarrow> int \<times> int \<Rightarrow> bool" where
  "job_on_way fs0 fs Starting x = job_fresh fs0 fs x"
| "job_on_way fs0 fs Reading x = (\<exists>p. fds fs (fst x) = Some \<lparr>d_inode = src_ino fs0 x, d_pos = p\<rparr> \<and>
     fds fs (snd x) = Some \<lparr>d_inode = dst_ino fs0 x, d_pos = p\<rparr> \<and> dst_bytes fs0 fs x = take p (src_bytes fs0 x) \<and> p \<le> length (src_bytes fs0 x))"
| "job_on_way fs0 fs (Writing buf) x = (\<exists>q. fds fs (fst x) = Some \<lparr>d_inode = src_ino fs0 x, d_pos = q + length buf\<rparr> \<and>
     fds fs (snd x) = Some \<lparr>d_inode = dst_ino fs0 x, d_pos = q\<rparr> \<and> dst_bytes fs0 fs x = take q (src_bytes fs0 x) \<and>
     buf \<noteq> [] \<and> buf = take (length buf) (drop q (src_bytes fs0 x)))"
| "job_on_way fs0 fs Closing_src x = (fds fs (fst x) \<noteq> None \<and> fds fs (snd x) \<noteq> None \<and> dst_bytes fs0 fs x = src_bytes fs0 x)"
| "job_on_way fs0 fs Closing_dst x = (fds fs (fst x) = None \<and> fds fs (snd x) \<noteq> None \<and> dst_bytes fs0 fs x = src_bytes fs0 x)"

text \<open>How much is left to do, as a bound for the number of steps.\<close>

fun way_left :: "copy_fs \<Rightarrow> copy_fs \<Rightarrow> copy_point \<Rightarrow> int \<times> int \<Rightarrow> nat" where
  "way_left fs0 fs Starting x = 2 * length (src_bytes fs0 x) + 4"
| "way_left fs0 fs Reading x = 2 * (length (src_bytes fs0 x) - d_pos (the (fds fs (fst x)))) + 3"
| "way_left fs0 fs (Writing buf) x = 2 * (length (src_bytes fs0 x) - d_pos (the (fds fs (fst x)))) + length buf + 3"
| "way_left fs0 fs Closing_src x = 2"
| "way_left fs0 fs Closing_dst x = 1"

definition touches :: "copy_fs \<Rightarrow> copy_fs \<Rightarrow> copy_fs \<Rightarrow> int \<times> int \<Rightarrow> bool" where
  "touches fs0 fs fs' x \<longleftrightarrow> (\<forall>fd. fd \<noteq> fst x \<longrightarrow> fd \<noteq> snd x \<longrightarrow> fds fs' fd = fds fs fd) \<and>
     (\<forall>i. i \<noteq> dst_ino fs0 x \<longrightarrow> inodes fs' i = inodes fs i)"

lemma touches_other:
  assumes "touches fs0 fs fs' x" and "apart fs0 y x"
  shows "job_fresh fs0 fs' y = job_fresh fs0 fs y" "job_finished fs0 fs' y = job_finished fs0 fs y"
    "job_on_way fs0 fs' pt y = job_on_way fs0 fs pt y" "way_left fs0 fs' pt y = way_left fs0 fs pt y"
proof -
  have eq: "fds fs' (fst y) = fds fs (fst y)" "fds fs' (snd y) = fds fs (snd y)"
      "inodes fs' (dst_ino fs0 y) = inodes fs (dst_ino fs0 y)"
    using assms by (auto simp: touches_def apart_def)
  show fresh: "job_fresh fs0 fs' y = job_fresh fs0 fs y" and "job_finished fs0 fs' y = job_finished fs0 fs y"
    by (simp_all add: job_fresh_def job_finished_def eq)
  show "job_on_way fs0 fs' pt y = job_on_way fs0 fs pt y"
    by (cases pt) (simp_all add: fresh eq)
  show "way_left fs0 fs' pt y = way_left fs0 fs pt y"
    by (cases pt) (simp_all add: eq)
qed

lemma fresh_on_way: "job_fresh fs0 fs x \<Longrightarrow> job_on_way fs0 fs Reading x"
  by (auto simp: job_fresh_def contents_def)

subsection \<open>One step\<close>

text \<open>
  What a step does to the first job of a thread: the job moves on and comes closer to its end,
  or it is finished; a step fails exactly with the call it makes.
\<close>

definition step_result :: "copy_fs \<Rightarrow> copy_fs \<Rightarrow> nat option \<Rightarrow> copier \<Rightarrow> (copier \<times> copy_fs) res \<Rightarrow> bool" where
  "step_result fs0 fs r c res = (case res of
     Inl e \<Rightarrow> e = Exit 1 \<and> r = None
   | Inr (c', fs') \<Rightarrow> r \<noteq> None \<and> touches fs0 fs fs' (hd (todo c)) \<and>
       ((todo c' = todo c \<and> job_on_way fs0 fs' (point c') (hd (todo c)) \<and> point c' \<noteq> Starting \<and>
         (r \<noteq> Some 0 \<longrightarrow> way_left fs0 fs' (point c') (hd (todo c)) < way_left fs0 fs (point c) (hd (todo c)))) \<or>
        (todo c' = tl (todo c) \<and> point c' = Reading \<and> job_finished fs0 fs' (hd (todo c)) \<and> point c \<noteq> Starting)))"

lemma read_step:
  assumes way: "job_on_way fs0 fs Reading x" and src: "inodes fs (src_ino fs0 x) = inodes fs0 (src_ino fs0 x)"
    and ne: "fst x \<noteq> snd x" and n: "0 < n"
  shows "step_result fs0 fs r \<lparr>todo = x # rest, point = Reading\<rparr> (cp_func_step r n (\<lparr>todo = x # rest, point = Reading\<rparr>, fs))"
proof -
  obtain p where p: "fds fs (fst x) = Some \<lparr>d_inode = src_ino fs0 x, d_pos = p\<rparr>"
      "fds fs (snd x) = Some \<lparr>d_inode = dst_ino fs0 x, d_pos = p\<rparr>" "dst_bytes fs0 fs x = take p (src_bytes fs0 x)" "p \<le> length (src_bytes fs0 x)"
    using way by auto
  show ?thesis
  proof (cases r)
    case None
    then show ?thesis
      by (simp add: step_result_def cp_func_step_def fd_read_def guardR_def split_beta)
  next
    case (Some k)
    obtain data where d: "fd_read r (fst x) n fs = (int (length data), data,
          fs\<lparr>fds := (fds fs)(fst x \<mapsto> \<lparr>d_inode = src_ino fs0 x, d_pos = p + length data\<rparr>)\<rparr>)"
        "data = take (length data) (drop p (src_bytes fs0 x))" "data = [] \<longleftrightarrow> length (src_bytes fs0 x) \<le> p"
      using fd_read_Inr [OF p(1) Some, of n] n src by auto
    let ?fs = "fs\<lparr>fds := (fds fs)(fst x \<mapsto> \<lparr>d_inode = src_ino fs0 x, d_pos = p + length data\<rparr>)\<rparr>"
    have res: "cp_func_step r n (\<lparr>todo = x # rest, point = Reading\<rparr>, fs) =
        Inr (\<lparr>todo = x # rest, point = (if data = [] then Closing_src else Writing data)\<rparr>, ?fs)"
      by (simp add: cp_func_step_def split_beta d(1))
    have t: "touches fs0 fs ?fs x"
      by (simp add: touches_def)
    show ?thesis
    proof (cases "data = []")
      case True
      then show ?thesis
        unfolding step_result_def res using t p d(3) ne Some by simp
    next
      case False
      have le: "length data \<le> length (src_bytes fs0 x) - p"
        using arg_cong [OF d(2), of length] by (simp del: length_contents)
      have pos: "0 < length data"
        using False by simp
      have "job_on_way fs0 ?fs (Writing data) x"
        using p d(2) False ne by simp
      moreover have "2 * (length (src_bytes fs0 x) - (p + length data)) + length data < 2 * (length (src_bytes fs0 x) - p)"
        using le pos by linarith
      then have "way_left fs0 ?fs (Writing data) x < way_left fs0 fs Reading x"
        using p(1) by simp
      ultimately show ?thesis
        unfolding step_result_def res using t False Some by simp
    qed
  qed
qed

lemma writing_onwayI:
  assumes "fds fs (fst x) = Some \<lparr>d_inode = src_ino fs0 x, d_pos = q + length buf\<rparr>"
    and "fds fs (snd x) = Some \<lparr>d_inode = dst_ino fs0 x, d_pos = q\<rparr>" and "dst_bytes fs0 fs x = take q (src_bytes fs0 x)"
    and "buf = take (length buf) (drop q (src_bytes fs0 x))" and "buf \<noteq> []"
  shows "job_on_way fs0 fs (Writing buf) x"
  unfolding job_on_way.simps using assms by blast

lemma write_step:
  assumes way: "job_on_way fs0 fs (Writing buf) x" and ne: "fst x \<noteq> snd x"
  shows "step_result fs0 fs r \<lparr>todo = x # rest, point = Writing buf\<rparr> (cp_func_step r n (\<lparr>todo = x # rest, point = Writing buf\<rparr>, fs))"
proof -
  obtain q where q: "fds fs (fst x) = Some \<lparr>d_inode = src_ino fs0 x, d_pos = q + length buf\<rparr>"
      "fds fs (snd x) = Some \<lparr>d_inode = dst_ino fs0 x, d_pos = q\<rparr>" "dst_bytes fs0 fs x = take q (src_bytes fs0 x)"
      "buf \<noteq> []" "buf = take (length buf) (drop q (src_bytes fs0 x))"
    using way by auto
  show ?thesis
  proof (cases r)
    case None
    then show ?thesis
      by (simp add: step_result_def cp_func_step_def writen_round_def fd_write_def guardR_def split_beta)
  next
    case (Some k)
    let ?d = "take k buf" and ?j = "dst_ino fs0 x"
    let ?fs = "fs\<lparr>inodes := (inodes fs)(?j := file_write (inodes fs ?j) q ?d),
        fds := (fds fs)(snd x \<mapsto> \<lparr>d_inode = ?j, d_pos = q + length ?d\<rparr>)\<rparr>"
    let ?pt = "if drop k buf = [] then Reading else Writing (drop k buf)"
    have w: "fd_write r (snd x) buf fs = (int (length ?d), ?fs)"
      using q(2) Some by (simp add: fd_write_def Let_def)
    have dr: "drop (length ?d) buf = drop k buf"
      by (cases "k \<le> length buf") auto
    have res: "cp_func_step r n (\<lparr>todo = x # rest, point = Writing buf\<rparr>, fs) = Inr (\<lparr>todo = x # rest, point = ?pt\<rparr>, ?fs)"
      unfolding cp_func_step_def writen_round_def by (simp add: split_beta w dr [simplified])
    have t: "touches fs0 fs ?fs x"
      by (simp add: touches_def)
    have room: "q + length buf \<le> length (src_bytes fs0 x)"
      using arg_cong [OF q(5), of length] q(4) by (cases "q \<le> length (src_bytes fs0 x)") (auto simp del: length_contents)
    then have fl: "flen (inodes fs ?j) = q"
      using arg_cong [OF q(3), of length] by simp
    have d: "take (length ?d) (drop q (src_bytes fs0 x)) = ?d"
    proof -
      have "length ?d = min k (length buf)"
        by (simp add: min.commute)
      then show ?thesis
        using arg_cong [OF q(5), of "take k"] unfolding take_take by metis
    qed
    have "dst_bytes fs0 ?fs x = take q (src_bytes fs0 x) @ ?d"
      using contents_append [of "inodes fs ?j" ?d] fl q(3) by simp
    then have tgt: "dst_bytes fs0 ?fs x = take (q + length ?d) (src_bytes fs0 x)"
      unfolding take_add d .
    have rest_buf: "drop k buf = take (length (drop k buf)) (drop (q + length ?d) (src_bytes fs0 x))" if "k < length buf"
    proof -
      have "length ?d = k" "length (drop k buf) = length buf - k"
        using that by simp_all
      then show ?thesis
        using arg_cong [OF q(5), of "drop k"] unfolding drop_take drop_drop by (simp only: add.commute)
    qed
    have "job_on_way fs0 ?fs ?pt x"
    proof (cases "k < length buf")
      case True
      have a: "fds ?fs (fst x) = Some \<lparr>d_inode = src_ino fs0 x, d_pos = q + length ?d + length (drop k buf)\<rparr>"
        using q(1) ne True by simp
      have b: "fds ?fs (snd x) = Some \<lparr>d_inode = ?j, d_pos = q + length ?d\<rparr>"
        by simp
      have c: "drop k buf \<noteq> []"
        using True by simp
      show ?thesis
        unfolding if_not_P [OF c] by (rule writing_onwayI [OF a b tgt rest_buf [OF True] c])
    next
      case False
      then show ?thesis
        using q(1) ne tgt room by simp
    qed
    moreover have "way_left fs0 ?fs ?pt x < way_left fs0 fs (Writing buf) x" if "r \<noteq> Some 0"
      using that Some q(1,4) ne by auto
    ultimately show ?thesis
      unfolding step_result_def res using t Some by simp
  qed
qed

lemma first_job_step:
  assumes "job_on_way fs0 fs pt x" and "inodes fs (src_ino fs0 x) = inodes fs0 (src_ino fs0 x)"
    and "fst x \<noteq> snd x" and "0 < n"
  shows "step_result fs0 fs r \<lparr>todo = x # rest, point = pt\<rparr> (cp_func_step r n (\<lparr>todo = x # rest, point = pt\<rparr>, fs))"
proof (cases pt)
  case Starting
  then show ?thesis
    using assms(1) fresh_on_way [of fs0 fs x] by (cases r)
      (auto simp: step_result_def cp_func_step_def guardR_def touches_def job_fresh_def)
next
  case Reading
  then show ?thesis
    using read_step assms by simp
next
  case (Writing buf)
  then show ?thesis
    using write_step assms by simp
next
  case Closing_src
  then show ?thesis
    using assms by (cases r)
      (auto simp: step_result_def cp_func_step_def fd_close_def guardR_def touches_def split_beta)
next
  case Closing_dst
  then show ?thesis
    using assms by (cases r)
      (auto simp: step_result_def cp_func_step_def fd_close_def guardR_def touches_def split_beta job_finished_def)
qed

subsection \<open>All threads\<close>

text \<open>A thread with the jobs \<open>js\<close>: some are finished, one may be on the way, the others are untouched.\<close>

definition copier_inv :: "copy_fs \<Rightarrow> (int \<times> int) list \<Rightarrow> copier \<Rightarrow> copy_fs \<Rightarrow> bool" where
  "copier_inv fs0 js c fs \<longleftrightarrow> (\<exists>before. js = before @ todo c \<and> (point c = Starting \<longrightarrow> before = []) \<and>
     (\<forall>x\<in>set before. job_finished fs0 fs x) \<and>
     (case todo c of [] \<Rightarrow> True | x # rest \<Rightarrow> job_on_way fs0 fs (point c) x \<and> (\<forall>y\<in>set rest. job_fresh fs0 fs y)))"

definition copy_inv :: "copy_fs \<Rightarrow> (int \<times> int) list list \<Rightarrow> copy_system \<Rightarrow> bool" where
  "copy_inv fs0 jobs s \<longleftrightarrow> length (cs_copiers s) = length jobs \<and>
     (\<forall>t<length jobs. copier_inv fs0 (jobs ! t) (cs_copiers s ! t) (cs_fs s)) \<and>
     (\<forall>i. i \<notin> dst_ino fs0 ` set (concat jobs) \<longrightarrow> inodes (cs_fs s) i = inodes fs0 i)"

fun copier_left :: "copy_fs \<Rightarrow> copy_fs \<Rightarrow> copier \<Rightarrow> nat" where
  "copier_left fs0 fs c = (case todo c of
     [] \<Rightarrow> (if point c = Starting then 1 else 0)
   | x # rest \<Rightarrow> way_left fs0 fs (point c) x + (\<Sum>y\<leftarrow>rest. 2 * length (src_bytes fs0 y) + 3))"

definition copy_left :: "copy_fs \<Rightarrow> copy_system \<Rightarrow> nat" where
  "copy_left fs0 s = (\<Sum>t<length (cs_copiers s). copier_left fs0 (cs_fs s) (cs_copiers s ! t))"

lemma copier_start_inv:
  "good_jobs fs0 all_jobs \<Longrightarrow> set js \<subseteq> set all_jobs \<Longrightarrow> copier_inv fs0 js \<lparr>todo = js, point = Starting\<rparr> fs0"
proof -
  assume "good_jobs fs0 all_jobs" and sub: "set js \<subseteq> set all_jobs"
  then have "\<forall>x\<in>set all_jobs. job_fresh fs0 fs0 x"
    by (simp add: good_jobs_def job_fresh_def)
  then show ?thesis
    using sub by (auto simp: copier_inv_def split: list.splits)
qed

lemma fresh_left: "job_fresh fs0 fs x \<Longrightarrow> way_left fs0 fs Reading x = 2 * length (src_bytes fs0 x) + 3"
  by (simp add: job_fresh_def)

text \<open>A step of a thread keeps its invariant and takes it closer to its end.\<close>

lemma copier_step_inv:
  assumes inv: "copier_inv fs0 js c fs" and good: "good_jobs fs0 all_jobs" "set js \<subseteq> set all_jobs" "distinct js"
    and src: "\<forall>x\<in>set all_jobs. inodes fs (src_ino fs0 x) = inodes fs0 (src_ino fs0 x)"
    and n: "0 < n" and live: "\<not> copier_ended c"
  shows "case cp_func_step r n (c, fs) of
      Inl e \<Rightarrow> e = Exit 1 \<and> r = None
    | Inr (c', fs') \<Rightarrow> r \<noteq> None \<and> copier_inv fs0 js c' fs' \<and> (r \<noteq> Some 0 \<longrightarrow> copier_left fs0 fs' c' < copier_left fs0 fs c) \<and>
        (fs' = fs \<or> (\<exists>x\<in>set js. touches fs0 fs fs' x))"
proof (cases "todo c")
  case Nil
  then have "point c = Starting"
    using live by (simp add: copier_ended_def)
  then show ?thesis
    using Nil inv by (cases r) (auto simp: cp_func_step_def guardR_def copier_inv_def)
next
  case (Cons x rest)
  have c: "c = \<lparr>todo = x # rest, point = point c\<rparr>"
    using Cons by (cases c) simp
  obtain before where js: "js = before @ x # rest" and starting: "point c = Starting \<longrightarrow> before = []"
    and fin: "\<forall>y\<in>set before. job_finished fs0 fs y" and way: "job_on_way fs0 fs (point c) x" and fresh: "\<forall>y\<in>set rest. job_fresh fs0 fs y"
    using inv Cons by (auto simp: copier_inv_def)
  have x: "x \<in> set all_jobs"
    using good(2) js by auto
  have other: "apart fs0 y x" if "y \<in> set before \<union> set rest" for y
    using good js that by (auto simp: good_jobs_def)
  have "step_result fs0 fs r c (cp_func_step r n (c, fs))"
    using first_job_step [OF way, of n r rest] x src n good(1) c by (simp add: good_jobs_def)
  then show ?thesis
  proof (cases "cp_func_step r n (c, fs)")
    case (Inr res)
    obtain c' fs' where res: "res = (c', fs')"
      by fastforce
    have r: "r \<noteq> None" and t: "touches fs0 fs fs' x"
      and alt: "(todo c' = todo c \<and> job_on_way fs0 fs' (point c') x \<and> point c' \<noteq> Starting \<and>
         (r \<noteq> Some 0 \<longrightarrow> way_left fs0 fs' (point c') x < way_left fs0 fs (point c) x)) \<or>
        (todo c' = rest \<and> point c' = Reading \<and> job_finished fs0 fs' x \<and> point c \<noteq> Starting)"
      using \<open>step_result fs0 fs r c (cp_func_step r n (c, fs))\<close> Inr res Cons by (auto simp: step_result_def)
    have fin': "\<forall>y\<in>set before. job_finished fs0 fs' y" and fresh': "\<forall>y\<in>set rest. job_fresh fs0 fs' y"
      using fin fresh touches_other [OF t other] by auto
    from alt have "copier_inv fs0 js c' fs' \<and> (r \<noteq> Some 0 \<longrightarrow> copier_left fs0 fs' c' < copier_left fs0 fs c)"
    proof
      assume same: "todo c' = todo c \<and> job_on_way fs0 fs' (point c') x \<and> point c' \<noteq> Starting \<and>
         (r \<noteq> Some 0 \<longrightarrow> way_left fs0 fs' (point c') x < way_left fs0 fs (point c) x)"
      then have "copier_inv fs0 js c' fs'"
        unfolding copier_inv_def using js fin' fresh' Cons by auto
      then show ?thesis
        using same Cons by auto
    next
      assume finished: "todo c' = rest \<and> point c' = Reading \<and> job_finished fs0 fs' x \<and> point c \<noteq> Starting"
      have "copier_inv fs0 js c' fs'"
        unfolding copier_inv_def
        by (rule exI [of _ "before @ [x]"]) (use finished js fin' fresh' fresh_on_way in \<open>auto split: list.splits\<close>)
      moreover have "copier_left fs0 fs' c' < copier_left fs0 fs c"
      proof -
        have "0 < way_left fs0 fs (point c) x"
          by (cases "point c") simp_all
        moreover have "copier_left fs0 fs' c' = (\<Sum>y\<leftarrow>rest. 2 * length (src_bytes fs0 y) + 3)"
          using finished fresh' fresh_left [of fs0 fs'] by (cases rest) simp_all
        ultimately show ?thesis
          using Cons by simp
      qed
      ultimately show ?thesis
        by simp
    qed
    then show ?thesis
      using Inr res r t js by auto
  qed (auto simp: step_result_def)
qed

lemma copier_frame:
  assumes "touches fs0 fs fs' x" and "\<forall>y\<in>set js. apart fs0 y x"
  shows "copier_inv fs0 js c fs' = copier_inv fs0 js c fs"
    "copier_inv fs0 js c fs \<Longrightarrow> copier_left fs0 fs' c = copier_left fs0 fs c"
proof -
  have eqs: "job_fresh fs0 fs' y = job_fresh fs0 fs y" "job_finished fs0 fs' y = job_finished fs0 fs y"
    "job_on_way fs0 fs' pt y = job_on_way fs0 fs pt y" "way_left fs0 fs' pt y = way_left fs0 fs pt y" if "y \<in> set js" for y pt
    using touches_other [OF assms(1)] assms(2) that by auto
  show "copier_inv fs0 js c fs' = copier_inv fs0 js c fs"
    unfolding copier_inv_def by (rule ex_cong1) (auto simp: eqs split: list.splits)
  show "copier_left fs0 fs' c = copier_left fs0 fs c" if "copier_inv fs0 js c fs"
    using that eqs by (auto simp: copier_inv_def split: list.splits)
qed

lemma concat_part:
  assumes "t < length jobs"
  obtains a b where "concat jobs = a @ jobs ! t @ b" "\<And>u. u < length jobs \<Longrightarrow> u \<noteq> t \<Longrightarrow> set (jobs ! u) \<subseteq> set a \<union> set b"
proof -
  have "jobs = take t jobs @ jobs ! t # drop (Suc t) jobs"
    using assms by (simp add: id_take_nth_drop)
  then have "concat jobs = concat (take t jobs) @ jobs ! t @ concat (drop (Suc t) jobs)"
    by (metis concat.simps(2) concat_append)
  moreover have "set (jobs ! u) \<subseteq> set (concat (take t jobs)) \<union> set (concat (drop (Suc t) jobs))"
    if "u < length jobs" "u \<noteq> t" for u
  proof (cases "u < t")
    case True
    then have "jobs ! u \<in> set (take t jobs)"
      using that(1) by (metis in_set_conv_nth length_take min_less_iff_conj nth_take)
    then show ?thesis
      by auto
  next
    case False
    then have "jobs ! u = drop (Suc t) jobs ! (u - Suc t)" "u - Suc t < length (drop (Suc t) jobs)"
      using that by auto
    then have "jobs ! u \<in> set (drop (Suc t) jobs)"
      using nth_mem by metis
    then show ?thesis
      by auto
  qed
  ultimately show thesis
    by (rule that)
qed

lemma copy_system_step_inv:
  assumes inv: "copy_inv fs0 jobs s" and good: "good_jobs fs0 (concat jobs)" and n: "0 < n"
    and t: "t < length (cs_copiers s)" and live: "\<not> copier_ended (cs_copiers s ! t)"
  shows "case copy_system_step r n t s of
      Inl e \<Rightarrow> e = Exit 1 \<and> r = None
    | Inr s' \<Rightarrow> r \<noteq> None \<and> copy_inv fs0 jobs s' \<and> (r \<noteq> Some 0 \<longrightarrow> copy_left fs0 s' < copy_left fs0 s)"
proof -
  let ?c = "cs_copiers s ! t" and ?fs = "cs_fs s"
  have len: "length (cs_copiers s) = length jobs" and ci: "\<And>u. u < length jobs \<Longrightarrow> copier_inv fs0 (jobs ! u) (cs_copiers s ! u) ?fs"
    and out: "\<And>i. i \<notin> dst_ino fs0 ` set (concat jobs) \<Longrightarrow> inodes ?fs i = inodes fs0 i"
    using inv by (auto simp: copy_inv_def)
  have tj: "t < length jobs"
    using t len by simp
  obtain a b where ab: "concat jobs = a @ jobs ! t @ b" "\<And>u. u < length jobs \<Longrightarrow> u \<noteq> t \<Longrightarrow> set (jobs ! u) \<subseteq> set a \<union> set b"
    using concat_part [OF tj] by blast
  have sub: "set (jobs ! t) \<subseteq> set (concat jobs)" and dist: "distinct (jobs ! t)" and disj: "set (jobs ! t) \<inter> (set a \<union> set b) = {}"
    using good unfolding good_jobs_def ab(1) by auto
  have "src_ino fs0 x \<notin> dst_ino fs0 ` set (concat jobs)" if "x \<in> set (concat jobs)" for x
    using good that by (auto simp: good_jobs_def)
  then have src: "\<forall>x\<in>set (concat jobs). inodes ?fs (src_ino fs0 x) = inodes fs0 (src_ino fs0 x)"
    using out by blast
  note step = copier_step_inv [OF ci [OF tj] good sub dist src n live, of r]
  show ?thesis
  proof (cases "cp_func_step r n (?c, ?fs)")
    case (Inl e)
    then show ?thesis
      using step by (simp add: copy_system_step_def)
  next
    case (Inr res)
    obtain c' fs' where res: "res = (c', fs')"
      by fastforce
    let ?s' = "\<lparr>cs_copiers = (cs_copiers s)[t := c'], cs_fs = fs'\<rparr>"
    have s': "copy_system_step r n t s = Inr ?s'"
      using Inr res by (simp add: copy_system_step_def)
    have st: "r \<noteq> None" "copier_inv fs0 (jobs ! t) c' fs'" "r \<noteq> Some 0 \<longrightarrow> copier_left fs0 fs' c' < copier_left fs0 ?fs ?c"
      and touch: "fs' = ?fs \<or> (\<exists>x\<in>set (jobs ! t). touches fs0 ?fs fs' x)"
      using step Inr res by auto
    have frame: "copier_inv fs0 (jobs ! u) (cs_copiers s ! u) fs' \<and>
        copier_left fs0 fs' (cs_copiers s ! u) = copier_left fs0 ?fs (cs_copiers s ! u)" if u: "u < length jobs" "u \<noteq> t" for u
      using touch
    proof
      assume "\<exists>x\<in>set (jobs ! t). touches fs0 ?fs fs' x"
      then obtain x where x: "x \<in> set (jobs ! t)" "touches fs0 ?fs fs' x"
        by blast
      have "\<forall>y\<in>set (jobs ! u). apart fs0 y x"
      proof
        fix y assume "y \<in> set (jobs ! u)"
        then have "y \<in> set (concat jobs)" "y \<noteq> x"
          using ab(2) [OF u] x(1) disj unfolding ab(1) by auto
        moreover have "x \<in> set (concat jobs)"
          using x(1) sub by blast
        ultimately show "apart fs0 y x"
          using good unfolding good_jobs_def by blast
      qed
      then show ?thesis
        using copier_frame [OF x(2)] ci [OF u(1)] by blast
    qed (use ci [OF u(1)] in simp)
    have "inodes fs' i = inodes fs0 i" if "i \<notin> dst_ino fs0 ` set (concat jobs)" for i
    proof -
      have "dst_ino fs0 x \<noteq> i" if "x \<in> set (jobs ! t)" for x
        using that sub \<open>i \<notin> dst_ino fs0 ` set (concat jobs)\<close> by blast
      then show ?thesis
        using touch out [OF that] unfolding touches_def by metis
    qed
    then have "copy_inv fs0 jobs ?s'"
      unfolding copy_inv_def using frame st(2) len tj by (auto simp: nth_list_update)
    moreover have "copy_left fs0 ?s' < copy_left fs0 s" if "r \<noteq> Some 0"
    proof -
      have "(\<Sum>u<length jobs. copier_left fs0 fs' ((cs_copiers s)[t := c'] ! u)) < (\<Sum>u<length jobs. copier_left fs0 ?fs (cs_copiers s ! u))"
      proof (rule sum_strict_mono_ex1)
        show "\<forall>u\<in>{..<length jobs}. copier_left fs0 fs' ((cs_copiers s)[t := c'] ! u) \<le> copier_left fs0 ?fs (cs_copiers s ! u)"
        proof
          fix u assume "u \<in> {..<length jobs}"
          then show "copier_left fs0 fs' ((cs_copiers s)[t := c'] ! u) \<le> copier_left fs0 ?fs (cs_copiers s ! u)"
            using frame [of u] st(3) that len tj by (cases "u = t") (auto simp del: copier_left.simps)
        qed
        show "\<exists>u\<in>{..<length jobs}. copier_left fs0 fs' ((cs_copiers s)[t := c'] ! u) < copier_left fs0 ?fs (cs_copiers s ! u)"
          using st(3) that tj len by (intro bexI [of _ t]) (auto simp del: copier_left.simps)
      qed simp
      then show ?thesis
        by (simp add: copy_left_def len)
    qed
    ultimately show ?thesis
      unfolding s' using st(1) by simp
  qed
qed

end
