(* ===== verification/Copy_Runs.thy ===== *)
theory Copy_Runs
  imports Copy_Correct
begin

text \<open>
  Runs of the copying threads of \<^verbatim>\<open>mcp\<close> under every schedule: what they leave, and that they end.
\<close>

subsection \<open>Runs\<close>

inductive copy_run :: "bool \<Rightarrow> nat \<Rightarrow> copy_system res \<Rightarrow> nat \<Rightarrow> copy_system res \<Rightarrow> bool" for stall buf_len r0 where
  start: "copy_run stall buf_len r0 0 r0"
| more: "copy_run stall buf_len r0 k r \<Longrightarrow> copy_step stall buf_len r r' \<Longrightarrow> copy_run stall buf_len r0 (Suc k) r'"

lemma copy_start_inv: "good_jobs fs0 (concat jobs) \<Longrightarrow> copy_inv fs0 jobs (copy_start jobs fs0)"
  using copier_start_inv [of fs0 "concat jobs" "jobs ! t" for t] UN_upper [of _ "set jobs" set]
  by (simp add: copy_inv_def copy_start_def)

lemma copy_run_inv:
  assumes "copy_run stall n r0 k r" and "r0 = Inr (copy_start jobs fs0)" and "good_jobs fs0 (concat jobs)" and "0 < n"
  shows "case r of Inl e \<Rightarrow> e = Exit 1 | Inr s \<Rightarrow> copy_inv fs0 jobs s"
  using assms
proof (induction rule: copy_run.induct)
  case start
  then show ?case
    using copy_start_inv by simp
next
  case (more k r r')
  obtain s t x where st: "r = Inr s" "r' = copy_system_step x n t s" "t < length (cs_copiers s)" "\<not> copier_ended (cs_copiers s ! t)"
    using more.hyps(2) by (auto elim: copy_stepE)
  then show ?case
    using copy_system_step_inv [of fs0 jobs s n t x] more by (auto split: sum.splits)
qed

definition copy_bound :: "copy_fs \<Rightarrow> (int \<times> int) list list \<Rightarrow> nat" where
  "copy_bound fs0 jobs = (\<Sum>js\<leftarrow>jobs. 1 + (\<Sum>x\<leftarrow>js. 2 * flen (inodes fs0 (src_ino fs0 x)) + 3))"

lemma copy_left_start: "copy_left fs0 (copy_start jobs fs0) \<le> copy_bound fs0 jobs"
proof -
  have "copier_left fs0 fs0 \<lparr>todo = js, point = Starting\<rparr> = 1 + (\<Sum>x\<leftarrow>js. 2 * flen (inodes fs0 (src_ino fs0 x)) + 3)" for js
    by (cases js) simp_all
  then show ?thesis
    by (simp add: copy_left_def copy_start_def copy_bound_def sum_list_sum_nth atLeast0LessThan)
qed

lemma copy_run_left:
  assumes "copy_run False n r0 k r" and "r0 = Inr (copy_start jobs fs0)" and "good_jobs fs0 (concat jobs)" and "0 < n"
  shows "k + (case r of Inl e \<Rightarrow> 0 | Inr s \<Rightarrow> copy_left fs0 s) \<le> copy_bound fs0 jobs"
  using assms
proof (induction rule: copy_run.induct)
  case start
  then show ?case
    using copy_left_start by simp
next
  case (more k r r')
  obtain s t x where st: "r = Inr s" "r' = copy_system_step x n t s" "t < length (cs_copiers s)"
      "\<not> copier_ended (cs_copiers s ! t)" "x \<noteq> Some 0"
    using more.hyps(2) by (auto elim: copy_stepE)
  have "copy_inv fs0 jobs s"
    using copy_run_inv [OF more.hyps(1) more.prems] st(1) by simp
  from copy_system_step_inv [OF this more.prems(2,3) st(3,4), of x]
  have *: "case copy_system_step x n t s of Inl e \<Rightarrow> True | Inr s' \<Rightarrow> copy_left fs0 s' < copy_left fs0 s"
    using st(5) by (auto split: sum.splits)
  have "0 < copier_left fs0 (cs_fs s) (cs_copiers s ! t)"
    using st(4) by (cases "point (cs_copiers s ! t)") (auto simp: copier_ended_def split: list.splits)
  then have "0 < copy_left fs0 s"
    unfolding copy_left_def using st(3) by (simp add: sum_pos2 [of "{..<length (cs_copiers s)}" t] del: copier_left.simps)
  then show ?case
    using * more.IH [OF more.prems] st(1,2) by (auto split: sum.splits)
qed

lemma copier_ended_inv: "copier_inv fs0 js c fs \<Longrightarrow> copier_ended c \<Longrightarrow> \<forall>x\<in>set js. job_finished fs0 fs x"
  by (auto simp: copier_inv_def copier_ended_def)

subsection \<open>Properties\<close>

lemma copy_run_result:
  assumes "good_jobs fs0 (concat jobs)" and "0 < buf_len"
    and "copy_run stall buf_len (Inr (copy_start jobs fs0)) k r"
  shows "case r of
      Inl e \<Rightarrow> e = Exit 1
    | Inr s \<Rightarrow> (\<forall>i. i \<notin> dst_ino fs0 ` set (concat jobs) \<longrightarrow> inodes (cs_fs s) i = inodes fs0 i) \<and>
        (copied s \<longrightarrow> (\<forall>x\<in>set (concat jobs). contents (inodes (cs_fs s) (dst_ino fs0 x)) = contents (inodes fs0 (src_ino fs0 x)) \<and>
          fds (cs_fs s) (fst x) = None \<and> fds (cs_fs s) (snd x) = None))"
proof (cases r)
  case (Inr s)
  have inv: "copy_inv fs0 jobs s"
    using copy_run_inv [OF assms(3) refl assms(1,2)] Inr by simp
  have "job_finished fs0 (cs_fs s) x" if c: "copied s" and x: "x \<in> set (concat jobs)" for x
  proof -
    obtain t where t: "t < length jobs" "x \<in> set (jobs ! t)"
      using x by (auto simp: in_set_conv_nth [of _ jobs])
    then have "copier_ended (cs_copiers s ! t)"
      using c inv by (auto simp: copied_def copy_inv_def)
    then show ?thesis
      using copier_ended_inv [of fs0 "jobs ! t"] inv t by (auto simp: copy_inv_def)
  qed
  then show ?thesis
    using inv Inr by (auto simp: copy_inv_def job_finished_def)
qed (use copy_run_inv [OF assms(3) refl assms(1,2)] in simp)

text \<open>
  C6: When all threads have returned, every destination has the contents of its source, all
  descriptors are closed and no other file has changed, for every interleaving of the
  threads and every pattern of short reads and writes. The program exits only if a call fails.
\<close>

theorem copy_run_contents:
  assumes "good_jobs fs0 (concat jobs)" and "0 < buf_len"
    and "copy_run stall buf_len (Inr (copy_start jobs fs0)) k r"
  shows "case r of
      Inl e \<Rightarrow> e = Exit 1
    | Inr s \<Rightarrow> (\<forall>i. i \<notin> dst_ino fs0 ` set (concat jobs) \<longrightarrow> inodes (cs_fs s) i = inodes fs0 i) \<and>
        (copied s \<longrightarrow> (\<forall>x\<in>set (concat jobs). contents (inodes (cs_fs s) (dst_ino fs0 x)) = contents (inodes fs0 (src_ino fs0 x)) \<and>
          fds (cs_fs s) (fst x) = None \<and> fds (cs_fs s) (snd x) = None))"
  using assms by (rule copy_run_result)

lemma copy_run_finish:
  assumes "good_jobs fs0 (concat jobs)" and "0 < n"
  shows "copy_run False n (Inr (copy_start jobs fs0)) k (Inr s) \<Longrightarrow>
    \<exists>k' s'. k \<le> k' \<and> copy_run False n (Inr (copy_start jobs fs0)) k' (Inr s') \<and> copied s'"
proof (induction "copy_left fs0 s" arbitrary: k s rule: less_induct)
  case less
  show ?case
  proof (cases "copied s")
    case True
    then show ?thesis
      using less.prems by blast
  next
    case False
    then obtain t where t: "t < length (cs_copiers s)" "\<not> copier_ended (cs_copiers s ! t)"
      by (auto simp: copied_def in_set_conv_nth)
    have "copy_inv fs0 jobs s"
      using copy_run_inv [OF less.prems refl assms] by simp
    from copy_system_step_inv [OF this assms t, of "Some 1"]
    obtain s' where s': "copy_system_step (Some 1) n t s = Inr s'" "copy_left fs0 s' < copy_left fs0 s"
      by (auto split: sum.splits)
    have "copy_step False n (Inr s) (Inr s')"
      using copy_step.step [of t s False "Some 1" n] t s'(1) by simp
    then have "copy_run False n (Inr (copy_start jobs fs0)) (Suc k) (Inr s')"
      using less.prems by (rule copy_run.more [rotated])
    then show ?thesis
      using less.hyps [OF s'(2)] Suc_leD by blast
  qed
qed

text \<open>
  C9: If every write transfers something, every schedule of the copying threads has a bounded
  number of steps, and every state that is reached without an error can be continued until all
  threads have returned; so the loops of \<^verbatim>\<open>writen\<close> and \<^verbatim>\<open>cp_func\<close> end and all joins return.
\<close>

theorem copy_run_ends:
  assumes "good_jobs fs0 (concat jobs)" and "0 < buf_len"
    and "copy_run False buf_len (Inr (copy_start jobs fs0)) k r"
  shows "k \<le> copy_bound fs0 jobs \<and>
    (\<forall>s. r = Inr s \<longrightarrow> (\<exists>k' s'. k \<le> k' \<and> copy_run False buf_len (Inr (copy_start jobs fs0)) k' (Inr s') \<and> copied s'))"
  using copy_run_left [OF assms(3) refl assms(1,2)] copy_run_finish [OF assms(1,2)] assms(3) by auto

text \<open>Two threads, one with a file of three bytes and one with an empty file.\<close>

definition demo_copy_fs :: copy_fs where
  "demo_copy_fs = \<lparr>inodes = (\<lambda>i. if i = 1 then file_write empty_file 0 [7, 8, 9] else empty_file),
     fds = (\<lambda>fd. if fd = 3 then Some \<lparr>d_inode = 1, d_pos = 0\<rparr> else if fd = 4 then Some \<lparr>d_inode = 2, d_pos = 0\<rparr>
       else if fd = 5 then Some \<lparr>d_inode = 3, d_pos = 0\<rparr> else if fd = 6 then Some \<lparr>d_inode = 4, d_pos = 0\<rparr> else None)\<rparr>"

lemma demo_copy_good: "good_jobs demo_copy_fs (concat [[(3, 4)], [(5, 6)]])"
  by (simp add: good_jobs_def apart_def src_ino_def dst_ino_def demo_copy_fs_def empty_file_def)

theorem copy_run_ends_witness:
  "\<exists>k s. k \<le> 14 \<and> copy_run False 2 (Inr (copy_start [[(3, 4)], [(5, 6)]] demo_copy_fs)) k (Inr s) \<and> copied s"
proof -
  obtain k s where r: "copy_run False 2 (Inr (copy_start [[(3, 4)], [(5, 6)]] demo_copy_fs)) k (Inr s)" "copied s"
    using copy_run_ends [OF demo_copy_good _ copy_run.start, of 2] by auto
  moreover have "copy_bound demo_copy_fs [[(3, 4)], [(5, 6)]] = 14"
    by (simp add: copy_bound_def src_ino_def demo_copy_fs_def empty_file_def file_write_def)
  ultimately show ?thesis
    using copy_run_ends [OF demo_copy_good _ r(1)] by auto
qed

theorem copy_run_contents_witness:
  "\<exists>k s. copy_run False 2 (Inr (copy_start [[(3, 4)], [(5, 6)]] demo_copy_fs)) k (Inr s) \<and>
    contents (inodes (cs_fs s) 2) = [7, 8, 9] \<and> contents (inodes (cs_fs s) 4) = [] \<and> fds (cs_fs s) 3 = None"
proof -
  obtain k s where r: "copy_run False 2 (Inr (copy_start [[(3, 4)], [(5, 6)]] demo_copy_fs)) k (Inr s)" "copied s"
    using copy_run_finish [OF demo_copy_good _ copy_run.start, of 2] by auto
  have ino: "src_ino demo_copy_fs (3, 4) = 1" "src_ino demo_copy_fs (5, 6) = 3" "dst_ino demo_copy_fs (3, 4) = 2" "dst_ino demo_copy_fs (5, 6) = 4"
    by (simp_all add: src_ino_def dst_ino_def demo_copy_fs_def)
  have c: "contents (inodes demo_copy_fs 1) = [7, 8, 9]" "contents (inodes demo_copy_fs 3) = []"
    using contents_append [of empty_file "[7, 8, 9]"] by (simp_all add: demo_copy_fs_def empty_file_def contents_def)
  have all: "\<forall>x\<in>set (concat [[(3, 4)], [(5, 6)]]). contents (inodes (cs_fs s) (dst_ino demo_copy_fs x)) = contents (inodes demo_copy_fs (src_ino demo_copy_fs x)) \<and>
      fds (cs_fs s) (fst x) = None \<and> fds (cs_fs s) (snd x) = None"
    using copy_run_contents [OF demo_copy_good _ r(1)] r(2) by simp
  have "contents (inodes (cs_fs s) 2) = [7, 8, 9]" "contents (inodes (cs_fs s) 4) = []" "fds (cs_fs s) 3 = None"
    using bspec [OF all, of "(3, 4)"] bspec [OF all, of "(5, 6)"] by (simp_all add: ino c [unfolded One_nat_def])
  then show ?thesis
    using r(1) by blast
qed

text \<open>
  With a buffer of no bytes, which the option \<^verbatim>\<open>buf_bytes\<close> allows, every read looks like the end
  of the file: whatever the threads do, no file is ever written, so when they return without an
  error all destinations are still empty.
\<close>

definition not_writing :: "copier \<Rightarrow> bool" where
  "not_writing c \<longleftrightarrow> (case point c of Writing buf \<Rightarrow> False | _ \<Rightarrow> True)"

lemma empty_buffer_step:
  assumes "not_writing c" and "cp_func_step r 0 (c, fs) = Inr (c', fs')"
  shows "not_writing c' \<and> inodes fs' = inodes fs"
proof -
  have read: "fst (snd (fd_read r fd 0 fs)) = [] \<and> inodes (snd (snd (fd_read r fd 0 fs))) = inodes fs \<and> (fst (fd_read r fd 0 fs) = 0 \<or> fst (fd_read r fd 0 fs) < 0)" for fd
    by (simp add: fd_read_def file_read_def Let_def split: option.splits)
  have cl: "inodes (snd (fd_close r fd fs)) = inodes fs" for fd
    by (simp add: fd_close_def)
  show ?thesis
    using assms read cl
    by (auto simp: cp_func_step_def not_writing_def bindR_eq_Inr guardR_def split_beta split: copy_point.splits list.splits if_splits)
qed

lemma empty_buffer_run:
  assumes "copy_run stall 0 r0 k r" and "r0 = Inr (copy_start jobs fs)" and "r = Inr s"
  shows "(\<forall>c\<in>set (cs_copiers s). not_writing c) \<and> inodes (cs_fs s) = inodes fs"
  using assms
proof (induction arbitrary: s rule: copy_run.induct)
  case start
  then show ?case
    by (auto simp: copy_start_def not_writing_def)
next
  case (more k r r')
  obtain s0 t x where st: "r = Inr s0" "r' = copy_system_step x 0 t s0" "t < length (cs_copiers s0)"
    using more.hyps(2) by (auto elim: copy_stepE)
  obtain c fs' where c: "cp_func_step x 0 (cs_copiers s0 ! t, cs_fs s0) = Inr (c, fs')"
      "s = \<lparr>cs_copiers = (cs_copiers s0)[t := c], cs_fs = fs'\<rparr>"
    using st(2) more.prems(2) by (cases "cp_func_step x 0 (cs_copiers s0 ! t, cs_fs s0)") (auto simp: copy_system_step_def)
  have IH: "\<forall>c\<in>set (cs_copiers s0). not_writing c" "inodes (cs_fs s0) = inodes fs"
    using more.IH [OF more.prems(1) st(1)] by auto
  have "not_writing (cs_copiers s0 ! t)"
    using IH(1) st(3) by simp
  then show ?case
    using empty_buffer_step [OF _ c(1)] IH c(2) set_update_subset_insert [of "cs_copiers s0" t c] by auto
qed

theorem copy_empty_buffer:
  assumes "copy_run stall 0 (Inr (copy_start jobs fs)) k (Inr s)"
  shows "inodes (cs_fs s) = inodes fs"
  using empty_buffer_run [OF assms refl refl] by simp

theorem copy_empty_buffer_witness:
  "\<exists>s. copy_run True 0 (Inr (copy_start [[(3, 4)]] demo_copy_fs)) 4 (Inr s) \<and> copied s \<and> contents (inodes (cs_fs s) 2) = []"
proof -
  let ?d = "fds demo_copy_fs"
  define f where "f i = demo_copy_fs\<lparr>fds := (if i = 0 then ?d else if i = 1 then ?d(3 := None) else ?d(3 := None, 4 := None))\<rparr>" for i :: nat
  define s where "s pt js i = \<lparr>cs_copiers = [\<lparr>todo = js, point = pt\<rparr>], cs_fs = f i\<rparr>" for pt js i
  have step: "copy_step True 0 (Inr x) (copy_system_step (Some 1) 0 0 x)" if "length (cs_copiers x) = 1" "\<not> copier_ended (cs_copiers x ! 0)" for x
    using that by (intro copy_step.step) auto
  have e: "copy_start [[(3, 4)]] demo_copy_fs = s Starting [(3, 4)] 0"
    by (simp add: copy_start_def s_def f_def)
  have s1: "copy_step True 0 (Inr (s Starting [(3, 4)] 0)) (Inr (s Reading [(3, 4)] 0))"
    using step [of "s Starting [(3, 4)] 0"] by (simp add: s_def copy_system_step_def cp_func_step_def copier_ended_def)
  have s2: "copy_step True 0 (Inr (s Reading [(3, 4)] 0)) (Inr (s Closing_src [(3, 4)] 0))"
    using step [of "s Reading [(3, 4)] 0"]
    by (simp add: s_def f_def copy_system_step_def cp_func_step_def copier_ended_def fd_read_def file_read_def demo_copy_fs_def fun_upd_idem)
  have s3: "copy_step True 0 (Inr (s Closing_src [(3, 4)] 0)) (Inr (s Closing_dst [(3, 4)] 1))"
    using step [of "s Closing_src [(3, 4)] 0"]
    by (simp add: s_def f_def copy_system_step_def cp_func_step_def copier_ended_def fd_close_def demo_copy_fs_def)
  have s4: "copy_step True 0 (Inr (s Closing_dst [(3, 4)] 1)) (Inr (s Reading [] 2))"
    using step [of "s Closing_dst [(3, 4)] 1"]
    by (simp add: s_def f_def copy_system_step_def cp_func_step_def copier_ended_def fd_close_def demo_copy_fs_def)
  have run: "copy_run True 0 (Inr (copy_start [[(3, 4)]] demo_copy_fs)) 4 (Inr (s Reading [] 2))"
    using copy_run.more [OF copy_run.more [OF copy_run.more [OF copy_run.more [OF copy_run.start s1] s2] s3] s4]
    by (simp add: e numeral_eq_Suc)
  have "contents (inodes (cs_fs (s Reading [] 2)) 2) = []"
    using copy_empty_buffer [OF run] by (simp add: demo_copy_fs_def empty_file_def contents_def)
  then show ?thesis
    using run by (intro exI [of _ "s Reading [] 2"]) (simp add: copied_def copier_ended_def s_def)
qed

end
