(* ===== verification/Job_Queue_Correct.thy ===== *)
theory Job_Queue_Correct
  imports Job_Queue
begin

text \<open>
  The assignment of files to threads: every file goes to exactly one thread, and no thread gets
  more than one and a half times what the best possible assignment gives to its busiest
  thread. The abstract counterpart is a list that gives the thread of every file.
\<close>

subsection \<open>Loads of an assignment\<close>

definition load :: "nat list \<Rightarrow> nat list \<Rightarrow> nat \<Rightarrow> nat" where
  "load xs a i = (\<Sum>k<length xs. if a ! k = i then xs ! k else 0)"

definition share :: "'a list \<Rightarrow> nat list \<Rightarrow> nat \<Rightarrow> 'a list" where
  "share xs a i = map ((!) xs) (filter (\<lambda>k. a ! k = i) [0..<length xs])"

definition assignment :: "nat \<Rightarrow> nat \<Rightarrow> nat list \<Rightarrow> bool" where
  "assignment m n a \<longleftrightarrow> length a = n \<and> set a \<subseteq> {..<m}"

lemma load_Nil [simp]: "load [] a i = 0"
  by (simp add: load_def)

lemma load_snoc: "length a = length xs \<Longrightarrow> load (xs @ [x]) (a @ [t]) i = load xs a i + (if t = i then x else 0)"
proof -
  assume len: "length a = length xs"
  have "(\<Sum>k<length xs. if (a @ [t]) ! k = i then (xs @ [x]) ! k else 0) = (\<Sum>k<length xs. if a ! k = i then xs ! k else 0)"
    by (rule sum.cong) (use len in \<open>auto simp: nth_append\<close>)
  then show ?thesis
    using len by (simp add: load_def nth_append)
qed

lemma assignment_nth: "assignment m n a \<Longrightarrow> k < n \<Longrightarrow> a ! k < m"
  unfolding assignment_def using nth_mem by blast

lemma share_Nil [simp]: "share [] a i = []"
  by (simp add: share_def)

lemma share_snoc: "length a = length xs \<Longrightarrow> share (xs @ [x]) (a @ [t]) i = share xs a i @ (if t = i then [x] else [])"
proof -
  assume len: "length a = length xs"
  have f: "filter (\<lambda>k. (a @ [t]) ! k = i) [0..<length xs] = filter (\<lambda>k. a ! k = i) [0..<length xs]"
    by (rule filter_cong) (use len in \<open>auto simp: nth_append\<close>)
  have m: "map ((!) (xs @ [x])) (filter P [0..<length xs]) = map ((!) xs) (filter P [0..<length xs])" for P
    by (rule map_cong) (auto simp: nth_append)
  have last: "(a @ [t]) ! length xs = t" "(xs @ [x]) ! length xs = x"
    using len by (metis nth_append_length)+
  show ?thesis
    unfolding share_def length_append by (simp add: f m last)
qed

lemma load_elem: "k < length xs \<Longrightarrow> xs ! k \<le> load xs a (a ! k)"
  unfolding load_def using member_le_sum [of k "{..<length xs}" "\<lambda>j. if a ! j = a ! k then xs ! j else 0"] by simp

lemma load_two:
  assumes "k < length xs" "j < length xs" "k \<noteq> j" "a ! k = a ! j"
  shows "xs ! k + xs ! j \<le> load xs a (a ! k)"
proof -
  have "(\<Sum>l\<in>{k, j}. if a ! l = a ! k then xs ! l else 0) \<le> load xs a (a ! k)"
    unfolding load_def by (rule sum_mono2) (use assms in auto)
  then show ?thesis
    using assms by simp
qed

lemma sum_load:
  assumes "assignment m (length xs) a"
  shows "(\<Sum>i<m. load xs a i) = (\<Sum>k<length xs. xs ! k)"
proof -
  have "(\<Sum>i<m. if a ! k = i then xs ! k else 0) = xs ! k" if "k < length xs" for k
    using assignment_nth [OF assms that] by simp
  moreover have "(\<Sum>i<m. load xs a i) = (\<Sum>k<length xs. \<Sum>i<m. if a ! k = i then xs ! k else 0)"
    unfolding load_def by (rule sum.swap)
  ultimately show ?thesis
    by simp
qed

subsection \<open>The greedy rule\<close>

text \<open>Every file went to a thread with the least load at that time.\<close>

definition greedy :: "nat \<Rightarrow> nat list \<Rightarrow> nat list \<Rightarrow> bool" where
  "greedy m xs a \<longleftrightarrow> (\<forall>k<length xs. \<forall>i<m. load (take k xs) (take k a) (a ! k) \<le> load (take k xs) (take k a) i)"

lemma greedy_snoc:
  assumes "greedy m xs a" "length a = length xs" "\<forall>i<m. load xs a t \<le> load xs a i"
  shows "greedy m (xs @ [x]) (a @ [t])"
  using assms by (auto simp: greedy_def nth_append less_Suc_eq)

lemma load_take_Suc:
  assumes "k < length xs" "length a = length xs"
  shows "load (take (Suc k) xs) (take (Suc k) a) i = load (take k xs) (take k a) i + (if a ! k = i then xs ! k else 0)"
  using load_snoc [of "take k a" "take k xs" "xs ! k" "a ! k" i] assms by (simp add: take_Suc_conv_app_nth)

lemma busy_threads:
  assumes "length a = length xs"
  shows "k \<le> length xs \<Longrightarrow> card {i. i < m \<and> 0 < load (take k xs) (take k a) i} \<le> k"
proof (induction k)
  case (Suc k)
  let ?B = "\<lambda>k. {i. i < m \<and> 0 < load (take k xs) (take k a) i}"
  have "?B (Suc k) \<subseteq> insert (a ! k) (?B k)"
    using load_take_Suc [of k xs a] Suc.prems assms by (auto split: if_splits)
  then have "card (?B (Suc k)) \<le> card (insert (a ! k) (?B k))"
    by (intro card_mono) auto
  also have "\<dots> \<le> Suc (card (?B k))"
    by (simp add: card_insert_if)
  finally have "card (?B (Suc k)) \<le> Suc (card (?B k))" .
  then show ?case
    using Suc by simp
qed simp

text \<open>
  Longest files first: if the sizes decrease, no thread gets more than one and a half times
  the greatest load \<open>T\<close> of any other assignment \<open>b\<close>. A file that goes to a busy thread is at
  least the \<open>m + 1\<close>st, so \<open>b\<close> has two files at least as large on one thread.
\<close>

lemma longest_first_bound:
  assumes "sorted_wrt (\<ge>) xs" and a: "assignment m (length xs) a" and g: "greedy m xs a"
    and b: "assignment m (length xs) b" and T: "\<And>i. i < m \<Longrightarrow> load xs b i \<le> T"
  shows "k \<le> length xs \<Longrightarrow> i < m \<Longrightarrow> 2 * load (take k xs) (take k a) i \<le> 3 * T"
proof (induction k arbitrary: i)
  case (Suc k)
  let ?L = "load (take k xs) (take k a)"
  let ?t = "a ! k" and ?w = "xs ! k"
  have k: "k < length xs"
    using Suc.prems by simp
  have bm: "b ! j < m" if "j < length xs" for j
    by (rule assignment_nth [OF b that])
  have least: "?L ?t \<le> ?L j" if "j < m" for j
    using g k that by (simp add: greedy_def)
  have Suc_eq: "load (take (Suc k) xs) (take (Suc k) a) i = ?L i + (if ?t = i then ?w else 0)"
    using load_take_Suc [OF k] a by (simp add: assignment_def)
  have wT: "?w \<le> T"
    using load_elem [OF k, of b] T [OF bm [OF k]] by simp
  show ?case
  proof (cases "?t = i")
    case False
    then show ?thesis
      using Suc Suc_eq by simp
  next
    case True
    show ?thesis
    proof (cases "?L i = 0")
      case True
      then show ?thesis
        using Suc_eq wT by (simp split: if_splits)
    next
      case busy: False
      have "{j. j < m \<and> 0 < ?L j} = {..<m}"
        using busy least True by force
      then have "m \<le> k"
        using busy_threads [of a xs k m] a k by (simp add: assignment_def)
      have "\<not> inj_on ((!) b) {..m}"
      proof (rule pigeonhole)
        have "(!) b ` {..m} \<subseteq> {..<m}"
          using bm \<open>m \<le> k\<close> k by auto
        then have "card ((!) b ` {..m}) \<le> card {..<m}"
          by (intro card_mono) auto
        then show "card ((!) b ` {..m}) < card {..m}"
          by simp
      qed
      then obtain p q where pq: "p \<le> m" "q \<le> m" "p \<noteq> q" "b ! p = b ! q"
        by (auto simp: inj_on_def)
      have "?w \<le> xs ! p" "?w \<le> xs ! q"
        using sorted_wrt_nth_less [OF assms(1), of p k] sorted_wrt_nth_less [OF assms(1), of q k] pq \<open>m \<le> k\<close> k
        by (cases "p = k"; cases "q = k"; auto)+
      then have two: "2 * ?w \<le> T"
        using load_two [of p xs q b] T [OF bm [of p]] pq \<open>m \<le> k\<close> k by simp
      have ak: "assignment m (length (take k xs)) (take k a)"
        using a set_take_subset [of k a] by (auto simp: assignment_def)
      have "m * ?L i \<le> (\<Sum>j<m. ?L j)"
        using sum_bounded_below [of "{..<m}" "?L i" ?L] least True by simp
      also have "\<dots> = (\<Sum>j<k. xs ! j)"
        using sum_load [OF ak] k by simp
      also have "\<dots> \<le> (\<Sum>j<length xs. xs ! j)"
        by (rule sum_mono2) (use k in auto)
      also have "\<dots> = (\<Sum>j<m. load xs b j)"
        using sum_load [OF b] by simp
      also have "\<dots> \<le> m * T"
        using sum_bounded_above [of "{..<m}" "load xs b" T] T by simp
      finally have "?L i \<le> T"
        using Suc.prems by simp
      then show ?thesis
        using Suc_eq two by (simp split: if_splits)
    qed
  qed
qed simp

subsection \<open>What the program assigns\<close>

abbreviation sizes :: "file_work list \<Rightarrow> nat list" where
  "sizes ws \<equiv> map (\<lambda>w. unat (fw_size w)) ws"

abbreviation job_of :: "file_work \<Rightarrow> job" where
  "job_of w \<equiv> (fw_src w, fw_dst w)"

text \<open>
  The queue and the jobs stand for the assignment \<open>a\<close> of the files \<open>ws\<close>. Loads in the queue
  are machine words.
\<close>

definition represents :: "nat \<Rightarrow> file_work list \<Rightarrow> nat list \<Rightarrow> load_queue \<times> job list list \<Rightarrow> bool" where
  "represents m ws a = (\<lambda>(pq, jobs). assignment m (length ws) a \<and> sorted pq \<and>
     mset pq = image_mset (\<lambda>i. (of_nat (load (sizes ws) a i), int i)) (mset_set {..<m}) \<and>
     jobs = map (\<lambda>i. map job_of (share ws a i)) [0..<m])"

lemma nat_of_load:
  assumes "(\<Sum>w\<leftarrow>ws. unat (fw_size w)) < 2 ^ 64"
  shows "unat (of_nat (load (sizes ws) a i) :: u64) = load (sizes ws) a i"
proof -
  have "load (sizes ws) a i \<le> (\<Sum>k<length ws. unat (fw_size (ws ! k)))"
    unfolding load_def length_map by (rule sum_mono) simp
  also have "\<dots> = (\<Sum>w\<leftarrow>ws. unat (fw_size w))"
    by (simp add: sum_list_sum_nth atLeast0LessThan)
  finally show ?thesis
    using assms by (simp add: unat_of_nat)
qed

lemma assign_work_step:
  assumes r: "represents m ws a (pq, jobs)" and "0 < m"
  shows "ok (assign_work w (pq, jobs)) (\<lambda>s. \<exists>t<m. represents m (ws @ [w]) (a @ [t]) s \<and>
    (\<forall>i<m. (of_nat (load (sizes ws) a t) :: u64) \<le> of_nat (load (sizes ws) a i)))"
proof -
  let ?e = "\<lambda>i. (of_nat (load (sizes ws) a i) :: u64, int i)"
  have el: "mset pq = add_mset (?e 0) (image_mset ?e (mset_set ({..<m} - {0})))"
    using r \<open>0 < m\<close> mset_set.remove [of "{..<m}" 0] by (simp add: represents_def)
  obtain x where x: "pq_top pq = Inr x" "x \<in># mset pq" "\<And>y. y \<in># mset pq \<Longrightarrow> x \<le> y"
    and q: "\<And>y. sorted (pq_push y (pq_pop pq))" "\<And>y. mset (pq_push y (pq_pop pq)) = add_mset y (mset pq - {#x#})"
    using pq.replace_top [OF _ el] r by (auto simp: represents_def)
  have mem: "y \<in># mset pq \<longleftrightarrow> (\<exists>i<m. y = ?e i)" for y
  proof -
    have "mset pq = image_mset ?e (mset_set {..<m})"
      using r by (simp add: represents_def)
    then show ?thesis
      by (auto simp del: set_mset_mset)
  qed
  obtain t where t: "t < m" "x = ?e t"
    using x(2) unfolding mem by blast
  have min: "of_nat (load (sizes ws) a t) \<le> (of_nat (load (sizes ws) a i) :: u64)" if "i < m" for i
    using x(3) [of "?e i"] that unfolding t(2) mem by auto
  have len: "length a = length ws" and sub: "set a \<subseteq> {..<m}"
    using r by (auto simp: represents_def assignment_def)
  let ?jobs = "jobs[t := (jobs ! t) @ [job_of w]]"
  have jobs: "?jobs = map (\<lambda>i. map job_of (share (ws @ [w]) (a @ [t]) i)) [0..<m]"
    using r t(1) len by (intro nth_equalityI) (auto simp: represents_def share_snoc nth_list_update)
  let ?e' = "\<lambda>i. (of_nat (load (sizes (ws @ [w])) (a @ [t]) i) :: u64, int i)"
  have "image_mset ?e' (mset_set {..<m}) = add_mset (?e' t) (image_mset ?e' (mset_set ({..<m} - {t})))"
    using mset_set.remove [of "{..<m}" t] t(1) by simp
  moreover have "image_mset ?e' (mset_set ({..<m} - {t})) = image_mset ?e (mset_set ({..<m} - {t}))"
    by (rule image_mset_cong) (auto simp: load_snoc len)
  moreover have "mset pq - {#x#} = image_mset ?e (mset_set ({..<m} - {t}))"
    using r mset_set.remove [of "{..<m}" t] t by (simp add: represents_def)
  ultimately have pq: "mset (pq_push (fst x + fw_size w, snd x) (pq_pop pq)) = image_mset ?e' (mset_set {..<m})"
    using q(2) by (simp add: t(2) load_snoc len)
  have len_jobs: "t < length jobs"
    using r t(1) by (simp add: represents_def)
  have res: "assign_work w (pq, jobs) = Inr (pq_push (fst x + fw_size w, snd x) (pq_pop pq), ?jobs)"
    using len_jobs by (simp add: assign_work_def x(1) t(2) Let_def)
  have "represents m (ws @ [w]) (a @ [t]) (pq_push (fst x + fw_size w, snd x) (pq_pop pq), ?jobs)"
    unfolding represents_def prod.case using pq q(1) jobs len sub t(1) by (simp add: assignment_def)
  then show ?thesis
    unfolding res using t(1) min by auto
qed

lemma mset_share:
  "assignment m (length xs) a \<Longrightarrow> (\<Sum>i<m. mset (share xs a i)) = mset xs"
proof (induction xs arbitrary: a rule: rev_induct)
  case (snoc x xs)
  then obtain b t where a: "a = b @ [t]" "assignment m (length xs) b" "t < m"
    by (cases a rule: rev_cases) (auto simp: assignment_def)
  have "(\<Sum>i<m. mset (share (xs @ [x]) a i)) = (\<Sum>i<m. mset (share xs b i) + (if i = t then {#x#} else {#}))"
    by (rule sum.cong) (use a in \<open>auto simp: share_snoc assignment_def\<close>)
  also have "\<dots> = mset xs + {#x#}"
    using snoc.IH [OF a(2)] a(3) by (simp add: sum.distrib)
  finally show ?case
    by simp
qed (simp add: share_def)

lemma mset_concat_upt: "mset (concat (map f [0..<m])) = (\<Sum>i<m. mset (f i))"
  by (induction m) (simp_all add: lessThan_Suc ac_simps)

lemma mset_jobs:
  assumes "represents m ws a (pq, jobs)"
  shows "mset (concat jobs) = image_mset job_of (mset ws)"
proof -
  have "concat jobs = map job_of (concat (map (share ws a) [0..<m]))"
    using assms by (simp add: represents_def map_concat comp_def)
  then show ?thesis
    using mset_share [of m ws a] assms by (simp add: mset_concat_upt represents_def)
qed

text \<open>The queue before the first file: every thread with load 0.\<close>

lemma represents_start:
  "represents (nat n) [] [] (fold (\<lambda>i. pq_push (0, i)) [0..n - 1] [], replicate (nat n) [])"
proof -
  have upto: "[0..n - 1] = map int [0..<nat n]"
    by (rule nth_equalityI) (auto simp: nth_upto)
  have fold_eq: "fold (\<lambda>i. pq_push (0, i)) xs q = fold pq_push (map (Pair 0) xs) q" for xs :: "int list" and q
    by (induction xs arbitrary: q) simp_all
  have "mset [0..<nat n] = mset_set {..<nat n}"
    by (simp add: mset_upt atLeast0LessThan)
  then have "mset (map (Pair 0) [0..n - 1]) = image_mset (\<lambda>i. (0 :: u64, int i)) (mset_set {..<nat n})"
    by (simp add: upto mset_map [symmetric] comp_def del: mset_upt)
  then show ?thesis
    using pq.push_all [of "[]" "map (Pair 0) [0..n - 1]"]
    by (simp add: represents_def assignment_def fold_eq map_replicate_const)
qed

lemma assign_jobs_ok:
  assumes "0 < thread_num"
  shows "ok (assign_jobs srt thread_num files) (\<lambda>s. \<exists>a. represents (nat thread_num) (srt files) a s \<and>
    ((\<Sum>w\<leftarrow>srt files. unat (fw_size w)) < 2 ^ 64 \<longrightarrow> greedy (nat thread_num) (sizes (srt files)) a))"
proof -
  let ?ws = "srt files" and ?m = "nat thread_num"
  have "ok (foldR assign_work ?ws (fold (\<lambda>i. pq_push (0, i)) [0..thread_num - 1] [], replicate ?m []))
    (\<lambda>s. \<exists>a. represents ?m ?ws a s \<and> ((\<Sum>w\<leftarrow>?ws. unat (fw_size w)) < 2 ^ 64 \<longrightarrow> greedy ?m (sizes ?ws) a))"
  proof (rule ok_foldR [where I = "\<lambda>ws s. \<exists>a. represents ?m ws a s \<and> ((\<Sum>w\<leftarrow>ws. unat (fw_size w)) < 2 ^ 64 \<longrightarrow> greedy ?m (sizes ws) a)"])
    show "\<exists>a. represents ?m [] a (fold (\<lambda>i. pq_push (0, i)) [0..thread_num - 1] [], replicate ?m []) \<and>
        ((\<Sum>w\<leftarrow>[]. unat (fw_size w)) < 2 ^ 64 \<longrightarrow> greedy ?m (sizes []) a)"
      using represents_start by (intro exI [of _ "[]"]) (simp add: greedy_def)
  next
    fix ws w rest and s :: "load_queue \<times> job list list"
    assume "\<exists>a. represents ?m ws a s \<and> ((\<Sum>w\<leftarrow>ws. unat (fw_size w)) < 2 ^ 64 \<longrightarrow> greedy ?m (sizes ws) a)"
    then obtain a where a: "represents ?m ws a s" "(\<Sum>w\<leftarrow>ws. unat (fw_size w)) < 2 ^ 64 \<longrightarrow> greedy ?m (sizes ws) a"
      by blast
    have len: "length a = length (sizes ws)"
      using a(1) by (auto simp: represents_def assignment_def)
    have "ok (assign_work w s) (\<lambda>s'. \<exists>t<?m. represents ?m (ws @ [w]) (a @ [t]) s' \<and>
        (\<forall>i<?m. (of_nat (load (sizes ws) a t) :: u64) \<le> of_nat (load (sizes ws) a i)))"
      using assign_work_step [of ?m ws a "fst s" "snd s" w] a(1) assms by simp
    then show "ok (assign_work w s) (\<lambda>s'. \<exists>a. represents ?m (ws @ [w]) a s' \<and>
        ((\<Sum>w\<leftarrow>ws @ [w]. unat (fw_size w)) < 2 ^ 64 \<longrightarrow> greedy ?m (sizes (ws @ [w])) a))"
    proof (rule ok_mono)
      fix s'
      assume "\<exists>t<?m. represents ?m (ws @ [w]) (a @ [t]) s' \<and>
        (\<forall>i<?m. (of_nat (load (sizes ws) a t) :: u64) \<le> of_nat (load (sizes ws) a i))"
      then obtain t where t: "t < ?m" "represents ?m (ws @ [w]) (a @ [t]) s'"
          "\<forall>i<?m. (of_nat (load (sizes ws) a t) :: u64) \<le> of_nat (load (sizes ws) a i)"
        by blast
      have "greedy ?m (sizes (ws @ [w])) (a @ [t])" if "(\<Sum>w\<leftarrow>ws @ [w]. unat (fw_size w)) < 2 ^ 64"
      proof -
        have small: "(\<Sum>w\<leftarrow>ws. unat (fw_size w)) < 2 ^ 64"
          using that by simp
        have "load (sizes ws) a t \<le> load (sizes ws) a i" if "i < ?m" for i
          using t(3) that nat_of_load [OF small] by (simp add: word_le_nat_alt)
        then show ?thesis
          using greedy_snoc [of ?m "sizes ws" a t "unat (fw_size w)"] a(2) small len by simp
      qed
      then show "\<exists>a. represents ?m (ws @ [w]) a s' \<and>
          ((\<Sum>w\<leftarrow>ws @ [w]. unat (fw_size w)) < 2 ^ 64 \<longrightarrow> greedy ?m (sizes (ws @ [w])) a)"
        using t(2) by blast
    qed
  qed
  then show ?thesis
    using assms by (simp add: assign_jobs_def Let_def)
qed

lemma sizes_decrease:
  assumes "std_sort file_work_less srt"
  shows "sorted_wrt (\<ge>) (sizes (srt files))"
proof -
  have "sorted_wrt (\<lambda>x y. \<not> file_work_less y x) (srt files)"
    using assms by (auto simp: std_sort_def)
  then show ?thesis
    unfolding sorted_wrt_map by (rule sorted_wrt_mono_rel [rotated]) (simp add: file_work_less_def word_le_nat_alt linorder_not_less)
qed

subsection \<open>Properties\<close>

text \<open>
  C20: With at least one thread, every file is assigned to exactly one thread, the priority queue
  holds the number of bytes of every thread, and, if the sizes add up to less than \<open>2 ^ 64\<close>,
  no thread has more than one and a half times the bytes that any other way to assign the
  files leaves to its busiest thread. This holds for every order that \<^verbatim>\<open>std::sort\<close> may choose
  among files of the same size.
\<close>

theorem assign_jobs_balanced:
  assumes "std_sort file_work_less srt" and "0 < thread_num"
  shows "\<exists>pq jobs a. assign_jobs srt thread_num files = Inr (pq, jobs) \<and> represents (nat thread_num) (srt files) a (pq, jobs) \<and>
    mset (concat jobs) = image_mset job_of (mset files) \<and>
    ((\<Sum>w\<leftarrow>files. unat (fw_size w)) < 2 ^ 64 \<longrightarrow>
      (\<forall>b T. assignment (nat thread_num) (length files) b \<and> (\<forall>i<nat thread_num. load (sizes (srt files)) b i \<le> T) \<longrightarrow>
        (\<forall>(l, i)\<in>set pq. 2 * unat l \<le> 3 * T)))"
proof -
  let ?m = "nat thread_num" and ?ws = "srt files"
  have perm: "mset ?ws = mset files"
    using assms(1) by (auto simp: std_sort_def)
  then have len: "length ?ws = length files" and total: "(\<Sum>w\<leftarrow>?ws. unat (fw_size w)) = (\<Sum>w\<leftarrow>files. unat (fw_size w))"
    by (auto dest: mset_eq_length) (metis mset_map sum_mset_sum_list)
  obtain pq jobs a where res: "assign_jobs srt thread_num files = Inr (pq, jobs)" and r: "represents ?m ?ws a (pq, jobs)"
    and g: "(\<Sum>w\<leftarrow>?ws. unat (fw_size w)) < 2 ^ 64 \<Longrightarrow> greedy ?m (sizes ?ws) a"
    using assign_jobs_ok [OF assms(2), of srt files] by (auto simp: ok_def)
  have "\<forall>(l, i)\<in>set pq. 2 * unat l \<le> 3 * T"
    if small: "(\<Sum>w\<leftarrow>files. unat (fw_size w)) < 2 ^ 64" and b: "assignment ?m (length files) b"
      and T: "\<forall>i<?m. load (sizes ?ws) b i \<le> T" for b T
  proof -
    have a: "assignment ?m (length (sizes ?ws)) a"
      using r by (simp add: represents_def)
    have g': "greedy ?m (sizes ?ws) a"
      using g small total by simp
    have bound: "2 * load (sizes ?ws) a i \<le> 3 * T" if "i < ?m" for i
      using longest_first_bound [OF sizes_decrease [OF assms(1)] a g', of b T "length ?ws" i] b T len a that
      by (simp add: assignment_def)
    have "set pq = (\<lambda>i. (of_nat (load (sizes ?ws) a i), int i)) ` {..<?m}"
      using r set_mset_mset [of pq] by (simp add: represents_def del: set_mset_mset)
    then show ?thesis
      using bound nat_of_load [of ?ws a] small total by auto
  qed
  moreover have "mset (concat jobs) = image_mset job_of (mset files)"
    using mset_jobs [OF r] perm by simp
  ultimately show ?thesis
    using res r by blast
qed

definition demo_sort :: "file_work list \<Rightarrow> file_work list" where
  "demo_sort ws = rev (sort_key fw_size ws)"

definition demo_files :: "file_work list" where
  "demo_files = [\<lparr>fw_size = 3, fw_src = 4, fw_dst = 5\<rparr>, \<lparr>fw_size = 5, fw_src = 6, fw_dst = 7\<rparr>,
     \<lparr>fw_size = 2, fw_src = 8, fw_dst = 9\<rparr>]"

lemma demo_sort_ok: "std_sort file_work_less demo_sort"
proof -
  have "sorted_wrt (\<lambda>x y. fw_size y \<le> fw_size x) (rev (sort_key fw_size ws))" for ws
    using sorted_sort_key [of fw_size ws] by (simp add: sorted_wrt_rev sorted_wrt_map)
  then show ?thesis
    by (auto simp: std_sort_def demo_sort_def file_work_less_def linorder_not_less)
qed

theorem assign_jobs_balanced_witness:
  "assign_jobs demo_sort 2 demo_files = Inr ([(5, 0), (5, 1)], [[(6, 7)], [(4, 5), (8, 9)]]) \<and>
   (\<nexists>b T. assignment 2 3 b \<and> (\<forall>i<2. load [5, 3, 2] b i \<le> T) \<and> 3 * T < 10)"
proof -
  have rep: "replicate 2 ([] :: job list) = [[], []]"
    by (simp add: numeral_2_eq_2)
  have run: "assign_jobs demo_sort 2 demo_files = Inr ([(5, 0), (5, 1)], [[(6, 7)], [(4, 5), (8, 9)]])"
    by (simp add: assign_jobs_def demo_sort_def demo_files_def assign_work_def pq_push_def pq_top_def pq_pop_def Let_def
        upto.simps rep)
  have s: "sizes (demo_sort demo_files) = [5, 3, 2]" "length demo_files = 3" "(\<Sum>w\<leftarrow>demo_files. unat (fw_size w)) < 2 ^ 64"
    by (simp_all add: demo_sort_def demo_files_def)
  show ?thesis
    using assign_jobs_balanced [OF demo_sort_ok, of 2 demo_files] s(3) unfolding run s by (auto simp: not_less)
qed

lemma report_loads_eq: "report_loads q = Inr (map (\<lambda>(l, i). (i, l)) q)"
proof (induction q)
  case (Cons x q)
  then show ?case
    by (subst report_loads.simps) (simp add: pq_top_def pq_pop_def split_beta)
qed (subst report_loads.simps, simp)

text \<open>
  The loop that prints the loads ends and leaves out no thread: it prints every pair of the
  queue once, in the order of increasing loads.
\<close>

theorem report_loads_all_threads:
  assumes "0 < thread_num"
  shows "\<exists>pq jobs out. assign_jobs srt thread_num files = Inr (pq, jobs) \<and> report_loads pq = Inr out \<and>
    sorted (map snd out) \<and> sorted_wrt (\<lambda>x y. snd x = snd y \<longrightarrow> fst x < fst y) out \<and> mset (map fst out) = mset [0..thread_num - 1]"
proof -
  obtain pq jobs a where res: "assign_jobs srt thread_num files = Inr (pq, jobs)"
    and r: "represents (nat thread_num) (srt files) a (pq, jobs)"
    using assign_jobs_ok [OF assms, of srt files] by (auto simp: ok_def)
  have "[0..thread_num - 1] = map int [0..<nat thread_num]"
    by (rule nth_equalityI) (auto simp: nth_upto)
  moreover have nums: "image_mset snd (mset pq) = image_mset int (mset_set {..<nat thread_num})"
    using r by (simp add: represents_def image_mset.compositionality comp_def)
  ultimately have perm: "mset (map snd pq) = mset [0..thread_num - 1]"
    by (simp add: atLeast0LessThan)
  then have "distinct (map snd pq)"
    using mset_eq_imp_distinct_iff by fastforce
  then have "sorted_wrt (<) pq"
    using r distinct_map [of snd pq] by (simp add: represents_def strict_sorted_iff)
  then have "sorted (map fst pq)" "sorted_wrt (\<lambda>x y. fst x = fst y \<longrightarrow> snd x < snd y) pq"
    unfolding sorted_map by (auto elim!: sorted_wrt_mono_rel [rotated])
  then show ?thesis
    using res perm by (simp add: report_loads_eq sorted_wrt_map split_beta comp_def image_mset.compositionality)
qed

theorem report_loads_all_threads_witness:
  "\<exists>pq jobs out. assign_jobs demo_sort 2 demo_files = Inr (pq, jobs) \<and> report_loads pq = Inr out \<and> mset (map fst out) = {#0, 1#}"
  using report_loads_all_threads [of 2 demo_sort demo_files] by (auto simp: upto.simps)

text \<open>
  Without a thread the first file makes the program read the top of an empty queue, and a
  negative number of threads is the length of a vector that cannot be allocated, also when
  there is nothing to copy.
\<close>

theorem assign_jobs_no_thread:
  assumes "std_sort file_work_less srt"
  shows "(thread_num < 0 \<longrightarrow> assign_jobs srt thread_num files = Inl Uncaught) \<and>
    (files \<noteq> [] \<longrightarrow> assign_jobs srt 0 files = Inl OutOfBounds)"
proof -
  have "mset (srt files) = mset files"
    using assms by (auto simp: std_sort_def)
  then show ?thesis
    by (cases "srt files") (auto simp: assign_jobs_def guardR_def assign_work_def pq_top_def Let_def)
qed

theorem assign_jobs_no_thread_witness:
  "assign_jobs demo_sort (- 1) demo_files = Inl Uncaught \<and> assign_jobs demo_sort 0 demo_files = Inl OutOfBounds"
  using assign_jobs_no_thread [OF demo_sort_ok] by (simp add: demo_files_def)

end
