(* ===== verification/Cp_Dir_Correct.thy ===== *)
theory Cp_Dir_Correct
  imports Cp_Dir Copy_Runs Job_Queue_Correct
begin

text \<open>
  What the traversal of \<^verbatim>\<open>mcp\<close> leaves, for every pattern of failing calls: when it returns, the
  destination has all directories and links, and every regular file of the source has a job
  whose descriptors belong to it, or a job whose destination could not be opened.
\<close>

subsection \<open>The entries of a directory, at all depths\<close>

fun listing :: "string list \<Rightarrow> (string \<times> src_node) list \<Rightarrow> (string list \<times> src_node) list" where
  "listing p [] = []"
| "listing p ((name, node) # es) = (if name = ''.'' \<or> name = ''..'' then []
     else (p @ [name], node) # (case node of Dir_node mode entries \<Rightarrow> listing (p @ [name]) entries | _ \<Rightarrow> [])) @ listing p es"

text \<open>
  Names are different within a directory, files have numbers below \<open>n\<close>, and targets of links
  are strings of C.
\<close>

fun source_ok :: "nat \<Rightarrow> (string \<times> src_node) list \<Rightarrow> bool" where
  "source_ok n [] = True"
| "source_ok n ((name, node) # es) = (name \<notin> fst ` set es \<and> source_ok n es \<and>
     (case node of Reg_node mode ino \<Rightarrow> ino < n | Link_node link \<Rightarrow> CHR 0x00 \<notin> set link
     | Dir_node mode entries \<Rightarrow> source_ok n entries | Other_node \<Rightarrow> True))"

definition fd_alloc_ok :: "walk_env \<Rightarrow> bool" where
  "fd_alloc_ok env \<longleftrightarrow> (\<forall>xs. e_new_fd env xs \<notin> set xs \<and> 0 \<le> e_new_fd env xs)"

subsection \<open>Invariant\<close>

definition works_apart :: "walk \<Rightarrow> file_work \<Rightarrow> file_work \<Rightarrow> bool" where
  "works_apart w x y \<longleftrightarrow> fw_src x \<noteq> fw_src y \<and> fw_src x \<noteq> fw_dst y \<and> fw_dst x \<noteq> fw_src y \<and>
     (fw_dst x \<noteq> - 1 \<longrightarrow> fw_dst x \<noteq> fw_dst y \<and>
       (\<forall>d e. fds (w_fs w) (fw_dst x) = Some d \<longrightarrow> fds (w_fs w) (fw_dst y) = Some e \<longrightarrow> d_inode d \<noteq> d_inode e))"

text \<open>Files below \<open>n0\<close> are those that were there at the start, with the contents \<open>f0\<close>.\<close>

definition work_ok :: "nat \<Rightarrow> walk \<Rightarrow> file_work \<Rightarrow> bool" where
  "work_ok n0 w x \<longleftrightarrow> fw_src x \<in> set (w_open w) \<and> fw_src x \<noteq> fw_dst x \<and>
     (\<exists>i<n0. fds (w_fs w) (fw_src x) = Some \<lparr>d_inode = i, d_pos = 0\<rparr> \<and> fw_size x = of_nat (flen (inodes (w_fs w) i))) \<and>
     (fw_dst x = - 1 \<or> fw_dst x \<in> set (w_open w) \<and>
       (\<exists>j\<ge>n0. j < w_ino w \<and> fds (w_fs w) (fw_dst x) = Some \<lparr>d_inode = j, d_pos = 0\<rparr> \<and> inodes (w_fs w) j = empty_file))"

definition walk_inv :: "nat \<Rightarrow> (nat \<Rightarrow> os_file) \<Rightarrow> walk \<Rightarrow> bool" where
  "walk_inv n0 f0 w \<longleftrightarrow> n0 \<le> w_ino w \<and> - 1 \<notin> set (w_open w) \<and>
     (\<forall>fd. fds (w_fs w) fd \<noteq> None \<longrightarrow> fd \<in> set (w_open w)) \<and> (\<forall>fd. w_dirs w fd \<noteq> None \<longrightarrow> fd \<in> set (w_open w)) \<and>
     (\<forall>i<n0. inodes (w_fs w) i = f0 i) \<and> (\<forall>x\<in>set (w_files w). work_ok n0 w x) \<and> sorted_wrt (works_apart w) (w_files w)"

text \<open>What later steps do not disturb.\<close>

definition keeps :: "walk \<Rightarrow> walk \<Rightarrow> bool" where
  "keeps w w' \<longleftrightarrow> (\<exists>new. w_files w' = w_files w @ new) \<and> (\<forall>q. w_tree w q \<noteq> None \<longrightarrow> w_tree w' q = w_tree w q) \<and>
     (\<forall>fd\<in>set (w_open w). fd \<in> set (w_open w') \<and> fds (w_fs w') fd = fds (w_fs w) fd \<and> w_dirs w' fd = w_dirs w fd)"

definition only_below :: "string list \<Rightarrow> walk \<Rightarrow> walk \<Rightarrow> bool" where
  "only_below q w w' \<longleftrightarrow> (\<forall>x. w_tree w' x \<noteq> w_tree w x \<longrightarrow> (\<exists>r. x = q @ r))"

definition entry_done :: "walk \<Rightarrow> string list \<times> src_node \<Rightarrow> bool" where
  "entry_done w = (\<lambda>(path, node). case node of
     Reg_node mode ino \<Rightarrow> (\<exists>x\<in>set (w_files w). fds (w_fs w) (fw_src x) = Some \<lparr>d_inode = ino, d_pos = 0\<rparr> \<and>
       (fw_dst x = - 1 \<or> (\<exists>j. fds (w_fs w) (fw_dst x) = Some \<lparr>d_inode = j, d_pos = 0\<rparr> \<and> w_tree w path = Some (DFile mode j))))
   | Link_node link \<Rightarrow> (\<exists>rest. w_tree w path = Some (DLink (link @ rest)))
   | Dir_node mode entries \<Rightarrow> w_tree w path = Some (DDir mode)
   | Other_node \<Rightarrow> True)"

lemma keeps_refl [simp]: "keeps w w"
  by (simp add: keeps_def)

lemma keeps_trans: "keeps u v \<Longrightarrow> keeps v w \<Longrightarrow> keeps u w"
  unfolding keeps_def by (metis append.assoc)

lemma only_below_refl [simp]: "only_below q w w"
  by (simp add: only_below_def)

lemma entry_done_keeps:
  assumes "walk_inv n0 f0 w" and "keeps w w'" and "entry_done w e"
  shows "entry_done w' e"
proof -
  have fd: "fds (w_fs w') fd = fds (w_fs w) fd" if "fd \<in> set (w_open w)" for fd
    using assms(2) that by (simp add: keeps_def)
  have tree: "w_tree w' q = w_tree w q" if "w_tree w q \<noteq> None" for q
    using assms(2) that by (simp add: keeps_def)
  obtain path node where e: "e = (path, node)"
    by fastforce
  show ?thesis
  proof (cases node)
    case (Reg_node mode ino)
    then obtain x where x: "x \<in> set (w_files w)" "fds (w_fs w) (fw_src x) = Some \<lparr>d_inode = ino, d_pos = 0\<rparr>"
        "fw_dst x = - 1 \<or> (\<exists>j. fds (w_fs w) (fw_dst x) = Some \<lparr>d_inode = j, d_pos = 0\<rparr> \<and> w_tree w path = Some (DFile mode j))"
      using assms(3) e by (auto simp: entry_done_def)
    have ok: "work_ok n0 w x" and x': "x \<in> set (w_files w')"
      using assms(1,2) x(1) by (auto simp: walk_inv_def keeps_def)
    have "fds (w_fs w') (fw_src x) = Some \<lparr>d_inode = ino, d_pos = 0\<rparr>"
      using ok x(2) fd by (simp add: work_ok_def)
    moreover have "fw_dst x = - 1 \<or> (\<exists>j. fds (w_fs w') (fw_dst x) = Some \<lparr>d_inode = j, d_pos = 0\<rparr> \<and> w_tree w' path = Some (DFile mode j))"
      using x(3) ok fd [of "fw_dst x"] tree [of path] by (auto simp: work_ok_def)
    ultimately show ?thesis
      using x' e Reg_node by (auto simp: entry_done_def)
  qed (use assms(3) e tree [of path] in \<open>auto simp: entry_done_def\<close>)
qed

lemma checked_Inr: "checked env w = Inr w' \<longleftrightarrow> \<not> e_fails env (w_calls w) \<and> w' = w\<lparr>w_calls := w_calls w + 1\<rparr>"
  by (auto simp: checked_def guardR_def)

lemma walk_inv_calls [simp]: "walk_inv n0 f0 (w\<lparr>w_calls := n\<rparr>) = walk_inv n0 f0 w"
  by (simp add: walk_inv_def work_ok_def works_apart_def [abs_def])

lemma keeps_calls [simp]: "keeps (w\<lparr>w_calls := n\<rparr>) w' = keeps w w'" "keeps w (w'\<lparr>w_calls := n\<rparr>) = keeps w w'"
  by (simp_all add: keeps_def)

lemma entry_done_calls [simp]: "entry_done (w\<lparr>w_calls := n\<rparr>) = entry_done w"
  by (simp add: entry_done_def cong: src_node.case_cong)

subsection \<open>The operations\<close>

lemma work_ok_keeps:
  assumes "work_ok n0 w x" and "\<forall>fd\<in>set (w_open w). fd \<in> set (w_open w') \<and> fds (w_fs w') fd = fds (w_fs w) fd"
    and "w_ino w \<le> w_ino w'" and "\<forall>i<w_ino w. inodes (w_fs w') i = inodes (w_fs w) i" and "n0 \<le> w_ino w"
  shows "work_ok n0 w' x"
proof -
  obtain i where i: "i < n0" "fds (w_fs w) (fw_src x) = Some \<lparr>d_inode = i, d_pos = 0\<rparr>" "fw_size x = of_nat (flen (inodes (w_fs w) i))"
      "fw_src x \<in> set (w_open w)"
    using assms(1) by (auto simp: work_ok_def)
  have "inodes (w_fs w') i = inodes (w_fs w) i"
    using i(1) assms(4,5) by simp
  then show ?thesis
    using assms(1-4) i by (auto simp: work_ok_def)
qed

lemma works_apart_keeps:
  assumes "works_apart w x y" and "work_ok n0 w x" and "work_ok n0 w y"
    and "\<forall>fd\<in>set (w_open w). fds (w_fs w') fd = fds (w_fs w) fd" and "fds (w_fs w') (- 1) = None"
  shows "works_apart w' x y"
  using assms by (cases "fw_dst y = - 1") (auto simp: works_apart_def work_ok_def)

text \<open>The invariant after new descriptors have been opened and new files made.\<close>

lemma walk_inv_more:
  assumes inv: "walk_inv n0 f0 w" and old: "\<forall>fd\<in>set (w_open w). fd \<in> set (w_open w') \<and> fds (w_fs w') fd = fds (w_fs w) fd"
    and ino: "w_ino w \<le> w_ino w'" "\<forall>i<w_ino w. inodes (w_fs w') i = inodes (w_fs w) i"
    and "- 1 \<notin> set (w_open w')" "\<forall>fd. fds (w_fs w') fd \<noteq> None \<longrightarrow> fd \<in> set (w_open w')" "\<forall>fd. w_dirs w' fd \<noteq> None \<longrightarrow> fd \<in> set (w_open w')"
    and files: "w_files w' = w_files w @ new" "\<forall>x\<in>set new. work_ok n0 w' x" "sorted_wrt (works_apart w') new"
    and apart: "\<forall>x\<in>set (w_files w). \<forall>y\<in>set new. works_apart w' x y"
  shows "walk_inv n0 f0 w'"
proof -
  have n0: "n0 \<le> w_ino w" and ok: "\<forall>x\<in>set (w_files w). work_ok n0 w x" and srt: "sorted_wrt (works_apart w) (w_files w)"
    using inv by (auto simp: walk_inv_def)
  have minus: "fds (w_fs w') (- 1) = None"
    using assms(5,6) by blast
  have "\<forall>x\<in>set (w_files w). work_ok n0 w' x"
    using ok work_ok_keeps [OF _ old ino n0] by blast
  moreover have "sorted_wrt (works_apart w') (w_files w)"
    by (rule sorted_wrt_mono_rel [OF _ srt]) (use works_apart_keeps [of w _ _ n0 w'] ok old minus in blast)
  moreover have "\<forall>i<n0. inodes (w_fs w') i = f0 i"
    using inv ino(2) n0 by (auto simp: walk_inv_def)
  ultimately show ?thesis
    using assms(5-7) files apart n0 ino(1) by (auto simp: walk_inv_def sorted_wrt_append)
qed

lemma new_fd:
  assumes "fd_alloc_ok env"
  shows "e_new_fd env xs \<notin> set xs \<and> e_new_fd env xs \<noteq> - 1"
proof -
  have "e_new_fd env xs \<notin> set xs" "0 \<le> e_new_fd env xs"
    using assms by (simp_all add: fd_alloc_ok_def)
  then show ?thesis
    by simp
qed

lemma openat_dst_cases:
  assumes "w_dirs w dst = Some p" and "w_tree w (p @ [name]) = None"
  obtains "openat_dst env dst name mode w = (- 1, w\<lparr>w_calls := w_calls w + 1\<rparr>)"
  | d where "d = e_new_fd env (w_open w)" "openat_dst env dst name mode w = (d, w\<lparr>w_calls := w_calls w + 1, w_open := d # w_open w,
      w_tree := (w_tree w)(p @ [name] := Some (DFile mode (w_ino w))), w_ino := w_ino w + 1, w_fs :=
           \<lparr>inodes = (inodes (w_fs w))(w_ino w := empty_file), fds = (fds (w_fs w))(d := Some \<lparr>d_inode = w_ino w, d_pos = 0\<rparr>)\<rparr>\<rparr>)"
  using assms that by (cases "e_fails env (w_calls w)") (simp_all add: openat_dst_def Let_def resolve_def)

lemma handle_regular_file_ok:
  assumes env: "fd_alloc_ok env" and inv: "walk_inv n0 f0 w" and dir: "w_dirs w dst = Some p"
    and new: "w_tree w (p @ [name]) = None" and ino: "ino < n0"
    and run: "handle_regular_file env dst name mode ino w = Inr w'"
  shows "walk_inv n0 f0 w' \<and> keeps w w' \<and> only_below (p @ [name]) w w' \<and> entry_done w' (p @ [name], Reg_node mode ino)"
proof -
  define s where "s = e_new_fd env (w_open w)"
  define w2 where "w2 = w\<lparr>w_open := s # w_open w, w_fs := (w_fs w)\<lparr>fds := (fds (w_fs w))(s := Some \<lparr>d_inode = ino, d_pos = 0\<rparr>)\<rparr>,
    w_calls := w_calls w + 2\<rparr>"
  have s: "s \<notin> set (w_open w)" "s \<noteq> - 1"
    using new_fd [OF env] by (auto simp: s_def)
  have n0: "n0 \<le> w_ino w" and minus: "- 1 \<notin> set (w_open w)" and fd_open: "\<And>fd. fds (w_fs w) fd \<noteq> None \<Longrightarrow> fd \<in> set (w_open w)"
    and dir_open: "\<And>fd. w_dirs w fd \<noteq> None \<Longrightarrow> fd \<in> set (w_open w)" and works: "\<And>x. x \<in> set (w_files w) \<Longrightarrow> work_ok n0 w x"
    using inv by (auto simp: walk_inv_def)
  obtain d w3 where d: "openat_dst env dst name mode w2 = (d, w3)"
    by fastforce
  have eq: "handle_regular_file env dst name mode ino w =
      bindR (guardR (\<not> e_fails env (w_calls w)) (Exit 1)) (\<lambda>_. bindR (guardR (\<not> e_fails env (w_calls w + 1)) (Exit 1)) (\<lambda>_.
      Inr (w3\<lparr>w_files := w_files w3 @ [\<lparr>fw_size = of_nat (flen (inodes (w_fs w2) ino)), fw_src = s, fw_dst = d\<rparr>]\<rparr>)))"
    using d unfolding w2_def s_def by (simp add: handle_regular_file_def open_src_def checked_def Let_def)
  have res: "w' = w3\<lparr>w_files := w_files w3 @ [\<lparr>fw_size = of_nat (flen (inodes (w_fs w2) ino)), fw_src = s, fw_dst = d\<rparr>]\<rparr>"
    using run [unfolded eq] by (auto simp: bindR_eq_Inr)
  let ?x = "\<lparr>fw_size = of_nat (flen (inodes (w_fs w2) ino)), fw_src = s, fw_dst = d\<rparr>"
  have dir2: "w_dirs w2 dst = Some p" "w_tree w2 (p @ [name]) = None"
    using dir new by (simp_all add: w2_def)
  show ?thesis
  proof (rule openat_dst_cases [OF dir2, of env mode])
    assume none: "openat_dst env dst name mode w2 = (- 1, w2\<lparr>w_calls := w_calls w2 + 1\<rparr>)"
    then have w': "w' = w2\<lparr>w_calls := w_calls w2 + 1, w_files := w_files w @ [?x]\<rparr>" and "d = - 1"
      using d res by (auto simp: w2_def)
    have ap: "works_apart w' y ?x" if "y \<in> set (w_files w)" for y
      using works [OF that] s minus fd_open [of "- 1"] by (auto simp: works_apart_def work_ok_def w' w2_def \<open>d = - 1\<close>)
    have "walk_inv n0 f0 w'"
      by (rule walk_inv_more [OF inv, where new = "[?x]"])
        (use s minus fd_open dir_open ino ap \<open>d = - 1\<close> in \<open>auto simp: w' w2_def work_ok_def split: if_splits\<close>)
    then show ?thesis
      using \<open>d = - 1\<close> s by (auto simp: w' w2_def keeps_def only_below_def entry_done_def)
  next
    fix d' assume d': "d' = e_new_fd env (w_open w2)" and some: "openat_dst env dst name mode w2 = (d', w2\<lparr>w_calls := w_calls w2 + 1, w_open := d' # w_open w2,
      w_tree := (w_tree w2)(p @ [name] := Some (DFile mode (w_ino w2))), w_ino := w_ino w2 + 1, w_fs :=
           \<lparr>inodes = (inodes (w_fs w2))(w_ino w2 := empty_file), fds = (fds (w_fs w2))(d' := Some \<lparr>d_inode = w_ino w2, d_pos = 0\<rparr>)\<rparr>\<rparr>)"
    have dn: "d' \<notin> set (w_open w)" "d' \<noteq> s" "d' \<noteq> - 1"
      using new_fd [OF env, of "w_open w2"] d' by (auto simp: w2_def)
    have w': "w' = w2\<lparr>w_calls := w_calls w2 + 1, w_open := d' # w_open w2,
      w_tree := (w_tree w2)(p @ [name] := Some (DFile mode (w_ino w2))), w_ino := w_ino w2 + 1, w_fs :=
           \<lparr>inodes = (inodes (w_fs w2))(w_ino w2 := empty_file), fds = (fds (w_fs w2))(d' := Some \<lparr>d_inode = w_ino w2, d_pos = 0\<rparr>)\<rparr>,
      w_files := w_files w @ [?x]\<rparr>" and "d = d'"
      using d some res by (auto simp: w2_def)
    have ap: "works_apart w' y ?x" if "y \<in> set (w_files w)" for y
      using works [OF that] dn s minus by (auto simp: works_apart_def work_ok_def w' w2_def \<open>d = d'\<close>)
    have "walk_inv n0 f0 w'"
      by (rule walk_inv_more [OF inv, where new = "[?x]"])
        (use s dn minus fd_open dir_open ino n0 ap \<open>d = d'\<close> in \<open>auto simp: w' w2_def work_ok_def split: if_splits\<close>)
    then show ?thesis
      using \<open>d = d'\<close> s dn new by (auto simp: w' w2_def keeps_def only_below_def entry_done_def)
  qed
qed

text \<open>Steps that only change the destination tree.\<close>

lemma tree_step:
  assumes inv: "walk_inv n0 f0 w" and new: "w_tree w q = None" and w': "w' = w\<lparr>w_tree := (w_tree w)(q := Some x), w_calls := n\<rparr>"
  shows "walk_inv n0 f0 w' \<and> keeps w w' \<and> only_below q w w' \<and> w_tree w' q = Some x"
proof -
  have "works_apart w' = works_apart w" "work_ok n0 w' = work_ok n0 w"
    by (intro ext; simp add: works_apart_def work_ok_def w')+
  then show ?thesis
    using inv new by (auto simp: w' walk_inv_def keeps_def only_below_def)
qed

lemma symlinkat_Inr:
  assumes "symlinkat env target dst name w = Inr w'" and "w_dirs w dst = Some p"
  shows "w_tree w (p @ [name]) = None" "w' = w\<lparr>w_tree := (w_tree w)(p @ [name] := Some (DLink target)), w_calls := w_calls w + 1\<rparr>"
  using assms by (auto simp: symlinkat_def bindR_eq_Inr checked_Inr guardR_def split: if_splits)

text \<open>A target that fills the buffer keeps the program reading it.\<close>

lemma readlink_loop_never: "256 \<le> length link \<Longrightarrow> \<not> (\<exists>x. readlink_loop env n link s w = Inr x)"
proof (induction n arbitrary: s w)
  case (Suc n)
  then show ?case
    by (cases "checked env w") (auto simp: Let_def min_def)
qed simp

lemma handle_symbolic_link_ok:
  assumes inv: "walk_inv n0 f0 w" and dir: "w_dirs w dst = Some p"
    and run: "handle_symbolic_link env dst name link w = Inr w'" and link: "CHR 0x00 \<notin> set link"
  shows "walk_inv n0 f0 w' \<and> keeps w w' \<and> only_below (p @ [name]) w w' \<and> entry_done w' (p @ [name], Link_node link)"
proof -
  let ?buf = "take 256 link @ map (e_junk env (w_calls w)) [min (length link) 256..<256]"
  obtain w1 where w1: "w1 = w\<lparr>w_calls := w_calls w + 1\<rparr>"
      "(if min (length link) 256 < 256 then bindR (c_string ?buf) (\<lambda>target. symlinkat env target dst name w1)
      else bindR (readlink_loop env (e_links env) link ?buf w1) (\<lambda>(target_str, w2). symlinkat env target_str dst name w2)) = Inr w'"
    using run by (auto simp: handle_symbolic_link_def Let_def bindR_eq_Inr checked_Inr split: if_splits)
  have short: "length link < 256"
    using w1(2) readlink_loop_never [of link env] by (auto simp: bindR_eq_Inr split: if_splits)
  then obtain target where t: "c_string ?buf = Inr target" "symlinkat env target dst name w1 = Inr w'"
    using w1(2) by (auto simp: bindR_eq_Inr)
  have pre: "target = link @ takeWhile (\<lambda>c. c \<noteq> CHR 0x00) (map (e_junk env (w_calls w)) [length link..<256])"
  proof -
    have "takeWhile (\<lambda>c. c \<noteq> CHR 0x00) (link @ xs) = link @ takeWhile (\<lambda>c. c \<noteq> CHR 0x00) xs" for xs
      by (rule takeWhile_append2) (use link in auto)
    then show ?thesis
      using t(1) short by (simp add: c_string_def split: if_splits)
  qed
  have inv1: "walk_inv n0 f0 w1" and dir1: "w_dirs w1 dst = Some p"
    using inv dir by (simp_all add: w1(1))
  note st = tree_step [OF inv1 symlinkat_Inr [OF t(2) dir1]]
  then show ?thesis
    using pre by (auto simp: w1(1) only_below_def entry_done_def)
qed

lemma enter_dir_Inr:
  assumes dir: "w_dirs w dst = Some p" and new: "w_tree w (p @ [name]) = None" and run: "enter_dir env dst name mode w = Inr ((a, d), w')"
  shows "a = e_new_fd env (w_open w) \<and> a \<noteq> - 1 \<and>
    ((d = - 1 \<and> w' = w\<lparr>w_open := a # w_open w, w_tree := (w_tree w)(p @ [name] := Some (DDir mode)), w_calls := w_calls w + 6\<rparr>) \<or>
     (d = e_new_fd env (a # w_open w) \<and> w' = w\<lparr>w_open := d # a # w_open w, w_dirs := (w_dirs w)(d := Some (p @ [name])),
        w_tree := (w_tree w)(p @ [name] := Some (DDir mode)), w_calls := w_calls w + 6\<rparr>))"
proof -
  have ok1: "\<not> e_fails env (w_calls w)"
    using run by (auto simp: enter_dir_def Let_def bindR_eq_Inr guardR_def split: if_splits)
  let ?a = "e_new_fd env (w_open w)"
  let ?w3 = "w\<lparr>w_open := ?a # w_open w, w_calls := w_calls w + 1 + 1 + 1, w_tree := (w_tree w)(p @ [name] := Some (DDir mode))\<rparr>"
  obtain d' w4 where d': "openat_dir env dst name ?w3 = (d', w4)"
    by fastforce
  have run': "bindR (checked env (w\<lparr>w_calls := w_calls w + 1, w_open := ?a # w_open w\<rparr>)) (\<lambda>w2.
      bindR (guardR (?a \<noteq> - 1) (Exit 1)) (\<lambda>_. bindR (mkdirat env dst name mode w2) (\<lambda>w3.
      case openat_dir env dst name w3 of (dst_fd2, w4) \<Rightarrow>
      bindR (guardR (dst \<noteq> - 1) (Exit 1)) (\<lambda>_. bindR (checked env w4) (\<lambda>w5. bindR (checked env w5) (\<lambda>w6.
      Inr ((?a, dst_fd2), w6))))))) = Inr ((a, d), w')"
    using run ok1 by (simp add: enter_dir_def Let_def)
  have res: "a = ?a" "a \<noteq> - 1" "d = d'" "w' = w4\<lparr>w_calls := w_calls w4 + 2\<rparr>"
    using run' dir new d' by (auto simp: bindR_eq_Inr checked_Inr mkdirat_def guardR_def split: if_splits prod.splits)
  have "(d', w4) = (- 1, ?w3\<lparr>w_calls := w_calls ?w3 + 1\<rparr>) \<or>
      (d', w4) = (e_new_fd env (w_open ?w3), ?w3\<lparr>w_open := e_new_fd env (w_open ?w3) # w_open ?w3,
        w_dirs := (w_dirs ?w3)(e_new_fd env (w_open ?w3) := Some (p @ [name])), w_calls := w_calls ?w3 + 1\<rparr>)"
    unfolding d' [symmetric] using dir by (cases "e_fails env (w_calls w + 1 + 1 + 1)") (simp_all add: openat_dir_def resolve_def Let_def)
  then show ?thesis
    using res by auto
qed

lemma enter_dir_ok:
  assumes env: "fd_alloc_ok env" and inv: "walk_inv n0 f0 w" and dir: "w_dirs w dst = Some p"
    and new: "w_tree w (p @ [name]) = None" and run: "enter_dir env dst name mode w = Inr ((a, d), w')"
  shows "walk_inv n0 f0 w' \<and> keeps w w' \<and> w_tree w' = (w_tree w)(p @ [name] := Some (DDir mode)) \<and>
    a \<in> set (w_open w') \<and> a \<notin> set (w_open w) \<and> d \<notin> set (w_open w) \<and> fds (w_fs w') a = None \<and> fds (w_fs w') d = None \<and>
    (d = - 1 \<or> w_dirs w' d = Some (p @ [name]))"
proof -
  note r = enter_dir_Inr [OF dir new run]
  have a: "a \<notin> set (w_open w)" "a \<noteq> - 1" and d: "d = - 1 \<or> d \<notin> set (w_open w) \<and> d \<noteq> a \<and> d \<noteq> - 1"
    using r new_fd [OF env, of "w_open w"] new_fd [OF env, of "a # w_open w"] by auto
  have minus: "- 1 \<notin> set (w_open w)" and fd_open: "\<And>fd. fd \<notin> set (w_open w) \<Longrightarrow> fds (w_fs w) fd = None"
    and dir_open: "\<And>fd. w_dirs w fd \<noteq> None \<Longrightarrow> fd \<in> set (w_open w)"
    using inv by (auto simp: walk_inv_def)
  have fs: "w_fs w' = w_fs w" "w_files w' = w_files w" "w_ino w' = w_ino w"
    using r by auto
  have "walk_inv n0 f0 w'"
    by (rule walk_inv_more [OF inv, where new = "[]"])
      (use r a d minus fd_open dir_open fs new_fd [OF env, of "a # w_open w"] in \<open>auto split: if_splits\<close>)
  then show ?thesis
    using r a d minus fd_open fs new by (auto simp: keeps_def)
qed

lemma leave_dir_Inr:
  assumes "leave_dir env a d w = Inr w'"
  shows "a \<in> set (w_open w)" "d \<in> set (w_open w)"
    "w' = w\<lparr>w_open := removeAll d (removeAll a (w_open w)), w_dirs := (w_dirs w)(a := None, d := None), w_calls := w_calls w + 3\<rparr>"
  using assms by (auto simp: leave_dir_def close_fd_def bindR_eq_Inr checked_Inr guardR_def split: if_splits)

lemma leave_dir_inv:
  assumes inv: "walk_inv n0 f0 w" and run: "leave_dir env a d w = Inr w'"
    and free: "fds (w_fs w) a = None" "fds (w_fs w) d = None"
  shows "walk_inv n0 f0 w'"
proof -
  note w' = leave_dir_Inr [OF run]
  have fs: "w_fs w' = w_fs w" "w_files w' = w_files w" "w_ino w' = w_ino w"
    using w'(3) by simp_all
  have "works_apart w' = works_apart w"
    by (intro ext) (simp add: works_apart_def fs)
  moreover have "work_ok n0 w' x" if "work_ok n0 w x" for x
    using that free unfolding work_ok_def fs by (auto simp: w'(3))
  ultimately show ?thesis
    using inv free by (auto simp: walk_inv_def w'(3))
qed

subsection \<open>The whole traversal\<close>

lemma openat_dst_open:
  "openat_dst env dst name mode w = (d, w') \<Longrightarrow> w_open w' = w_open w \<or> w_open w' = e_new_fd env (w_open w) # w_open w"
  by (auto simp: openat_dst_def Let_def split: option.splits dst_node.splits if_splits)

lemma handle_regular_file_minus:
  assumes "fd_alloc_ok env" "- 1 \<notin> set (w_open w)" "handle_regular_file env dst name mode ino w = Inr w'"
  shows "- 1 \<notin> set (w_open w')"
  using assms(2,3) new_fd [OF assms(1), of "w_open w"] new_fd [OF assms(1), of "e_new_fd env (w_open w) # w_open w"]
  by (auto simp: handle_regular_file_def open_src_def bindR_eq_Inr checked_Inr Let_def split: prod.splits dest!: openat_dst_open)

lemma readlink_loop_open: "readlink_loop env n link s w = Inr (s', w') \<Longrightarrow> w_open w' = w_open w"
proof (induction n arbitrary: s w)
  case (Suc n)
  then show ?case
    by (auto simp: bindR_eq_Inr checked_Inr Let_def split: if_splits)
qed simp

lemma symlinkat_open: "symlinkat env target dst name w = Inr w' \<Longrightarrow> w_open w' = w_open w"
  by (auto simp: symlinkat_def bindR_eq_Inr checked_Inr split: option.splits)

lemma handle_symbolic_link_open: "handle_symbolic_link env dst name link w = Inr w' \<Longrightarrow> w_open w' = w_open w"
  by (auto simp: handle_symbolic_link_def bindR_eq_Inr checked_Inr Let_def split: if_splits dest!: readlink_loop_open symlinkat_open)

lemma enter_dir_minus:
  assumes "fd_alloc_ok env" "- 1 \<notin> set (w_open w)" "enter_dir env dst name mode w = Inr ((a, d), w')"
  shows "- 1 \<notin> set (w_open w')"
proof -
  have "w_open (snd (openat_dir env dst name v)) = w_open v \<or>
      w_open (snd (openat_dir env dst name v)) = e_new_fd env (w_open v) # w_open v" for v
    by (auto simp: openat_dir_def Let_def split: option.splits dst_node.splits)
  then have o: "- 1 \<in> set (w_open (snd (openat_dir env dst name v))) \<Longrightarrow> - 1 \<in> set (w_open v)" for v
    using new_fd [OF assms(1), of "w_open v"] by (metis set_ConsD)
  have m: "mkdirat env dst name mode v = Inr v' \<Longrightarrow> w_open v' = w_open v" for v v'
    by (auto simp: mkdirat_def bindR_eq_Inr checked_Inr split: option.splits if_splits)
  show ?thesis
    using assms(2,3) new_fd [OF assms(1), of "w_open w"]
    by (auto simp: enter_dir_def Let_def bindR_eq_Inr checked_Inr guardR_def split_beta split: if_splits dest!: o m)
qed

lemma cp_dir_minus:
  "fd_alloc_ok env \<Longrightarrow> - 1 \<notin> set (w_open w) \<Longrightarrow> cp_dir env dst es w = Inr w' \<Longrightarrow> - 1 \<notin> set (w_open w')"
proof (induction env dst es w arbitrary: w' rule: cp_dir.induct)
  case (2 env dst name node es w)
  obtain w1 where w1: "(if name = ''.'' \<or> name = ''..'' then Inr w
       else (case node of
         Reg_node mode ino \<Rightarrow> handle_regular_file env dst name mode ino w
       | Link_node link \<Rightarrow> handle_symbolic_link env dst name link w
       | Dir_node mode entries \<Rightarrow>
           bindR (enter_dir env dst name mode w) (\<lambda>((src_fd2, dst_fd2), w1).
           bindR (cp_dir env dst_fd2 entries w1) (\<lambda>w2.
           leave_dir env src_fd2 dst_fd2 w2))
       | Other_node \<Rightarrow> Inr w)) = Inr w1" "cp_dir env dst es w1 = Inr w'"
    using "2.prems"(3) by (auto simp: bindR_eq_Inr)
  have "- 1 \<notin> set (w_open w1)"
  proof (cases "name = ''.'' \<or> name = ''..''")
    case False
    show ?thesis
    proof (cases node)
      case (Dir_node mode entries)
      obtain a d u v where u: "enter_dir env dst name mode w = Inr ((a, d), u)" "cp_dir env d entries u = Inr v" "leave_dir env a d v = Inr w1"
        using w1(1) False Dir_node by (auto simp: bindR_eq_Inr)
      have "- 1 \<notin> set (w_open v)"
        using "2.IH"(1) [OF False Dir_node, of "((a, d), u)" "(a, d)" u a d] u enter_dir_minus "2.prems" by blast
      then show ?thesis
        using leave_dir_Inr [OF u(3)] by simp
    qed (use w1(1) False "2.prems" handle_regular_file_minus handle_symbolic_link_open in auto)
  qed (use w1(1) "2.prems" in simp)
  then show ?case
    using "2.IH"(2) [OF w1(1)] "2.prems"(1) w1(2) by blast
qed simp

definition below :: "string list \<Rightarrow> string set \<Rightarrow> walk \<Rightarrow> walk \<Rightarrow> bool" where
  "below p names w w' \<longleftrightarrow> (\<forall>x. w_tree w' x \<noteq> w_tree w x \<longrightarrow> (\<exists>name\<in>names. \<exists>r. x = p @ name # r))"

definition cp_dir_post :: "nat \<Rightarrow> (nat \<Rightarrow> os_file) \<Rightarrow> string list \<Rightarrow> (string \<times> src_node) list \<Rightarrow> walk \<Rightarrow> walk \<Rightarrow> bool" where
  "cp_dir_post n0 f0 p es w w' \<longleftrightarrow> walk_inv n0 f0 w' \<and> keeps w w' \<and> (\<forall>e\<in>set (listing p es). entry_done w' e) \<and>
     below p (fst ` set es) w w'"

lemma below_single: "only_below (p @ [name]) w w' \<Longrightarrow> below p {name} w w'"
  by (auto simp: below_def only_below_def)

lemma dir_kept:
  assumes "walk_inv n0 f0 w" and "keeps w w'" and "w_dirs w fd = Some p"
  shows "w_dirs w' fd = Some p"
  using assms unfolding walk_inv_def keeps_def by (metis option.distinct(1))

text \<open>A subdirectory: enter it, traverse it, leave it.\<close>

lemma sub_dir_ok:
  assumes env: "fd_alloc_ok env" and inv: "walk_inv n0 f0 w" and dir: "w_dirs w dst = Some p"
    and new: "\<And>r. w_tree w (p @ name # r) = None"
    and enter: "enter_dir env dst name mode w = Inr ((a, d), w1)" and run: "cp_dir env d entries w1 = Inr w2"
    and leave: "leave_dir env a d w2 = Inr w3"
    and IH: "walk_inv n0 f0 w1 \<Longrightarrow> w_dirs w1 d = Some (p @ [name]) \<Longrightarrow>
      (\<forall>n\<in>fst ` set entries. \<forall>r. w_tree w1 ((p @ [name]) @ n # r) = None) \<Longrightarrow> cp_dir_post n0 f0 (p @ [name]) entries w1 w2"
  shows "walk_inv n0 f0 w3 \<and> keeps w w3 \<and> below p {name} w w3 \<and>
    (\<forall>e\<in>insert (p @ [name], Dir_node mode entries) (set (listing (p @ [name]) entries)). entry_done w3 e)"
proof -
  have "w_tree w (p @ [name]) = None"
    using new [of "[]"] by simp
  note en = enter_dir_ok [OF env inv dir this enter]
  note lv = leave_dir_Inr [OF leave]
  have inv1: "walk_inv n0 f0 w1"
    using en by simp
  then have "- 1 \<notin> set (w_open w2)"
    using cp_dir_minus [OF env _ run] by (simp add: walk_inv_def)
  then have d: "w_dirs w1 d = Some (p @ [name])"
    using en lv(2) by auto
  have "w_tree w1 ((p @ [name]) @ n # r) = None" for n r
    using en new [of "n # r"] by simp
  then have post: "cp_dir_post n0 f0 (p @ [name]) entries w1 w2"
    by (intro IH inv1 d ballI allI)
  have k: "keeps w w1" "keeps w1 w2"
    using en post by (simp_all add: cp_dir_post_def)
  have open1: "a \<in> set (w_open w1)" "d \<in> set (w_open w1)"
    using en inv1 d by (auto simp: walk_inv_def)
  then have free: "fds (w_fs w2) a = None" "fds (w_fs w2) d = None"
    using k(2) en by (auto simp: keeps_def)
  have inv3: "walk_inv n0 f0 w3"
    using leave_dir_inv [OF _ leave free] post by (simp add: cp_dir_post_def)
  have same: "w_fs w3 = w_fs w2" "w_files w3 = w_files w2" "w_tree w3 = w_tree w2"
    using lv(3) by simp_all
  have "keeps w w3"
    using keeps_trans [OF k] en lv(3) by (auto simp: keeps_def)
  moreover have "below p {name} w w3"
    unfolding below_def
  proof (intro allI impI)
    fix x assume x: "w_tree w3 x \<noteq> w_tree w x"
    then consider "w_tree w2 x \<noteq> w_tree w1 x" | "w_tree w1 x \<noteq> w_tree w x"
      using same(3) by metis
    then show "\<exists>name\<in>{name}. \<exists>r. x = p @ name # r"
      using post en by cases (auto simp: cp_dir_post_def below_def split: if_splits)
  qed
  moreover have "entry_done w2 (p @ [name], Dir_node mode entries)"
    by (rule entry_done_keeps [OF inv1 k(2)]) (use en in \<open>simp add: entry_done_def\<close>)
  moreover have "entry_done w3 = entry_done w2"
    by (rule ext) (simp add: entry_done_def same cong: src_node.case_cong)
  ultimately show ?thesis
    using inv3 post by (simp add: cp_dir_post_def)
qed

lemma cp_dir_ok:
  "fd_alloc_ok env \<Longrightarrow> walk_inv n0 f0 w \<Longrightarrow> w_dirs w dst = Some p \<Longrightarrow> source_ok n0 es \<Longrightarrow>
    (\<forall>n\<in>fst ` set es. \<forall>r. w_tree w (p @ n # r) = None) \<Longrightarrow> cp_dir env dst es w = Inr w' \<Longrightarrow> cp_dir_post n0 f0 p es w w'"
proof (induction env dst es w arbitrary: p w' rule: cp_dir.induct)
  case (1 env dst w)
  then show ?case
    by (simp add: cp_dir_post_def below_def)
next
  case (2 env dst name node es w)
  note env = "2.prems"(1) and inv = "2.prems"(2) and dir = "2.prems"(3)
  have new: "w_tree w (p @ name # r) = None" for r
    using "2.prems"(5) by simp
  obtain w1 where w1: "(if name = ''.'' \<or> name = ''..'' then Inr w
       else (case node of
         Reg_node mode ino \<Rightarrow> handle_regular_file env dst name mode ino w
       | Link_node link \<Rightarrow> handle_symbolic_link env dst name link w
       | Dir_node mode entries \<Rightarrow>
           bindR (enter_dir env dst name mode w) (\<lambda>((src_fd2, dst_fd2), w1).
           bindR (cp_dir env dst_fd2 entries w1) (\<lambda>w2.
           leave_dir env src_fd2 dst_fd2 w2))
       | Other_node \<Rightarrow> Inr w)) = Inr w1" "cp_dir env dst es w1 = Inr w'"
    using "2.prems"(6) by (auto simp: bindR_eq_Inr)
  define top where "top = (if name = ''.'' \<or> name = ''..'' then []
     else (p @ [name], node) # (case node of Dir_node mode entries \<Rightarrow> listing (p @ [name]) entries | _ \<Rightarrow> []))"
  have head: "walk_inv n0 f0 w1 \<and> keeps w w1 \<and> below p {name} w w1 \<and> (\<forall>e\<in>set top. entry_done w1 e)"
  proof (cases "name = ''.'' \<or> name = ''..''")
    case True
    then show ?thesis
      using w1(1) inv by (auto simp: top_def below_def)
  next
    case False
    show ?thesis
    proof (cases node)
      case (Reg_node mode ino)
      then have "handle_regular_file env dst name mode ino w = Inr w1" "ino < n0"
        using w1(1) False "2.prems"(4) by simp_all
      then show ?thesis
        using handle_regular_file_ok [OF env inv dir] new [of "[]"] False Reg_node below_single by (auto simp: top_def)
    next
      case (Link_node link)
      then have "handle_symbolic_link env dst name link w = Inr w1" "CHR 0x00 \<notin> set link"
        using w1(1) False "2.prems"(4) by simp_all
      then show ?thesis
        using handle_symbolic_link_ok [OF inv dir] False Link_node below_single by (auto simp: top_def)
    next
      case (Dir_node mode entries)
      obtain a d u v where u: "enter_dir env dst name mode w = Inr ((a, d), u)" "cp_dir env d entries u = Inr v" "leave_dir env a d v = Inr w1"
        using w1(1) False Dir_node by (auto simp: bindR_eq_Inr)
      have src: "source_ok n0 entries"
        using "2.prems"(4) Dir_node by simp
      have "walk_inv n0 f0 w1 \<and> keeps w w1 \<and> below p {name} w w1 \<and>
        (\<forall>e\<in>insert (p @ [name], Dir_node mode entries) (set (listing (p @ [name]) entries)). entry_done w1 e)"
        by (rule sub_dir_ok [OF env inv dir new u])
          (rule "2.IH"(1) [OF False Dir_node, of "((a, d), u)" "(a, d)" u a d], use u env src in auto)
      then show ?thesis
        using False Dir_node by (simp add: top_def)
    next
      case Other_node
      then show ?thesis
        using w1(1) False inv by (auto simp: top_def below_def entry_done_def)
    qed
  qed
  have inv1: "walk_inv n0 f0 w1" and k: "keeps w w1"
    using head by auto
  have "name \<notin> fst ` set es" "source_ok n0 es"
    using "2.prems"(4) by auto
  have fresh: "w_tree w1 (p @ n # r) = None" if "n \<in> fst ` set es" for n r
  proof -
    have "w_tree w1 (p @ n # r) = w_tree w (p @ n # r)"
      using head that \<open>name \<notin> fst ` set es\<close> unfolding below_def by auto
    then show ?thesis
      using "2.prems"(5) that by auto
  qed
  have post: "cp_dir_post n0 f0 p es w1 w'"
    by (rule "2.IH"(2) [OF w1(1) env inv1 dir_kept [OF inv k dir] \<open>source_ok n0 es\<close> _ w1(2)]) (intro ballI allI fresh)
  have "entry_done w' e" if "e \<in> set (top @ listing p es)" for e
    using that head post entry_done_keeps [OF inv1, of w' e] by (auto simp: cp_dir_post_def)
  moreover have "listing p ((name, node) # es) = top @ listing p es"
    by (simp add: top_def)
  moreover have "below p (insert name (fst ` set es)) w w'"
    unfolding below_def
  proof (intro allI impI)
    fix x assume "w_tree w' x \<noteq> w_tree w x"
    then consider "w_tree w' x \<noteq> w_tree w1 x" | "w_tree w1 x \<noteq> w_tree w x"
      by metis
    then show "\<exists>n\<in>insert name (fst ` set es). \<exists>r. x = p @ n # r"
      using post head by cases (auto simp: cp_dir_post_def below_def)
  qed
  ultimately show ?case
    using post keeps_trans [OF k] by (simp add: cp_dir_post_def)
qed

end
