(* ===== verification/Mcp_Correct.thy ===== *)
theory Mcp_Correct
  imports Mcp_Main Cp_Dir_Correct
begin

text \<open>
  \<^verbatim>\<open>mcp\<close> from its arguments to the end of its threads: a run that ends normally has copied the
  whole source directory, whichever calls have failed on the way and whichever way the threads
  were interleaved.
\<close>

subsection \<open>A job without a destination stops the program\<close>

lemma cp_func_step_closed:
  assumes "cp_func_step r n (c, fs) = Inr (c', fs')"
  shows "fds fs fd = None \<Longrightarrow> fds fs' fd = None"
    and "x \<in> set (todo c) \<Longrightarrow> fds fs (snd x) = None \<Longrightarrow> x \<in> set (todo c')"
proof -
  have rd: "fds fs a = None \<Longrightarrow> fds (snd (snd (fd_read r fd n fs))) a = None" for a fd
    by (auto simp: fd_read_def Let_def split: option.splits)
  have wr: "fds fs a = None \<Longrightarrow> fds (snd (fd_write r fd buf fs)) a = None" for a fd buf
    by (auto simp: fd_write_def Let_def split: option.splits)
  have cl: "fds fs a = None \<Longrightarrow> fds (snd (fd_close r fd fs)) a = None" "fds fs fd = None \<Longrightarrow> fst (fd_close r fd fs) = - 1" for a fd
    by (auto simp: fd_close_def)
  show "fds fs fd = None \<Longrightarrow> fds fs' fd = None"
    using assms rd wr cl by (auto simp: cp_func_step_def writen_round_def bindR_eq_Inr split_beta split: copy_point.splits list.splits)
  show "x \<in> set (todo c) \<Longrightarrow> fds fs (snd x) = None \<Longrightarrow> x \<in> set (todo c')"
    using assms cl(2)
    by (auto simp: cp_func_step_def writen_round_def bindR_eq_Inr guardR_def split_beta split: copy_point.splits list.splits if_splits)
qed

lemma closed_job_stays:
  assumes "copy_run stall n r0 k r" and "r0 = Inr (copy_start jobs fs0)" and "r = Inr s"
    and "x \<in> set (concat jobs)" and "fds fs0 (snd x) = None"
  shows "fds (cs_fs s) (snd x) = None \<and> (\<exists>t<length (cs_copiers s). x \<in> set (todo (cs_copiers s ! t)))"
  using assms(1-3)
proof (induction arbitrary: s rule: copy_run.induct)
  case start
  then obtain js where "js \<in> set jobs" "x \<in> set js"
    using assms(4) by auto
  then show ?case
    using start assms(5) by (auto simp: copy_start_def in_set_conv_nth [of js jobs])
next
  case (more k r r')
  obtain s0 t y where st: "r = Inr s0" "r' = copy_system_step y n t s0" "t < length (cs_copiers s0)"
    using more.hyps(2) by (auto elim: copy_stepE)
  obtain c fs' where c: "cp_func_step y n (cs_copiers s0 ! t, cs_fs s0) = Inr (c, fs')"
      "s = \<lparr>cs_copiers = (cs_copiers s0)[t := c], cs_fs = fs'\<rparr>"
    using st(2) more.prems(2) by (cases "cp_func_step y n (cs_copiers s0 ! t, cs_fs s0)") (auto simp: copy_system_step_def)
  obtain u where u: "fds (cs_fs s0) (snd x) = None" "u < length (cs_copiers s0)" "x \<in> set (todo (cs_copiers s0 ! u))"
    using more.IH [OF more.prems(1) st(1)] by blast
  have "x \<in> set (todo (cs_copiers s ! u))"
    using u(3) c(2) cp_func_step_closed(2) [OF c(1) _ u(1)] st(3) by (cases "u = t") auto
  then show ?case
    using cp_func_step_closed(1) [OF c(1) u(1)] u(2) c(2) by auto
qed

lemma copied_all_open:
  assumes "copy_run stall n (Inr (copy_start jobs fs0)) k (Inr s)" and "copied s" and "x \<in> set (concat jobs)"
  shows "fds fs0 (snd x) \<noteq> None"
proof
  assume "fds fs0 (snd x) = None"
  then obtain t where "t < length (cs_copiers s)" "x \<in> set (todo (cs_copiers s ! t))"
    using closed_job_stays [OF assms(1) refl refl assms(3)] by blast
  then show False
    using assms(2) by (auto simp: copied_def copier_ended_def)
qed

subsection \<open>The jobs of a traversal\<close>

lemma works_apart_all:
  assumes "sorted_wrt (works_apart w) xs" and "\<forall>x\<in>set xs. fw_dst x \<noteq> - 1"
  shows "x \<in> set xs \<Longrightarrow> y \<in> set xs \<Longrightarrow> x \<noteq> y \<Longrightarrow> works_apart w x y"
proof -
  have sym: "works_apart w x y \<Longrightarrow> fw_dst x \<noteq> - 1 \<Longrightarrow> works_apart w y x" for x y
    by (fastforce simp: works_apart_def)
  assume "x \<in> set xs" "y \<in> set xs" "x \<noteq> y"
  then obtain i j where ij: "i < length xs" "x = xs ! i" "j < length xs" "y = xs ! j" "i \<noteq> j"
    by (metis in_set_conv_nth)
  then show "works_apart w x y"
    using sorted_wrt_nth_less [OF assms(1), of i j] sorted_wrt_nth_less [OF assms(1), of j i] sym assms(2) nth_mem
    by (cases "i < j") auto
qed

lemma works_distinct:
  assumes "sorted_wrt (works_apart w) xs"
  shows "distinct (map job_of xs)"
  using assms by (induction xs) (auto simp: works_apart_def)

lemma good_jobs_of_walk:
  assumes inv: "walk_inv n0 f0 w" and opened: "\<forall>x\<in>set (w_files w). fds (w_fs w) (fw_dst x) \<noteq> None"
    and perm: "mset js = image_mset job_of (mset (w_files w))"
  shows "good_jobs (w_fs w) js"
proof -
  have set: "set js = job_of ` set (w_files w)"
    using arg_cong [OF perm, of set_mset] by simp
  have minus: "fds (w_fs w) (- 1) = None"
    using inv by (auto simp: walk_inv_def)
  have dst: "\<forall>x\<in>set (w_files w). fw_dst x \<noteq> - 1"
    using opened minus by metis
  have ok: "\<And>x. x \<in> set (w_files w) \<Longrightarrow> work_ok n0 w x" and srt: "sorted_wrt (works_apart w) (w_files w)"
    using inv by (auto simp: walk_inv_def)
  have "distinct js"
    using works_distinct [OF srt] perm mset_eq_imp_distinct_iff [of js "map job_of (w_files w)"] by simp
  moreover have "apart (w_fs w) (job_of x) (job_of y)" if "x \<in> set (w_files w)" "y \<in> set (w_files w)" "job_of x \<noteq> job_of y" for x y
  proof -
    have "works_apart w x y"
      using works_apart_all [OF srt dst that(1,2)] that(3) by blast
    then show ?thesis
      using ok [OF that(1)] ok [OF that(2)] dst that(1,2) by (auto simp: apart_def works_apart_def work_ok_def dst_ino_def)
  qed
  moreover have "src_ino (w_fs w) (job_of x) \<noteq> dst_ino (w_fs w) (job_of y)" if "x \<in> set (w_files w)" "y \<in> set (w_files w)" for x y
    using ok [OF that(1)] ok [OF that(2)] dst that(2) by (auto simp: src_ino_def dst_ino_def work_ok_def)
  moreover have "fw_src x \<noteq> fw_dst x \<and> fds (w_fs w) (fw_src x) = Some \<lparr>d_inode = src_ino (w_fs w) (job_of x), d_pos = 0\<rparr> \<and>
      fds (w_fs w) (fw_dst x) = Some \<lparr>d_inode = dst_ino (w_fs w) (job_of x), d_pos = 0\<rparr> \<and>
      flen (inodes (w_fs w) (dst_ino (w_fs w) (job_of x))) = 0" if "x \<in> set (w_files w)" for x
    using ok [OF that] dst that by (auto simp: src_ino_def dst_ino_def work_ok_def empty_file_def)
  ultimately show ?thesis
    unfolding good_jobs_def set by auto
qed

lemma assign_jobs_all:
  assumes "std_sort file_work_less srt" and "assign_jobs srt n fws = Inr (pq, jobs)"
  shows "mset (concat jobs) = image_mset job_of (mset fws)"
proof -
  have perm: "mset (srt fws) = mset fws"
    using assms(1) by (auto simp: std_sort_def)
  consider "n < 0" | "n = 0" | "0 < n"
    by linarith
  then show ?thesis
  proof cases
    case 1
    then show ?thesis
      using assms(2) by (simp add: assign_jobs_def guardR_def)
  next
    case 2
    then have "srt fws = []"
      using assms(2) by (cases "srt fws") (auto simp: assign_jobs_def assign_work_def pq_top_def Let_def)
    then show ?thesis
      using assms(2) 2 perm by (simp add: assign_jobs_def)
  next
    case 3
    then obtain a where "represents (nat n) (srt fws) a (pq, jobs)"
      using assign_jobs_ok [OF 3, of srt fws] assms(2) by auto
    from mset_jobs [OF this] show ?thesis
      using perm by simp
  qed
qed

subsection \<open>The destination\<close>

text \<open>Where the copy goes, and that nothing is there yet.\<close>

definition copy_root :: "string list \<Rightarrow> string \<Rightarrow> walk \<Rightarrow> string list" where
  "copy_root dst_root src_path w = (if w_tree w dst_root = None then dst_root else dst_root @ [basename src_path])"

definition fresh_destination :: "string list \<Rightarrow> string \<Rightarrow> walk \<Rightarrow> bool" where
  "fresh_destination dst_root src_path w \<longleftrightarrow> (w_tree w dst_root = None \<or> (\<exists>m. w_tree w dst_root = Some (DDir m))) \<and>
     (\<forall>r. w_tree w (copy_root dst_root src_path w @ r) = None)"

lemma walk_inv_dir:
  assumes inv: "walk_inv n0 f0 w" and env: "fd_alloc_ok env" and tree: "w_files w = []"
  shows "walk_inv n0 f0 (w\<lparr>w_calls := k, w_tree := T\<rparr>)"
    "walk_inv n0 f0 (w\<lparr>w_calls := k, w_open := e_new_fd env (w_open w) # w_open w, w_dirs := (w_dirs w)(e_new_fd env (w_open w) := q)\<rparr>)"
  using inv tree new_fd [OF env, of "w_open w"] by (auto simp: walk_inv_def)

lemma open_root_cases:
  assumes "open_root env dst_root w = (d, w')" and "w_tree w dst_root = None \<or> (\<exists>m. w_tree w dst_root = Some (DDir m))"
    and "fd_alloc_ok env" and "walk_inv n0 f0 w" and "w_files w = []"
  shows "w_tree w' = w_tree w \<and> w_files w' = [] \<and> walk_inv n0 f0 w' \<and> w_calls w' = w_calls w + 1 \<and>
    (d \<noteq> - 1 \<longrightarrow> w_dirs w' d = Some dst_root \<and> (\<exists>m. w_tree w dst_root = Some (DDir m)))"
  using assms walk_inv_dir(2) [OF assms(4,3,5)]
  by (auto simp: open_root_def Let_def resolve_def split: if_splits)

lemma open_destination_ok:
  assumes env: "fd_alloc_ok env" and inv: "walk_inv n0 f0 w" and fresh: "fresh_destination dst_root src_path w"
    and nofiles: "w_files w = []" and run: "open_destination env dst_root src_path mode w = Inr (d, w')"
  shows "walk_inv n0 f0 w' \<and> w_files w' = [] \<and> w_dirs w' d = Some (copy_root dst_root src_path w) \<and> d \<noteq> - 1 \<and>
    w_tree w' = (w_tree w)(copy_root dst_root src_path w := Some (DDir mode))"
proof -
  obtain d1 w1 where o: "open_root env dst_root w = (d1, w1)"
    by fastforce
  note o1 = open_root_cases [OF o _ env inv nofiles]
  show ?thesis
  proof (cases "w_tree w dst_root = None")
    case True
    then have root: "copy_root dst_root src_path w = dst_root"
      by (simp add: copy_root_def)
    have "d1 = - 1"
      using o1 True by auto
    define w2 where "w2 = w1\<lparr>w_calls := w_calls w1 + 1, w_tree := (w_tree w1)(dst_root := Some (DDir mode))\<rparr>"
    have w2: "walk_inv n0 f0 w2" "w_files w2 = []" "w_tree w2 = (w_tree w)(dst_root := Some (DDir mode))"
      using o1 True walk_inv_dir(1) [of n0 f0 w1 env] env by (auto simp: w2_def)
    have "open_root env dst_root w2 = (d, w')" "d \<noteq> - 1"
      using run o \<open>d1 = - 1\<close> by (auto simp: open_destination_def bindR_eq_Inr checked_Inr guardR_def w2_def split: if_splits prod.splits)
    then show ?thesis
      using open_root_cases [of env dst_root w2 d w' n0 f0] w2 env root by auto
  next
    case False
    then obtain m where m: "w_tree w dst_root = Some (DDir m)" and root: "copy_root dst_root src_path w = dst_root @ [basename src_path]"
      using fresh by (auto simp: fresh_destination_def copy_root_def)
    have "d1 \<noteq> - 1"
      using run o False by (auto simp: open_destination_def root_missing_def bindR_eq_Inr resolve_def guardR_def m split: if_splits)
    then have w1: "walk_inv n0 f0 w1" "w_files w1 = []" "w_tree w1 = w_tree w" "w_dirs w1 d1 = Some dst_root"
      using o1 m by auto
    have none: "w_tree w1 (dst_root @ [basename src_path]) = None"
      using fresh w1(3) root unfolding fresh_destination_def by (metis append_Nil2)
    obtain w2 where w2: "mkdirat env d1 (basename src_path) mode w1 = Inr w2" "openat_dir env d1 (basename src_path) w2 = (d, w')" "d \<noteq> - 1"
      using run o \<open>d1 \<noteq> - 1\<close> by (auto simp: open_destination_def bindR_eq_Inr guardR_def Let_def split_beta prod_eq_iff split: if_splits)
    have w2_eq: "w2 = w1\<lparr>w_calls := w_calls w1 + 1, w_tree := (w_tree w1)(dst_root @ [basename src_path] := Some (DDir mode))\<rparr>"
      using w2(1) w1(4) none by (auto simp: mkdirat_def bindR_eq_Inr checked_Inr)
    have inv2: "walk_inv n0 f0 w2" "w_files w2 = []" "w_dirs w2 d1 = Some dst_root"
      using walk_inv_dir(1) [OF w1(1) env w1(2)] w1 by (auto simp: w2_eq)
    have "w' = w2\<lparr>w_calls := w_calls w2 + 1, w_open := e_new_fd env (w_open w2) # w_open w2,
        w_dirs := (w_dirs w2)(e_new_fd env (w_open w2) := Some (dst_root @ [basename src_path]))\<rparr>" "d = e_new_fd env (w_open w2)"
      using w2(2,3) inv2(3) by (auto simp: openat_dir_def Let_def resolve_def w2_eq split: if_splits)
    then show ?thesis
      using walk_inv_dir(2) [OF inv2(1) env inv2(2)] w2(3) inv2(2) w1(3) root by (auto simp: w2_eq)
  qed
qed

subsection \<open>The whole program\<close>

text \<open>What a regular end of the program leaves of the source directory.\<close>

definition entry_copied :: "(nat \<Rightarrow> os_file) \<Rightarrow> (string list \<Rightarrow> dst_node option) \<Rightarrow> (nat \<Rightarrow> os_file) \<Rightarrow> string list \<times> src_node \<Rightarrow> bool" where
  "entry_copied f0 tree f = (\<lambda>(path, node). case node of
     Reg_node mode ino \<Rightarrow> (\<exists>j. tree path = Some (DFile mode j) \<and> contents (f j) = contents (f0 ino))
   | Link_node to \<Rightarrow> (\<exists>rest. tree path = Some (DLink (to @ rest)))
   | Dir_node mode entries \<Rightarrow> tree path = Some (DDir mode)
   | Other_node \<Rightarrow> True)"

lemma mcp_setup_Inr:
  assumes "mcp_setup env srt source dst_root args w = Inr m"
  obtains src_path thread_num mode entries d w3 w6 pq where "hd args = src_path" "source = Some (Dir_node mode entries)"
    "open_destination env dst_root src_path mode (w\<lparr>w_open := e_new_fd env (w_open w) # w_open w, w_calls := w_calls w + 2\<rparr>) = Inr (d, w3)"
    "cp_dir env d entries (w3\<lparr>w_calls := w_calls w3 + 2, w_files := []\<rparr>) = Inr w6"
    "w_fs (m_walk m) = w_fs w6" "w_tree (m_walk m) = w_tree w6"
    "assign_jobs srt thread_num (w_files w6) = Inr (pq, m_jobs m)" "report_loads pq = Inr (m_loads m)"
proof -
  obtain src_path dst_path num_arg opts where args: "args = src_path # dst_path # num_arg # opts"
    using assms by (auto simp: mcp_setup_def split: list.splits)
  obtain node where node: "source = Some node"
    using assms unfolding mcp_setup_def args by (cases source) (auto simp: bindR_eq_Inr)
  obtain mode entries where src: "source = Some (Dir_node mode entries)"
    using assms unfolding mcp_setup_def args node by (cases node) (auto simp: bindR_eq_Inr)
  obtain thread_num buf_len d w3 w6 w7 w8 pq where r: "atoi num_arg = Inr thread_num"
    "open_destination env dst_root src_path mode (w\<lparr>w_open := e_new_fd env (w_open w) # w_open w, w_calls := w_calls w + 2\<rparr>) = Inr (d, w3)"
    "cp_dir env d entries (w3\<lparr>w_calls := w_calls w3 + 2, w_files := []\<rparr>) = Inr w6"
    "close_fd env (e_new_fd env (w_open w)) w6 = Inr w7" "close_fd env d w7 = Inr w8"
    "assign_jobs srt thread_num (w_files w8) = Inr (pq, m_jobs m)" "report_loads pq = Inr (m_loads m)" "m_walk m = w8"
    using assms unfolding mcp_setup_def args src
    by (auto simp: bindR_eq_Inr checked_Inr Let_def numeral_2_eq_2 split: list.splits)
  have "w_fs w8 = w_fs w6" "w_tree w8 = w_tree w6" "w_files w8 = w_files w6"
    using r(4,5) by (auto simp: close_fd_def bindR_eq_Inr checked_Inr)
  then show thesis
    using that [of src_path mode entries d w3 w6 thread_num pq] r src args by simp
qed

lemma mcp_walk:
  assumes env: "fd_alloc_ok env" and inv: "walk_inv n0 f0 w" and nofiles: "w_files w = []" and src: "source_ok n0 entries"
    and fresh: "fresh_destination dst_root (hd args) w"
    and start: "mcp_setup env srt (Some (Dir_node mode entries)) dst_root args w = Inr m"
  obtains w6 thread_num pq where "walk_inv n0 f0 w6" "w_fs (m_walk m) = w_fs w6" "w_tree (m_walk m) = w_tree w6"
    "assign_jobs srt thread_num (w_files w6) = Inr (pq, m_jobs m)"
    "\<forall>e\<in>set (listing (copy_root dst_root (hd args) w) entries). entry_done w6 e"
    "w_tree w6 (copy_root dst_root (hd args) w) = Some (DDir mode)"
proof -
  let ?root = "copy_root dst_root (hd args) w"
  obtain thread_num d w3 w6 pq where r:
    "open_destination env dst_root (hd args) mode (w\<lparr>w_open := e_new_fd env (w_open w) # w_open w, w_calls := w_calls w + 2\<rparr>) = Inr (d, w3)"
    "cp_dir env d entries (w3\<lparr>w_calls := w_calls w3 + 2, w_files := []\<rparr>) = Inr w6"
    "w_fs (m_walk m) = w_fs w6" "w_tree (m_walk m) = w_tree w6"
    "assign_jobs srt thread_num (w_files w6) = Inr (pq, m_jobs m)"
    by (rule mcp_setup_Inr [OF start]) auto
  let ?w = "w\<lparr>w_open := e_new_fd env (w_open w) # w_open w, w_calls := w_calls w + 2\<rparr>"
  have inv': "walk_inv n0 f0 ?w"
    using inv nofiles new_fd [OF env, of "w_open w"] by (auto simp: walk_inv_def)
  have o: "walk_inv n0 f0 w3" "w_files w3 = []" "w_dirs w3 d = Some ?root" "w_tree w3 = (w_tree w)(?root := Some (DDir mode))"
    using open_destination_ok [OF env inv' _ _ r(1)] fresh nofiles by (simp_all add: fresh_destination_def copy_root_def)
  let ?w5 = "w3\<lparr>w_calls := w_calls w3 + 2, w_files := []\<rparr>"
  have w5: "w3\<lparr>w_calls := n, w_files := []\<rparr> = w3\<lparr>w_calls := n\<rparr>" for n
    using o(2) by (cases w3) simp
  have "w_tree ?w5 (?root @ n # rest) = None" for n rest
    using fresh o(4) by (simp add: fresh_destination_def)
  then have post: "cp_dir_post n0 f0 ?root entries ?w5 w6"
    by (intro cp_dir_ok [OF env _ _ src _ r(2)]) (use o in \<open>simp_all add: w5\<close>)
  have "w_tree w6 ?root = Some (DDir mode)"
    using post o(4) by (auto simp: cp_dir_post_def keeps_def)
  then show thesis
    using that [of w6 thread_num pq] r post by (auto simp: cp_dir_post_def)
qed

lemma mcp_copy_result:
  assumes "fd_alloc_ok env" and "std_sort file_work_less srt"
    and "walk_inv n0 f0 w" and "w_files w = []" and "source_ok n0 entries" and "fresh_destination dst_root (hd args) w"
    and "mcp_setup env srt (Some (Dir_node mode entries)) dst_root args w = Inr m" and "0 < m_buf_len m"
    and "copy_run stall (m_buf_len m) (Inr (mcp_threads m)) k (Inr s)" and "copied s"
  shows "w_tree (m_walk m) (copy_root dst_root (hd args) w) = Some (DDir mode) \<and>
    (\<forall>e\<in>set (listing (copy_root dst_root (hd args) w) entries). entry_copied f0 (w_tree (m_walk m)) (inodes (cs_fs s)) e) \<and>
    (\<forall>i<n0. inodes (cs_fs s) i = f0 i)"
proof -
  obtain w6 thread_num pq where w6: "walk_inv n0 f0 w6" "w_fs (m_walk m) = w_fs w6" "w_tree (m_walk m) = w_tree w6"
    "assign_jobs srt thread_num (w_files w6) = Inr (pq, m_jobs m)"
    "\<forall>e\<in>set (listing (copy_root dst_root (hd args) w) entries). entry_done w6 e"
    "w_tree w6 (copy_root dst_root (hd args) w) = Some (DDir mode)"
    using mcp_walk [OF assms(1,3-7)] by blast
  have perm: "mset (concat (m_jobs m)) = image_mset job_of (mset (w_files w6))"
    by (rule assign_jobs_all [OF assms(2) w6(4)])
  then have jobs: "set (concat (m_jobs m)) = job_of ` set (w_files w6)"
    using mset_eq_setD [OF perm [folded mset_map]] by simp
  have run: "copy_run stall (m_buf_len m) (Inr (copy_start (m_jobs m) (w_fs w6))) k (Inr s)"
    using assms(9) w6(2) by (simp add: mcp_threads_def)
  have opened: "\<forall>x\<in>set (w_files w6). fds (w_fs w6) (fw_dst x) \<noteq> None"
    using copied_all_open [OF run assms(10)] unfolding jobs by force
  have good: "good_jobs (w_fs w6) (concat (m_jobs m))"
    by (rule good_jobs_of_walk [OF w6(1) opened perm])
  have c: "\<forall>i. i \<notin> dst_ino (w_fs w6) ` set (concat (m_jobs m)) \<longrightarrow> inodes (cs_fs s) i = inodes (w_fs w6) i"
    "\<forall>x\<in>set (w_files w6). contents (inodes (cs_fs s) (dst_ino (w_fs w6) (job_of x))) = contents (inodes (w_fs w6) (src_ino (w_fs w6) (job_of x)))"
    using copy_run_result [OF good assms(8) run] assms(10) unfolding jobs by auto
  have works: "\<And>x. x \<in> set (w_files w6) \<Longrightarrow> work_ok n0 w6 x" and old: "\<And>i. i < n0 \<Longrightarrow> inodes (w_fs w6) i = f0 i"
    and minus: "fds (w_fs w6) (- 1) = None"
    using w6(1) by (auto simp: walk_inv_def)
  have "inodes (cs_fs s) i = f0 i" if "i < n0" for i
  proof -
    have "i \<noteq> dst_ino (w_fs w6) (job_of x)" if "x \<in> set (w_files w6)" for x
      using works [OF that] opened that minus \<open>i < n0\<close> by (auto simp: work_ok_def dst_ino_def)
    then have "i \<notin> dst_ino (w_fs w6) ` set (concat (m_jobs m))"
      unfolding jobs by auto
    then show ?thesis
      using c(1) old [OF that] by simp
  qed
  moreover have "entry_copied f0 (w_tree w6) (inodes (cs_fs s)) e" if done6: "entry_done w6 e" for e
  proof (cases "snd e")
    case (Reg_node mode' ino)
    then obtain x j where x: "x \<in> set (w_files w6)" "fds (w_fs w6) (fw_src x) = Some \<lparr>d_inode = ino, d_pos = 0\<rparr>"
        "fds (w_fs w6) (fw_dst x) = Some \<lparr>d_inode = j, d_pos = 0\<rparr>" "w_tree w6 (fst e) = Some (DFile mode' j)"
      using done6 opened minus by (cases e) (auto simp: entry_done_def)
    have "ino < n0"
      using works [OF x(1)] x(2) by (auto simp: work_ok_def)
    have "contents (inodes (cs_fs s) j) = contents (f0 ino)"
      using c(2) x(1-3) old [OF \<open>ino < n0\<close>] by (auto simp: src_ino_def dst_ino_def)
    then show ?thesis
      using x(4) Reg_node by (cases e) (auto simp: entry_copied_def)
  qed (use done6 in \<open>cases e; auto simp: entry_done_def entry_copied_def\<close>)+
  ultimately show ?thesis
    using w6(3,5,6) by simp
qed

text \<open>
  C2: When \<^verbatim>\<open>mcp\<close> ends normally, the destination has every directory, link and regular file of
  the source directory, the files with the same contents, and the source is as before. This
  holds for every pattern of failing calls, also of the calls whose result is not checked,
  for all short reads and writes, for every order of equally large files and for every
  interleaving of the threads. The destination must be new; of a link, only the beginning of
  the target is certain.
\<close>

theorem mcp_copies_directory:
  assumes "fd_alloc_ok env" and "std_sort file_work_less srt"
    and "walk_inv n0 f0 w" and "w_files w = []" and "source_ok n0 entries" and "fresh_destination dst_root (hd args) w"
    and "mcp_setup env srt (Some (Dir_node mode entries)) dst_root args w = Inr m" and "0 < m_buf_len m"
    and "copy_run stall (m_buf_len m) (Inr (mcp_threads m)) k (Inr s)" and "copied s"
  shows "w_tree (m_walk m) (copy_root dst_root (hd args) w) = Some (DDir mode) \<and>
    (\<forall>e\<in>set (listing (copy_root dst_root (hd args) w) entries). entry_copied f0 (w_tree (m_walk m)) (inodes (cs_fs s)) e) \<and>
    (\<forall>i<n0. inodes (cs_fs s) i = f0 i)"
  using assms by (rule mcp_copy_result)

text \<open>A source directory with a link and one file, copied by one thread into a new directory.\<close>

definition demo_mcp_env :: walk_env where
  "demo_mcp_env = \<lparr>e_fails = (\<lambda>_. False), e_new_fd = (\<lambda>xs. 1 + sum_list (map abs xs)), e_follow = (\<lambda>_. None),
     e_junk = (\<lambda>_ _. CHR 0x00), e_links = 9\<rparr>"

definition demo_walk :: walk where
  "demo_walk = \<lparr>w_fs = \<lparr>inodes = (\<lambda>_. file_write empty_file 0 [7, 8]), fds = (\<lambda>_. None)\<rparr>, w_open = [0, 1, 2],
     w_dirs = (\<lambda>_. None), w_tree = (\<lambda>_. None), w_ino = 1, w_files = [], w_calls = 0\<rparr>"

definition demo_entries :: "(string \<times> src_node) list" where
  "demo_entries = [(''l'', Link_node ''f''), (''f'', Reg_node 420 0)]"

lemma demo_fd_alloc: "fd_alloc_ok demo_mcp_env"
proof -
  have "x \<in> set xs \<Longrightarrow> x \<le> sum_list (map abs xs)" for x :: int and xs
    using member_le_sum_list [of "abs x" "map abs xs"] by force
  then have "1 + sum_list (map abs xs) \<notin> set xs" for xs :: "int list"
    by fastforce
  moreover have "0 \<le> sum_list (map abs xs)" for xs :: "int list"
    by (induction xs) auto
  ultimately show ?thesis
    by (simp add: fd_alloc_ok_def demo_mcp_env_def add_nonneg_nonneg)
qed

lemma demo_mcp_setup:
  obtains m where "mcp_setup demo_mcp_env demo_sort (Some (Dir_node 493 demo_entries)) [''dst''] [''src'', ''dst'', ''1''] demo_walk = Inr m"
    "m_buf_len m = 4096" "good_jobs (w_fs (m_walk m)) (concat (m_jobs m))"
proof -
  have at: "atoi ''1'' = Inr 1"
    by code_simp
  have link_buf: "c_string (CHR ''f'' # map (\<lambda>_. CHR 0x00) [Suc 0..<256]) = Inr ''f''"
    by (simp add: c_string_def upt_conv_Cons)
  have sizes: "flen (file_write empty_file 0 [7, 8]) = 2"
    by (simp add: file_write_def empty_file_def)
  have sort1: "demo_sort [x] = [x]" for x
    by (simp add: demo_sort_def)
  have jobs1: "assign_jobs demo_sort 1 [\<lparr>fw_size = 2, fw_src = a, fw_dst = b\<rparr>] = Inr ([(2, 0)], [[(a, b)]])" for a b
    by (simp add: assign_jobs_def sort1 assign_work_def pq_push_def pq_top_def pq_pop_def Let_def upto.simps)
  have "\<exists>m. mcp_setup demo_mcp_env demo_sort (Some (Dir_node 493 demo_entries)) [''dst''] [''src'', ''dst'', ''1''] demo_walk = Inr m \<and>
    m_buf_len m = 4096 \<and> good_jobs (w_fs (m_walk m)) (concat (m_jobs m))"
    by (simp add: mcp_setup_def at demo_entries_def demo_walk_def demo_mcp_env_def checked_def open_destination_def open_root_def
        resolve_def root_missing_def handle_symbolic_link_def handle_regular_file_def link_buf symlinkat_def open_src_def openat_dst_def
        sizes close_fd_def jobs1 report_loads_eq Let_def good_jobs_def src_ino_def dst_ino_def del: upt_Suc)
      (simp add: empty_file_def)
  then show thesis
    using that by blast
qed

theorem mcp_copies_directory_witness:
  "\<exists>m k s j. mcp_setup demo_mcp_env demo_sort (Some (Dir_node 493 demo_entries)) [''dst''] [''src'', ''dst'', ''1''] demo_walk = Inr m \<and>
    copy_run False 4096 (Inr (mcp_threads m)) k (Inr s) \<and> copied s \<and> w_tree (m_walk m) [''dst'', ''f''] = Some (DFile 420 j) \<and>
    contents (inodes (cs_fs s) j) = contents (file_write empty_file 0 [7, 8])"
proof -
  obtain m where m: "mcp_setup demo_mcp_env demo_sort (Some (Dir_node 493 demo_entries)) [''dst''] [''src'', ''dst'', ''1''] demo_walk = Inr m"
      "m_buf_len m = 4096" "good_jobs (w_fs (m_walk m)) (concat (m_jobs m))"
    by (rule demo_mcp_setup)
  obtain k s where r: "copy_run False (m_buf_len m) (Inr (mcp_threads m)) k (Inr s)" "copied s"
    using copy_run_finish [OF m(3) _ copy_run.start, of "m_buf_len m"] m(2) by (auto simp: mcp_threads_def)
  have inv: "walk_inv 1 (\<lambda>_. file_write empty_file 0 [7, 8]) demo_walk" "w_files demo_walk = []"
    by (auto simp: demo_walk_def walk_inv_def)
  have src: "source_ok 1 demo_entries" and fresh: "fresh_destination [''dst''] (hd [''src'', ''dst'', ''1'']) demo_walk"
    by (simp_all add: demo_entries_def fresh_destination_def demo_walk_def)
  have root: "copy_root [''dst''] (hd [''src'', ''dst'', ''1'']) demo_walk = [''dst'']"
    by (simp add: copy_root_def demo_walk_def)
  have "0 < m_buf_len m"
    using m(2) by simp
  from mcp_copies_directory [OF demo_fd_alloc demo_sort_ok inv src fresh m(1) this r]
  have "entry_copied (\<lambda>_. file_write empty_file 0 [7, 8]) (w_tree (m_walk m)) (inodes (cs_fs s)) ([''dst'', ''f''], Reg_node 420 0)"
    unfolding root by (simp add: demo_entries_def)
  then obtain j where "w_tree (m_walk m) [''dst'', ''f''] = Some (DFile 420 j)"
      "contents (inodes (cs_fs s) j) = contents (file_write empty_file 0 [7, 8])"
    by (auto simp: entry_copied_def)
  then show ?thesis
    using m(1,2) r by auto
qed

subsection \<open>Links\<close>

text \<open>
  C40: A link whose target fills the buffer of 256 bytes is never copied: every round of the loop
  reads the link from its beginning again and finds the buffer full, so the program runs for
  ever, unless a call fails.
\<close>

theorem long_link_never_copied:
  assumes "256 \<le> length to" and "\<forall>i. \<not> e_fails env i"
  shows "handle_symbolic_link env dst_fd name to w = Inl Diverges"
proof -
  have "readlink_loop env n to str v = Inl Diverges" for n str v
    by (induction n arbitrary: str v) (use assms in \<open>auto simp: checked_def min_def\<close>)
  then show ?thesis
    using assms by (simp add: handle_symbolic_link_def checked_def Let_def)
qed

theorem long_link_never_copied_witness:
  "handle_symbolic_link demo_mcp_env 5 ''l'' (replicate 300 CHR ''a'') demo_walk = Inl Diverges"
  using long_link_never_copied [of "replicate 300 CHR ''a''" demo_mcp_env 5 "''l''" demo_walk] by (simp add: demo_mcp_env_def)

text \<open>
  The target of a shorter link gets everything that is in the buffer behind it, up to the
  first null character: \<^verbatim>\<open>readlink\<close> does not write one. Without one the program reads past the
  end of the buffer. So the link is right if and only if the memory happens to hold a null
  character just behind the target.
\<close>

theorem short_link_copied_iff:
  assumes "0 < length to" and "length to < 256" and "CHR 0x00 \<notin> set to" and "\<forall>i. \<not> e_fails env i"
    and "w_dirs w dst_fd = Some p" and "w_tree w (p @ [name]) = None"
  shows "(\<exists>w'. handle_symbolic_link env dst_fd name to w = Inr w' \<and> w_tree w' (p @ [name]) = Some (DLink to)) \<longleftrightarrow>
    e_junk env (w_calls w) (length to) = CHR 0x00"
proof -
  let ?P = "\<lambda>c. c \<noteq> CHR 0x00"
  let ?junk = "map (e_junk env (w_calls w)) [length to..<256]"
  have junk: "?junk = e_junk env (w_calls w) (length to) # map (e_junk env (w_calls w)) [Suc (length to)..<256]"
    using assms(2) by (simp add: upt_conv_Cons)
  have tw: "takeWhile ?P (to @ ?junk) = to @ takeWhile ?P ?junk"
    by (rule takeWhile_append2) (use assms(3) in auto)
  have h: "handle_symbolic_link env dst_fd name to w =
      bindR (c_string (to @ ?junk)) (\<lambda>target. symlinkat env target dst_fd name (w\<lparr>w_calls := w_calls w + 1\<rparr>))"
    using assms(2,4) by (simp add: handle_symbolic_link_def checked_def Let_def)
  show ?thesis
  proof (cases "CHR 0x00 \<in> set ?junk")
    case True
    then have "handle_symbolic_link env dst_fd name to w = Inr (w\<lparr>w_calls := w_calls w + 2,
        w_tree := (w_tree w)(p @ [name] := Some (DLink (to @ takeWhile ?P ?junk)))\<rparr>)"
      unfolding h using assms by (auto simp: c_string_def tw symlinkat_def checked_def)
    then show ?thesis
      unfolding junk by auto
  next
    case False
    then have "handle_symbolic_link env dst_fd name to w = Inl OutOfBounds"
      unfolding h using assms(3) by (simp add: c_string_def)
    then show ?thesis
      using False unfolding junk by auto
  qed
qed

theorem short_link_copied_iff_witness:
  "\<not> (\<exists>w'. handle_symbolic_link (demo_mcp_env\<lparr>e_junk := \<lambda>_ i. if i = 1 then CHR ''x'' else CHR 0x00\<rparr>) 5 ''l'' ''f''
      (demo_walk\<lparr>w_dirs := [5 \<mapsto> []]\<rparr>) = Inr w' \<and> w_tree w' [''l''] = Some (DLink ''f''))"
  using short_link_copied_iff [of "''f''" "demo_mcp_env\<lparr>e_junk := \<lambda>_ i. if i = 1 then CHR ''x'' else CHR 0x00\<rparr>"
      "demo_walk\<lparr>w_dirs := [5 \<mapsto> []]\<rparr>" 5 "[]" "''l''"]
  by (simp add: demo_mcp_env_def demo_walk_def)

end
