(* ===== verification/Mcp_Total.thy ===== *)
theory Mcp_Total
  imports Mcp_Correct
begin

text \<open>
  \<^verbatim>\<open>mcp\<close> does its work: when no call of the traversal fails, the source has only links that fit the
  buffer, and the stack happens to hold zeros behind their targets, the traversal returns, all
  destinations are open, the threads end under every schedule, and the copy is exact.
\<close>

subsection \<open>The traversal returns\<close>

definition quiet :: "walk_env \<Rightarrow> bool" where
  "quiet env \<longleftrightarrow> (\<forall>k. \<not> e_fails env k) \<and> (\<forall>k i. e_junk env k i = CHR 0x00)"

fun links_fit :: "(string \<times> src_node) list \<Rightarrow> bool" where
  "links_fit [] = True"
| "links_fit ((name, node) # es) = (links_fit es \<and>
     (case node of Link_node to \<Rightarrow> to \<noteq> [] \<and> length to < 256 | Dir_node mode entries \<Rightarrow> links_fit entries | _ \<Rightarrow> True))"

definition all_opened :: "walk \<Rightarrow> bool" where
  "all_opened w \<longleftrightarrow> (\<forall>x\<in>set (w_files w). fw_dst x \<noteq> - 1)"

definition link_exact :: "(string list \<Rightarrow> dst_node option) \<Rightarrow> string list \<times> src_node \<Rightarrow> bool" where
  "link_exact tree = (\<lambda>(path, node). case node of Link_node to \<Rightarrow> tree path = Some (DLink to) | _ \<Rightarrow> True)"

lemma quiet_checked: "quiet env \<Longrightarrow> checked env w = Inr (w\<lparr>w_calls := w_calls w + 1\<rparr>)"
  by (simp add: quiet_def checked_def)

lemma handle_regular_file_total:
  assumes "quiet env" and "fd_alloc_ok env" and "w_dirs w dst = Some p" and "w_tree w (p @ [name]) = None" and "all_opened w"
  shows "\<exists>w'. handle_regular_file env dst name mode ino w = Inr w' \<and> all_opened w'"
  using assms new_fd [OF assms(2)]
  by (auto simp: handle_regular_file_def open_src_def openat_dst_def quiet_checked Let_def resolve_def all_opened_def) (auto simp: quiet_def)

lemma handle_symbolic_link_total:
  assumes "quiet env" and "w_dirs w dst = Some p" and "w_tree w (p @ [name]) = None"
    and "to \<noteq> []" and "length to < 256" and "CHR 0x00 \<notin> set to"
  shows "\<exists>w'. handle_symbolic_link env dst name to w = Inr w' \<and> w_tree w' (p @ [name]) = Some (DLink to) \<and> w_files w' = w_files w"
proof -
  let ?junk = "map (\<lambda>_. CHR 0x00) [length to..<256]"
  have "takeWhile (\<lambda>c. c \<noteq> CHR 0x00) (to @ ?junk) = to @ takeWhile (\<lambda>c. c \<noteq> CHR 0x00) ?junk"
    by (rule takeWhile_append2) (use assms(6) in auto)
  moreover have "?junk = CHR 0x00 # map (\<lambda>_. CHR 0x00) [Suc (length to)..<256]"
    using assms(5) by (simp add: upt_conv_Cons)
  ultimately have "c_string (to @ ?junk) = Inr to"
    by (simp add: c_string_def)
  moreover have "e_junk env k = (\<lambda>_. CHR 0x00)" for k
    using assms(1) by (auto simp: quiet_def)
  ultimately show ?thesis
    using assms by (simp add: handle_symbolic_link_def quiet_checked symlinkat_def Let_def)
qed

lemma enter_dir_total:
  assumes "quiet env" and "fd_alloc_ok env" and "walk_inv n0 f0 w" and "w_dirs w dst = Some p" and "w_tree w (p @ [name]) = None"
  shows "\<exists>a d w'. enter_dir env dst name mode w = Inr ((a, d), w') \<and> a \<noteq> d \<and> w_dirs w' d = Some (p @ [name]) \<and> w_files w' = w_files w"
proof -
  have "dst \<noteq> - 1"
    using assms(3,4) unfolding walk_inv_def by (metis option.distinct(1))
  then show ?thesis
    using assms new_fd [OF assms(2), of "w_open w"] new_fd [OF assms(2), of "e_new_fd env (w_open w) # w_open w"]
    by (auto simp: enter_dir_def quiet_checked mkdirat_def openat_dir_def resolve_def Let_def quiet_def)
qed

lemma leave_dir_total:
  assumes "quiet env" and "a \<in> set (w_open w)" and "d \<in> set (w_open w)" and "a \<noteq> d"
  shows "\<exists>w'. leave_dir env a d w = Inr w'"
  using assms by (auto simp: leave_dir_def close_fd_def quiet_checked)

lemma link_exact_keeps: "keeps w w' \<Longrightarrow> link_exact (w_tree w) e \<Longrightarrow> link_exact (w_tree w') e"
  by (auto simp: link_exact_def keeps_def split: src_node.splits)

lemma all_opened_files: "w_files w' = w_files w \<Longrightarrow> all_opened w' = all_opened w"
  by (simp add: all_opened_def)

text \<open>The body of the loop of \<^verbatim>\<open>cp_dir\<close> is \<^verbatim>\<open>cp_dir\<close> on a directory of one entry.\<close>

lemma cp_dir_Cons: "cp_dir env dst (e # es) w = bindR (cp_dir env dst [e] w) (cp_dir env dst es)"
  by (cases e) simp

lemma cp_dir_Nil [simp]: "cp_dir env dst [] = Inr"
  by (rule ext) simp

lemma cp_dir_total:
  "fd_alloc_ok env \<Longrightarrow> quiet env \<Longrightarrow> walk_inv n0 f0 w \<Longrightarrow> w_dirs w dst = Some p \<Longrightarrow> source_ok n0 es \<Longrightarrow> links_fit es \<Longrightarrow>
    (\<forall>n\<in>fst ` set es. \<forall>r. w_tree w (p @ n # r) = None) \<Longrightarrow> all_opened w \<Longrightarrow>
    \<exists>w'. cp_dir env dst es w = Inr w' \<and> all_opened w' \<and> (\<forall>e\<in>set (listing p es). link_exact (w_tree w') e)"
proof (induction es arbitrary: dst p w rule: links_fit.induct)
  case (2 name node es)
  note env = "2.prems"(1) and quiet = "2.prems"(2) and inv = "2.prems"(3) and dir = "2.prems"(4)
  have new: "w_tree w (p @ [name]) = None" "\<And>r. w_tree w (p @ name # r) = None"
    using "2.prems"(7) by simp_all
  have head: "\<exists>w1. cp_dir env dst [(name, node)] w = Inr w1 \<and> all_opened w1 \<and> (\<forall>e\<in>set (listing p [(name, node)]). link_exact (w_tree w1) e)"
  proof (cases "name = ''.'' \<or> name = ''..''")
    case True
    then show ?thesis
      using "2.prems"(8) by auto
  next
    case False
    show ?thesis
    proof (cases node)
      case (Reg_node mode ino)
      then show ?thesis
        using handle_regular_file_total [OF quiet env dir new(1) "2.prems"(8)] False by (auto simp: link_exact_def)
    next
      case (Link_node to)
      then show ?thesis
        using handle_symbolic_link_total [OF quiet dir new(1)] False "2.prems"(5,6,8) by (fastforce simp: link_exact_def all_opened_def)
    next
      case (Dir_node mode entries)
      obtain a d w1 where en: "enter_dir env dst name mode w = Inr ((a, d), w1)" "a \<noteq> d" "w_dirs w1 d = Some (p @ [name])" "w_files w1 = w_files w"
        using enter_dir_total [OF quiet env inv dir new(1)] by blast
      note en1 = enter_dir_ok [OF env inv dir new(1) en(1)]
      have src: "source_ok n0 entries" "links_fit entries"
        using "2.prems"(5,6) Dir_node by simp_all
      have fresh: "\<forall>n\<in>fst ` set entries. \<forall>r. w_tree w1 ((p @ [name]) @ n # r) = None"
        using en1 new(2) by auto
      obtain w2 where w2: "cp_dir env d entries w1 = Inr w2" "all_opened w2" "\<forall>e\<in>set (listing (p @ [name]) entries). link_exact (w_tree w2) e"
        using "2.IH"(2) [OF Dir_node env quiet _ en(3) src fresh] en1 en(4) "2.prems"(8) all_opened_files [of w1 w] by blast
      have post: "cp_dir_post n0 f0 (p @ [name]) entries w1 w2"
        by (rule cp_dir_ok [OF env _ en(3) src(1) fresh w2(1)]) (use en1 in simp)
      have "a \<in> set (w_open w1)" "d \<in> set (w_open w1)"
        using en1 en(3) by (auto simp: walk_inv_def)
      then have "a \<in> set (w_open w2)" "d \<in> set (w_open w2)"
        using post by (auto simp: cp_dir_post_def keeps_def)
      then obtain w3 where w3: "leave_dir env a d w2 = Inr w3"
        using leave_dir_total [OF quiet _ _ en(2)] by blast
      have "cp_dir env dst [(name, node)] w = Inr w3"
        using False Dir_node en(1) w2(1) w3 by simp
      then show ?thesis
        using w2(2,3) leave_dir_Inr(3) [OF w3] False Dir_node by (auto simp: all_opened_def link_exact_def)
    next
      case Other_node
      then show ?thesis
        using "2.prems"(8) False by (auto simp: link_exact_def)
    qed
  qed
  then obtain w1 where w1: "cp_dir env dst [(name, node)] w = Inr w1" "all_opened w1" "\<forall>e\<in>set (listing p [(name, node)]). link_exact (w_tree w1) e"
    by blast
  have one: "source_ok n0 [(name, node)]" "\<forall>n\<in>fst ` set [(name, node)]. \<forall>r. w_tree w (p @ n # r) = None"
    using "2.prems"(5,7) by simp_all
  have post: "cp_dir_post n0 f0 p [(name, node)] w w1"
    by (rule cp_dir_ok [OF env inv dir one w1(1)])
  have src: "source_ok n0 es" "links_fit es" "name \<notin> fst ` set es"
    using "2.prems"(5,6) by simp_all
  have inv1: "walk_inv n0 f0 w1" and dir1: "w_dirs w1 dst = Some p"
    using post dir_kept [OF inv _ dir] by (auto simp: cp_dir_post_def)
  have fresh: "\<forall>n\<in>fst ` set es. \<forall>r. w_tree w1 (p @ n # r) = None"
  proof (intro ballI allI)
    fix n r assume n: "n \<in> fst ` set es"
    have "w_tree w1 (p @ n # r) = w_tree w (p @ n # r)"
      using post n src(3) by (auto simp: cp_dir_post_def below_def)
    then show "w_tree w1 (p @ n # r) = None"
      using "2.prems"(7) n by simp
  qed
  obtain w' where w': "cp_dir env dst es w1 = Inr w'" "all_opened w'" "\<forall>e\<in>set (listing p es). link_exact (w_tree w') e"
    using "2.IH"(1) [OF env quiet inv1 dir1 src(1,2) fresh w1(2)] by blast
  have "keeps w1 w'"
    using cp_dir_ok [OF env inv1 dir1 src(1) fresh w'(1)] by (simp add: cp_dir_post_def)
  moreover have "listing p ((name, node) # es) = listing p [(name, node)] @ listing p es"
    by simp
  ultimately have "\<forall>e\<in>set (listing p ((name, node) # es)). link_exact (w_tree w') e"
    using w1(3) w'(3) link_exact_keeps [of w1 w'] by auto
  moreover have "cp_dir env dst ((name, node) # es) w = Inr w'"
    by (subst cp_dir_Cons) (simp only: w1(1) w'(1) bindR.simps)
  ultimately show ?case
    using w'(2) by blast
qed simp

subsection \<open>The program returns\<close>

definition args_ok :: "string list \<Rightarrow> int \<Rightarrow> u64 \<Rightarrow> bool" where
  "args_ok args n blen \<longleftrightarrow> (\<exists>src_path dst_path num opts. args = src_path # dst_path # num # opts \<and> atoi num = Inr n \<and>
     (case opts of [] \<Rightarrow> blen = 4096 | b # _ \<Rightarrow> \<exists>k. atoi b = Inr k \<and> blen = of_int k))"

lemma open_destination_total:
  assumes quiet: "quiet env" and env: "fd_alloc_ok env" and fresh: "fresh_destination dst_root src_path w"
  shows "\<exists>d w'. open_destination env dst_root src_path mode w = Inr (d, w') \<and> d \<noteq> - 1 \<and> set (w_open w) \<subseteq> set (w_open w') \<and> d \<notin> set (w_open w) \<and> d \<in> set (w_open w')"
proof (cases "w_tree w dst_root = None")
  case True
  then show ?thesis
    using quiet new_fd [OF env] by (auto simp: open_destination_def open_root_def root_missing_def resolve_def quiet_checked Let_def) (auto simp: quiet_def)
next
  case False
  then obtain m where "w_tree w dst_root = Some (DDir m)" "w_tree w (dst_root @ [basename src_path]) = None"
    using fresh unfolding fresh_destination_def copy_root_def by (metis append_Nil2)
  then show ?thesis
    using quiet new_fd [OF env] new_fd [OF env, of "e_new_fd env (w_open w) # w_open w"]
    by (auto simp: open_destination_def open_root_def resolve_def quiet_checked mkdirat_def openat_dir_def Let_def) (auto simp: quiet_def)
qed

lemma mcp_setup_total:
  assumes env: "fd_alloc_ok env" and quiet: "quiet env" and srt: "std_sort file_work_less srt"
    and inv: "walk_inv n0 f0 w" and nofiles: "w_files w = []" and src: "source_ok n0 entries" "links_fit entries"
    and fresh: "fresh_destination dst_root (hd args) w" and args: "args_ok args n blen" and n: "0 < n"
  obtains m where "mcp_setup env srt (Some (Dir_node mode entries)) dst_root args w = Inr m" "m_buf_len m = unat blen"
    "good_jobs (w_fs (m_walk m)) (concat (m_jobs m))"
    "\<forall>e\<in>set (listing (copy_root dst_root (hd args) w) entries). link_exact (w_tree (m_walk m)) e"
proof -
  let ?root = "copy_root dst_root (hd args) w"
  define s where "s = e_new_fd env (w_open w)"
  define w2 where "w2 = w\<lparr>w_open := s # w_open w, w_calls := w_calls w + 2\<rparr>"
  have inv2: "walk_inv n0 f0 w2" and fresh2: "fresh_destination dst_root (hd args) w2" and root2: "copy_root dst_root (hd args) w2 = ?root"
    using inv nofiles fresh new_fd [OF env, of "w_open w"] by (auto simp: w2_def s_def walk_inv_def fresh_destination_def copy_root_def)
  obtain d w3 where d: "open_destination env dst_root (hd args) mode w2 = Inr (d, w3)" "d \<noteq> - 1"
      "set (w_open w2) \<subseteq> set (w_open w3)" "d \<notin> set (w_open w2)" "d \<in> set (w_open w3)"
    using open_destination_total [OF quiet env fresh2] by blast
  note o = open_destination_ok [OF env inv2 fresh2 _ d(1), unfolded root2]
  have files2: "w_files w2 = []"
    using nofiles by (simp add: w2_def)
  define w5 where "w5 = w3\<lparr>w_calls := w_calls w3 + 2, w_files := []\<rparr>"
  have "w5 = w3\<lparr>w_calls := w_calls w3 + 2\<rparr>"
    using o [OF files2] by (cases w3) (simp add: w5_def)
  then have w5: "walk_inv n0 f0 w5" "w_dirs w5 d = Some ?root" "all_opened w5" "w_open w5 = w_open w3" "w_tree w5 = (w_tree w2)(?root := Some (DDir mode))"
    using o [OF files2] by (simp_all add: all_opened_def)
  have fresh5: "\<forall>x\<in>fst ` set entries. \<forall>r. w_tree w5 (?root @ x # r) = None"
    using fresh2 root2 by (simp add: w5(5) fresh_destination_def)
  obtain w6 where w6: "cp_dir env d entries w5 = Inr w6" "all_opened w6" "\<forall>e\<in>set (listing ?root entries). link_exact (w_tree w6) e"
    using cp_dir_total [OF env quiet w5(1,2) src fresh5 w5(3)] by blast
  have post: "cp_dir_post n0 f0 ?root entries w5 w6"
    by (rule cp_dir_ok [OF env w5(1,2) src(1) fresh5 w6(1)])
  have inv6: "walk_inv n0 f0 w6" and keep: "keeps w5 w6"
    using post by (simp_all add: cp_dir_post_def)
  have open6: "s \<in> set (w_open w6)" "d \<in> set (w_open w6)" "s \<noteq> d"
    using keep d(3-5) w5(4) by (auto simp: keeps_def w2_def)
  obtain w7 w8 where w8: "close_fd env s w6 = Inr w7" "close_fd env d w7 = Inr w8"
      "w_fs w8 = w_fs w6" "w_tree w8 = w_tree w6" "w_files w8 = w_files w6"
    using open6 by (auto simp: close_fd_def quiet_checked [OF quiet])
  obtain pq jobs a where jobs: "assign_jobs srt n (w_files w6) = Inr (pq, jobs)"
    using assign_jobs_ok [OF n, of srt "w_files w6"] by (auto simp: ok_def)
  define m where "m = \<lparr>m_walk = w8, m_loads = map (\<lambda>(l, i). (i, l)) pq, m_buf_len = unat blen, m_jobs = jobs\<rparr>"
  have "mcp_setup env srt (Some (Dir_node mode entries)) dst_root args w = Inr m"
  proof -
    obtain src_path dst_path num opts where args': "args = src_path # dst_path # num # opts" "atoi num = Inr n"
        "(case opts of [] \<Rightarrow> blen = 4096 | b # _ \<Rightarrow> \<exists>k. atoi b = Inr k \<and> blen = of_int k)"
      using args by (auto simp: args_ok_def)
    then have b: "(case opts of [] \<Rightarrow> Inr 4096 | buf_bytes # _ \<Rightarrow> bindR (atoi buf_bytes) (\<lambda>n. Inr (of_int n :: u64))) = Inr blen"
      by (auto split: list.splits)
    have c: "w\<lparr>w_calls := w_calls w + 1, w_open := s # w_open (w\<lparr>w_calls := w_calls w + 1\<rparr>), w_calls := w_calls w + 1 + 1\<rparr> = w2"
      by (simp add: w2_def)
    show ?thesis
      unfolding mcp_setup_def args'(1) list.case args'(2) bindR.simps b option.case src_node.case Let_def quiet_checked [OF quiet]
      using d(1) w6(1) w8 jobs report_loads_eq [of pq]
      by (simp add: args'(1) w2_def w5_def m_def flip: s_def)
  qed
  moreover have "\<forall>x\<in>set (w_files w6). fds (w_fs w6) (fw_dst x) \<noteq> None"
    using inv6 w6(2) by (fastforce simp: walk_inv_def work_ok_def all_opened_def)
  then have "good_jobs (w_fs w6) (concat jobs)"
    by (rule good_jobs_of_walk [OF inv6 _ assign_jobs_all [OF srt jobs]])
  ultimately show thesis
    using that [of m] w6(3) w8(3,4) by (simp add: m_def)
qed

subsection \<open>Total correctness\<close>

definition entry_exact :: "(nat \<Rightarrow> os_file) \<Rightarrow> (string list \<Rightarrow> dst_node option) \<Rightarrow> (nat \<Rightarrow> os_file) \<Rightarrow> string list \<times> src_node \<Rightarrow> bool" where
  "entry_exact f0 tree f = (\<lambda>(path, node). case node of
     Reg_node mode ino \<Rightarrow> (\<exists>j. tree path = Some (DFile mode j) \<and> contents (f j) = contents (f0 ino))
   | Link_node to \<Rightarrow> tree path = Some (DLink to)
   | Dir_node mode entries \<Rightarrow> tree path = Some (DDir mode)
   | Other_node \<Rightarrow> True)"

lemma entry_exactI: "entry_copied f0 tree f e \<Longrightarrow> link_exact tree e \<Longrightarrow> entry_exact f0 tree f e"
  by (auto simp: entry_exact_def entry_copied_def link_exact_def split: src_node.splits)

text \<open>
  C10: \<^verbatim>\<open>mcp\<close> does its work, for every source directory whose links fit the buffer: if no call of the
  traversal fails and the stack holds zeros, it starts its threads; if every write transfers
  something, the threads take a bounded number of steps under every schedule; a call of a
  thread that fails is the only error; every state that is reached can be completed; and when
  all threads have returned, the copy is exact, links included.
\<close>

theorem mcp_succeeds:
  assumes "fd_alloc_ok env" and "quiet env" and "std_sort file_work_less srt"
    and "walk_inv n0 f0 w" and "w_files w = []" and "source_ok n0 entries" and "links_fit entries"
    and "fresh_destination dst_root (hd args) w" and "args_ok args n blen" and "0 < n" and "0 < blen"
  shows "\<exists>m. mcp_setup env srt (Some (Dir_node mode entries)) dst_root args w = Inr m \<and> m_buf_len m = unat blen \<and>
    (\<forall>k r. copy_run False (m_buf_len m) (Inr (mcp_threads m)) k r \<longrightarrow>
      k \<le> copy_bound (w_fs (m_walk m)) (m_jobs m) \<and>
      (case r of Inl e \<Rightarrow> e = Exit 1
       | Inr s \<Rightarrow> (\<exists>k' s'. k \<le> k' \<and> copy_run False (m_buf_len m) (Inr (mcp_threads m)) k' (Inr s') \<and> copied s') \<and>
           (copied s \<longrightarrow> w_tree (m_walk m) (copy_root dst_root (hd args) w) = Some (DDir mode) \<and>
             (\<forall>e\<in>set (listing (copy_root dst_root (hd args) w) entries). entry_exact f0 (w_tree (m_walk m)) (inodes (cs_fs s)) e) \<and>
             (\<forall>i<n0. inodes (cs_fs s) i = f0 i))))"
proof -
  obtain m where m: "mcp_setup env srt (Some (Dir_node mode entries)) dst_root args w = Inr m" "m_buf_len m = unat blen"
    "good_jobs (w_fs (m_walk m)) (concat (m_jobs m))"
    "\<forall>e\<in>set (listing (copy_root dst_root (hd args) w) entries). link_exact (w_tree (m_walk m)) e"
    by (rule mcp_setup_total [OF assms(1-10)])
  have pos: "0 < m_buf_len m"
    using assms(11) m(2) by (simp add: word_less_nat_alt)
  have exact: "w_tree (m_walk m) (copy_root dst_root (hd args) w) = Some (DDir mode) \<and>
     (\<forall>e\<in>set (listing (copy_root dst_root (hd args) w) entries). entry_exact f0 (w_tree (m_walk m)) (inodes (cs_fs s)) e) \<and>
     (\<forall>i<n0. inodes (cs_fs s) i = f0 i)"
    if "copy_run False (m_buf_len m) (Inr (mcp_threads m)) k (Inr s)" "copied s" for k s
    using mcp_copy_result [OF assms(1,3-6,8) m(1) pos that] m(4) entry_exactI by blast
  show ?thesis
  proof (intro exI [of _ m] conjI allI impI m(1,2))
    fix k r assume run: "copy_run False (m_buf_len m) (Inr (mcp_threads m)) k r"
    show "k \<le> copy_bound (w_fs (m_walk m)) (m_jobs m)"
      using copy_run_left [OF run [unfolded mcp_threads_def] refl m(3) pos] by simp
    show "case r of Inl e \<Rightarrow> e = Exit 1
       | Inr s \<Rightarrow> (\<exists>k' s'. k \<le> k' \<and> copy_run False (m_buf_len m) (Inr (mcp_threads m)) k' (Inr s') \<and> copied s') \<and>
           (copied s \<longrightarrow> w_tree (m_walk m) (copy_root dst_root (hd args) w) = Some (DDir mode) \<and>
             (\<forall>e\<in>set (listing (copy_root dst_root (hd args) w) entries). entry_exact f0 (w_tree (m_walk m)) (inodes (cs_fs s)) e) \<and>
             (\<forall>i<n0. inodes (cs_fs s) i = f0 i))"
      using copy_run_inv [OF run [unfolded mcp_threads_def] refl m(3) pos] copy_run_finish [OF m(3) pos, folded mcp_threads_def] exact run
      by (cases r) auto
  qed
qed

theorem mcp_succeeds_witness:
  "\<exists>m k s j. mcp_setup demo_mcp_env demo_sort (Some (Dir_node 493 demo_entries)) [''dst''] [''src'', ''dst'', ''1''] demo_walk = Inr m \<and>
    copy_run False 4096 (Inr (mcp_threads m)) k (Inr s) \<and> copied s \<and> w_tree (m_walk m) [''dst'', ''l''] = Some (DLink ''f'') \<and>
    w_tree (m_walk m) [''dst'', ''f''] = Some (DFile 420 j) \<and> contents (inodes (cs_fs s) j) = contents (file_write empty_file 0 [7, 8])"
proof -
  let ?args = "[''src'', ''dst'', ''1'']" and ?f0 = "\<lambda>_::nat. file_write empty_file 0 [7, 8]"
  have quiet: "quiet demo_mcp_env"
    by (simp add: quiet_def demo_mcp_env_def)
  have inv: "walk_inv 1 ?f0 demo_walk" "w_files demo_walk = []"
    by (auto simp: demo_walk_def walk_inv_def)
  have src: "source_ok 1 demo_entries" "links_fit demo_entries" and fresh: "fresh_destination [''dst''] (hd ?args) demo_walk"
    by (simp_all add: demo_entries_def fresh_destination_def demo_walk_def)
  have "atoi ''1'' = Inr 1"
    by code_simp
  then have args: "args_ok ?args 1 4096"
    by (simp add: args_ok_def)
  have root: "copy_root [''dst''] (hd ?args) demo_walk = [''dst'']"
    by (simp add: copy_root_def demo_walk_def)
  have pos: "0 < (1 :: int)" "0 < (4096 :: u64)"
    by simp_all
  have four: "unat (4096 :: u64) = 4096"
    by simp
  obtain m where m: "mcp_setup demo_mcp_env demo_sort (Some (Dir_node 493 demo_entries)) [''dst''] ?args demo_walk = Inr m" "m_buf_len m = 4096"
    and all: "\<forall>k r. copy_run False (m_buf_len m) (Inr (mcp_threads m)) k r \<longrightarrow>
      k \<le> copy_bound (w_fs (m_walk m)) (m_jobs m) \<and> (case r of Inl e \<Rightarrow> e = Exit 1
       | Inr s \<Rightarrow> (\<exists>k' s'. k \<le> k' \<and> copy_run False (m_buf_len m) (Inr (mcp_threads m)) k' (Inr s') \<and> copied s') \<and>
           (copied s \<longrightarrow> w_tree (m_walk m) [''dst''] = Some (DDir 493) \<and>
             (\<forall>e\<in>set (listing [''dst''] demo_entries). entry_exact ?f0 (w_tree (m_walk m)) (inodes (cs_fs s)) e) \<and>
             (\<forall>i<1. inodes (cs_fs s) i = ?f0 i)))"
    using mcp_succeeds [OF demo_fd_alloc quiet demo_sort_ok inv src fresh args pos, of 493] unfolding root four by (elim exE conjE) (rule that)
  note all' = all [unfolded m(2), rule_format]
  obtain k s where r: "copy_run False 4096 (Inr (mcp_threads m)) k (Inr s)" "copied s"
    using all' [OF copy_run.start] by auto
  have "\<forall>e\<in>set (listing [''dst''] demo_entries). entry_exact ?f0 (w_tree (m_walk m)) (inodes (cs_fs s)) e"
    using all' [OF r(1)] r(2) by simp
  then show ?thesis
    using m(1) r by (auto simp: demo_entries_def entry_exact_def)
qed

end
