(* ===== verification/Spec2Isabelle.thy ===== *)
theory Spec2Isabelle
  imports Hashmap_Qsort Hashmap_Removable Replay_End Mt_Reals Rw_Returns Shuffle_Write Small_Tools Mcp_Total
begin

text \<open>
  Verification of the programs that the evaluation of GogetaFS is run with: the trace replayer
  with its data structures and generators (\<^verbatim>\<open>src/nvm_tools-J/helper/replay.c\<close>, \<^verbatim>\<open>map.c\<close>, \<^verbatim>\<open>lcg.c\<close>,
  \<^verbatim>\<open>mt19937ar.c\<close>), the parallel copy \<^verbatim>\<open>src/mcp/src/main.cpp\<close> and the tools that produce load
  (\<^verbatim>\<open>aging_system.c\<close>, \<^verbatim>\<open>write_1G.c\<close>, \<^verbatim>\<open>rw_interference.cpp\<close>, \<^verbatim>\<open>shuffle_and_write.cpp\<close>,
  \<^verbatim>\<open>exhaust_nvmm.c\<close>, \<^verbatim>\<open>create_files.c\<close>) and evaluate its output (\<^verbatim>\<open>get_sum.c\<close>, \<^verbatim>\<open>to_nsec.cpp\<close>,
  \<^verbatim>\<open>to_MiB_s.cpp\<close>, \<^verbatim>\<open>src/nvm_tools-J/toG.c\<close>). File names without a directory are under
  \<^verbatim>\<open>src/nvm_tools-J/helper\<close>.

  Conventions (\<open>C_Prelude\<close>). Integers are words of their width in C on a 64-bit machine, or \<open>int\<close>
  and \<open>nat\<close> with explicit checks where signed overflow is undefined. A fallible operation
  returns \<open>cerr + 'a\<close>: \<open>Inl\<close> holds an exit code, an undefined access, a division by zero or a loop
  that never leaves. Pointers into arrays are indices; buckets of the hash map live in a heap of
  arrays, keys and records in a memory of bytes. \<open>foldR\<close> is a counting loop. What the operating
  system, \<^verbatim>\<open>rand\<close>, \<^verbatim>\<open>rand_r\<close>, \<^verbatim>\<open>std::sort\<close>, \<^verbatim>\<open>std::random_shuffle\<close> and the caller's comparison function
  decide is an argument of the definitions, and the theorems quantify over it: every system call
  may fail, and every transfer may be shorter than asked for. Allocation succeeds.

  The replayer.
  \<^item> \<open>Lcg\<close>, \<open>Mt19937ar\<close>, \<open>Rand_Gener\<close>: the generators and the wrappers by which \<^verbatim>\<open>replay.c\<close> chooses
    one. The Mersenne Twister is shown equal to the published recurrence on 32-bit words, the
    linear congruential generator has full period. The locale \<open>seeded_rng\<close> is what the filling
    of blocks relies on. \<open>Doubles\<close> models rounding to 53 bits and \<open>Mt_Reals\<close> the floating-point
    outputs, with the exact intervals.
  \<^item> \<open>Hash_Data\<close>, \<open>Hashmap\<close>, \<open>Hashmap_Correct\<close>, \<open>Hashmap_Sort\<close>, \<open>Hashmap_Qsort\<close>, \<open>Hashmap_Removable\<close>: \<^verbatim>\<open>map.c\<close>. The invariant ties the
    probe sequences to the list through the buckets; every operation refines an association list
    in insertion order (the contract is the locale \<open>ordered_map\<close> of \<open>Ordered_Map\<close>), through all
    resizes, as long as the table has fewer than \<open>2 ^ 31\<close> slots. \<^verbatim>\<open>hashmap_sort\<close> is shown to permute
    the list, and to break lookups and later insertions; \<^verbatim>\<open>_hashmap_qsort\<close>, which no program calls,
    sorts it. The variant with \<^verbatim>\<open>__HASHMAP_REMOVABLE\<close> has definitions of its own, with names in \<open>r_\<close>:
    its tombstones count as occupied buckets of a table without removal, and any sequence of
    insertions and removals does what it does to an association list.
  \<^item> \<open>Trace_Container\<close>, \<open>Trace_Build\<close>: containers of records (growing arrays, locale \<open>growable\<close>), the
    merge sort and the quicksort by time, and \<^verbatim>\<open>build_trace_containers\<close>, which files every record
    under its address.
  \<^item> \<open>Assign\<close>, \<open>Distribute\<close>, \<open>Hints\<close>, \<open>Assign_Correct\<close>: \<^verbatim>\<open>assign_params_per_worker\<close>: which worker gets
    which container, for every random sequence, and the runs of consecutive blocks.
  \<^item> \<open>Fill_Blk\<close>, \<open>Decimal\<close>, \<open>Posix_File\<close>: contents of blocks, file names, files and system calls.
  \<^item> \<open>Replay_Worker\<close>, \<open>Worker_Correct\<close>, \<open>Replay_Threads\<close>, \<open>Replay_All\<close>: \<^verbatim>\<open>replay_worker\<close> in its three
    modes refines the effect of its records one by one; all interleavings of the threads end, and
    with the same files; the last write of every address is on disk.
  \<^item> \<open>Parse\<close>, \<open>Parse_Correct\<close>, \<open>Replay_Main\<close>, \<open>Replay_End\<close>: \<^verbatim>\<open>parse_trace_info\<close> for both formats with
    round trips, the options, the checks of \<^verbatim>\<open>main\<close> and the program from its arguments to the files
    it leaves; at the end everything is freed exactly once, and what the report says.

  The parallel copy.
  \<^item> \<open>Job_Queue\<close>, \<open>Job_Queue_Correct\<close>: the assignment of files to threads through a priority queue
    (locale \<open>min_queue\<close>); no thread gets more than one and a half times the load of the busiest
    thread of any other assignment.
  \<^item> \<open>Copy_Threads\<close>, \<open>Copy_Correct\<close>, \<open>Copy_Runs\<close>: \<^verbatim>\<open>cp_func\<close> and \<^verbatim>\<open>writen\<close>, one system call a step, in all
    interleavings: contents are copied, and runs end if writes make progress.
  \<^item> \<open>Cp_Dir\<close>, \<open>Cp_Dir_Correct\<close>, \<open>Mcp_Main\<close>, \<open>Mcp_Correct\<close>, \<open>Mcp_Total\<close>: the recursion over directories,
    the root directories and \<^verbatim>\<open>main\<close>; a normal end means a complete copy, and when no call fails the
    program does end, with an exact copy.

  The tools.
  \<^item> \<open>Page_Writer\<close>, \<open>Aging\<close>, \<open>Aging_Correct\<close>: pages that all differ, the three phases of
    \<^verbatim>\<open>aging_system\<close>, and \<^verbatim>\<open>write_1G\<close>.
  \<^item> \<open>Rw_Interference\<close>, \<open>Rw_Correct\<close>, \<open>Rw_Run\<close>, \<open>Rw_Returns\<close>: \<^verbatim>\<open>rw_interference\<close>: tasks whose blocks are
    repeated or new, the two stages, and the threads with joins and cancellations as a step
    relation, whose runs all end.
  \<^item> \<open>Shuffle_Write\<close>, \<open>Small_Tools\<close>: \<^verbatim>\<open>shuffle_and_write\<close>, \<^verbatim>\<open>exhaust_nvmm\<close>, \<^verbatim>\<open>create_files\<close>.
  \<^item> \<open>Units\<close>: the filters \<^verbatim>\<open>get_sum\<close>, \<^verbatim>\<open>toG\<close>, \<^verbatim>\<open>to_nsec\<close> and \<^verbatim>\<open>to_MiB_s\<close> on text, with division of doubles
    and the output of \<^verbatim>\<open>%f\<close> and \<^verbatim>\<open>cout\<close>: which results are exact, and what happens on other input.

  Bounds on loops. Loops that end are recursive functions with a measure. Searches in the hash
  table and walks along its list take the capacity as a bound, since the table has no more
  buckets; the theorems show that the bound is never reached on well-formed maps, for the sort
  with any comparison function. Loops that need not end take a number of rounds, and \<open>Diverges\<close>
  stands for more: for phase 2 of \<^verbatim>\<open>aging_system\<close> and for \<^verbatim>\<open>exhaust_nvmm\<close> it is proved when they end
  and after how many rounds, for long symbolic links that no number is enough. The loops of
  \<^verbatim>\<open>get_sum\<close> and \<^verbatim>\<open>toG\<close> are partial functions, whose result is \<open>None\<close> when they go on for ever.

  Not modelled. Messages on the way, usage texts, times, and the bandwidths that the tools other
  than the replayer print. Signs, exponents and infinities in the input of the filters. Memory
  that runs out. Reordering of memory accesses between threads plays no part: threads share only
  files and, in \<^verbatim>\<open>rw_interference\<close>, counters that are read after a join.
\<close>

end
